(* ===== verification/Tz_Prelude.thy ===== *)
theory Tz_Prelude
  imports
    Main
    "HOL-Library.Word"
    "HOL-Library.Multiset"
    "HOL-Library.List_Lexorder"
    "HOL-Library.Product_Lexorder"
begin

text \<open>
  Shared material of the development: the machine integers of the Rust code as natural
  numbers with their range written out, byte strings, results, and the list, sum and division
  lemmas that several components use.

  An unsigned integer of the source (\<open>u16\<close>, \<open>u32\<close>, \<open>u64\<close>, \<open>u128\<close>,
  \<open>usize\<close>) is a \<^typ>\<open>nat\<close>; a signed one is an \<^typ>\<open>int\<close>. The operations
  whose behaviour at the end of the range matters are the functions below
  (\<open>checked_add\<close>, \<open>sat_add\<close>, \<open>sat_mul\<close> and so on, each with the width
  of its type as first argument). Where the source adds or multiplies without a check, the
  model uses the unbounded operation; the components bound the sums of seats, weights and credits,
  while counters that grow by one at a time (rounds, heights, indices, epochs) are taken as unbounded.
\<close>

unbundle bit_operations_syntax

named_theorems committee_simps \<open>thresholds of a committee\<close>
named_theorems rust_arith \<open>definitions of the fixed-width operations\<close>

type_synonym u8 = "8 word"
type_synonym bytes = "u8 list"
type_synonym digest = bytes
type_synonym address = bytes
type_synonym validator_index = nat
type_synonym round = nat
type_synonym ('e, 'a) result = "'e + 'a"

section \<open>Fixed-width integers\<close>

definition uint_max :: "nat \<Rightarrow> nat" where
  "uint_max w = 2 ^ w - 1"

definition checked_add :: "nat \<Rightarrow> nat \<Rightarrow> nat \<Rightarrow> nat option" where
  "checked_add w a b = (if a + b \<le> uint_max w then Some (a + b) else None)"

definition checked_sub :: "nat \<Rightarrow> nat \<Rightarrow> nat option" where
  "checked_sub a b = (if b \<le> a then Some (a - b) else None)"

definition sat_add :: "nat \<Rightarrow> nat \<Rightarrow> nat \<Rightarrow> nat" where
  "sat_add w a b = min (a + b) (uint_max w)"

definition sat_mul :: "nat \<Rightarrow> nat \<Rightarrow> nat \<Rightarrow> nat" where
  "sat_mul w a b = min (a * b) (uint_max w)"

definition sat_sub :: "nat \<Rightarrow> nat \<Rightarrow> nat" where
  "sat_sub a b = (if b \<le> a then a - b else 0)"

definition div_ceil :: "nat \<Rightarrow> nat \<Rightarrow> nat" where
  "div_ceil a b = (if a mod b = 0 then a div b else a div b + 1)"

lemmas [rust_arith] = checked_add_def checked_sub_def sat_add_def sat_mul_def uint_max_def

lemma sat_sub_eq [simp]: "sat_sub a b = a - b"
  by (simp add: sat_sub_def)

lemma checked_add_Some_iff:
  "checked_add w a b = Some c \<longleftrightarrow> c = a + b \<and> a + b \<le> uint_max w"
  by (auto simp: checked_add_def)

lemma checked_sub_Some_iff: "checked_sub a b = Some c \<longleftrightarrow> b \<le> a \<and> c = a - b"
  by (auto simp: checked_sub_def)

lemma sat_add_id: "a + b \<le> uint_max w \<Longrightarrow> sat_add w a b = a + b"
  by (simp add: sat_add_def)

lemma sat_add_le: "sat_add w a b \<le> a + b"
  by (simp add: sat_add_def)

lemma div_ceil_2: "div_ceil a 2 = (a + 1) div 2"
  unfolding div_ceil_def by presburger

lemma div_ceil_2_le: "a \<le> 2 * div_ceil a 2"
  by (simp add: div_ceil_2)

section \<open>Quotient and remainder decompositions\<close>

text \<open>
  The code never multiplies two amounts: it computes \<open>a / d * b + a % d * b / d\<close> where the
  specification is \<open>a * b / d\<close>. Both are equal.
\<close>

lemma quot_rem_mult_div:
  fixes a b d :: nat
  shows "a div d * b + a mod d * b div d = a * b div d"
proof (cases "d = 0")
  case False
  have "a * b = (a div d * b) * d + a mod d * b"
    by (metis add_mult_distrib div_mult_mod_eq mult.assoc mult.commute)
  then have "a * b div d = ((a div d * b) * d + a mod d * b) div d"
    by simp
  also have "\<dots> = a div d * b + a mod d * b div d"
    using False by simp
  finally show ?thesis by simp
qed simp

lemma div_prefix: "(l::nat) < K \<Longrightarrow> (h * K + l) div K = h"
  and mod_prefix: "l < K \<Longrightarrow> (h * K + l) mod K = l"
  by simp_all

lemma mult_div_le_self:
  fixes a b d :: nat
  assumes "b \<le> d" "0 < d"
  shows "a * b div d \<le> a"
  using assms by (metis div_le_mono div_mult_self_is_m mult_le_mono2)

lemma sum_list_mult_div_le:
  fixes d :: nat and ws :: "nat list"
  assumes "sum_list ws \<le> d"
  shows "(\<Sum>w\<leftarrow>ws. a * w div d) \<le> a"
proof (cases "d = 0")
  case False
  have "(\<Sum>w\<leftarrow>ws. a * w div d) \<le> a * sum_list ws div d"
  proof (induction ws)
    case (Cons w ws)
    have "a * w div d + a * sum_list ws div d \<le> (a * w + a * sum_list ws) div d"
      using div_add1_eq [of "a * w" "a * sum_list ws" d] by linarith
    with Cons.IH show ?case by (simp add: distrib_left)
  qed simp
  also have "\<dots> \<le> a"
    using assms False by (simp add: mult_div_le_self)
  finally show ?thesis .
qed (induction ws; simp)

lemma sum_list_mult_div_ge:
  fixes d :: nat and ws :: "nat list"
  assumes "0 < d"
  shows "a * sum_list ws \<le> d * (\<Sum>w\<leftarrow>ws. a * w div d) + length ws * d"
proof (induction ws)
  case (Cons w ws)
  have "a * w \<le> d * (a * w div d) + d"
    using assms by (metis add_left_mono mod_less_divisor mult_div_mod_eq less_imp_le)
  with Cons.IH show ?case by (simp add: distrib_left)
qed simp

lemma sum_list_mult_div_ge_whole:
  fixes d :: nat and ws :: "nat list"
  assumes "0 < d" "sum_list ws = d"
  shows "a \<le> (\<Sum>w\<leftarrow>ws. a * w div d) + length ws"
proof -
  have "a * d \<le> ((\<Sum>w\<leftarrow>ws. a * w div d) + length ws) * d"
    using sum_list_mult_div_ge [OF assms(1), of a ws] assms(2) by (simp add: algebra_simps)
  then show ?thesis using assms(1) by simp
qed

section \<open>Lists\<close>

lemma sum_list_map_le:
  fixes f g :: "'a \<Rightarrow> nat"
  assumes "\<And>x. x \<in> set xs \<Longrightarrow> f x \<le> g x"
  shows "sum_list (map f xs) \<le> sum_list (map g xs)"
  using assms by (induction xs) (auto simp: add_le_mono)

lemma sum_list_distinct_le_sum:
  fixes f :: "'a \<Rightarrow> nat"
  assumes "finite A" "set xs \<subseteq> A" "distinct xs"
  shows "sum_list (map f xs) \<le> sum f A"
  using assms by (simp add: sum_list_distinct_conv_sum_set sum_mono2)

lemma sum_nth_list: "(\<Sum>i<length xs. f (xs ! i)) = sum_list (map f xs)"
  by (simp add: sum_list_sum_nth atLeast0LessThan)

text \<open>Writing a value at each index of a permutation rearranges the values written.\<close>

fun assign_all :: "'a list \<Rightarrow> (nat \<times> 'a) list \<Rightarrow> 'a list" where
  "assign_all xs [] = xs"
| "assign_all xs ((i, v) # ivs) = assign_all (xs[i := v]) ivs"

lemma length_assign_all [simp]: "length (assign_all xs ivs) = length xs"
  by (induction xs ivs rule: assign_all.induct) auto

lemma nth_assign_all_other:
  "i \<notin> fst ` set ivs \<Longrightarrow> assign_all xs ivs ! i = xs ! i"
  by (induction xs ivs rule: assign_all.induct) auto

lemma nth_assign_all:
  assumes "distinct (map fst ivs)" "(i, v) \<in> set ivs" "i < length xs"
  shows "assign_all xs ivs ! i = v"
  using assms
proof (induction xs ivs rule: assign_all.induct)
  case (2 xs j u ivs)
  show ?case
  proof (cases "(i, v) = (j, u)")
    case True
    with 2 show ?thesis using nth_assign_all_other [of i ivs "xs[j := u]"] by force
  next
    case False
    with 2 show ?thesis by auto
  qed
qed simp

lemma assign_all_permutation:
  assumes "distinct (map fst ivs)" "set (map fst ivs) = {..<length xs}"
  shows "mset (assign_all xs ivs) = mset (map snd ivs)"
proof -
  have idx: "mset (map fst ivs) = mset [0..<length xs]"
    using assms by (subst set_eq_iff_mset_eq_distinct [symmetric]) (auto simp: lessThan_atLeast0)
  have "assign_all xs ivs = map ((!) (assign_all xs ivs)) [0..<length xs]"
    by (metis length_assign_all map_nth)
  then have "mset (assign_all xs ivs) = image_mset ((!) (assign_all xs ivs)) (mset [0..<length xs])"
    by (metis mset_map)
  also have "\<dots> = mset (map (\<lambda>p. assign_all xs ivs ! fst p) ivs)"
    unfolding idx [symmetric] by (simp add: image_mset.compositionality comp_def flip: mset_map)
  also have "map (\<lambda>p. assign_all xs ivs ! fst p) ivs = map snd ivs"
  proof (rule map_cong)
    fix p assume p: "p \<in> set ivs"
    then have "fst p < length xs" using assms(2) by force
    with p show "assign_all xs ivs ! fst p = snd p"
      using nth_assign_all [OF assms(1), of "fst p" "snd p" xs] by simp
  qed simp
  finally show ?thesis .
qed

text \<open>A chain of guarded early returns ends well exactly when every guard is passed.\<close>

lemma guard_Inr: "(if P then Inl e else X) = Inr y \<longleftrightarrow> \<not> P \<and> X = Inr y"
  by simp

lemma case_result_Inr: "(case x of Inl e \<Rightarrow> Inl e | Inr y \<Rightarrow> f y) = Inr z \<longleftrightarrow> (\<exists>y. x = Inr y \<and> f y = Inr z)"
  by (cases x) auto

section \<open>Association lists as hash maps\<close>

text \<open>
  A hash map the source iterates over is an association list with distinct keys; \<open>map_of\<close> reads it.
\<close>

definition al_put :: "'k \<Rightarrow> 'v \<Rightarrow> ('k \<times> 'v) list \<Rightarrow> ('k \<times> 'v) list" where
  "al_put k v xs = (k, v) # filter (\<lambda>p. fst p \<noteq> k) xs"

definition al_del :: "'k \<Rightarrow> ('k \<times> 'v) list \<Rightarrow> ('k \<times> 'v) list" where
  "al_del k xs = filter (\<lambda>p. fst p \<noteq> k) xs"

lemma map_of_filter_key: "map_of (filter (\<lambda>p. P (fst p)) xs) k = (if P k then map_of xs k else None)"
  by (induction xs) auto

lemma map_of_al_put [simp]: "map_of (al_put k v xs) = (map_of xs)(k \<mapsto> v)"
  by (rule ext) (simp add: al_put_def map_of_filter_key [where P = "\<lambda>x. x \<noteq> k"])

lemma map_of_al_del [simp]: "map_of (al_del k xs) = (map_of xs)(k := None)"
  by (rule ext) (simp add: al_del_def map_of_filter_key [where P = "\<lambda>x. x \<noteq> k"])

lemma distinct_al_put [simp]: "distinct (map fst xs) \<Longrightarrow> distinct (map fst (al_put k v xs))"
  by (auto simp: al_put_def distinct_map_filter)

lemma distinct_al_del [simp]: "distinct (map fst xs) \<Longrightarrow> distinct (map fst (al_del k xs))"
  by (simp add: al_del_def distinct_map_filter)

lemma length_al_del: "length (al_del k xs) \<le> length xs" "k \<in> fst ` set xs \<Longrightarrow> length (al_del k xs) < length xs"
  by (auto simp: al_del_def length_filter_less)

lemma set_al_del: "p \<in> set (al_del k xs) \<longleftrightarrow> p \<in> set xs \<and> fst p \<noteq> k"
  by (simp add: al_del_def)

lemma set_al_put: "p \<in> set (al_put k v xs) \<longleftrightarrow> p = (k, v) \<or> p \<in> set xs \<and> fst p \<noteq> k"
  by (auto simp: al_put_def)

section \<open>Bytes\<close>

definition ascii_bytes :: "string \<Rightarrow> bytes" where
  "ascii_bytes s = map (\<lambda>c. of_nat (of_char c)) s"

text \<open>Big-endian bytes of a number, and back: \<open>to_be_bytes\<close> and \<open>from_be_bytes\<close>.\<close>

primrec to_be :: "nat \<Rightarrow> nat \<Rightarrow> bytes" where
  "to_be 0 n = []"
| "to_be (Suc k) n = to_be k (n div 256) @ [of_nat (n mod 256)]"

definition from_be :: "bytes \<Rightarrow> nat" where
  "from_be = foldl (\<lambda>n b. n * 256 + unat b) 0"

lemma length_to_be [simp]: "length (to_be k n) = k"
  by (induction k arbitrary: n) simp_all

lemma from_be_snoc: "from_be (bs @ [b]) = from_be bs * 256 + unat b"
  by (simp add: from_be_def)

lemma from_to_be: "n < 256 ^ k \<Longrightarrow> from_be (to_be k n) = n"
proof (induction k arbitrary: n)
  case 0
  then show ?case by (simp add: from_be_def)
next
  case (Suc k)
  have "n div 256 < 256 ^ k" using Suc.prems by (simp add: less_mult_imp_div_less mult.commute)
  moreover have "unat (of_nat (n mod 256) :: u8) = n mod 256" by (simp add: unat_of_nat)
  ultimately show ?case using Suc.IH by (simp add: from_be_snoc)
qed

lemma to_from_be: "length bs = k \<Longrightarrow> to_be k (from_be bs) = bs"
proof (induction bs arbitrary: k rule: rev_induct)
  case (snoc b bs)
  then obtain j where k: "k = Suc j" "length bs = j" by (cases k) auto
  have "unat b < 256" using unsigned_less [of b] by simp
  then show ?case using snoc.IH [OF k(2)] k by (simp add: from_be_snoc)
qed simp

lemma from_be_less: "from_be bs < 256 ^ length bs"
proof (induction bs rule: rev_induct)
  case (snoc b bs)
  have "unat b < 256" using unsigned_less [of b] by simp
  then show ?case using snoc.IH by (simp add: from_be_snoc)
qed (simp add: from_be_def)

text \<open>A slice cut into runs of \<open>n\<close>, the last one shorter: \<open>chunks\<close>.\<close>

fun chunks :: "nat \<Rightarrow> 'a list \<Rightarrow> 'a list list" where
  "chunks n xs = (if n = 0 \<or> xs = [] then [] else take n xs # chunks n (drop n xs))"

declare chunks.simps [simp del]

lemma chunks_Nil [simp]: "chunks n [] = []"
  by (simp add: chunks.simps)

lemma concat_chunks: "0 < n \<Longrightarrow> concat (chunks n xs) = xs"
proof (induction n xs rule: chunks.induct)
  case (1 n xs)
  then show ?case by (cases "xs = []") (simp_all add: chunks.simps [of n xs])
qed

lemma chunks_sizes: "0 < n \<Longrightarrow> ys \<in> set (chunks n xs) \<Longrightarrow> ys \<noteq> [] \<and> length ys \<le> n"
proof (induction n xs rule: chunks.induct)
  case (1 n xs)
  then show ?case by (cases "xs = []") (auto simp: chunks.simps [of n xs])
qed

lemma chunks_concat:
  "0 < n \<Longrightarrow> \<forall>w \<in> set ws. length w = n \<Longrightarrow> chunks n (concat ws) = ws"
proof (induction ws)
  case (Cons w ws)
  then have "w @ concat ws \<noteq> []" by auto
  with Cons show ?case by (simp add: chunks.simps [of n "w @ concat ws"])
qed simp

lemma chunks_exact:
  "0 < n \<Longrightarrow> length xs = k * n \<Longrightarrow> length (chunks n xs) = k \<and> (\<forall>w \<in> set (chunks n xs). length w = n)"
proof (induction k arbitrary: xs)
  case (Suc k)
  have "xs \<noteq> []" using Suc.prems by auto
  then have step: "chunks n xs = take n xs # chunks n (drop n xs)"
    using Suc.prems(1) by (subst chunks.simps) simp
  have rest: "length (drop n xs) = k * n" and first: "length (take n xs) = n" using Suc.prems(2) by simp_all
  show ?case unfolding step using Suc.IH [OF Suc.prems(1) rest] first by simp
qed simp

section \<open>Printing\<close>

fun dec :: "nat \<Rightarrow> string" where
  "dec n = (if n < 10 then [char_of (48 + n)] else dec (n div 10) @ [char_of (48 + n mod 10)])"

declare dec.simps [simp del]

end
