(* ===== verification/Validator_Set.thy ===== *)
theory Validator_Set
  imports Tz_Prelude
begin

text \<open>
  The validators of one epoch and their voting weights
  (\<^verbatim>\<open>crates/tenzro-consensus/src/validator.rs\<close>): the 256-bit product and the long
  division the weights are computed with, and the water-filling that caps one validator's
  weight at a tenth of the total. The theorems state that the product and the division are the
  mathematical ones, that no weight passes the cap and that the weights add up to the total
  stake less the rounding.
\<close>

section \<open>Validators\<close>

record validator_public_key =
  ml_dsa :: bytes
  p256 :: bytes

datatype validator_status = Active | Inactive | Jailed | Unbonding

record validator_info =
  vi_address :: address
  vi_public_key :: validator_public_key
  vi_node_key :: bytes
  vi_stake :: nat
  vi_status :: validator_status
  vi_registered_at :: int

definition is_active :: "validator_info \<Rightarrow> bool" where
  "is_active v \<longleftrightarrow> vi_status v = Active"

definition voting_power :: "validator_info \<Rightarrow> nat" where
  "voting_power v = (if is_active v then vi_stake v else 0)"

record validator_set =
  vs_epoch :: nat
  vs_validators :: "validator_info list"
  vs_total_stake :: nat

definition MAX_VALIDATOR_WEIGHT_BPS :: nat where
  "MAX_VALIDATOR_WEIGHT_BPS = 1000"

section \<open>Wide multiplication and division\<close>

definition wide_mul :: "nat \<Rightarrow> nat \<Rightarrow> nat \<times> nat" where
  "wide_mul a b =
     (let a1 = a div 2 ^ 64; a0 = a mod 2 ^ 64;
          b1 = b div 2 ^ 64; b0 = b mod 2 ^ 64;
          lo = a0 * b0;
          mid1 = a0 * b1;
          mid2 = a1 * b0;
          hi = a1 * b1;
          mid = (mid1 + mid2) mod 2 ^ 128;
          mid_carry = (if mid1 + mid2 < 2 ^ 128 then 0 else 1);
          shifted = mid * 2 ^ 64 mod 2 ^ 128;
          low = (lo + shifted) mod 2 ^ 128;
          low_carry = (if lo + shifted < 2 ^ 128 then 0 else 1);
          high = hi + mid div 2 ^ 64 + mid_carry * 2 ^ 64 + low_carry
      in (high, low))"

primrec mul_div_loop :: "nat \<Rightarrow> nat \<Rightarrow> nat \<Rightarrow> nat \<Rightarrow> nat \<Rightarrow> nat \<Rightarrow> nat" where
  "mul_div_loop 0 high low c rem q = q"
| "mul_div_loop (Suc i) high low c rem q =
     (let bit = (if 128 \<le> i then high div 2 ^ (i - 128) mod 2 else low div 2 ^ i mod 2);
          carry = rem div 2 ^ 127;
          rem1 = rem * 2 mod 2 ^ 128 + bit;
          q1 = q * 2 mod 2 ^ 128
      in if carry = 1 \<or> c \<le> rem1
         then mul_div_loop i high low c ((rem1 + 2 ^ 128 - c) mod 2 ^ 128) (q1 + 1)
         else mul_div_loop i high low c rem1 q1)"

definition mul_div :: "nat \<Rightarrow> nat \<Rightarrow> nat \<Rightarrow> nat" where
  "mul_div a b c = (let (high, low) = wide_mul a b in mul_div_loop 256 high low c 0 0)"

lemma carry_split:
  fixes x m :: nat
  assumes "x < 2 * m"
  shows "x = (if x < m then 0 else 1) * m + x mod m"
  using assms by (auto simp: mod_if)

lemma wide_mul_base:
  fixes B a1 a0 b1 b0 :: nat
  assumes lt: "a0 < B" "b0 < B" "a1 < B" "b1 < B"
  defines "M \<equiv> a0 * b1 + a1 * b0"
  defines "s \<equiv> M mod (B * B) * B mod (B * B)"
  defines "low \<equiv> (a0 * b0 + s) mod (B * B)"
  shows "(a1 * b1 + M mod (B * B) div B + (if M < B * B then 0 else 1) * B
            + (if a0 * b0 + s < B * B then 0 else 1)) * (B * B) + low
         = (a1 * B + a0) * (b1 * B + b0)"
proof -
  define mid where "mid = M mod (B * B)"
  define mc :: nat where "mc = (if M < B * B then 0 else 1)"
  define lc :: nat where "lc = (if a0 * b0 + s < B * B then 0 else 1)"
  have pos: "0 < B" using lt by simp
  have "a0 * b1 < B * B" "a1 * b0 < B * B" "a0 * b0 < B * B"
    using lt by (simp_all add: mult_strict_mono)
  moreover have "s < B * B" using pos by (simp add: s_def)
  ultimately have "M < 2 * (B * B)" and sum2: "a0 * b0 + s < 2 * (B * B)"
    unfolding M_def by linarith+
  then have M: "M = mc * (B * B) + mid"
    unfolding mid_def mc_def using carry_split by blast
  have low: "a0 * b0 + s = lc * (B * B) + low"
    unfolding low_def lc_def using sum2 carry_split by blast
  have "s = mid mod B * B"
    unfolding s_def mid_def using pos by (simp add: mult_mod_left)
  then have s: "mid * B = mid div B * (B * B) + s"
    by (metis div_mult_mod_eq add_mult_distrib mult.assoc)
  have "(a1 * B + a0) * (b1 * B + b0) = a1 * b1 * (B * B) + M * B + a0 * b0"
    unfolding M_def by (simp add: algebra_simps)
  also have "M * B = mc * B * (B * B) + mid * B"
    by (subst M) (simp add: algebra_simps)
  finally have "(a1 * B + a0) * (b1 * B + b0)
      = a1 * b1 * (B * B) + mc * B * (B * B) + mid div B * (B * B) + (a0 * b0 + s)"
    using s by simp
  also have "\<dots> = (a1 * b1 + mid div B + mc * B + lc) * (B * B) + low"
    unfolding low by (simp add: algebra_simps)
  finally show ?thesis
    unfolding mid_def mc_def lc_def by simp
qed

lemma two_pow_128: "(2::nat) ^ 128 = 2 ^ 64 * 2 ^ 64"
  by simp

lemma wide_mul_value:
  assumes "wide_mul a b = (high, low)" "a < 2 ^ 128" "b < 2 ^ 128"
  shows "high * 2 ^ 128 + low = a * b" and "low < 2 ^ 128"
proof -
  define B :: nat where "B = 2 ^ 64"
  have lt: "a mod B < B" "b mod B < B" "a div B < B" "b div B < B"
    using assms(2,3) by (simp_all add: B_def less_mult_imp_div_less)
  have low: "low = (a mod B * (b mod B)
      + (a mod B * (b div B) + a div B * (b mod B)) mod (B * B) * B mod (B * B)) mod (B * B)"
    using assms(1) by (simp only: wide_mul_def Let_def prod.inject two_pow_128 B_def [symmetric])
  have high: "high = a div B * (b div B)
      + (a mod B * (b div B) + a div B * (b mod B)) mod (B * B) div B
      + (if a mod B * (b div B) + a div B * (b mod B) < B * B then 0 else 1) * B
      + (if a mod B * (b mod B)
           + (a mod B * (b div B) + a div B * (b mod B)) mod (B * B) * B mod (B * B) < B * B
         then 0 else 1)"
    using assms(1) by (simp only: wide_mul_def Let_def prod.inject two_pow_128 B_def [symmetric])
  show "high * 2 ^ 128 + low = a * b"
    using wide_mul_base [OF lt] low high
    by (simp only: two_pow_128 B_def [symmetric] div_mult_mod_eq)
  have "0 < B * B" by (simp add: B_def)
  then show "low < 2 ^ 128"
    unfolding low two_pow_128 B_def [symmetric] by (rule mod_less_divisor)
qed

lemma wide_mul_le_iff:
  assumes "a < 2 ^ 128" "b < 2 ^ 128" "c < 2 ^ 128" "d < 2 ^ 128"
  shows "wide_mul a b \<le> wide_mul c d \<longleftrightarrow> a * b \<le> c * d"
proof -
  obtain h l where ab: "wide_mul a b = (h, l)" by fastforce
  obtain h' l' where cd: "wide_mul c d = (h', l')" by fastforce
  note ab_val = wide_mul_value [OF ab assms(1,2)] and cd_val = wide_mul_value [OF cd assms(3,4)]
  define K :: nat where "K = 2 ^ 128"
  have "h * K + l \<le> h' * K + l' \<longleftrightarrow> h < h' \<or> h = h' \<and> l \<le> l'" if "l < K" "l' < K" for K
  proof (cases h h' rule: linorder_cases)
    case less
    then have "Suc h * K \<le> h' * K" by (intro mult_le_mono1) simp
    with less that show ?thesis by auto
  next
    case greater
    then have "Suc h' * K \<le> h * K" by (intro mult_le_mono1) simp
    with greater that show ?thesis by auto
  qed auto
  from this [OF ab_val(2) cd_val(2)] show ?thesis
    unfolding ab cd ab_val(1) cd_val(1) by (auto simp: less_le)
qed

lemma product_bit:
  fixes high low :: nat
  assumes "low < 2 ^ 128"
  shows "(if 128 \<le> i then high div 2 ^ (i - 128) mod 2 else low div 2 ^ i mod 2)
         = (high * 2 ^ 128 + low) div 2 ^ i mod 2"
proof (cases "128 \<le> i")
  case True
  then have "(2::nat) ^ i = 2 ^ 128 * 2 ^ (i - 128)"
    by (metis le_add_diff_inverse power_add)
  then have "(high * 2 ^ 128 + low) div 2 ^ i = (high * 2 ^ 128 + low) div 2 ^ 128 div 2 ^ (i - 128)"
    by (simp only: div_mult2_eq)
  also have "(high * 2 ^ 128 + low) div 2 ^ 128 = high"
    using assms by (rule div_prefix)
  finally show ?thesis using True by simp
next
  case False
  define j where "j = 127 - i"
  have "(128::nat) = i + Suc j" using False by (simp add: j_def)
  then have "(2::nat) ^ 128 = 2 ^ (i + Suc j)" by (rule arg_cong)
  also have "\<dots> = 2 * 2 ^ j * 2 ^ i" by (simp add: power_add)
  finally have pow: "(2::nat) ^ 128 = 2 * 2 ^ j * 2 ^ i" .
  have "(high * 2 ^ 128 + low) div 2 ^ i = ((2 * (high * 2 ^ j)) * 2 ^ i + low) div 2 ^ i"
    unfolding pow by (simp add: algebra_simps)
  also have "\<dots> = 2 * (high * 2 ^ j) + low div 2 ^ i"
    by (subst div_mult_self3) simp_all
  finally show ?thesis using False by simp
qed

lemma long_division_step:
  fixes X c H b :: nat
  assumes c: "0 < c" "c < 2 * H" and b: "b < 2"
  defines "rem \<equiv> X mod c" and "q \<equiv> X div c mod (2 * H)"
  defines "rem1 \<equiv> rem * 2 mod (2 * H) + b" and "q1 \<equiv> q * 2 mod (2 * H)"
  shows "(rem div H = 1 \<or> c \<le> rem1) \<Longrightarrow>
           (rem1 + 2 * H - c) mod (2 * H) = (2 * X + b) mod c
           \<and> q1 + 1 = (2 * X + b) div c mod (2 * H)" (is "?take \<Longrightarrow> ?T")
    and "\<not> (rem div H = 1 \<or> c \<le> rem1) \<Longrightarrow>
           rem1 = (2 * X + b) mod c \<and> q1 = (2 * X + b) div c mod (2 * H)" (is "_ \<Longrightarrow> ?F")
proof -
  define R where "R = 2 * rem + b"
  have H: "0 < H" using c by simp
  have rem: "rem < c" using c by (simp add: rem_def)
  have Y: "2 * X + b = 2 * (X div c) * c + R"
  proof -
    have "X = X div c * c + rem" by (simp add: rem_def)
    then show ?thesis unfolding R_def by (metis (no_types) add.assoc distrib_left mult.assoc)
  qed
  have R2: "R < 2 * c" using rem b by (simp add: R_def)
  have q1: "q1 = 2 * (X div c) mod (2 * H)"
    by (simp add: q1_def q_def mult.commute mod_mult_right_eq)
  have rem_cases: "rem < H \<and> rem1 = R \<or> H \<le> rem \<and> rem1 + 2 * H = R \<and> rem div H = 1"
  proof (cases "rem < H")
    case True
    then show ?thesis by (simp add: rem1_def R_def)
  next
    case False
    moreover have "rem < 2 * H" using rem c by simp
    ultimately have "rem div H = 1" "rem * 2 mod (2 * H) + 2 * H = rem * 2"
      by (simp_all add: div_nat_eqI le_mod_geq)
    with False show ?thesis by (simp add: rem1_def R_def)
  qed
  have q_odd: "2 * (X div c) mod (2 * H) + 1 = (2 * (X div c) + 1) mod (2 * H)"
    using H by (simp add: mod_Suc) (metis double_not_eq_Suc_double)
  {
    assume ?take
    then have "c \<le> R" using rem_cases rem c by auto
    then have Yc: "2 * X + b = (2 * (X div c) + 1) * c + (R - c)" "R - c < c"
      using Y R2 by simp_all
    then have "(2 * X + b) div c = 2 * (X div c) + 1" "(2 * X + b) mod c = R - c"
      by (simp_all only: div_prefix mod_prefix)
    moreover have "(rem1 + 2 * H - c) mod (2 * H) = R - c"
      using rem_cases \<open>c \<le> R\<close> \<open>R - c < c\<close> c by (auto simp: le_mod_geq)
    ultimately show ?T using q1 q_odd by simp
  next
    assume "\<not> ?take"
    then have "R < c" "rem1 = R" using rem_cases by auto
    then have "(2 * X + b) div c = 2 * (X div c)" "(2 * X + b) mod c = R"
      using Y by simp_all
    then show ?F using q1 \<open>rem1 = R\<close> by simp
  }
qed

lemma mul_div_loop_value:
  fixes high low c :: nat
  defines "N \<equiv> high * 2 ^ 128 + low"
  assumes "low < 2 ^ 128" "0 < c" "c < 2 ^ 128"
  shows "mul_div_loop i high low c (N div 2 ^ i mod c) (N div 2 ^ i div c mod 2 ^ 128)
         = N div c mod 2 ^ 128"
proof (induction i)
  case (Suc i)
  define X where "X = N div 2 ^ Suc i"
  define b where "b = N div 2 ^ i mod 2"
  define H :: nat where "H = 2 ^ 127"
  have K: "(2::nat) ^ 128 = 2 * H" by (simp add: H_def)
  have X: "N div 2 ^ i = 2 * X + b"
    by (simp add: X_def b_def power_Suc2 div_mult2_eq del: power_Suc)
  have bit: "(if 128 \<le> i then high div 2 ^ (i - 128) mod 2 else low div 2 ^ i mod 2) = b"
    unfolding b_def N_def using assms(2) by (rule product_bit)
  note step = long_division_step [of c H b X]
  have b2: "b < 2" by (simp add: b_def)
  have c: "c < 2 * H" using assms(4) K by simp
  show ?case
    unfolding X_def [symmetric] mul_div_loop.simps Let_def bit H_def [symmetric] K
    using Suc step [OF assms(3) c b2] by (simp only: X K split: if_split) (intro conjI impI; simp)
qed simp

text \<open>
  The long division of the source is the mathematical one, cut to 128 bits.
\<close>

lemma mul_div_value:
  assumes "a < 2 ^ 128" "b < 2 ^ 128" "0 < c" "c < 2 ^ 128"
  shows "mul_div a b c = a * b div c mod 2 ^ 128"
proof -
  obtain h l where hl: "wide_mul a b = (h, l)" by fastforce
  note val = wide_mul_value [OF hl assms(1,2)]
  have "a * b < 2 ^ 256"
    using mult_strict_mono [OF assms(1,2)] by (simp only: power_add [symmetric]) simp
  then have "a * b div 2 ^ 256 = 0" by (rule div_less)
  then show ?thesis
    using mul_div_loop_value [OF val(2) assms(3,4), of 256 h]
    by (simp only: mul_div_def hl Let_def prod.case val(1) mod_0 div_0)
qed

lemma mul_div_exact:
  assumes "a < 2 ^ 128" "b < 2 ^ 128" "a \<le> c" "0 < c" "c < 2 ^ 128"
  shows "mul_div a b c = a * b div c"
proof -
  have "a * b div c \<le> b"
    using assms mult_div_le_self [of a c b] by (simp add: mult.commute)
  then have "a * b div c < 2 ^ 128" using assms(2) by simp
  then show ?thesis using mul_div_value [OF assms(1,2,4,5)] by simp
qed

section \<open>Normalized weights\<close>

definition stake_order :: "nat list \<Rightarrow> nat list" where
  "stake_order raw = sort_key (\<lambda>i. (- int (raw ! i), i)) [0..<length raw]"

fun water_fill ::
  "nat list \<Rightarrow> nat \<Rightarrow> nat list \<Rightarrow> nat \<Rightarrow> nat \<Rightarrow> nat \<Rightarrow> nat \<times> nat \<times> nat" where
  "water_fill raw cap [] capped rest rest_raw = (capped, rest, rest_raw)"
| "water_fill raw cap (i # order) capped rest rest_raw =
     (let next = raw ! i in
      if rest_raw = 0 \<or> wide_mul next rest \<le> wide_mul cap rest_raw
      then (capped, rest, rest_raw)
      else water_fill raw cap order (capped + 1) (rest - cap) (rest_raw - next))"

definition normalized_weights :: "validator_set \<Rightarrow> nat list" where
  "normalized_weights vs =
     (let raw = map voting_power (vs_validators vs);
          total = sum_list raw;
          cap = sat_mul 128 total MAX_VALIDATOR_WEIGHT_BPS div 10000
      in if total = 0 then raw
         else if cap = 0 \<or> sat_mul 128 (length raw) cap < total then raw
         else let order = stake_order raw;
                  (capped, rest, rest_raw) = water_fill raw cap order 0 total total
              in assign_all raw
                   (map (\<lambda>(rank, i). (i, if rank < capped then cap
                                         else mul_div (raw ! i) rest rest_raw))
                        (enumerate 0 order)))"

lemma stake_order_perm [simp]:
  "length (stake_order raw) = length raw" "distinct (stake_order raw)"
  "set (stake_order raw) = {..<length raw}"
  by (auto simp: stake_order_def)

lemma stake_order_sorted:
  assumes "j \<le> k" "k < length raw"
  shows "raw ! (stake_order raw ! k) \<le> raw ! (stake_order raw ! j)"
proof -
  have "sorted (map (\<lambda>i. (- int (raw ! i), i)) (stake_order raw))"
    unfolding stake_order_def by simp
  then show ?thesis
    using assms sorted_nth_mono [of "map (\<lambda>i. (- int (raw ! i), i)) (stake_order raw)" j k]
    by (auto simp: less_eq_prod_def)
qed

lemma stake_order_sum: "sum_list (map ((!) raw) (stake_order raw)) = sum_list raw"
proof -
  have "mset (map ((!) raw) (stake_order raw)) = mset (map ((!) raw) [0..<length raw])"
    by (simp add: stake_order_def)
  then show ?thesis by (metis map_nth sum_mset_sum_list)
qed

text \<open>
  What the water-filling loop leaves: every capped rank took the cap out of the total, something
  is left, and the first uncapped stake does not pass the cap once the rest is spread.
\<close>

lemma water_fill_result:
  assumes "water_fill raw cap order k rest rr = (k', rest', rr')"
    and "rr = sum_list (map ((!) raw) order)" "0 < rest" "rest < 2 ^ 128" "rr < 2 ^ 128" "cap < 2 ^ 128"
  shows "\<exists>m \<le> length order. k' = k + m \<and> rest = m * cap + rest' \<and> 0 < rest'
     \<and> rr' = sum_list (map ((!) raw) (drop m order))
     \<and> (m < length order \<longrightarrow> rr' = 0 \<or> raw ! (order ! m) * rest' \<le> cap * rr')"
  using assms
proof (induction raw cap order k rest rr rule: water_fill.induct)
  case (1 raw cap k rest rr)
  then show ?case by auto
next
  case (2 raw cap i order k rest rr)
  have next_le: "raw ! i \<le> rr" using 2 by simp
  then have cmp: "wide_mul (raw ! i) rest \<le> wide_mul cap rr \<longleftrightarrow> raw ! i * rest \<le> cap * rr"
    using 2 by (intro wide_mul_le_iff) auto
  show ?case
  proof (cases "rr = 0 \<or> raw ! i * rest \<le> cap * rr")
    case True
    then show ?thesis using 2 cmp by (intro exI [of _ 0]) (auto simp: Let_def)
  next
    case False
    have "cap < rest"
    proof (rule ccontr)
      assume "\<not> cap < rest"
      then have "raw ! i * rest \<le> cap * rr"
        using next_le by (simp add: mult.commute mult_le_mono)
      with False show False by simp
    qed
    have "\<exists>m \<le> length order. k' = k + 1 + m \<and> rest - cap = m * cap + rest' \<and> 0 < rest'
      \<and> rr' = sum_list (map ((!) raw) (drop m order))
      \<and> (m < length order \<longrightarrow> rr' = 0 \<or> raw ! (order ! m) * rest' \<le> cap * rr')"
      by (rule "2.IH" [OF refl]) (use "2.prems" False cmp \<open>cap < rest\<close> in \<open>auto simp: Let_def split: if_splits\<close>)
    then obtain m where "m \<le> length order" "k' = k + 1 + m" "rest - cap = m * cap + rest'"
      "0 < rest'" "rr' = sum_list (map ((!) raw) (drop m order))"
      "m < length order \<longrightarrow> rr' = 0 \<or> raw ! (order ! m) * rest' \<le> cap * rr'"
      by blast
    with \<open>cap < rest\<close> show ?thesis by (intro exI [of _ "Suc m"]) auto
  qed
qed

text \<open>The values the final loop writes, rank by rank.\<close>

definition rank_weights :: "nat list \<Rightarrow> nat \<Rightarrow> nat \<Rightarrow> nat \<Rightarrow> nat \<Rightarrow> nat list \<Rightarrow> nat list" where
  "rank_weights raw cap k rest rr order =
     map (\<lambda>(rank, i). if rank < k then cap else mul_div (raw ! i) rest rr) (enumerate 0 order)"

lemma assign_rank_weights:
  assumes "distinct order" "set order = {..<length raw}"
  shows "mset (assign_all raw
           (map (\<lambda>(rank, i). (i, if rank < k then cap else mul_div (raw ! i) rest rr))
                (enumerate 0 order)))
         = mset (rank_weights raw cap k rest rr order)"
proof -
  let ?ivs = "map (\<lambda>(rank, i). (i, if rank < k then cap else mul_div (raw ! i) rest rr))
                (enumerate 0 order)"
  have "map fst ?ivs = order"
    by (simp add: comp_def case_prod_unfold enumerate_eq_zip)
  moreover have "map snd ?ivs = rank_weights raw cap k rest rr order"
    by (simp add: rank_weights_def case_prod_unfold)
  ultimately show ?thesis using assign_all_permutation [of ?ivs raw] assms by simp
qed

lemma rank_weights_split:
  assumes "k \<le> length order"
  shows "rank_weights raw cap k rest rr order
         = replicate k cap @ map (\<lambda>i. mul_div (raw ! i) rest rr) (drop k order)"
proof (rule nth_equalityI)
  fix j assume "j < length (rank_weights raw cap k rest rr order)"
  then have "j < length order" by (simp add: rank_weights_def)
  with assms show "rank_weights raw cap k rest rr order ! j
      = (replicate k cap @ map (\<lambda>i. mul_div (raw ! i) rest rr) (drop k order)) ! j"
    by (auto simp: rank_weights_def nth_enumerate_eq nth_append)
qed (use assms in \<open>simp add: rank_weights_def\<close>)

lemma spread_within_cap:
  assumes "i \<in> set (drop m (stake_order raw))" "m < length raw"
    and "rr = sum_list (map ((!) raw) (drop m (stake_order raw)))" "0 < rr" "rr < 2 ^ 128"
    and "raw ! (stake_order raw ! m) * rest \<le> cap * rr" "rest < 2 ^ 128"
  shows "mul_div (raw ! i) rest rr = rest * (raw ! i) div rr"
    and "mul_div (raw ! i) rest rr \<le> cap"
proof -
  obtain l where "l < length raw - m" "i = stake_order raw ! (m + l)"
    using assms(1) by (auto simp: in_set_conv_nth)
  then obtain j where j: "m \<le> j" "j < length raw" "i = stake_order raw ! j"
    by (metis le_add1 less_diff_conv add.commute)
  have "raw ! i \<le> rr"
    unfolding assms(3) using assms(1) by (auto intro!: member_le_sum_list)
  then show eq: "mul_div (raw ! i) rest rr = rest * (raw ! i) div rr"
    using assms mul_div_exact [of "raw ! i" rest rr] by (simp add: mult.commute)
  have "raw ! i * rest \<le> cap * rr"
    using stake_order_sorted [OF j(1,2)] j(3) assms(6) mult_le_mono1 order_trans by blast
  then show "mul_div (raw ! i) rest rr \<le> cap"
    unfolding eq by (metis assms(4) div_le_mono div_mult_self_is_m mult.commute)
qed

text \<open>
  The cap and the conservation of stake: the water-filling gives every validator at most the
  cap, and the weights add up to the total stake less at most one unit per validator.
\<close>

lemma normalized_weights_fill:
  fixes vs :: validator_set
  defines "raw \<equiv> map voting_power (vs_validators vs)"
  defines "cap \<equiv> sat_mul 128 (sum_list raw) MAX_VALIDATOR_WEIGHT_BPS div 10000"
  assumes pos: "\<forall>v \<in> set (vs_validators vs). 0 < voting_power v"
    and total: "sum_list raw < 2 ^ 128"
    and small: "cap \<noteq> 0" "sum_list raw \<le> length raw * cap"
    and some: "raw \<noteq> []"
  shows "\<exists>m rest rr. m < length raw \<and> sum_list raw = m * cap + rest
    \<and> rr = sum_list (map ((!) raw) (drop m (stake_order raw))) \<and> 0 < rr
    \<and> mset (normalized_weights vs)
        = mset (replicate m cap @ map (\<lambda>i. rest * (raw ! i) div rr) (drop m (stake_order raw)))
    \<and> (\<forall>i \<in> set (drop m (stake_order raw)). rest * (raw ! i) div rr \<le> cap)"
proof -
  let ?order = "stake_order raw" and ?total = "sum_list raw"
  have raw_pos: "0 < raw ! i" if "i < length raw" for i
    using pos that by (simp add: raw_def)
  have total_pos: "0 < ?total"
    using some raw_pos [of 0] by (cases raw) auto
  have cap_lt: "cap < 2 ^ 128"
    by (simp add: cap_def sat_mul_def uint_max_def)
  obtain k rest rr where wf: "water_fill raw cap ?order 0 ?total ?total = (k, rest, rr)"
    by (metis prod_cases3)
  from water_fill_result [OF wf _ total_pos total total cap_lt]
  obtain m where m: "m \<le> length raw" "k = m" "?total = m * cap + rest" "0 < rest"
      "rr = sum_list (map ((!) raw) (drop m ?order))"
      "m < length raw \<longrightarrow> rr = 0 \<or> raw ! (?order ! m) * rest \<le> cap * rr"
    by (auto simp: stake_order_sum)
  have m_lt: "m < length raw"
    using m small by (metis add_less_same_cancel1 le_neq_implies_less not_le not_add_less1
        less_add_same_cancel1 le_less_trans)
  have "?order ! m \<in> set (drop m ?order)"
    using m_lt by (metis drop_eq_Nil2 hd_drop_conv_nth hd_in_set linorder_not_le
        stake_order_perm(1))
  moreover have "?order ! m < length raw"
    using m_lt stake_order_perm(1,3) by (metis lessThan_iff nth_mem)
  ultimately have "0 < raw ! (?order ! m)" "raw ! (?order ! m) \<le> rr"
    unfolding m(5) using raw_pos by (auto intro: member_le_sum_list)
  then have rr: "0 < rr" by simp
  have "rr \<le> ?total"
    unfolding m(5) stake_order_sum [of raw, symmetric]
    by (metis append_take_drop_id le_add2 map_append sum_list_append)
  then have lt: "rr < 2 ^ 128" "rest < 2 ^ 128" using total m(3) by linarith+
  note spread = spread_within_cap [OF _ m_lt m(5) rr lt(1) _ lt(2)]
  have within: "raw ! (?order ! m) * rest \<le> cap * rr" using m(6) m_lt rr by simp
  have "\<not> sat_mul 128 (length raw) cap < ?total"
    using small total by (auto simp: sat_mul_def uint_max_def min_def)
  then have "normalized_weights vs = assign_all raw
      (map (\<lambda>(rank, i). (i, if rank < k then cap else mul_div (raw ! i) rest rr))
           (enumerate 0 ?order))"
    unfolding normalized_weights_def raw_def [symmetric] Let_def cap_def [symmetric]
    using total_pos small(1) wf by (simp del: sum_list_eq_0_iff)
  then have "mset (normalized_weights vs) = mset (rank_weights raw cap m rest rr ?order)"
    using m(2) assign_rank_weights [of ?order raw] by simp
  also have "rank_weights raw cap m rest rr ?order
      = replicate m cap @ map (\<lambda>i. rest * (raw ! i) div rr) (drop m ?order)"
    using spread(1) [OF _ within] m(1) by (simp add: rank_weights_split)
  finally show ?thesis
    using m_lt m(3,5) rr spread [OF _ within] by auto
qed


definition demo_validator :: "nat \<Rightarrow> nat \<Rightarrow> validator_info" where
  "demo_validator k s = \<lparr>vi_address = replicate 32 (of_nat k),
     vi_public_key = \<lparr>ml_dsa = [of_nat k], p256 = [4]\<rparr>, vi_node_key = [], vi_stake = s,
     vi_status = Active, vi_registered_at = 0\<rparr>"

definition demo_set :: validator_set where
  "demo_set = \<lparr>vs_epoch = 0,
     vs_validators = demo_validator 0 20 # map (\<lambda>k. demo_validator k 8) [1..<11],
     vs_total_stake = 100\<rparr>"

lemma demo_set_powers: "map voting_power (vs_validators demo_set) = 20 # replicate 10 8"
  by (simp add: demo_set_def demo_validator_def voting_power_def is_active_def numeral_eq_Suc)

lemma demo_set_length: "length (vs_validators demo_set) = 11"
  by (simp add: demo_set_def)


text \<open>
  A division by zero in \<open>mul_div\<close> does not panic: the loop subtracts zero at every bit and
  sets every bit of the quotient.
\<close>

lemma all_ones_step:
  assumes "k \<le> 128"
  shows "((2::nat) ^ k - 1) * 2 mod 2 ^ 128 + 1 = 2 ^ min (Suc k) 128 - 1"
proof (cases "k = 128")
  case True
  then show ?thesis by simp
next
  case False
  with assms have "k < 128" by simp
  then have le: "(2::nat) ^ Suc k \<le> 2 ^ 128" by (intro power_increasing) auto
  have two: "(2::nat) \<le> 2 ^ Suc k" by simp
  have eq: "((2::nat) ^ k - 1) * 2 = 2 ^ Suc k - 2" by (simp add: diff_mult_distrib)
  have "(2::nat) ^ Suc k - 2 < 2 ^ 128" using le two by linarith
  then have "((2::nat) ^ k - 1) * 2 mod 2 ^ 128 = 2 ^ Suc k - 2"
    unfolding eq by (rule mod_less)
  then have "((2::nat) ^ k - 1) * 2 mod 2 ^ 128 + 1 = 2 ^ Suc k - 1" using two by linarith
  then show ?thesis using \<open>k < 128\<close> by (simp only: min_absorb1 Suc_leI)
qed

lemma mul_div_loop_by_zero:
  "k \<le> 128 \<Longrightarrow> mul_div_loop i 0 0 0 0 (2 ^ k - 1) = 2 ^ min (k + i) 128 - 1"
proof (induction i arbitrary: k)
  case (Suc i)
  have "mul_div_loop (Suc i) 0 0 0 0 (2 ^ k - 1)
      = mul_div_loop i 0 0 0 0 ((2 ^ k - 1) * 2 mod 2 ^ 128 + 1)"
    by (simp add: Let_def)
  also have "\<dots> = 2 ^ min (min (Suc k) 128 + i) 128 - 1"
    unfolding all_ones_step [OF Suc.prems] by (rule Suc.IH) simp
  also have "min (min (Suc k) 128 + i) 128 = min (k + Suc i) 128" by simp
  finally show ?case .
qed simp

lemma mul_div_by_zero: "mul_div 0 b 0 = uint_max 128"
  using mul_div_loop_by_zero [of 0 256]
  by (simp add: mul_div_def wide_mul_def Let_def uint_max_def)

definition zero_power_set :: validator_set where
  "zero_power_set = \<lparr>vs_epoch = 0,
     vs_validators = map (\<lambda>k. demo_validator k 100) [0..<9]
       @ [(demo_validator 9 100)\<lparr>vi_status := Inactive\<rparr>],
     vs_total_stake = 900\<rparr>"

lemma zero_power_set_powers:
  "map voting_power (vs_validators zero_power_set)
   = [100, 100, 100, 100, 100, 100, 100, 100, 100, 0]"
  by (simp add: zero_power_set_def demo_validator_def voting_power_def is_active_def upt_rec)

lemma zero_power_set_order:
  "stake_order [100, 100, 100, 100, 100, 100, 100, 100, 100, 0] = [0, 1, 2, 3, 4, 5, 6, 7, 8, 9]"
  by (simp add: stake_order_def upt_rec less_eq_prod_def)


end
