(* ===== verification/Committee.thy ===== *)
theory Committee
  imports Validator_Set
begin

text \<open>
  The committee of one epoch (\<^verbatim>\<open>crates/tenzro-finality/src/committee.rs\<close> and
  \<^verbatim>\<open>crates/tenzro-consensus/src/committee.rs\<close>): its members and seats, the quorum
  thresholds, the seat-counting bit set, and the largest-remainder apportionment that turns
  stake into seats. The locale \<open>quorum_system\<close> holds the counting arguments every protocol
  built on the committee uses; \<open>seat_counter\<close> is the interface of the bit set.
\<close>

section \<open>Members and committees\<close>

datatype finality_error =
    InvalidValidatorKey string
  | InvalidValidatorSet string
  | InvalidCertificate string

record member =
  m_address :: address
  m_public_key :: validator_public_key
  m_stake :: nat
  m_seats :: nat

record committee =
  c_epoch :: nat
  c_members :: "member list"
  c_total_seats :: nat
  c_by_address :: "address \<rightharpoonup> validator_index"

definition MAX_TOTAL_SEATS :: nat where
  "MAX_TOTAL_SEATS = uint_max 32"

definition VALIDATOR_INDEX_MAX :: nat where
  "VALIDATOR_INDEX_MAX = uint_max 16"

fun all_new :: "(validator_public_key \<Rightarrow> digest) \<Rightarrow> digest set \<Rightarrow> address set \<Rightarrow> member list \<Rightarrow> bool" where
  "all_new fp keys addresses [] = True"
| "all_new fp keys addresses (m # ms) =
     (fp (m_public_key m) \<notin> keys \<and> m_address m \<notin> addresses
      \<and> all_new fp (insert (fp (m_public_key m)) keys) (insert (m_address m) addresses) ms)"

fun try_sum_seats :: "nat \<Rightarrow> member list \<Rightarrow> nat option" where
  "try_sum_seats t [] = Some t"
| "try_sum_seats t (m # ms) =
     (case checked_add 64 t (m_seats m) of None \<Rightarrow> None | Some t' \<Rightarrow> try_sum_seats t' ms)"

definition index_of_members :: "member list \<Rightarrow> (address \<rightharpoonup> validator_index)" where
  "index_of_members ms =
     foldl (\<lambda>m (i, x). m(m_address x \<mapsto> i)) Map.empty (enumerate 0 ms)"

definition rebuild_index :: "committee \<Rightarrow> committee" where
  "rebuild_index c = c\<lparr>c_by_address := index_of_members (c_members c)\<rparr>"

definition from_members ::
  "(validator_public_key \<Rightarrow> digest) \<Rightarrow> nat \<Rightarrow> member list \<Rightarrow> (finality_error, committee) result" where
  "from_members fp epoch ms =
     (if ms = [] \<or> VALIDATOR_INDEX_MAX < length ms
      then Inl (InvalidValidatorSet (''a committee holds 1 to 65535 members, got '' @ dec (length ms)))
      else if \<not> all_new fp {} {} ms
      then Inl (InvalidValidatorSet ''two members share a key or an address'')
      else if \<exists>m \<in> set ms. m_seats m = 0
      then Inl (InvalidValidatorSet ''every member holds at least one seat'')
      else (case try_sum_seats 0 ms of
          None \<Rightarrow> Inl (InvalidValidatorSet ''a committee holds at most 4294967295 seats in all'')
        | Some t \<Rightarrow>
            if MAX_TOTAL_SEATS < t
            then Inl (InvalidValidatorSet ''a committee holds at most 4294967295 seats in all'')
            else Inr (rebuild_index
                   \<lparr>c_epoch = epoch, c_members = ms, c_total_seats = t,
                    c_by_address = Map.empty\<rparr>)))"

definition c_size :: "committee \<Rightarrow> nat" where
  "c_size c = length (c_members c)"

definition c_member :: "committee \<Rightarrow> validator_index \<Rightarrow> member option" where
  "c_member c i = (if i < length (c_members c) then Some (c_members c ! i) else None)"

definition index_of :: "committee \<Rightarrow> address \<Rightarrow> validator_index option" where
  "index_of c a = c_by_address c a"

definition c_seats :: "committee \<Rightarrow> validator_index \<Rightarrow> nat" where
  "c_seats c i = (case c_member c i of None \<Rightarrow> 0 | Some m \<Rightarrow> m_seats m)"

section \<open>Thresholds\<close>

definition max_faulty :: "committee \<Rightarrow> nat" where
  "max_faulty c = (c_total_seats c - 1) div 3"

definition quorum :: "committee \<Rightarrow> nat" where
  "quorum c = c_total_seats c - max_faulty c"

definition validity :: "committee \<Rightarrow> nat" where
  "validity c = max_faulty c + 1"

definition ready_delivery :: "committee \<Rightarrow> nat" where
  "ready_delivery c = 2 * max_faulty c + 1"

definition rbc_vote_threshold :: "committee \<Rightarrow> nat" where
  "rbc_vote_threshold c = div_ceil (c_total_seats c) 2"

definition rbc_ack_threshold :: "committee \<Rightarrow> nat" where
  "rbc_ack_threshold c = div_ceil (c_total_seats c + max_faulty c - 1) 2"

definition rbc_fast_threshold :: "committee \<Rightarrow> nat" where
  "rbc_fast_threshold c = div_ceil (sat_sub (c_total_seats c + 2 * max_faulty c) 2) 2"

definition non_broadcaster_weight :: "committee \<Rightarrow> validator_index \<Rightarrow> validator_index \<Rightarrow> nat" where
  "non_broadcaster_weight c sender broadcaster =
     (let s = c_seats c sender in if sender = broadcaster then sat_sub s 1 else s)"

lemmas [committee_simps] =
  max_faulty_def quorum_def validity_def ready_delivery_def rbc_vote_threshold_def
  rbc_ack_threshold_def rbc_fast_threshold_def

text \<open>
  The well-formedness every constructed committee has: the members are distinct, each holds a
  seat, and the total counts them.
\<close>

definition wf_committee :: "committee \<Rightarrow> bool" where
  "wf_committee c \<longleftrightarrow>
     c_members c \<noteq> [] \<and> length (c_members c) \<le> VALIDATOR_INDEX_MAX
     \<and> (\<forall>m \<in> set (c_members c). 0 < m_seats m)
     \<and> c_total_seats c = sum_list (map m_seats (c_members c))
     \<and> c_total_seats c \<le> MAX_TOTAL_SEATS
     \<and> distinct (map m_address (c_members c))"

lemma all_new_iff:
  "all_new fp keys addresses ms \<longleftrightarrow>
     distinct (map (fp \<circ> m_public_key) ms) \<and> distinct (map m_address ms)
     \<and> (fp \<circ> m_public_key) ` set ms \<inter> keys = {} \<and> m_address ` set ms \<inter> addresses = {}"
  by (induction ms arbitrary: keys addresses) auto

lemma try_sum_seats_eq:
  "t \<le> uint_max 64 \<Longrightarrow> try_sum_seats t ms =
     (let u = t + sum_list (map m_seats ms) in if u \<le> uint_max 64 then Some u else None)"
  by (induction ms arbitrary: t) (auto simp: checked_add_def Let_def add.assoc)

lemma try_sum_seats_Some: "try_sum_seats 0 ms = Some t \<Longrightarrow> t = sum_list (map m_seats ms)"
  and try_sum_seats_None: "try_sum_seats 0 ms = None \<Longrightarrow> uint_max 64 < sum_list (map m_seats ms)"
  by (simp_all add: try_sum_seats_eq Let_def split: if_splits)

lemma from_members_ok_iff:
  "(\<exists>c. from_members fp epoch ms = Inr c) \<longleftrightarrow>
     ms \<noteq> [] \<and> length ms \<le> VALIDATOR_INDEX_MAX
     \<and> distinct (map (fp \<circ> m_public_key) ms) \<and> distinct (map m_address ms)
     \<and> (\<forall>m \<in> set ms. 0 < m_seats m) \<and> sum_list (map m_seats ms) \<le> MAX_TOTAL_SEATS"
proof -
  have "try_sum_seats 0 ms = None \<Longrightarrow> \<not> sum_list (map m_seats ms) \<le> MAX_TOTAL_SEATS"
    by (drule try_sum_seats_None) (auto simp: MAX_TOTAL_SEATS_def uint_max_def)
  then show ?thesis
    unfolding from_members_def
    by (auto simp: all_new_iff not_less dest: try_sum_seats_Some split: option.splits)
qed

lemma from_members_fields:
  assumes "from_members fp epoch ms = Inr c"
  shows "c_epoch c = epoch" "c_members c = ms" "c_total_seats c = sum_list (map m_seats ms)"
    "c_by_address c = index_of_members ms"
  using assms unfolding from_members_def rebuild_index_def
  by (auto dest: try_sum_seats_Some split: if_splits option.splits)

lemma from_members_wf: "from_members fp epoch ms = Inr c \<Longrightarrow> wf_committee c"
  using from_members_ok_iff [of fp epoch ms]
  by (auto simp: wf_committee_def from_members_fields)

lemma index_of_members_lookup:
  assumes "distinct (map m_address ms)"
  shows "index_of_members ms a = Some i \<longleftrightarrow> i < length ms \<and> m_address (ms ! i) = a"
  using assms
proof (induction ms arbitrary: i rule: rev_induct)
  case Nil
  then show ?case by (simp add: index_of_members_def)
next
  case (snoc x xs)
  have step: "index_of_members (xs @ [x]) = (index_of_members xs)(m_address x \<mapsto> length xs)"
    by (simp add: index_of_members_def enumerate_append_eq)
  have "m_address x \<notin> m_address ` set xs" using snoc.prems by simp
  then have "\<And>j. j < length xs \<Longrightarrow> m_address (xs ! j) \<noteq> m_address x"
    by (metis image_eqI nth_mem)
  then show ?case using snoc by (auto simp: step nth_append less_Suc_eq)
qed

section \<open>Counting arguments\<close>

text \<open>
  The interface the protocols rely on: finitely many voters, their seats add up to the total,
  and three times the tolerated faulty seats are less than the total. A set of faulty voters is
  tolerated while it holds at most \<open>faults\<close> seats.
\<close>

locale quorum_system =
  fixes valid :: "'c \<Rightarrow> bool"
    and voters :: "'c \<Rightarrow> 'v set"
    and seats :: "'c \<Rightarrow> 'v \<Rightarrow> nat"
    and total_seats :: "'c \<Rightarrow> nat"
    and faults :: "'c \<Rightarrow> nat"
  assumes finite_voters: "valid c \<Longrightarrow> finite (voters c)"
    and seats_sum: "valid c \<Longrightarrow> sum (seats c) (voters c) = total_seats c"
    and faults_bound: "valid c \<Longrightarrow> 3 * faults c < total_seats c"
begin

lemma weight_le_total:
  assumes "valid c" "A \<subseteq> voters c"
  shows "sum (seats c) A \<le> total_seats c"
  using assms sum_mono2 [OF finite_voters [OF assms(1)] assms(2), of "seats c"]
  by (simp add: seats_sum)

lemma weight_split:
  assumes "valid c" "A \<subseteq> voters c"
  shows "sum (seats c) A = sum (seats c) (A - F) + sum (seats c) (A \<inter> F)"
proof -
  have "finite A" using assms finite_voters finite_subset by blast
  then show ?thesis
    using sum.Int_Diff [of A "seats c" F] by (simp add: add.commute)
qed

text \<open>Two sets whose weights add up past the total plus the faults share an honest voter.\<close>

lemma honest_overlap:
  assumes "valid c" "A \<subseteq> voters c" "B \<subseteq> voters c" "sum (seats c) (F \<inter> voters c) \<le> faults c"
    and "total_seats c + faults c < sum (seats c) A + sum (seats c) B"
  shows "\<exists>v \<in> A \<inter> B. v \<notin> F"
proof (rule ccontr)
  assume "\<not> ?thesis"
  then have sub: "A \<inter> B \<subseteq> F \<inter> voters c" using assms by auto
  have fin: "finite A" "finite B" "finite (F \<inter> voters c)"
    using assms finite_voters finite_subset by blast+
  have "sum (seats c) A + sum (seats c) B
      = sum (seats c) (A \<union> B) + sum (seats c) (A \<inter> B)"
    using fin by (simp add: sum.union_inter)
  also have "\<dots> \<le> total_seats c + faults c"
    using weight_le_total [OF assms(1), of "A \<union> B"] assms sum_mono2 [OF fin(3) sub, of "seats c"]
    by (simp add: add_mono order_trans)
  finally show False using assms(5) by simp
qed

lemma quorums_share_honest:
  assumes "valid c" "A \<subseteq> voters c" "B \<subseteq> voters c" "sum (seats c) (F \<inter> voters c) \<le> faults c"
    and "total_seats c - faults c \<le> sum (seats c) A" "total_seats c - faults c \<le> sum (seats c) B"
  shows "\<exists>v \<in> A \<inter> B. v \<notin> F"
proof (rule honest_overlap [OF assms(1-4)])
  show "total_seats c + faults c < sum (seats c) A + sum (seats c) B"
    using faults_bound [OF assms(1)] assms(5,6) by linarith
qed

text \<open>Two quorums share voters of more seats than may be faulty.\<close>

lemma quorums_overlap:
  assumes "valid c" "A \<subseteq> voters c" "B \<subseteq> voters c"
    and "total_seats c - faults c \<le> sum (seats c) A" "total_seats c - faults c \<le> sum (seats c) B"
  shows "faults c < sum (seats c) (A \<inter> B)"
proof -
  have "finite A" "finite B" using assms finite_voters finite_subset by blast+
  then have "sum (seats c) A + sum (seats c) B = sum (seats c) (A \<union> B) + sum (seats c) (A \<inter> B)"
    by (simp add: sum.union_inter)
  then show ?thesis
    using weight_le_total [OF assms(1), of "A \<union> B"] faults_bound [OF assms(1)] assms(2-5) by simp
qed

text \<open>A quorum contains honest voters of more seats than a quorum can leave out.\<close>

lemma quorum_honest_weight:
  assumes "valid c" "A \<subseteq> voters c" "sum (seats c) (F \<inter> voters c) \<le> faults c"
    and "total_seats c - faults c \<le> sum (seats c) A"
  shows "faults c < sum (seats c) (A - F)"
proof -
  have "sum (seats c) (A \<inter> F) \<le> faults c"
    using assms sum_mono2 [of "F \<inter> voters c" "A \<inter> F" "seats c"] finite_voters [OF assms(1)]
    by (auto intro: order_trans)
  then show ?thesis
    using weight_split [OF assms(1,2), of F] faults_bound [OF assms(1)] assms(4) by linarith
qed

lemma quorum_meets:
  assumes "valid c" "A \<subseteq> voters c" "B \<subseteq> voters c"
    and "total_seats c - faults c \<le> sum (seats c) A" "faults c < sum (seats c) B"
  shows "A \<inter> B \<noteq> {}"
proof
  assume "A \<inter> B = {}"
  then have "sum (seats c) (A \<union> B) = sum (seats c) A + sum (seats c) B"
    using assms finite_voters by (intro sum.union_disjoint) (auto intro: finite_subset)
  then show False
    using weight_le_total [OF assms(1), of "A \<union> B"] faults_bound [OF assms(1)] assms(2-5)
    by simp
qed

lemma weight_has_honest:
  assumes "valid c" "A \<subseteq> voters c" "sum (seats c) (F \<inter> voters c) \<le> faults c"
    and "faults c < sum (seats c) A"
  shows "\<exists>v \<in> A. v \<notin> F"
proof (rule ccontr)
  assume "\<not> ?thesis"
  then have "A \<subseteq> F \<inter> voters c" using assms by auto
  then have "sum (seats c) A \<le> sum (seats c) (F \<inter> voters c)"
    using finite_voters [OF assms(1)] by (intro sum_mono2) auto
  then show False using assms(3,4) by simp
qed

end

definition member_set :: "committee \<Rightarrow> validator_index set" where
  "member_set c = {..<length (c_members c)}"

lemma in_member_set_iff: "i \<in> member_set c \<longleftrightarrow> c_member c i \<noteq> None"
  by (simp add: member_set_def c_member_def)

lemma c_seats_nth: "i < length (c_members c) \<Longrightarrow> c_seats c i = m_seats (c_members c ! i)"
  by (simp add: c_seats_def c_member_def)

lemma c_seats_pos: "wf_committee c \<Longrightarrow> i \<in> member_set c \<Longrightarrow> 0 < c_seats c i"
  by (simp add: wf_committee_def member_set_def c_seats_nth)

lemma c_seats_outside [simp]: "i \<notin> member_set c \<Longrightarrow> c_seats c i = 0"
  by (simp add: member_set_def c_seats_def c_member_def)

lemma wf_total_pos: "wf_committee c \<Longrightarrow> 0 < c_total_seats c"
  by (cases "c_members c") (auto simp: wf_committee_def)

lemma sum_c_seats: "sum (c_seats c) (member_set c) = sum_list (map m_seats (c_members c))"
  using sum_nth_list [of m_seats "c_members c"]
  by (simp add: member_set_def c_seats_nth)

interpretation cq: quorum_system wf_committee member_set c_seats c_total_seats max_faulty
proof unfold_locales
  fix c :: committee
  assume wf: "wf_committee c"
  show "finite (member_set c)" by (simp add: member_set_def)
  show "sum (c_seats c) (member_set c) = c_total_seats c"
    using wf by (simp add: sum_c_seats wf_committee_def)
  show "3 * max_faulty c < c_total_seats c"
    using wf_total_pos [OF wf] unfolding max_faulty_def by linarith
qed

section \<open>Seat sets\<close>

record seat_set =
  ss_bits :: "64 word list"
  ss_weight :: nat

definition ss_new :: seat_set where
  "ss_new = \<lparr>ss_bits = [], ss_weight = 0\<rparr>"

definition ss_insert :: "seat_set \<Rightarrow> validator_index \<Rightarrow> nat \<Rightarrow> bool \<times> seat_set" where
  "ss_insert s index seats =
     (let word = index div 64; b = index mod 64;
          bits = (if length (ss_bits s) \<le> word
                  then ss_bits s @ replicate (word + 1 - length (ss_bits s)) 0
                  else ss_bits s)
      in if bits ! word AND push_bit b 1 \<noteq> 0
         then (False, s\<lparr>ss_bits := bits\<rparr>)
         else (True, s\<lparr>ss_bits := bits[word := bits ! word OR push_bit b 1],
                       ss_weight := ss_weight s + seats\<rparr>))"

definition ss_contains :: "seat_set \<Rightarrow> validator_index \<Rightarrow> bool" where
  "ss_contains s index =
     (let word = index div 64; b = index mod 64 in
      word < length (ss_bits s) \<and> ss_bits s ! word AND push_bit b 1 \<noteq> 0)"

definition ss_iter :: "seat_set \<Rightarrow> validator_index list" where
  "ss_iter s =
     concat (map (\<lambda>(w, bits). map (\<lambda>b. w * 64 + b)
                                  (filter (\<lambda>b. bits AND push_bit b 1 \<noteq> 0) [0..<64]))
                 (enumerate 0 (ss_bits s)))"

definition ss_elems :: "seat_set \<Rightarrow> validator_index set" where
  "ss_elems s = {i. ss_contains s i}"

text \<open>
  The abstract set a seat set stands for, and what a client may rely on: an index is counted
  once, with the seats it was first inserted with.
\<close>

locale seat_counter =
  fixes empty :: 's
    and ins :: "'s \<Rightarrow> nat \<Rightarrow> nat \<Rightarrow> bool \<times> 's"
    and has :: "'s \<Rightarrow> nat \<Rightarrow> bool"
    and weight :: "'s \<Rightarrow> nat"
    and elems :: "'s \<Rightarrow> nat set"
  assumes elems_empty: "elems empty = {}"
    and weight_empty: "weight empty = 0"
    and has_iff: "has s i \<longleftrightarrow> i \<in> elems s"
    and ins_fst: "fst (ins s i k) \<longleftrightarrow> i \<notin> elems s"
    and ins_elems: "elems (snd (ins s i k)) = insert i (elems s)"
    and ins_weight: "weight (snd (ins s i k)) = (if i \<in> elems s then weight s else weight s + k)"
begin

lemma fold_ins_elems:
  "elems (foldl (\<lambda>s i. snd (ins s i (f i))) s xs) = elems s \<union> set xs"
  by (induction xs arbitrary: s) (auto simp: ins_elems)

lemma fold_ins_weight:
  "distinct xs \<Longrightarrow> set xs \<inter> elems s = {} \<Longrightarrow>
     weight (foldl (\<lambda>s i. snd (ins s i (f i))) s xs) = weight s + sum f (set xs)"
proof (induction xs arbitrary: s)
  case (Cons x xs)
  then have "set xs \<inter> elems (snd (ins s x (f x))) = {}" by (auto simp: ins_elems)
  with Cons show ?case by (simp add: ins_weight)
qed simp

lemma fold_ins_empty_weight:
  assumes "distinct xs"
  shows "weight (foldl (\<lambda>s i. snd (ins s i (f i))) empty xs) = sum f (set xs)"
  using fold_ins_weight [OF assms, of empty f] by (simp add: elems_empty weight_empty)

end

lemma word_bit_test: "(w :: 64 word) AND push_bit b 1 \<noteq> 0 \<longleftrightarrow> bit w b"
  by (simp add: bit_iff_and_push_bit_not_eq_0)

lemma ss_contains_iff:
  "ss_contains s i \<longleftrightarrow> i div 64 < length (ss_bits s) \<and> bit (ss_bits s ! (i div 64)) (i mod 64)"
  unfolding ss_contains_def Let_def word_bit_test by simp

lemma div_mod_64_eq: "i div 64 = j div 64 \<Longrightarrow> i mod 64 = j mod 64 \<Longrightarrow> i = (j::nat)"
  by (metis div_mult_mod_eq)

lemma padded_bit:
  fixes bs :: "64 word list"
  assumes "n < length (bs @ replicate m 0)"
  shows "bit ((bs @ replicate m 0) ! n) k \<longleftrightarrow> n < length bs \<and> bit (bs ! n) k"
  using assms by (auto simp: nth_append)

lemma ss_insert_bits:
  defines "padded s i \<equiv> (if length (ss_bits s) \<le> i div 64
       then ss_bits s @ replicate (i div 64 + 1 - length (ss_bits s)) 0 else ss_bits s)"
  shows "i div 64 < length (padded s i)"
    and "n < length (padded s i) \<Longrightarrow>
      bit (padded s i ! n) k \<longleftrightarrow> n < length (ss_bits s) \<and> bit (ss_bits s ! n) k"
    and "length (ss_bits s) \<le> length (padded s i)"
  unfolding padded_def by (auto simp: padded_bit)

interpretation seatset: seat_counter ss_new ss_insert ss_contains ss_weight ss_elems
proof unfold_locales
  show "ss_elems ss_new = {}" "ss_weight ss_new = 0"
    by (simp_all add: ss_elems_def ss_new_def ss_contains_def)
  fix s i k
  show "ss_contains s i = (i \<in> ss_elems s)" by (simp add: ss_elems_def)
  define bits where "bits = (if length (ss_bits s) \<le> i div 64
       then ss_bits s @ replicate (i div 64 + 1 - length (ss_bits s)) 0 else ss_bits s)"
  note pad = ss_insert_bits [where i = i and s = s, folded bits_def]
  have test: "bits ! (i div 64) AND push_bit (i mod 64) 1 \<noteq> 0 \<longleftrightarrow> i \<in> ss_elems s"
    using pad(1) pad(2) [of "i div 64" "i mod 64"]
    unfolding word_bit_test by (simp add: ss_elems_def ss_contains_iff)
  have ins: "ss_insert s i k = (if i \<in> ss_elems s then (False, s\<lparr>ss_bits := bits\<rparr>)
      else (True, s\<lparr>ss_bits := bits[i div 64 := bits ! (i div 64) OR push_bit (i mod 64) 1],
                    ss_weight := ss_weight s + k\<rparr>))"
    unfolding ss_insert_def Let_def bits_def [symmetric] test by simp
  show "fst (ss_insert s i k) \<longleftrightarrow> i \<notin> ss_elems s"
    and "ss_weight (snd (ss_insert s i k)) = (if i \<in> ss_elems s then ss_weight s else ss_weight s + k)"
    by (simp_all add: ins)
  have old: "j \<in> ss_elems s \<longleftrightarrow> j div 64 < length bits \<and> bit (bits ! (j div 64)) (j mod 64)" for j
    using pad by (auto simp: ss_elems_def ss_contains_iff)
  have new: "j \<in> ss_elems (s\<lparr>ss_bits := bits[i div 64 := bits ! (i div 64) OR push_bit (i mod 64) 1],
                    ss_weight := ss_weight s + k\<rparr>) \<longleftrightarrow> j = i \<or> j \<in> ss_elems s" for j
    using pad(1) unfolding old
    by (cases "j div 64 = i div 64")
      (auto simp: ss_elems_def ss_contains_iff bit_or_iff bit_exp_iff dest: div_mod_64_eq)
  have same: "ss_elems (s\<lparr>ss_bits := bits\<rparr>) = ss_elems s"
    using old by (auto simp: ss_elems_def [of "s\<lparr>ss_bits := bits\<rparr>"] ss_contains_iff)
  show "ss_elems (snd (ss_insert s i k)) = insert i (ss_elems s)"
    using new same by (auto simp: ins)
qed

lemma ss_iter_word:
  fixes w :: "64 word"
  shows "filter (\<lambda>b. w AND push_bit b 1 \<noteq> 0) [0..<64] = filter (bit w) [0..<64]"
  unfolding word_bit_test ..

lemma sorted_concat_blocks:
  assumes "\<And>n. n < length xss \<Longrightarrow> sorted (xss ! n) \<and> distinct (xss ! n)
      \<and> set (xss ! n) \<subseteq> {n * 64 ..< (n + 1) * 64}"
  shows "sorted (concat xss) \<and> distinct (concat xss) \<and> set (concat xss) \<subseteq> {..< length xss * 64}"
  using assms
proof (induction xss rule: rev_induct)
  case (snoc xs xss)
  have "sorted (concat xss) \<and> distinct (concat xss) \<and> set (concat xss) \<subseteq> {..< length xss * 64}"
  proof (rule snoc.IH)
    fix n assume "n < length xss"
    then show "sorted (xss ! n) \<and> distinct (xss ! n) \<and> set (xss ! n) \<subseteq> {n * 64 ..< (n + 1) * 64}"
      using snoc.prems [of n] by (simp add: nth_append)
  qed
  moreover have "sorted xs \<and> distinct xs \<and> set xs \<subseteq> {length xss * 64 ..< (length xss + 1) * 64}"
    using snoc.prems [of "length xss"] by simp
  ultimately show ?case by (fastforce simp: sorted_append)
qed simp

lemma split_64:
  "(\<exists>n < L. \<exists>b < 64. i = n * 64 + b \<and> P n b) \<longleftrightarrow> i div 64 < L \<and> P (i div 64) (i mod (64::nat))"
  by (metis div_mult_mod_eq div_prefix mod_prefix mod_less_divisor zero_less_numeral)

lemma ss_iter_spec: "sorted (ss_iter s) \<and> distinct (ss_iter s) \<and> set (ss_iter s) = ss_elems s"
proof -
  let ?block = "\<lambda>w bits. map (\<lambda>b. w * 64 + b) (filter (bit bits) [0..<64])"
  let ?xss = "map (\<lambda>(w, bits). ?block w bits) (enumerate 0 (ss_bits s))"
  have iter: "ss_iter s = concat ?xss"
    unfolding ss_iter_def ss_iter_word ..
  have blocks: "sorted (?xss ! n) \<and> distinct (?xss ! n)
      \<and> set (?xss ! n) \<subseteq> {n * 64 ..< (n + 1) * 64}" if "n < length ?xss" for n
    using that by (auto simp: nth_enumerate_eq sorted_map distinct_map sorted_wrt_filter
        inj_on_def intro: sorted_wrt_mono_rel [OF _ sorted_upt])
  have "set (ss_iter s) = ss_elems s"
  proof (rule set_eqI)
    fix i
    have "i \<in> set (ss_iter s) \<longleftrightarrow>
        (\<exists>p \<in> set (enumerate 0 (ss_bits s)). \<exists>b < 64. i = fst p * 64 + b \<and> bit (snd p) b)"
      unfolding iter by (auto simp: case_prod_unfold)
    also have "\<dots> \<longleftrightarrow>
        (\<exists>n < length (ss_bits s). \<exists>b < 64. i = n * 64 + b \<and> bit (ss_bits s ! n) b)"
      by (auto simp: Bex_def in_set_enumerate_eq)
    also have "\<dots> \<longleftrightarrow> i \<in> ss_elems s"
      unfolding split_64 by (simp add: ss_elems_def ss_contains_iff)
    finally show "i \<in> set (ss_iter s) \<longleftrightarrow> i \<in> ss_elems s" .
  qed
  then show ?thesis using sorted_concat_blocks [of ?xss] blocks unfolding iter by auto
qed



section \<open>Apportionment\<close>

fun hand_out :: "nat list \<Rightarrow> nat \<Rightarrow> nat list \<Rightarrow> nat list" where
  "hand_out seats left [] = seats"
| "hand_out seats left (i # order) =
     (if left = 0 then seats else hand_out (seats[i := seats ! i + 1]) (left - 1) order)"

definition apportion :: "nat list \<Rightarrow> nat \<Rightarrow> nat list" where
  "apportion weights budget =
     (let n = length weights; tot = sum_list weights in
      if tot = 0 then replicate n 1
      else let exact = map (\<lambda>w. sat_mul 128 w budget) weights;
               seats = map (\<lambda>e. e div tot mod 2 ^ 64) exact;
               remainders = zip (map (\<lambda>e. e mod tot) exact) [0..<n];
               left = sat_sub budget (sum_list seats);
               order = map snd (sort_key (\<lambda>(r, i). (- int r, i)) remainders)
           in hand_out seats left order)"

definition from_validator_set ::
  "(validator_public_key \<Rightarrow> digest) \<Rightarrow> validator_set \<Rightarrow> nat \<Rightarrow> (finality_error, committee) result" where
  "from_validator_set fp vset seat_budget =
     (let weights = normalized_weights vset;
          seats = apportion weights (max seat_budget (length (vs_validators vset)));
          members = map (\<lambda>(v, k). \<lparr>m_address = vi_address v, m_public_key = vi_public_key v,
                                     m_stake = voting_power v, m_seats = k\<rparr>)
                        (filter (\<lambda>(v, k). 0 < k) (zip (vs_validators vset) seats))
      in from_members fp (vs_epoch vset) members)"

lemma length_hand_out [simp]: "length (hand_out seats left order) = length seats"
  by (induction seats left order rule: hand_out.induct) auto

lemma sum_list_hand_out:
  assumes "distinct order" "set order \<subseteq> {..<length seats}" "left \<le> length order"
  shows "sum_list (hand_out seats left order) = sum_list seats + left"
  using assms
proof (induction seats left order rule: hand_out.induct)
  case (2 seats left i order)
  have "sum_list (seats[i := seats ! i + 1]) = sum_list seats + 1"
    using 2 by (simp add: sum_list_update)
  with 2 show ?case by auto
qed simp

lemma nth_hand_out:
  assumes "distinct order" "set order \<subseteq> {..<length seats}" "k < length seats"
  shows "hand_out seats left order ! k = seats ! k + (if k \<in> set (take left order) then 1 else 0)"
  using assms
proof (induction seats left order rule: hand_out.induct)
  case (2 seats left i order)
  then show ?case by (cases left; cases "k = i") (auto dest: in_set_takeD)
qed simp

lemma remainder_order:
  assumes "length es = n"
  shows "distinct (map snd (sort_key f (zip es [0..<n])))"
    "set (map snd (sort_key f (zip es [0..<n]))) = {..<n}"
    "length (map snd (sort_key f (zip es [0..<n]))) = n"
proof -
  have snd: "map snd (zip es [0..<n]) = [0..<n]" using assms by simp
  have "mset (map snd (sort_key f (zip es [0..<n]))) = mset (map snd (zip es [0..<n]))"
    by simp
  then have "mset (map snd (sort_key f (zip es [0..<n]))) = mset [0..<n]"
    using snd by simp
  then show "distinct (map snd (sort_key f (zip es [0..<n])))"
    "set (map snd (sort_key f (zip es [0..<n]))) = {..<n}"
    by (metis distinct_upt mset_eq_imp_distinct_iff) (metis atLeast0LessThan atLeast_upt
        \<open>mset (map snd (sort_key f (zip es [0..<n]))) = mset [0..<n]\<close> mset_eq_setD set_upt)
qed (use assms in simp)

text \<open>
  The largest-remainder apportionment spends the budget exactly and gives every
  validator the floor of its exact share or one seat more, whatever the weights.
\<close>

theorem apportion_spends_budget:
  assumes "0 < sum_list weights" "budget \<le> uint_max 64" "sum_list weights * budget \<le> uint_max 128"
  shows "length (apportion weights budget) = length weights
    \<and> sum_list (apportion weights budget) = budget
    \<and> (\<forall>k < length weights. apportion weights budget ! k - weights ! k * budget div sum_list weights \<in> {0, 1}
          \<and> weights ! k * budget div sum_list weights \<le> apportion weights budget ! k)"
proof -
  let ?t = "sum_list weights" and ?n = "length weights"
  let ?es = "map (\<lambda>w. w * budget) weights"
  let ?fl = "map (\<lambda>w. w * budget div ?t) weights"
  let ?order = "map snd (sort_key (\<lambda>(r, i). (- int r, i)) (zip (map (\<lambda>w. w * budget mod ?t) weights) [0..<?n]))"
  have exact: "sat_mul 128 w budget = w * budget" if "w \<in> set weights" for w
    using that assms(3) member_le_sum_list [OF that]
    by (simp add: sat_mul_def min_def) (meson mult_le_mono1 order_trans)
  have floor: "w * budget div ?t mod 2 ^ 64 = w * budget div ?t" if "w \<in> set weights" for w
  proof -
    have "w * budget div ?t \<le> budget"
      using mult_div_le_self [of w ?t budget] member_le_sum_list [OF that] assms(1)
      by (simp add: mult.commute)
    then show ?thesis using assms(2) by (simp add: uint_max_def)
  qed
  have app: "apportion weights budget = hand_out ?fl (budget - sum_list ?fl) ?order"
    using assms(1) exact floor
    by (simp add: apportion_def Let_def comp_def del: sum_list_eq_0_iff cong: map_cong)
  have le: "sum_list ?fl \<le> budget"
    using sum_list_mult_div_le [of weights ?t budget] by (simp add: mult.commute)
  have "budget \<le> sum_list ?fl + ?n"
    using sum_list_mult_div_ge_whole [of ?t weights budget] assms(1) by (simp add: mult.commute)
  then have left: "budget - sum_list ?fl \<le> length ?order" by simp
  note ord = remainder_order [of "map (\<lambda>w. w * budget mod ?t) weights" ?n "\<lambda>(r, i). (- int r, i)"]
  have "sum_list (apportion weights budget) = budget"
    unfolding app using sum_list_hand_out [of ?order ?fl] ord left le by simp
  moreover have "apportion weights budget ! k
      = weights ! k * budget div ?t + (if k \<in> set (take (budget - sum_list ?fl) ?order) then 1 else 0)"
    if "k < ?n" for k
    unfolding app using nth_hand_out [of ?order ?fl k] ord that by simp
  ultimately show ?thesis by (simp add: app)
qed

theorem apportion_spends_budget_witness:
  "sum_list (apportion [3, 3, 3] 10) = 10"
  using apportion_spends_budget [of "[3, 3, 3]" 10] by (simp add: uint_max_def)

text \<open>Four members of one seat each, the smallest committee that tolerates a fault.\<close>

definition demo_committee :: committee where
  "demo_committee = \<lparr>c_epoch = 0,
     c_members = map (\<lambda>i. \<lparr>m_address = [of_nat i], m_public_key = \<lparr>ml_dsa = [], p256 = []\<rparr>,
       m_stake = 1, m_seats = 1\<rparr>) [0..<4],
     c_total_seats = 4, c_by_address = Map.empty\<rparr>"

lemma wf_demo_committee [simp]: "wf_committee demo_committee"
  by (simp add: wf_committee_def demo_committee_def VALIDATOR_INDEX_MAX_def MAX_TOTAL_SEATS_def
      uint_max_def upt_rec)

lemma member_set_demo [simp]: "member_set demo_committee = {0, 1, 2, 3}"
  by (auto simp: member_set_def demo_committee_def)

lemma c_seats_demo: "i < 4 \<Longrightarrow> c_seats demo_committee i = 1"
  by (simp add: c_seats_def c_member_def demo_committee_def)

lemma demo_thresholds: "max_faulty demo_committee = 1" "c_total_seats demo_committee = 4"
  by (simp_all add: demo_committee_def max_faulty_def)

end
