(* ===== verification/Reliable_Broadcast.thy ===== *)
theory Reliable_Broadcast
  imports Committee
begin

text \<open>
  Signature-free reliable broadcast (\<^verbatim>\<open>crates/tenzro-consensus/src/rbc.rs\<close>): the instances of
  one validator, the handler of a proposal and of a signal with its loop-back of the signals the
  validator itself sends, restoring after a restart, and pruning. The arrays indexed by a signal
  kind are functions of the kind; logging is left out. The protocol among many validators is in
  \<open>Rbc_Network\<close>.
\<close>

section \<open>Signals, tallies and instances\<close>

datatype signal_kind = Echo | Vote | Ack | Ready

record signal =
  s_kind :: signal_kind
  s_round :: round
  s_source :: validator_index
  s_digest :: digest

datatype rbc_action =
    Broadcast signal
  | Deliver round validator_index digest

record tally =
  t_by_kind :: "signal_kind \<Rightarrow> seat_set"
  t_non_author :: "signal_kind \<Rightarrow> nat"

definition tally_default :: tally where
  "tally_default = \<lparr>t_by_kind = (\<lambda>_. ss_new), t_non_author = (\<lambda>_. 0)\<rparr>"

record rbc_instance =
  i_proposed :: "digest option"
  i_counted :: "signal_kind \<Rightarrow> seat_set"
  i_tallies :: "(digest \<times> tally) list"
  i_sent :: "signal_kind \<Rightarrow> digest option"
  i_delivered :: "digest option"

definition instance_default :: rbc_instance where
  "instance_default = \<lparr>i_proposed = None, i_counted = (\<lambda>_. ss_new), i_tallies = [],
     i_sent = (\<lambda>_. None), i_delivered = None\<rparr>"

record rbc_stats =
  fast_count :: nat
  slow_count :: nat

record reliable_broadcast =
  rb_me :: validator_index
  rb_instances :: "(round \<times> validator_index) \<rightharpoonup> rbc_instance"
  rb_floor :: round
  rb_stats :: rbc_stats

definition rbc_new :: "validator_index \<Rightarrow> reliable_broadcast" where
  "rbc_new me = \<lparr>rb_me = me, rb_instances = Map.empty, rb_floor = 0,
     rb_stats = \<lparr>fast_count = 0, slow_count = 0\<rparr>\<rparr>"

text \<open>\<open>Instance::tally\<close> with the change its caller makes to the tally it returns.\<close>

fun update_tally :: "digest \<Rightarrow> (tally \<Rightarrow> tally) \<Rightarrow> (digest \<times> tally) list \<Rightarrow> (digest \<times> tally) list" where
  "update_tally d f [] = [(d, f tally_default)]"
| "update_tally d f ((e, t) # ts) = (if e = d then (e, f t) # ts else (e, t) # update_tally d f ts)"

definition count_in :: "committee \<Rightarrow> validator_index \<Rightarrow> validator_index \<Rightarrow> signal_kind \<Rightarrow> tally \<Rightarrow> tally" where
  "count_in c sender source k t =
     t\<lparr>t_by_kind := (t_by_kind t)(k := snd (ss_insert (t_by_kind t k) sender (c_seats c sender))),
       t_non_author := (t_non_author t)(k := t_non_author t k + non_broadcaster_weight c sender source)\<rparr>"

definition instance_of :: "reliable_broadcast \<Rightarrow> round \<times> validator_index \<Rightarrow> rbc_instance" where
  "instance_of rb slot = (case rb_instances rb slot of None \<Rightarrow> instance_default | Some i \<Rightarrow> i)"

definition put_instance ::
  "reliable_broadcast \<Rightarrow> round \<times> validator_index \<Rightarrow> rbc_instance \<Rightarrow> reliable_broadcast" where
  "put_instance rb slot i = rb\<lparr>rb_instances := (rb_instances rb)(slot \<mapsto> i)\<rparr>"

section \<open>Handlers\<close>

text \<open>The closure \<open>send\<close> of \<open>on_signal\<close>, under the condition of its call.\<close>

definition send_if ::
  "bool \<Rightarrow> signal_kind \<Rightarrow> signal \<Rightarrow> rbc_instance \<times> rbc_action list \<times> signal_kind list
     \<Rightarrow> rbc_instance \<times> rbc_action list \<times> signal_kind list" where
  "send_if cond k sig = (\<lambda>(inst, out, loopback).
     if cond \<and> i_sent inst k = None
     then (inst\<lparr>i_sent := (i_sent inst)(k \<mapsto> s_digest sig)\<rparr>,
           out @ [Broadcast (sig\<lparr>s_kind := k\<rparr>)], loopback @ [k])
     else (inst, out, loopback))"

text \<open>What the tally of the signal's digest asks for, once the signal is counted.\<close>

definition react ::
  "committee \<Rightarrow> signal \<Rightarrow> rbc_instance \<Rightarrow> rbc_stats
     \<Rightarrow> rbc_instance \<times> rbc_stats \<times> rbc_action list \<times> signal_kind list" where
  "react c sig inst stats =
     (let t = the (map_of (i_tallies inst) (s_digest sig));
          echo = t_non_author t Echo;
          vote = t_non_author t Vote;
          ack = t_non_author t Ack;
          ready = ss_weight (t_by_kind t Ready);
          (inst, out, loopback) =
            send_if (rbc_ack_threshold c \<le> ack \<or> validity c \<le> ready) Ready sig
              (send_if (rbc_ack_threshold c \<le> echo \<or> rbc_ack_threshold c \<le> vote) Ack sig
                (send_if (rbc_vote_threshold c \<le> echo) Vote sig (inst, [], [])))
      in if i_delivered inst = None \<and> (rbc_fast_threshold c \<le> echo \<or> ready_delivery c \<le> ready)
         then (inst\<lparr>i_delivered := Some (s_digest sig)\<rparr>,
               if rbc_fast_threshold c \<le> echo then stats\<lparr>fast_count := fast_count stats + 1\<rparr>
               else stats\<lparr>slow_count := slow_count stats + 1\<rparr>,
               out @ [Deliver (s_round sig) (s_source sig) (s_digest sig)], loopback)
         else (inst, stats, out, loopback))"

text \<open>The body of \<open>on_signal\<close> up to its recursive calls, which are the last component.\<close>

definition signal_step ::
  "committee \<Rightarrow> validator_index \<Rightarrow> signal \<Rightarrow> reliable_broadcast
     \<Rightarrow> reliable_broadcast \<times> rbc_action list \<times> signal_kind list" where
  "signal_step c sender sig rb =
     (if s_round sig < rb_floor rb \<or> c_member c (s_source sig) = None \<or> c_member c sender = None
      then (rb, [], [])
      else let slot = (s_round sig, s_source sig);
               inst = instance_of rb slot;
               k = s_kind sig;
               (fresh, counted) = ss_insert (i_counted inst k) sender (c_seats c sender);
               inst = inst\<lparr>i_counted := (i_counted inst)(k := counted)\<rparr>
           in if \<not> fresh then (put_instance rb slot inst, [], [])
              else let inst = inst\<lparr>i_tallies :=
                         update_tally (s_digest sig) (count_in c sender (s_source sig) k) (i_tallies inst)\<rparr>;
                       (inst, stats, out, loopback) = react c sig inst (rb_stats rb)
                   in ((put_instance rb slot inst)\<lparr>rb_stats := stats\<rparr>, out, loopback))"

text \<open>
  \<open>on_signal\<close> calls itself on the signals it just sent. The recursion is bounded by fuel; the
  result is None when it runs out, which \<open>on_signal_total\<close> excludes for fuel 4.
\<close>

definition loop_back ::
  "(validator_index \<Rightarrow> signal \<Rightarrow> reliable_broadcast \<Rightarrow> (reliable_broadcast \<times> rbc_action list) option)
     \<Rightarrow> signal \<Rightarrow> (reliable_broadcast \<times> rbc_action list) option \<Rightarrow> signal_kind
     \<Rightarrow> (reliable_broadcast \<times> rbc_action list) option" where
  "loop_back handler sig acc k =
     (case acc of None \<Rightarrow> None | Some (rb, out) \<Rightarrow>
        (case handler (rb_me rb) (sig\<lparr>s_kind := k\<rparr>) rb of None \<Rightarrow> None
         | Some (rb', out') \<Rightarrow> Some (rb', out @ out')))"

primrec on_signal_fuel ::
  "nat \<Rightarrow> committee \<Rightarrow> validator_index \<Rightarrow> signal \<Rightarrow> reliable_broadcast
     \<Rightarrow> (reliable_broadcast \<times> rbc_action list) option" where
  "on_signal_fuel 0 c = (\<lambda>sender sig rb. None)"
| "on_signal_fuel (Suc n) c = (\<lambda>sender sig rb.
     case signal_step c sender sig rb of (rb', out, loopback) \<Rightarrow>
       foldl (loop_back (on_signal_fuel n c) sig) (Some (rb', out)) loopback)"

definition on_signal ::
  "committee \<Rightarrow> validator_index \<Rightarrow> signal \<Rightarrow> reliable_broadcast \<Rightarrow> reliable_broadcast \<times> rbc_action list" where
  "on_signal c sender sig rb =
     (case on_signal_fuel 4 c sender sig rb of None \<Rightarrow> (rb, []) | Some r \<Rightarrow> r)"

definition on_propose ::
  "committee \<Rightarrow> validator_index \<Rightarrow> round \<Rightarrow> validator_index \<Rightarrow> digest \<Rightarrow> reliable_broadcast
     \<Rightarrow> reliable_broadcast \<times> rbc_action list" where
  "on_propose c sender r source d rb =
     (if sender \<noteq> source \<or> r < rb_floor rb then (rb, [])
      else let inst = instance_of rb (r, source) in
        if i_proposed inst \<noteq> None then (put_instance rb (r, source) inst, [])
        else let inst = inst\<lparr>i_proposed := Some d\<rparr> in
          if c_size c = 1
          then ((put_instance rb (r, source) (inst\<lparr>i_delivered := Some d\<rparr>))
                  \<lparr>rb_stats := (rb_stats rb)\<lparr>fast_count := fast_count (rb_stats rb) + 1\<rparr>\<rparr>,
                [Deliver r source d])
          else let echo = \<lparr>s_kind = Echo, s_round = r, s_source = source, s_digest = d\<rparr>;
                   inst = inst\<lparr>i_sent := (i_sent inst)(Echo \<mapsto> d)\<rparr>;
                   (rb', out) = on_signal c (rb_me rb) echo (put_instance rb (r, source) inst)
               in (rb', Broadcast echo # out))"

definition rbc_proposed :: "reliable_broadcast \<Rightarrow> round \<Rightarrow> validator_index \<Rightarrow> digest option" where
  "rbc_proposed rb r source = Option.bind (rb_instances rb (r, source)) i_proposed"

definition rbc_delivered :: "reliable_broadcast \<Rightarrow> round \<Rightarrow> validator_index \<Rightarrow> digest option" where
  "rbc_delivered rb r source = Option.bind (rb_instances rb (r, source)) i_delivered"

definition restore_sent :: "committee \<Rightarrow> signal \<Rightarrow> reliable_broadcast \<Rightarrow> reliable_broadcast" where
  "restore_sent c sig rb =
     (if s_round sig < rb_floor rb \<or> c_member c (s_source sig) = None then rb
      else let slot = (s_round sig, s_source sig);
               me = rb_me rb; k = s_kind sig; d = s_digest sig;
               inst = instance_of rb slot;
               inst = inst\<lparr>i_sent := (i_sent inst)(k \<mapsto> d)\<rparr>;
               inst = (if k = Echo \<and> i_proposed inst = None then inst\<lparr>i_proposed := Some d\<rparr> else inst);
               (fresh, counted) = ss_insert (i_counted inst k) me (c_seats c me);
               inst = inst\<lparr>i_counted := (i_counted inst)(k := counted)\<rparr>
           in put_instance rb slot
                (if fresh then inst\<lparr>i_tallies := update_tally d (count_in c me (s_source sig) k) (i_tallies inst)\<rparr>
                 else inst))"

definition restore_delivered ::
  "round \<Rightarrow> validator_index \<Rightarrow> digest \<Rightarrow> reliable_broadcast \<Rightarrow> reliable_broadcast" where
  "restore_delivered r source d rb =
     (if r < rb_floor rb then rb
      else let inst = instance_of rb (r, source) in
        put_instance rb (r, source)
          (if i_delivered inst = None then inst\<lparr>i_delivered := Some d\<rparr> else inst))"

definition rbc_prune_below :: "round \<Rightarrow> reliable_broadcast \<Rightarrow> reliable_broadcast" where
  "rbc_prune_below r rb =
     (if r \<le> rb_floor rb then rb
      else rb\<lparr>rb_floor := r, rb_instances := rb_instances rb |` {slot. r \<le> fst slot}\<rparr>)"

text \<open>
  The queries over all instances. A hash map is iterated in an unspecified order: the model takes
  the list of the map's keys, and the sort makes the result independent of it.
\<close>

definition kind_index :: "signal_kind \<Rightarrow> nat" where
  "kind_index k = (case k of Echo \<Rightarrow> 0 | Vote \<Rightarrow> 1 | Ack \<Rightarrow> 2 | Ready \<Rightarrow> 3)"

definition sent_signals ::
  "(round \<times> validator_index) list \<Rightarrow> round \<Rightarrow> reliable_broadcast \<Rightarrow> signal list" where
  "sent_signals slots from_round rb =
     sort_key (\<lambda>s. (s_round s, s_source s, kind_index (s_kind s)))
       (concat (map (\<lambda>(r, source). List.map_filter
            (\<lambda>k. case i_sent (instance_of rb (r, source)) k of None \<Rightarrow> None
               | Some d \<Rightarrow> Some \<lparr>s_kind = k, s_round = r, s_source = source, s_digest = d\<rparr>)
            [Echo, Vote, Ack, Ready])
          (filter (\<lambda>slot. from_round \<le> fst slot) slots)))"

fun undelivered_from ::
  "(round \<times> validator_index) list \<Rightarrow> reliable_broadcast \<Rightarrow> (validator_index \<rightharpoonup> round)" where
  "undelivered_from [] rb = Map.empty"
| "undelivered_from ((r, source) # slots) rb =
     (let out = undelivered_from slots rb in
      if rb_floor rb \<le> r \<and> i_delivered (instance_of rb (r, source)) = None
      then out(source \<mapsto> (case out source of None \<Rightarrow> r | Some r' \<Rightarrow> min r' r))
      else out)"

section \<open>Termination of the loop-back\<close>

lemma map_of_update_tally:
  "map_of (update_tally d f ts) =
     (map_of ts)(d \<mapsto> f (case map_of ts d of None \<Rightarrow> tally_default | Some t \<Rightarrow> t))"
  by (induction d f ts rule: update_tally.induct) auto

definition unsent :: "rbc_instance \<Rightarrow> nat" where
  "unsent inst = length (filter (\<lambda>k. i_sent inst k = None) [Vote, Ack, Ready])"

lemma unsent_le: "unsent inst \<le> 3"
  by (simp add: unsent_def)

lemma unsent_fields [simp]:
  "unsent (inst\<lparr>i_counted := x\<rparr>) = unsent inst" "unsent (inst\<lparr>i_tallies := y\<rparr>) = unsent inst"
  "unsent (inst\<lparr>i_delivered := z\<rparr>) = unsent inst"
  by (simp_all add: unsent_def)

lemma unsent_send_if:
  assumes "send_if b k sig (inst, out, lb) = (inst', out', lb')" "k \<noteq> Echo"
  shows "unsent inst' + length lb' = unsent inst + length lb"
  using assms by (cases k) (auto simp: send_if_def unsent_def split: if_splits)

lemma unsent_react:
  assumes "react c sig inst stats = (inst', stats', out, lb)"
  shows "unsent inst' + length lb = unsent inst"
proof -
  define t where "t = the (map_of (i_tallies inst) (s_digest sig))"
  obtain i1 o1 l1 where 1: "send_if (rbc_vote_threshold c \<le> t_non_author t Echo) Vote sig (inst, [], []) = (i1, o1, l1)"
    by (metis prod_cases3)
  obtain i2 o2 l2 where 2: "send_if (rbc_ack_threshold c \<le> t_non_author t Echo
      \<or> rbc_ack_threshold c \<le> t_non_author t Vote) Ack sig (i1, o1, l1) = (i2, o2, l2)"
    by (metis prod_cases3)
  obtain i3 o3 l3 where 3: "send_if (rbc_ack_threshold c \<le> t_non_author t Ack
      \<or> validity c \<le> ss_weight (t_by_kind t Ready)) Ready sig (i2, o2, l2) = (i3, o3, l3)"
    by (metis prod_cases3)
  have "unsent inst' = unsent i3 \<and> lb = l3"
    using assms unfolding react_def t_def [symmetric] Let_def 1 2 3 by (auto split: if_splits)
  then show ?thesis
    using unsent_send_if [OF 1] unsent_send_if [OF 2] unsent_send_if [OF 3] by simp
qed

abbreviation slot_of :: "signal \<Rightarrow> round \<times> validator_index" where
  "slot_of sig \<equiv> (s_round sig, s_source sig)"

lemma instance_of_put [simp]: "instance_of (put_instance rb slot i) slot = i"
  by (simp add: instance_of_def put_instance_def)

lemma instance_of_stats [simp]: "instance_of (rb\<lparr>rb_stats := x\<rparr>) slot = instance_of rb slot"
  by (simp add: instance_of_def)

lemma put_instance_fields [simp]:
  "rb_me (put_instance rb slot i) = rb_me rb" "rb_floor (put_instance rb slot i) = rb_floor rb"
  "rb_stats (put_instance rb slot i) = rb_stats rb"
  "rb_instances (put_instance rb slot i) = (rb_instances rb)(slot \<mapsto> i)"
  by (simp_all add: put_instance_def)

lemma signal_step_unsent:
  assumes "signal_step c sender sig rb = (rb', out, lb)"
  shows "unsent (instance_of rb' (slot_of sig)) + length lb = unsent (instance_of rb (slot_of sig))"
  using assms unsent_react
  by (auto simp: signal_step_def Let_def split: if_splits prod.splits)

text \<open>Fuel above the number of signal kinds still unsent in the instance is enough.\<close>

lemma loop_back_None [simp]: "foldl (loop_back h sig) None ks = None"
  by (induction ks) (simp_all add: loop_back_def)

lemma slot_of_kind [simp]: "slot_of (sig\<lparr>s_kind := k\<rparr>) = slot_of sig"
  by simp

lemma on_signal_fuel_enough:
  "unsent (instance_of rb (slot_of sig)) < n \<Longrightarrow>
     \<exists>rb' out. on_signal_fuel n c sender sig rb = Some (rb', out)
       \<and> unsent (instance_of rb' (slot_of sig)) \<le> unsent (instance_of rb (slot_of sig))"
proof (induction n arbitrary: sender sig rb)
  case (Suc n)
  obtain rb1 out1 lb where step: "signal_step c sender sig rb = (rb1, out1, lb)"
    by (metis prod_cases3)
  let ?u = "\<lambda>rb. unsent (instance_of rb (slot_of sig))"
  have u1: "?u rb1 + length lb = ?u rb" using signal_step_unsent [OF step] .
  have "\<exists>rb' out'. foldl (loop_back (on_signal_fuel n c) sig) (Some (r, out)) ks = Some (rb', out')
      \<and> ?u rb' \<le> ?u r" if "ks \<noteq> [] \<longrightarrow> ?u r < n" for ks r out
    using that
  proof (induction ks arbitrary: r out)
    case (Cons k ks)
    obtain r' o' where call: "on_signal_fuel n c (rb_me r) (sig\<lparr>s_kind := k\<rparr>) r = Some (r', o')" "?u r' \<le> ?u r"
      using Suc.IH [of r "sig\<lparr>s_kind := k\<rparr>" "rb_me r"] Cons.prems by auto
    have "loop_back (on_signal_fuel n c) sig (Some (r, out)) k = Some (r', out @ o')"
      using call by (simp add: loop_back_def)
    then show ?case using Cons.IH [of r' "out @ o'"] Cons.prems call(2) by (auto intro: order_trans)
  qed simp
  from this [of lb rb1 out1] show ?case using step u1 Suc.prems by (cases lb) auto
qed simp

lemma on_signal_fuel_Suc:
  "on_signal_fuel n c sender sig rb = Some r \<Longrightarrow> on_signal_fuel (Suc n) c sender sig rb = Some r"
proof (induction n arbitrary: sender sig rb r)
  case (Suc n)
  obtain rb1 out1 lb where step: "signal_step c sender sig rb = (rb1, out1, lb)"
    by (metis prod_cases3)
  have "foldl (loop_back (on_signal_fuel n c) sig) acc ks = Some r \<Longrightarrow>
      foldl (loop_back (on_signal_fuel (Suc n) c) sig) acc ks = Some r" for acc ks
  proof (induction ks arbitrary: acc)
    case (Cons k ks)
    have "loop_back (on_signal_fuel n c) sig acc k \<noteq> None" using Cons.prems by (cases "loop_back (on_signal_fuel n c) sig acc k") auto
    then have "loop_back (on_signal_fuel (Suc n) c) sig acc k = loop_back (on_signal_fuel n c) sig acc k"
      using Suc.IH by (auto simp: loop_back_def split: option.splits simp del: on_signal_fuel.simps)
    then show ?case using Cons by simp
  qed simp
  then show ?case using Suc.prems step by (simp del: on_signal_fuel.simps add: on_signal_fuel.simps(2) [of n] on_signal_fuel.simps(2) [of "Suc n"])
qed simp

text \<open>
  Property C9. Handling a signal terminates: the loop-back of the validator's own signals is at
  most four calls deep, so \<open>on_signal\<close> is the result of its recursion at any larger depth.
\<close>

theorem on_signal_total:
  "on_signal_fuel (4 + n) c sender sig rb = Some (on_signal c sender sig rb)"
proof (induction n)
  case 0
  have "unsent (instance_of rb (slot_of sig)) < 4" using unsent_le [of "instance_of rb (slot_of sig)"] by simp
  then show ?case using on_signal_fuel_enough [of rb sig 4 c sender] by (auto simp: on_signal_def)
next
  case (Suc n)
  then show ?case using on_signal_fuel_Suc by (metis add_Suc_right)
qed

section \<open>What one signal does\<close>

text \<open>The threshold a tally has to reach for a signal to be sent, and for delivery.\<close>

definition asks :: "committee \<Rightarrow> tally \<Rightarrow> signal_kind \<Rightarrow> bool" where
  "asks c t k = (case k of
       Echo \<Rightarrow> False
     | Vote \<Rightarrow> rbc_vote_threshold c \<le> t_non_author t Echo
     | Ack \<Rightarrow> rbc_ack_threshold c \<le> t_non_author t Echo \<or> rbc_ack_threshold c \<le> t_non_author t Vote
     | Ready \<Rightarrow> rbc_ack_threshold c \<le> t_non_author t Ack \<or> validity c \<le> ss_weight (t_by_kind t Ready))"

definition asks_delivery :: "committee \<Rightarrow> tally \<Rightarrow> bool" where
  "asks_delivery c t \<longleftrightarrow>
     rbc_fast_threshold c \<le> t_non_author t Echo \<or> ready_delivery c \<le> ss_weight (t_by_kind t Ready)"

definition tally_of :: "rbc_instance \<Rightarrow> digest \<Rightarrow> tally" where
  "tally_of inst d = (case map_of (i_tallies inst) d of None \<Rightarrow> tally_default | Some t \<Rightarrow> t)"

definition broadcasts :: "rbc_action list \<Rightarrow> signal set" where
  "broadcasts out = {s. Broadcast s \<in> set out}"

definition deliveries :: "rbc_action list \<Rightarrow> (round \<times> validator_index \<times> digest) set" where
  "deliveries out = {(r, source, d). Deliver r source d \<in> set out}"

lemma broadcasts_code [code]:
  "broadcasts out = set (concat (map (\<lambda>a. case a of Broadcast s \<Rightarrow> [s] | _ \<Rightarrow> []) out))"
  by (auto simp: broadcasts_def split: rbc_action.splits intro!: bexI [of _ "Broadcast _"])

lemma deliveries_code [code]:
  "deliveries out = set (concat (map (\<lambda>a. case a of Deliver r p d \<Rightarrow> [(r, p, d)] | _ \<Rightarrow> []) out))"
  by (auto simp: deliveries_def split: rbc_action.splits intro!: bexI [of _ "Deliver _ _ _"])

lemma broadcasts_simps [simp]:
  "broadcasts [] = {}" "broadcasts (xs @ ys) = broadcasts xs \<union> broadcasts ys"
  "broadcasts (Broadcast s # xs) = insert s (broadcasts xs)"
  "broadcasts (Deliver r p d # xs) = broadcasts xs"
  by (auto simp: broadcasts_def)

lemma deliveries_simps [simp]:
  "deliveries [] = {}" "deliveries (xs @ ys) = deliveries xs \<union> deliveries ys"
  "deliveries (Broadcast s # xs) = deliveries xs"
  "deliveries (Deliver r p d # xs) = insert (r, p, d) (deliveries xs)"
  by (auto simp: deliveries_def)

lemma tally_of_fields [simp]:
  "tally_of (inst\<lparr>i_counted := x\<rparr>) = tally_of inst" "tally_of (inst\<lparr>i_sent := y\<rparr>) = tally_of inst"
  "tally_of (inst\<lparr>i_delivered := z\<rparr>) = tally_of inst" "tally_of (inst\<lparr>i_proposed := u\<rparr>) = tally_of inst"
  by (auto simp: tally_of_def)

lemma tally_of_update:
  "tally_of (inst\<lparr>i_tallies := update_tally d f (i_tallies inst)\<rparr>)
     = (tally_of inst)(d := f (tally_of inst d))"
  by (auto simp: tally_of_def map_of_update_tally)

lemma send_if_spec:
  assumes "send_if b k sig (inst, out, lb) = (inst', out', lb')"
  shows "i_proposed inst' = i_proposed inst" "i_counted inst' = i_counted inst"
    "i_tallies inst' = i_tallies inst" "i_delivered inst' = i_delivered inst"
    "i_sent inst' = (if b \<and> i_sent inst k = None then (i_sent inst)(k \<mapsto> s_digest sig) else i_sent inst)"
    "set lb' = set lb \<union> (if b \<and> i_sent inst k = None then {k} else {})"
    "broadcasts out' = broadcasts out \<union> (if b \<and> i_sent inst k = None then {sig\<lparr>s_kind := k\<rparr>} else {})"
    "deliveries out' = deliveries out"
  using assms by (auto simp: send_if_def split: if_splits)

lemma react_spec:
  assumes "react c sig inst stats = (inst', stats', out, lb)"
    and "map_of (i_tallies inst) (s_digest sig) \<noteq> None"
  defines "t \<equiv> tally_of inst (s_digest sig)"
  defines "deliver \<equiv> i_delivered inst = None \<and> asks_delivery c t"
  shows "i_proposed inst' = i_proposed inst" "i_counted inst' = i_counted inst"
    "tally_of inst' = tally_of inst"
    "set lb = {k. asks c t k \<and> i_sent inst k = None}"
    "i_sent inst' = (\<lambda>k. if k \<in> set lb then Some (s_digest sig) else i_sent inst k)"
    "broadcasts out = (\<lambda>k. sig\<lparr>s_kind := k\<rparr>) ` set lb"
    "i_delivered inst' = (if deliver then Some (s_digest sig) else i_delivered inst)"
    "deliveries out = (if deliver then {(s_round sig, s_source sig, s_digest sig)} else {})"
proof -
  have t: "the (map_of (i_tallies inst) (s_digest sig)) = t"
    using assms(2) by (auto simp: t_def tally_of_def)
  obtain i1 o1 l1 where 1: "send_if (asks c t Vote) Vote sig (inst, [], []) = (i1, o1, l1)"
    by (metis prod_cases3)
  obtain i2 o2 l2 where 2: "send_if (asks c t Ack) Ack sig (i1, o1, l1) = (i2, o2, l2)"
    by (metis prod_cases3)
  obtain i3 o3 l3 where 3: "send_if (asks c t Ready) Ready sig (i2, o2, l2) = (i3, o3, l3)"
    by (metis prod_cases3)
  note e1 = 1 [unfolded asks_def signal_kind.case] and e2 = 2 [unfolded asks_def signal_kind.case]
    and e3 = 3 [unfolded asks_def signal_kind.case]
  note specs = send_if_spec [OF 1] send_if_spec [OF 2] send_if_spec [OF 3]
  have fin: "inst' = (if deliver then i3\<lparr>i_delivered := Some (s_digest sig)\<rparr> else i3)" "lb = l3"
    "out = o3 @ (if deliver then [Deliver (s_round sig) (s_source sig) (s_digest sig)] else [])"
    using assms(1) specs(4,12,20)
    unfolding react_def t Let_def e1 e2 e3 deliver_def asks_delivery_def by (auto split: if_splits)
  have tallies: "tally_of i3 = tally_of inst" using specs(3,11,19) by (auto simp: tally_of_def)
  have unchanged: "i_sent i1 Ack = i_sent inst Ack" "i_sent i2 Ready = i_sent inst Ready"
    using specs(5,13) by simp_all
  define sends where "sends k = (if asks c t k \<and> i_sent inst k = None then {k} else {})" for k
  have l3: "set l3 = sends Vote \<union> sends Ack \<union> sends Ready"
    using specs(6,14,22) unfolding unchanged sends_def by simp
  have echo: "sends Echo = {}" by (simp add: sends_def asks_def)
  have kinds: "set l3 = {k. asks c t k \<and> i_sent inst k = None}"
  proof (rule set_eqI)
    fix k
    show "k \<in> set l3 \<longleftrightarrow> k \<in> {k. asks c t k \<and> i_sent inst k = None}"
      unfolding l3 using echo by (cases k) (simp_all add: sends_def split: if_splits)
  qed
  have sent: "i_sent i3 = (\<lambda>k. if k \<in> set l3 then Some (s_digest sig) else i_sent inst k)"
  proof
    fix k
    show "i_sent i3 k = (if k \<in> set l3 then Some (s_digest sig) else i_sent inst k)"
      unfolding l3 using specs(5,13,21) unfolding unchanged by (cases k) (simp_all add: sends_def)
  qed
  have bc: "broadcasts o3 = (\<lambda>k. sig\<lparr>s_kind := k\<rparr>) ` set l3"
    unfolding l3 using specs(7,15,23) unfolding unchanged by (simp add: sends_def)
  show "i_proposed inst' = i_proposed inst" "i_counted inst' = i_counted inst"
    "tally_of inst' = tally_of inst"
    using specs(1,2,9,10,17,18) tallies fin(1) by auto
  show "set lb = {k. asks c t k \<and> i_sent inst k = None}" using kinds fin(2) by simp
  show "i_sent inst' = (\<lambda>k. if k \<in> set lb then Some (s_digest sig) else i_sent inst k)"
    using sent fin by auto
  show "broadcasts out = (\<lambda>k. sig\<lparr>s_kind := k\<rparr>) ` set lb" using bc fin by auto
  show "i_delivered inst' = (if deliver then Some (s_digest sig) else i_delivered inst)"
    using specs(4,12,20) fin(1) by auto
  show "deliveries out = (if deliver then {(s_round sig, s_source sig, s_digest sig)} else {})"
    using specs(8,16,24) fin(3) by auto
qed

text \<open>The two outcomes of a signal: it changes nothing but the capacity of a bit set, or it is counted.\<close>

definition same_instance :: "rbc_instance \<Rightarrow> rbc_instance \<Rightarrow> bool" where
  "same_instance i j \<longleftrightarrow> i_proposed i = i_proposed j \<and> i_sent i = i_sent j
     \<and> i_delivered i = i_delivered j \<and> tally_of i = tally_of j
     \<and> (\<forall>k. ss_elems (i_counted i k) = ss_elems (i_counted j k))"

definition accepts :: "committee \<Rightarrow> validator_index \<Rightarrow> signal \<Rightarrow> reliable_broadcast \<Rightarrow> bool" where
  "accepts c sender sig rb \<longleftrightarrow> rb_floor rb \<le> s_round sig
     \<and> s_source sig \<in> member_set c \<and> sender \<in> member_set c"

definition is_counted :: "validator_index \<Rightarrow> signal \<Rightarrow> reliable_broadcast \<Rightarrow> bool" where
  "is_counted sender sig rb \<longleftrightarrow>
     sender \<in> ss_elems (i_counted (instance_of rb (slot_of sig)) (s_kind sig))"

lemma signal_step_stale:
  assumes "signal_step c sender sig rb = (rb', out, lb)"
    and "\<not> accepts c sender sig rb \<or> is_counted sender sig rb"
  shows "out = []" "lb = []" "rb_me rb' = rb_me rb" "rb_floor rb' = rb_floor rb"
    "same_instance (instance_of rb' slot) (instance_of rb slot)"
proof -
  let ?slot = "slot_of sig" and ?k = "s_kind sig"
  let ?inst = "instance_of rb ?slot"
  let ?ins = "ss_insert (i_counted ?inst ?k) sender (c_seats c sender)"
  have *: "(rb', out, lb) = (rb, [], []) \<or>
      is_counted sender sig rb
      \<and> (rb', out, lb) = (put_instance rb ?slot (?inst\<lparr>i_counted := (i_counted ?inst)(?k := snd ?ins)\<rparr>), [], [])"
    using assms seatset.ins_fst [of "i_counted ?inst ?k" sender "c_seats c sender"]
    unfolding signal_step_def accepts_def in_member_set_iff is_counted_def
    by (auto simp: Let_def not_le split: prod.splits if_splits)
  have "ss_elems (snd ?ins) = ss_elems (i_counted ?inst ?k)" if "is_counted sender sig rb"
    using that unfolding is_counted_def seatset.ins_elems by auto
  then show "out = []" "lb = []" "rb_me rb' = rb_me rb" "rb_floor rb' = rb_floor rb"
    "same_instance (instance_of rb' slot) (instance_of rb slot)"
    using * by (auto simp: same_instance_def instance_of_def split: if_splits)
qed

lemma signal_step_fresh:
  assumes "signal_step c sender sig rb = (rb', out, lb)"
    and "accepts c sender sig rb" "\<not> is_counted sender sig rb"
  defines "slot \<equiv> slot_of sig" and "k \<equiv> s_kind sig" and "d \<equiv> s_digest sig"
  defines "inst \<equiv> instance_of rb slot" and "inst' \<equiv> instance_of rb' slot"
  defines "t \<equiv> count_in c sender (s_source sig) k (tally_of inst d)"
  defines "deliver \<equiv> i_delivered inst = None \<and> asks_delivery c t"
  shows "rb_me rb' = rb_me rb" "rb_floor rb' = rb_floor rb"
    "other \<noteq> slot \<Longrightarrow> instance_of rb' other = instance_of rb other"
    "i_proposed inst' = i_proposed inst"
    "ss_elems (i_counted inst' j) = (if j = k then insert sender (ss_elems (i_counted inst k)) else ss_elems (i_counted inst j))"
    "tally_of inst' = (tally_of inst)(d := t)"
    "set lb = {k. asks c t k \<and> i_sent inst k = None}"
    "i_sent inst' = (\<lambda>k. if k \<in> set lb then Some d else i_sent inst k)"
    "broadcasts out = (\<lambda>k. sig\<lparr>s_kind := k\<rparr>) ` set lb"
    "i_delivered inst' = (if deliver then Some d else i_delivered inst)"
    "deliveries out = (if deliver then {(s_round sig, s_source sig, d)} else {})"
proof -
  let ?ins = "ss_insert (i_counted inst k) sender (c_seats c sender)"
  let ?inst1 = "inst\<lparr>i_counted := (i_counted inst)(k := snd ?ins)\<rparr>"
  let ?inst2 = "?inst1\<lparr>i_tallies := update_tally d (count_in c sender (s_source sig) k) (i_tallies ?inst1)\<rparr>"
  obtain i2 stats where
    react: "react c sig ?inst2 (rb_stats rb) = (i2, stats, out, lb)"
    and rb': "rb' = (put_instance rb slot i2)\<lparr>rb_stats := stats\<rparr>"
    using assms(1-3) seatset.ins_fst [of "i_counted inst k" sender "c_seats c sender"]
    unfolding signal_step_def accepts_def in_member_set_iff is_counted_def
      slot_def [symmetric] k_def [symmetric] d_def [symmetric]
    by (auto simp: Let_def not_le inst_def split: prod.splits if_splits)
  have i2: "inst' = i2" by (simp add: inst'_def rb')
  have t: "tally_of ?inst2 = (tally_of inst)(d := t)"
    unfolding tally_of_update by (simp add: t_def)
  have some: "map_of (i_tallies ?inst2) (s_digest sig) \<noteq> None"
    by (simp add: d_def map_of_update_tally)
  note spec = react_spec [OF react some, folded d_def, unfolded t, simplified]
  show "rb_me rb' = rb_me rb" "rb_floor rb' = rb_floor rb"
    "other \<noteq> slot \<Longrightarrow> instance_of rb' other = instance_of rb other"
    by (simp_all add: rb' instance_of_def)
  show "i_proposed inst' = i_proposed inst" using spec(1) by (simp add: i2)
  show "ss_elems (i_counted inst' j) = (if j = k then insert sender (ss_elems (i_counted inst k)) else ss_elems (i_counted inst j))"
    using spec(2) seatset.ins_elems [of "i_counted inst k" sender] by (simp add: i2)
  show "tally_of inst' = (tally_of inst)(d := t)"
    "set lb = {k. asks c t k \<and> i_sent inst k = None}"
    "i_sent inst' = (\<lambda>k. if k \<in> set lb then Some d else i_sent inst k)"
    "broadcasts out = (\<lambda>k. sig\<lparr>s_kind := k\<rparr>) ` set lb"
    "i_delivered inst' = (if deliver then Some d else i_delivered inst)"
    "deliveries out = (if deliver then {(s_round sig, s_source sig, d)} else {})"
    using spec(3-) unfolding i2 deliver_def by (simp_all cong: if_cong)
qed

text \<open>
  An invariant of the state and the actions so far that every counted signal keeps is kept by the
  whole handler, loop-back included.
\<close>

lemma signal_step_me: "signal_step c sender sig rb = (rb', out, lb) \<Longrightarrow> rb_me rb' = rb_me rb"
  using signal_step_stale(3) signal_step_fresh(1) by blast

lemma on_signal_fuel_preserves:
  assumes step: "\<And>sender sig rb acts rb' out lb. I rb acts \<Longrightarrow> ok sender sig acts \<Longrightarrow>
      signal_step c sender sig rb = (rb', out, lb) \<Longrightarrow>
      I rb' (acts @ out) \<and> (\<forall>k \<in> set lb. ok (rb_me rb') (sig\<lparr>s_kind := k\<rparr>) (acts @ out))"
    and mono: "\<And>sender sig acts out. ok sender sig acts \<Longrightarrow> ok sender sig (acts @ out)"
  shows "on_signal_fuel n c sender sig rb = Some (rb', out) \<Longrightarrow> I rb acts \<Longrightarrow> ok sender sig acts \<Longrightarrow>
    I rb' (acts @ out) \<and> rb_me rb' = rb_me rb"
proof (induction n arbitrary: sender sig rb rb' out acts)
  case (Suc n)
  obtain rb1 out1 lb where s: "signal_step c sender sig rb = (rb1, out1, lb)"
    by (metis prod_cases3)
  have "foldl (loop_back (on_signal_fuel n c) sig) (Some (r, o1)) ks = Some (r', o') \<Longrightarrow>
      I r (acts @ o1) \<Longrightarrow> \<forall>k \<in> set ks. ok (rb_me r) (sig\<lparr>s_kind := k\<rparr>) (acts @ o1) \<Longrightarrow>
      I r' (acts @ o') \<and> rb_me r' = rb_me r" for ks r o1 r' o'
  proof (induction ks arbitrary: r o1)
    case (Cons k ks)
    have "loop_back (on_signal_fuel n c) sig (Some (r, o1)) k \<noteq> None"
      using Cons.prems(1) by (cases "loop_back (on_signal_fuel n c) sig (Some (r, o1)) k") auto
    then obtain r2 o2 where call: "on_signal_fuel n c (rb_me r) (sig\<lparr>s_kind := k\<rparr>) r = Some (r2, o2)"
      and lb: "loop_back (on_signal_fuel n c) sig (Some (r, o1)) k = Some (r2, o1 @ o2)"
      by (auto simp: loop_back_def split: option.splits)
    have "I r2 (acts @ o1 @ o2) \<and> rb_me r2 = rb_me r"
      using Suc.IH [OF call Cons.prems(2)] Cons.prems(3) by simp
    moreover have "\<forall>k \<in> set ks. ok (rb_me r) (sig\<lparr>s_kind := k\<rparr>) (acts @ o1 @ o2)"
      using Cons.prems(3) mono [of _ _ "acts @ o1" o2] by simp
    ultimately show ?case using Cons.IH [of r2 "o1 @ o2"] Cons.prems(1) lb by simp
  qed simp
  moreover have "foldl (loop_back (on_signal_fuel n c) sig) (Some (rb1, out1)) lb = Some (rb', out)"
    using Suc.prems(1) s by simp
  ultimately show ?case
    using step [OF Suc.prems(2,3) s] signal_step_me [OF s] by metis
qed simp

lemma on_signal_preserves:
  assumes "\<And>sender sig rb acts rb' out lb. I rb acts \<Longrightarrow> ok sender sig acts \<Longrightarrow>
      signal_step c sender sig rb = (rb', out, lb) \<Longrightarrow>
      I rb' (acts @ out) \<and> (\<forall>k \<in> set lb. ok (rb_me rb') (sig\<lparr>s_kind := k\<rparr>) (acts @ out))"
    and "\<And>sender sig acts out. ok sender sig acts \<Longrightarrow> ok sender sig (acts @ out)"
    and "on_signal c sender sig rb = (rb', out)" "I rb acts" "ok sender sig acts"
  shows "I rb' (acts @ out)"
  using on_signal_fuel_preserves [of I ok c 4, OF assms(1,2)] on_signal_total [of 0 c sender sig rb]
    assms(3-5) by simp

end
