(* ===== verification/Rbc_Network.thy ===== *)
theory Rbc_Network
  imports Reliable_Broadcast
begin

text \<open>
  Reliable broadcast among the validators of a committee: every honest validator runs the
  handlers of \<open>Reliable_Broadcast\<close>, every other member may send anything to anyone. Channels are
  authenticated, so a message is only ever taken from an honest member that sent it; nothing is
  assumed of delays, order or loss. The steps of the network are an inductive relation, and the
  guarantees of the broadcast are invariants of its reachable states.
\<close>

section \<open>The network\<close>

record net =
  nodes :: "validator_index \<Rightarrow> reliable_broadcast"
  sigs :: "(validator_index \<times> signal) set"
  dels :: "(validator_index \<times> round \<times> validator_index \<times> digest) set"
  props :: "validator_index \<Rightarrow> round \<Rightarrow> digest option"

definition net_init :: net where
  "net_init = \<lparr>nodes = rbc_new, sigs = {}, dels = {}, props = (\<lambda>_ _. None)\<rparr>"

text \<open>A validator's new state and the actions its handler returned, carried out.\<close>

definition emit :: "validator_index \<Rightarrow> reliable_broadcast \<Rightarrow> rbc_action list \<Rightarrow> net \<Rightarrow> net" where
  "emit p rb out s = s\<lparr>nodes := (nodes s)(p := rb),
     sigs := sigs s \<union> Pair p ` broadcasts out,
     dels := dels s \<union> Pair p ` deliveries out\<rparr>"

inductive net_step :: "committee \<Rightarrow> validator_index set \<Rightarrow> net \<Rightarrow> net \<Rightarrow> bool"
  for c H where
  propose: "p \<in> H \<Longrightarrow> props s p r = None \<Longrightarrow>
     on_propose c p r p d (nodes s p) = (rb, out) \<Longrightarrow>
     net_step c H s (emit p rb out (s\<lparr>props := (props s)(p := (props s p)(r \<mapsto> d))\<rparr>))"
| recv_propose: "p \<in> H \<Longrightarrow> author \<in> member_set c \<Longrightarrow> (author \<in> H \<Longrightarrow> props s author r = Some d) \<Longrightarrow>
     on_propose c author r author d (nodes s p) = (rb, out) \<Longrightarrow>
     net_step c H s (emit p rb out s)"
| recv_signal: "p \<in> H \<Longrightarrow> (q \<in> H \<Longrightarrow> (q, sig) \<in> sigs s) \<Longrightarrow>
     on_signal c q sig (nodes s p) = (rb, out) \<Longrightarrow>
     net_step c H s (emit p rb out s)"
| prune: "p \<in> H \<Longrightarrow> net_step c H s (emit p (rbc_prune_below r (nodes s p)) [] s)"

inductive net_reachable :: "committee \<Rightarrow> validator_index set \<Rightarrow> net \<Rightarrow> bool" for c H where
  init: "net_reachable c H net_init"
| step: "net_reachable c H s \<Longrightarrow> net_step c H s s' \<Longrightarrow> net_reachable c H s'"

text \<open>The fault bound of the protocol: the members outside \<open>H\<close> hold at most \<open>max_faulty\<close> seats.\<close>

definition fault_bound :: "committee \<Rightarrow> validator_index set \<Rightarrow> bool" where
  "fault_bound c H \<longleftrightarrow> wf_committee c \<and> H \<subseteq> member_set c
     \<and> sum (c_seats c) (member_set c - H) \<le> max_faulty c"

section \<open>Invariants\<close>

abbreviation sig_at :: "signal_kind \<Rightarrow> round \<times> validator_index \<Rightarrow> digest \<Rightarrow> signal" where
  "sig_at k slot d \<equiv> \<lparr>s_kind = k, s_round = fst slot, s_source = snd slot, s_digest = d\<rparr>"

definition tally_ok :: "committee \<Rightarrow> validator_index set \<Rightarrow> (validator_index \<times> signal) set
    \<Rightarrow> round \<times> validator_index \<Rightarrow> rbc_instance \<Rightarrow> digest \<Rightarrow> signal_kind \<Rightarrow> bool" where
  "tally_ok c H S slot inst d k \<longleftrightarrow>
     (let t = tally_of inst d; A = ss_elems (t_by_kind t k) in
       A \<subseteq> member_set c \<and> A \<subseteq> ss_elems (i_counted inst k)
       \<and> ss_weight (t_by_kind t k) = sum (c_seats c) A
       \<and> t_non_author t k = (\<Sum>q \<in> A. non_broadcaster_weight c q (snd slot))
       \<and> (\<forall>q \<in> A \<inter> H. (q, sig_at k slot d) \<in> S))"

definition node_ok :: "committee \<Rightarrow> validator_index set \<Rightarrow> net \<Rightarrow> validator_index \<Rightarrow> bool" where
  "node_ok c H s p \<longleftrightarrow>
     (let rb = nodes s p in
       rb_me rb = p
       \<and> (\<forall>slot d k. tally_ok c H (sigs s) slot (instance_of rb slot) d k)
       \<and> (\<forall>slot. i_sent (instance_of rb slot) Echo \<noteq> None \<longrightarrow> i_proposed (instance_of rb slot) \<noteq> None)
       \<and> (\<forall>slot k d. (p, sig_at k slot d) \<in> sigs s \<longrightarrow> rb_floor rb \<le> fst slot \<longrightarrow>
             i_sent (instance_of rb slot) k = Some d)
       \<and> (\<forall>slot d. (p, fst slot, snd slot, d) \<in> dels s \<longrightarrow> rb_floor rb \<le> fst slot \<longrightarrow>
             i_delivered (instance_of rb slot) = Some d)
       \<and> (c_size c = 1 \<longrightarrow> (\<forall>slot. i_delivered (instance_of rb slot) \<noteq> None \<longrightarrow>
             i_proposed (instance_of rb slot) \<noteq> None)))"

text \<open>Some members of the given weight sent the signal, the honest ones among them truly.\<close>

definition supported :: "committee \<Rightarrow> validator_index set \<Rightarrow> (validator_index \<times> signal) set
    \<Rightarrow> (validator_index \<Rightarrow> nat) \<Rightarrow> nat \<Rightarrow> signal \<Rightarrow> bool" where
  "supported c H S w bar sig \<longleftrightarrow>
     (\<exists>A \<subseteq> member_set c. bar \<le> sum w A \<and> (\<forall>q \<in> A \<inter> H. (q, sig) \<in> S))"

abbreviation nbw :: "committee \<Rightarrow> round \<times> validator_index \<Rightarrow> validator_index \<Rightarrow> nat" where
  "nbw c slot \<equiv> \<lambda>q. non_broadcaster_weight c q (snd slot)"

definition justified :: "committee \<Rightarrow> validator_index set \<Rightarrow> net \<Rightarrow> signal_kind
    \<Rightarrow> round \<times> validator_index \<Rightarrow> digest \<Rightarrow> bool" where
  "justified c H s k slot d \<longleftrightarrow>
     (let sup = \<lambda>j bar. supported c H (sigs s) (nbw c slot) bar (sig_at j slot d) in
      case k of
        Echo \<Rightarrow> snd slot \<in> H \<longrightarrow> props s (snd slot) (fst slot) = Some d
      | Vote \<Rightarrow> sup Echo (rbc_vote_threshold c)
      | Ack \<Rightarrow> sup Echo (rbc_ack_threshold c) \<or> sup Vote (rbc_ack_threshold c)
      | Ready \<Rightarrow> sup Ack (rbc_ack_threshold c))"

definition sound :: "committee \<Rightarrow> validator_index set \<Rightarrow> net \<Rightarrow> round \<times> validator_index \<Rightarrow> digest \<Rightarrow> bool" where
  "sound c H s slot d \<longleftrightarrow> snd slot \<in> member_set c
     \<and> (member_set c \<subseteq> H \<longrightarrow> props s (snd slot) (fst slot) = Some d)"

definition sigs_ok :: "committee \<Rightarrow> validator_index set \<Rightarrow> net \<Rightarrow> bool" where
  "sigs_ok c H s \<longleftrightarrow>
     (\<forall>p k slot d. (p, sig_at k slot d) \<in> sigs s \<longrightarrow>
        p \<in> H \<and> sound c H s slot d \<and> justified c H s k slot d
        \<and> (\<forall>d'. (p, sig_at k slot d') \<in> sigs s \<longrightarrow> d' = d))
     \<and> (c_size c = 1 \<longrightarrow> sigs s = {})"

definition delivery_justified :: "committee \<Rightarrow> validator_index set \<Rightarrow> net
    \<Rightarrow> round \<times> validator_index \<Rightarrow> digest \<Rightarrow> bool" where
  "delivery_justified c H s slot d \<longleftrightarrow> c_size c = 1
     \<or> supported c H (sigs s) (nbw c slot) (rbc_fast_threshold c) (sig_at Echo slot d)
     \<or> supported c H (sigs s) (c_seats c) (ready_delivery c) (sig_at Ready slot d)"

definition dels_ok :: "committee \<Rightarrow> validator_index set \<Rightarrow> net \<Rightarrow> bool" where
  "dels_ok c H s \<longleftrightarrow>
     (\<forall>p slot d. (p, fst slot, snd slot, d) \<in> dels s \<longrightarrow>
        p \<in> H \<and> sound c H s slot d \<and> delivery_justified c H s slot d
        \<and> (\<forall>d'. (p, fst slot, snd slot, d') \<in> dels s \<longrightarrow> d' = d))"

definition net_inv :: "committee \<Rightarrow> validator_index set \<Rightarrow> net \<Rightarrow> bool" where
  "net_inv c H s \<longleftrightarrow> (\<forall>p \<in> H. node_ok c H s p) \<and> sigs_ok c H s \<and> dels_ok c H s"

lemma sigs_okD:
  assumes "net_inv c H s" "(p, sig_at k slot d) \<in> sigs s"
  shows "p \<in> H" "sound c H s slot d" "justified c H s k slot d" "c_size c \<noteq> 1"
    "(p, sig_at k slot d') \<in> sigs s \<Longrightarrow> d' = d"
  using assms unfolding net_inv_def sigs_ok_def by (blast, blast, blast, fast, blast)

lemma dels_okD:
  assumes "net_inv c H s" "(p, fst slot, snd slot, d) \<in> dels s"
  shows "p \<in> H" "sound c H s slot d" "delivery_justified c H s slot d"
    "(p, fst slot, snd slot, d') \<in> dels s \<Longrightarrow> d' = d"
  using assms unfolding net_inv_def dels_ok_def by blast+

section \<open>Monotonicity\<close>

definition grows :: "net \<Rightarrow> net \<Rightarrow> bool" where
  "grows s s' \<longleftrightarrow> sigs s \<subseteq> sigs s' \<and> dels s \<subseteq> dels s'
     \<and> (\<forall>p r d. props s p r = Some d \<longrightarrow> props s' p r = Some d)"

lemma supported_mono: "supported c H S w bar sig \<Longrightarrow> S \<subseteq> S' \<Longrightarrow> supported c H S' w bar sig"
  unfolding supported_def by blast

lemma justified_mono: "justified c H s k slot d \<Longrightarrow> grows s s' \<Longrightarrow> justified c H s' k slot d"
  unfolding justified_def grows_def Let_def
  by (cases k) (auto intro: supported_mono)

lemma sound_mono: "sound c H s slot d \<Longrightarrow> grows s s' \<Longrightarrow> sound c H s' slot d"
  unfolding sound_def grows_def by blast

lemma delivery_justified_mono:
  "delivery_justified c H s slot d \<Longrightarrow> grows s s' \<Longrightarrow> delivery_justified c H s' slot d"
  unfolding delivery_justified_def grows_def using supported_mono by blast

lemma tally_ok_mono: "tally_ok c H S slot inst d k \<Longrightarrow> S \<subseteq> S' \<Longrightarrow> tally_ok c H S' slot inst d k"
  unfolding tally_ok_def Let_def by blast

lemma emit_fields [simp]:
  "nodes (emit p rb out s) = (nodes s)(p := rb)"
  "sigs (emit p rb out s) = sigs s \<union> Pair p ` broadcasts out"
  "dels (emit p rb out s) = dels s \<union> Pair p ` deliveries out"
  "props (emit p rb out s) = props s"
  by (simp_all add: emit_def)

lemma grows_emit: "grows s (emit p rb out s)"
  by (auto simp: grows_def)

lemma emit_emit: "emit p rb' out (emit p rb acts s) = emit p rb' (acts @ out) s"
  by (simp add: emit_def image_Un Un_assoc)

lemma emit_same: "emit p (nodes s p) [] s = s"
  by (simp add: emit_def)

lemma signal_eq: "sig = sig_at (s_kind sig) (slot_of sig) (s_digest sig)"
  by simp

lemma signal_kind_eq: "sig\<lparr>s_kind := k\<rparr> = sig_at k (slot_of sig) (s_digest sig)"
  by (cases sig) simp

text \<open>Other validators are not affected by what one of them does.\<close>

lemma node_ok_other:
  assumes "node_ok c H s q" "q \<noteq> p" "grows s s'" "nodes s' q = nodes s q"
    and "\<And>sig. (q, sig) \<in> sigs s' \<Longrightarrow> (q, sig) \<in> sigs s" "\<And>x. (q, x) \<in> dels s' \<Longrightarrow> (q, x) \<in> dels s"
  shows "node_ok c H s' q"
proof -
  have "sigs s \<subseteq> sigs s'" using assms(3) by (simp add: grows_def)
  then show ?thesis
    using assms(1,4-6) tally_ok_mono unfolding node_ok_def Let_def by metis
qed

text \<open>
  What a handler's result has to satisfy for the network's invariant to survive it: the
  validator's own state, and each new signal and delivery.
\<close>

definition new_sig_ok :: "committee \<Rightarrow> validator_index set \<Rightarrow> net \<Rightarrow> validator_index
    \<Rightarrow> signal_kind \<Rightarrow> round \<times> validator_index \<Rightarrow> digest \<Rightarrow> bool" where
  "new_sig_ok c H s p k slot d \<longleftrightarrow> c_size c \<noteq> 1 \<and> sound c H s slot d \<and> justified c H s k slot d
     \<and> (\<forall>d'. (p, sig_at k slot d') \<notin> sigs s)"

definition new_del_ok :: "committee \<Rightarrow> validator_index set \<Rightarrow> net \<Rightarrow> validator_index
    \<Rightarrow> round \<times> validator_index \<Rightarrow> digest \<Rightarrow> bool" where
  "new_del_ok c H s p slot d \<longleftrightarrow> sound c H s slot d \<and> delivery_justified c H s slot d
     \<and> (\<forall>d'. (p, fst slot, snd slot, d') \<notin> dels s)"

lemma emit_inv:
  assumes inv: "net_inv c H s" and p: "p \<in> H"
    and node: "node_ok c H (emit p rb out s) p"
    and bc: "broadcasts out = (\<lambda>k. sig_at k slot d) ` K" "\<And>k. k \<in> K \<Longrightarrow> new_sig_ok c H s p k slot d"
    and del: "deliveries out \<subseteq> {(fst slot, snd slot, d)}"
      "deliveries out \<noteq> {} \<Longrightarrow> new_del_ok c H s p slot d"
  shows "net_inv c H (emit p rb out s)"
proof -
  let ?s = "emit p rb out s"
  have g: "grows s ?s" by (rule grows_emit)
  have "node_ok c H ?s q" if "q \<in> H" for q
  proof (cases "q = p")
    case False
    have "node_ok c H s q" using inv that by (simp add: net_inv_def)
    then show ?thesis by (rule node_ok_other [OF _ False g]) (use False in auto)
  qed (simp add: node)
  moreover have "sigs_ok c H ?s"
    unfolding sigs_ok_def
  proof (intro conjI allI impI)
    fix q k slot' d' assume m: "(q, sig_at k slot' d') \<in> sigs ?s"
    have old: "(q, sig_at k slot' d') \<in> sigs s \<or> q = p \<and> slot' = slot \<and> d' = d \<and> k \<in> K"
      using m bc(1) by (auto simp: prod_eq_iff)
    have "q \<in> H \<and> sound c H s slot' d' \<and> justified c H s k slot' d'"
    proof (cases "(q, sig_at k slot' d') \<in> sigs s")
      case True
      then show ?thesis using sigs_okD(1-3) [OF inv True] by blast
    next
      case False
      then show ?thesis using old p bc(2) [of k] by (simp add: new_sig_ok_def)
    qed
    then show "q \<in> H" "sound c H ?s slot' d'" "justified c H ?s k slot' d'"
      using sound_mono [OF _ g] justified_mono [OF _ g] by simp_all
    fix d'' assume m': "(q, sig_at k slot' d'') \<in> sigs ?s"
    have old': "(q, sig_at k slot' d'') \<in> sigs s \<or> q = p \<and> slot' = slot \<and> d'' = d \<and> k \<in> K"
      using m' bc(1) by (auto simp: prod_eq_iff)
    show "d'' = d'"
    proof (cases "(q, sig_at k slot' d') \<in> sigs s")
      case True
      then show ?thesis using sigs_okD(5) [OF inv True, of d''] old' bc(2) [of k, unfolded new_sig_ok_def] by blast
    next
      case False
      then show ?thesis using old old' bc(2) [of k, unfolded new_sig_ok_def] by blast
    qed
  next
    assume "c_size c = 1"
    then show "sigs ?s = {}"
      using inv bc by (auto simp: net_inv_def sigs_ok_def new_sig_ok_def)
  qed
  moreover have "dels_ok c H ?s"
    unfolding dels_ok_def
  proof (intro conjI allI impI)
    fix q slot' d' assume m: "(q, fst slot', snd slot', d') \<in> dels ?s"
    have old: "(q, fst slot', snd slot', d') \<in> dels s \<or> q = p \<and> slot' = slot \<and> d' = d \<and> deliveries out \<noteq> {}"
      using m del(1) by (auto simp: prod_eq_iff)
    have "q \<in> H \<and> sound c H s slot' d' \<and> delivery_justified c H s slot' d'"
    proof (cases "(q, fst slot', snd slot', d') \<in> dels s")
      case True
      then show ?thesis using dels_okD(1-3) [OF inv True] by blast
    next
      case False
      then show ?thesis using old p del(2) by (simp add: new_del_ok_def)
    qed
    then show "q \<in> H" "sound c H ?s slot' d'" "delivery_justified c H ?s slot' d'"
      using sound_mono [OF _ g] delivery_justified_mono [OF _ g] by simp_all
    fix d'' assume m': "(q, fst slot', snd slot', d'') \<in> dels ?s"
    have old': "(q, fst slot', snd slot', d'') \<in> dels s \<or> q = p \<and> slot' = slot \<and> d'' = d \<and> deliveries out \<noteq> {}"
      using m' del(1) by (auto simp: prod_eq_iff)
    show "d'' = d'"
    proof (cases "(q, fst slot', snd slot', d') \<in> dels s")
      case True
      then show ?thesis using dels_okD(4) [OF inv True, of d''] old' del(2) [unfolded new_del_ok_def] by blast
    next
      case False
      then show ?thesis using old old' del(2) [unfolded new_del_ok_def] by blast
    qed
  qed
  ultimately show ?thesis by (simp add: net_inv_def)
qed

section \<open>Handling a signal keeps the invariant\<close>

lemma tally_ok_supports:
  assumes "tally_ok c H S slot inst d k"
  shows "bar \<le> t_non_author (tally_of inst d) k \<Longrightarrow> supported c H S (nbw c slot) bar (sig_at k slot d)"
    and "bar \<le> ss_weight (t_by_kind (tally_of inst d) k) \<Longrightarrow> supported c H S (c_seats c) bar (sig_at k slot d)"
  using assms unfolding tally_ok_def supported_def Let_def by metis+

lemma supported_honest:
  assumes "fault_bound c H" "supported c H S (c_seats c) bar sig" "max_faulty c < bar"
  shows "\<exists>q \<in> H. (q, sig) \<in> S"
proof -
  obtain A where A: "A \<subseteq> member_set c" "bar \<le> sum (c_seats c) A" "\<forall>q \<in> A \<inter> H. (q, sig) \<in> S"
    using assms(2) unfolding supported_def by blast
  have "sum (c_seats c) ((- H) \<inter> member_set c) \<le> max_faulty c"
    using assms(1) by (simp add: fault_bound_def Diff_eq Int_commute)
  then obtain q where "q \<in> A" "q \<notin> - H"
    using cq.weight_has_honest [of c A "- H"] A assms(1,3) by (auto simp: fault_bound_def)
  then show ?thesis using A(3) by auto
qed

lemma asks_justified:
  assumes "net_inv c H s" "fault_bound c H" "\<And>k. tally_ok c H (sigs s) slot inst d k"
    and "asks c (tally_of inst d) k"
  shows "justified c H s k slot d"
proof (cases k)
  case Ready
  note sup = tally_ok_supports [OF assms(3)]
  consider "rbc_ack_threshold c \<le> t_non_author (tally_of inst d) Ack"
    | "validity c \<le> ss_weight (t_by_kind (tally_of inst d) Ready)"
    using assms(4) Ready by (auto simp: asks_def)
  then show ?thesis
  proof cases
    case 1
    then show ?thesis using sup(1) Ready by (simp add: justified_def)
  next
    case 2
    then obtain q where "(q, sig_at Ready slot d) \<in> sigs s"
      using supported_honest [OF assms(2) sup(2) [OF 2]] by (auto simp: validity_def)
    then show ?thesis using sigs_okD(3) [OF assms(1)] Ready by blast
  qed
qed (use assms(4) tally_ok_supports(1) [OF assms(3)] in \<open>auto simp: asks_def justified_def\<close>)

lemma asks_delivery_justified:
  assumes "\<And>k. tally_ok c H (sigs s) slot inst d k" "asks_delivery c (tally_of inst d)"
  shows "delivery_justified c H s slot d"
  using assms(2) tally_ok_supports [OF assms(1)] unfolding asks_delivery_def delivery_justified_def by blast

text \<open>Counting a signal from a member not counted yet.\<close>

lemma tally_ok_count:
  assumes ok: "tally_ok c H S slot inst d k" and q: "q \<in> member_set c" "q \<in> H \<Longrightarrow> (q, sig_at k slot d) \<in> S"
    and new: "q \<notin> ss_elems (i_counted inst k)"
    and counted: "ss_elems (i_counted inst' k) = insert q (ss_elems (i_counted inst k))"
    and tally: "tally_of inst' d = count_in c q (snd slot) k (tally_of inst d)"
  shows "tally_ok c H S slot inst' d k"
proof -
  let ?A = "ss_elems (t_by_kind (tally_of inst d) k)"
  have A: "q \<notin> ?A" "finite ?A" "?A \<subseteq> member_set c"
    using ok new finite_subset [of ?A "member_set c"] by (auto simp: tally_ok_def Let_def member_set_def)
  have elems: "ss_elems (t_by_kind (tally_of inst' d) k) = insert q ?A"
    using seatset.ins_elems tally by (simp add: count_in_def)
  have "ss_weight (t_by_kind (tally_of inst' d) k) = ss_weight (t_by_kind (tally_of inst d) k) + c_seats c q"
    using seatset.ins_weight [of "t_by_kind (tally_of inst d) k" q] A(1) tally by (simp add: count_in_def)
  moreover have "t_non_author (tally_of inst' d) k
      = t_non_author (tally_of inst d) k + non_broadcaster_weight c q (snd slot)"
    using tally by (simp add: count_in_def)
  ultimately show ?thesis
    using ok q A counted unfolding tally_ok_def Let_def elems by auto
qed

lemma tally_ok_unchanged:
  assumes "tally_ok c H S slot inst d k" "S \<subseteq> S'"
    and "ss_elems (i_counted inst k) \<subseteq> ss_elems (i_counted inst' k)"
    and "t_by_kind (tally_of inst' d) k = t_by_kind (tally_of inst d) k"
      "t_non_author (tally_of inst' d) k = t_non_author (tally_of inst d) k"
  shows "tally_ok c H S' slot inst' d k"
  using assms unfolding tally_ok_def Let_def by auto

lemma node_okD:
  assumes "net_inv c H s" "p \<in> H"
  shows "rb_me (nodes s p) = p"
    "tally_ok c H (sigs s) slot (instance_of (nodes s p) slot) d k"
    "i_sent (instance_of (nodes s p) slot) Echo \<noteq> None \<Longrightarrow> i_proposed (instance_of (nodes s p) slot) \<noteq> None"
    "(p, sig_at k slot d) \<in> sigs s \<Longrightarrow> rb_floor (nodes s p) \<le> fst slot \<Longrightarrow>
       i_sent (instance_of (nodes s p) slot) k = Some d"
    "(p, fst slot, snd slot, d) \<in> dels s \<Longrightarrow> rb_floor (nodes s p) \<le> fst slot \<Longrightarrow>
       i_delivered (instance_of (nodes s p) slot) = Some d"
    "c_size c = 1 \<Longrightarrow> i_delivered (instance_of (nodes s p) slot) \<noteq> None \<Longrightarrow>
       i_proposed (instance_of (nodes s p) slot) \<noteq> None"
  using assms unfolding net_inv_def node_ok_def Let_def by blast+

lemma node_okI:
  assumes "rb_me (nodes s p) = p"
    and "\<And>slot d k. tally_ok c H (sigs s) slot (instance_of (nodes s p) slot) d k"
    and "\<And>slot. i_sent (instance_of (nodes s p) slot) Echo \<noteq> None \<Longrightarrow> i_proposed (instance_of (nodes s p) slot) \<noteq> None"
    and "\<And>slot k d. (p, sig_at k slot d) \<in> sigs s \<Longrightarrow> rb_floor (nodes s p) \<le> fst slot \<Longrightarrow>
       i_sent (instance_of (nodes s p) slot) k = Some d"
    and "\<And>slot d. (p, fst slot, snd slot, d) \<in> dels s \<Longrightarrow> rb_floor (nodes s p) \<le> fst slot \<Longrightarrow>
       i_delivered (instance_of (nodes s p) slot) = Some d"
    and "\<And>slot. c_size c = 1 \<Longrightarrow> i_delivered (instance_of (nodes s p) slot) \<noteq> None \<Longrightarrow>
       i_proposed (instance_of (nodes s p) slot) \<noteq> None"
  shows "node_ok c H s p"
  using assms unfolding node_ok_def Let_def by blast

lemma same_instances_inv:
  assumes "net_inv c H s" "p \<in> H" "rb_me rb = p" "rb_floor rb = rb_floor (nodes s p)"
    and same: "\<And>slot. same_instance (instance_of rb slot) (instance_of (nodes s p) slot)"
  shows "net_inv c H (emit p rb [] s)"
proof (rule emit_inv [where K = "{}"])
  note eqs = same [unfolded same_instance_def]
  show "node_ok c H (emit p rb [] s) p"
  proof (rule node_okI)
    show "tally_ok c H (sigs (emit p rb [] s)) slot (instance_of (nodes (emit p rb [] s) p) slot) d k" for slot d k
      by (rule tally_ok_unchanged [OF node_okD(2) [OF assms(1,2)]]) (use eqs [of slot] in simp_all)
  qed (use assms(3,4) eqs node_okD(3-) [OF assms(1,2)] in simp_all)
qed (use assms in auto)

lemma fresh_signal_inv:
  assumes inv: "net_inv c H s" and fb: "fault_bound c H" and p: "p \<in> H"
    and sent: "q \<in> H \<Longrightarrow> (q, sig) \<in> sigs s"
    and step: "signal_step c q sig (nodes s p) = (rb, out, lb)"
    and acc: "accepts c q sig (nodes s p)" and new: "\<not> is_counted q sig (nodes s p)"
  shows "net_inv c H (emit p rb out s)"
proof -
  define slot k d where "slot = slot_of sig" and "k = s_kind sig" and "d = s_digest sig"
  define inst inst' where "inst = instance_of (nodes s p) slot" and "inst' = instance_of rb slot"
  define S' where "S' = sigs s \<union> Pair p ` broadcasts out"
  note fresh = signal_step_fresh [OF step acc new, folded slot_def k_def d_def,
      folded inst_def inst'_def]
  note old = node_okD [OF inv p]
  have sig: "sig = sig_at k slot d" by (simp add: slot_def k_def d_def)
  have kind: "sig\<lparr>s_kind := j\<rparr> = sig_at j slot d" for j by (simp add: signal_kind_eq slot_def d_def)
  have floor: "rb_floor (nodes s p) \<le> fst slot" and mem: "snd slot \<in> member_set c" "q \<in> member_set c"
    using acc by (simp_all add: accepts_def slot_def)
  have multi: "c_size c \<noteq> 1"
  proof
    assume one: "c_size c = 1"
    then have "member_set c = {0}" by (auto simp: member_set_def c_size_def)
    then have "q \<in> H" using mem p fb unfolding fault_bound_def by auto
    then show False using sent sigs_okD(4) [OF inv, of q k slot d] one sig by auto
  qed
  have snd_sound: "sound c H s slot d"
  proof (cases "member_set c \<subseteq> H")
    case True
    then show ?thesis using sigs_okD(2) [OF inv, of q k slot d] sent sig mem by auto
  qed (simp add: sound_def mem)
  have q_new: "q \<notin> ss_elems (i_counted inst k)"
    using new by (simp add: is_counted_def inst_def slot_def k_def)
  have tallies: "tally_ok c H (sigs s) slot inst' e j" for e j
  proof (cases "e = d \<and> j = k")
    case True
    have "tally_ok c H (sigs s) slot inst' d k"
    proof (rule tally_ok_count [OF old(2) [of slot d k, folded inst_def] mem(2) _ q_new])
      show "q \<in> H \<Longrightarrow> (q, sig_at k slot d) \<in> sigs s" using sent unfolding sig by simp
      show "ss_elems (i_counted inst' k) = insert q (ss_elems (i_counted inst k))" by (simp add: fresh(5))
      show "tally_of inst' d = count_in c q (snd slot) k (tally_of inst d)" by (simp add: fresh(6) slot_def)
    qed
    then show ?thesis using True by simp
  next
    case False
    then show ?thesis
      by (intro tally_ok_unchanged [OF old(2) [of slot e j, folded inst_def] order_refl])
        (simp_all add: fresh(5,6) count_in_def subset_insertI)
  qed
  have t: "count_in c q (s_source sig) k (tally_of inst d) = tally_of inst' d"
    by (simp add: fresh(6))
  note effect = fresh(7-11) [unfolded t, unfolded kind]
  have sigs': "(p, sig_at j sl e) \<in> S' \<longleftrightarrow>
      (p, sig_at j sl e) \<in> sigs s \<or> sl = slot \<and> e = d \<and> j \<in> set lb" for j sl e
    unfolding S'_def effect(3) by (auto simp: prod_eq_iff)
  have dels': "deliveries out \<subseteq> {(fst slot, snd slot, d)}"
    using effect(5) by (auto simp: slot_def split: if_splits)
  have no_sig: "(p, sig_at j slot e) \<notin> sigs s" if "j \<in> set lb" for j e
    using old(4) [where k = j and slot = slot and d = e] that floor effect(1) by (auto simp: inst_def)
  have no_del: "(p, fst slot, snd slot, e) \<notin> dels s" if "deliveries out \<noteq> {}" for e
    using old(5) [where slot = slot and d = e] that floor effect(5) by (auto simp: inst_def split: if_splits)
  show ?thesis
  proof (rule emit_inv [OF inv p, where slot = slot and d = d and K = "set lb"])
    show "broadcasts out = (\<lambda>k. sig_at k slot d) ` set lb" using effect(3) .
    show "new_sig_ok c H s p j slot d" if "j \<in> set lb" for j
      using that multi snd_sound no_sig asks_justified [where k = j and d = d, OF inv fb tallies] effect(1)
      by (auto simp: new_sig_ok_def)
    show "new_del_ok c H s p slot d" if "deliveries out \<noteq> {}"
      using that snd_sound no_del asks_delivery_justified [where d = d, OF tallies] effect(5)
      by (auto simp: new_del_ok_def split: if_splits)
    show "node_ok c H (emit p rb out s) p"
    proof (rule node_okI; unfold emit_fields fun_upd_same)
      fix sl e j
      show "rb_me rb = p" using fresh(1) old(1) by simp
      show "tally_ok c H (sigs s \<union> Pair p ` broadcasts out) sl (instance_of rb sl) e j"
        using tally_ok_mono [OF tallies] tally_ok_mono [OF old(2)] fresh(3) [of sl]
        by (cases "sl = slot") (simp_all add: inst'_def)
      show "i_proposed (instance_of rb sl) \<noteq> None" if "i_sent (instance_of rb sl) Echo \<noteq> None"
        using that old(3) [of sl] fresh(3) [of sl] fresh(4) effect(1,2)
        by (cases "sl = slot") (simp_all add: inst'_def inst_def asks_def)
      show "i_sent (instance_of rb sl) j = Some e"
        if "(p, sig_at j sl e) \<in> sigs s \<union> Pair p ` broadcasts out" "rb_floor rb \<le> fst sl"
      proof (cases "(p, sig_at j sl e) \<in> sigs s")
        case True
        then have "i_sent (instance_of (nodes s p) sl) j = Some e" using old(4) that(2) fresh(2) by simp
        then show ?thesis using fresh(3) [of sl] effect(1,2) by (cases "sl = slot") (auto simp: inst'_def inst_def)
      next
        case False
        then have "sl = slot \<and> e = d \<and> j \<in> set lb" using that(1) sigs' [of j sl e] unfolding S'_def by blast
        then show ?thesis using effect(2) by (simp add: inst'_def)
      qed
      show "i_delivered (instance_of rb sl) = Some e"
        if "(p, fst sl, snd sl, e) \<in> dels s \<union> Pair p ` deliveries out" "rb_floor rb \<le> fst sl"
      proof (cases "(p, fst sl, snd sl, e) \<in> dels s")
        case True
        then have "i_delivered (instance_of (nodes s p) sl) = Some e" using old(5) that(2) fresh(2) by simp
        then show ?thesis using fresh(3) [of sl] effect(4) by (cases "sl = slot") (auto simp: inst'_def inst_def)
      next
        case False
        then show ?thesis using that(1) effect(4,5)
          by (cases sl) (auto simp: inst'_def slot_def split: if_splits)
      qed
      show "i_proposed (instance_of rb sl) \<noteq> None" if "c_size c = 1" using multi that by simp
    qed
  qed (rule dels')
qed

lemma signal_step_inv:
  assumes "net_inv c H s" "fault_bound c H" "p \<in> H" "q \<in> H \<Longrightarrow> (q, sig) \<in> sigs s"
    and step: "signal_step c q sig (nodes s p) = (rb, out, lb)"
  shows "net_inv c H (emit p rb out s) \<and> (\<forall>k \<in> set lb. (p, sig\<lparr>s_kind := k\<rparr>) \<in> sigs (emit p rb out s))"
proof (cases "accepts c q sig (nodes s p) \<and> \<not> is_counted q sig (nodes s p)")
  case True
  then show ?thesis
    using fresh_signal_inv [OF assms] signal_step_fresh(9) [OF step] by auto
next
  case False
  note stale = signal_step_stale [OF step]
  have "net_inv c H (emit p rb [] s)"
    using False stale(3-5) node_okD(1) [OF assms(1,3)] by (intro same_instances_inv assms(1,3)) auto
  then show ?thesis using stale(1,2) False by auto
qed

lemma on_signal_inv:
  assumes "net_inv c H s" "fault_bound c H" "p \<in> H" "q \<in> H \<Longrightarrow> (q, sig) \<in> sigs s"
    and "on_signal c q sig (nodes s p) = (rb, out)"
  shows "net_inv c H (emit p rb out s)"
proof -
  let ?I = "\<lambda>rb acts. net_inv c H (emit p rb acts s)"
  let ?ok = "\<lambda>q sig acts. q \<in> H \<longrightarrow> (q, sig) \<in> sigs s \<union> Pair p ` broadcasts acts"
  have "?I rb ([] @ out)"
  proof (rule on_signal_preserves [where I = ?I and ok = ?ok and c = c])
    fix q sig rb acts rb' out lb
    assume I: "net_inv c H (emit p rb acts s)" and ok: "?ok q sig acts"
      and step: "signal_step c q sig rb = (rb', out, lb)"
    have "net_inv c H (emit p rb' out (emit p rb acts s))
        \<and> (\<forall>k \<in> set lb. (p, sig\<lparr>s_kind := k\<rparr>) \<in> sigs (emit p rb' out (emit p rb acts s)))"
      using signal_step_inv [OF I assms(2,3), of q sig rb' out lb] ok step by simp
    then show "?I rb' (acts @ out) \<and> (\<forall>k \<in> set lb. ?ok (rb_me rb') (sig\<lparr>s_kind := k\<rparr>) (acts @ out))"
      using node_okD(1) [of c H "emit p rb' (acts @ out) s" p] assms(3) by (simp add: emit_emit image_Un Un_assoc)
  qed (use assms in \<open>auto simp: emit_same\<close>)
  then show ?thesis by simp
qed

section \<open>Every step keeps the invariant\<close>

lemma first_echo_inv:
  assumes inv: "net_inv c H s" and p: "p \<in> H"
    and author: "snd slot \<in> member_set c" "snd slot \<in> H \<Longrightarrow> props s (snd slot) (fst slot) = Some d"
    and floor: "rb_floor (nodes s p) \<le> fst slot"
  defines "inst \<equiv> instance_of (nodes s p) slot"
  assumes first: "i_proposed inst = None" and multi: "c_size c \<noteq> 1"
  defines "rb \<equiv> put_instance (nodes s p) slot (inst\<lparr>i_proposed := Some d, i_sent := (i_sent inst)(Echo \<mapsto> d)\<rparr>)"
  shows "net_inv c H (emit p rb [Broadcast (sig_at Echo slot d)] s)"
proof (rule emit_inv [OF inv p, where slot = slot and d = d and K = "{Echo}"])
  note old = node_okD [OF inv p]
  have unsent: "i_sent inst Echo = None" using old(3) [of slot] first unfolding inst_def by blast
  have "(p, sig_at Echo slot e) \<notin> sigs s" for e
    using old(4) [where k = Echo and slot = slot and d = e] floor unsent by (auto simp: inst_def)
  then show "new_sig_ok c H s p k slot d" if "k \<in> {Echo}" for k
    using that author multi by (auto simp: new_sig_ok_def sound_def justified_def)
  have other: "sl \<noteq> slot \<Longrightarrow> instance_of rb sl = instance_of (nodes s p) sl" for sl
    by (simp add: rb_def instance_of_def)
  have this_slot: "instance_of rb slot = inst\<lparr>i_proposed := Some d, i_sent := (i_sent inst)(Echo \<mapsto> d)\<rparr>"
    by (simp add: rb_def)
  show "node_ok c H (emit p rb [Broadcast (sig_at Echo slot d)] s) p"
  proof (rule node_okI; unfold emit_fields fun_upd_same)
    fix sl e j
    show "rb_me rb = p" using old(1) by (simp add: rb_def)
    show "tally_ok c H (sigs s \<union> Pair p ` broadcasts [Broadcast (sig_at Echo slot d)]) sl (instance_of rb sl) e j"
      by (rule tally_ok_unchanged [OF old(2)]; cases "sl = slot") (auto simp: this_slot other inst_def)
    show "i_proposed (instance_of rb sl) \<noteq> None" if "i_sent (instance_of rb sl) Echo \<noteq> None"
      using that old(3) [of sl] by (cases "sl = slot") (simp_all add: this_slot other)
    show "i_sent (instance_of rb sl) j = Some e"
      if m: "(p, sig_at j sl e) \<in> sigs s \<union> Pair p ` broadcasts [Broadcast (sig_at Echo slot d)]"
        and fl: "rb_floor rb \<le> fst sl"
    proof (cases "(p, sig_at j sl e) \<in> sigs s")
      case True
      then have "i_sent (instance_of (nodes s p) sl) j = Some e" using old(4) fl by (simp add: rb_def)
      then show ?thesis using unsent by (cases "sl = slot") (auto simp: this_slot other inst_def)
    next
      case False
      then have "sl = slot \<and> j = Echo \<and> e = d" using m by (auto simp: prod_eq_iff)
      then show ?thesis by (simp add: this_slot)
    qed
    show "i_delivered (instance_of rb sl) = Some e"
      if m: "(p, fst sl, snd sl, e) \<in> dels s \<union> Pair p ` deliveries [Broadcast (sig_at Echo slot d)]"
        and fl: "rb_floor rb \<le> fst sl"
    proof -
      have "i_delivered (instance_of (nodes s p) sl) = Some e" using old(5) m fl by (simp add: rb_def)
      then show ?thesis by (cases "sl = slot") (auto simp: this_slot other inst_def)
    qed
    show "i_proposed (instance_of rb sl) \<noteq> None" if "c_size c = 1" using multi that by simp
  qed
qed simp_all

lemma sole_delivery_inv:
  fixes st :: rbc_stats
  assumes inv: "net_inv c H s" and p: "p \<in> H"
    and author: "snd slot \<in> member_set c" "snd slot \<in> H \<Longrightarrow> props s (snd slot) (fst slot) = Some d"
    and floor: "rb_floor (nodes s p) \<le> fst slot"
  defines "inst \<equiv> instance_of (nodes s p) slot"
  assumes first: "i_proposed inst = None" and one: "c_size c = 1"
  defines "rb \<equiv> (put_instance (nodes s p) slot (inst\<lparr>i_proposed := Some d, i_delivered := Some d\<rparr>))\<lparr>rb_stats := st\<rparr>"
  shows "net_inv c H (emit p rb [Deliver (fst slot) (snd slot) d] s)"
proof (rule emit_inv [OF inv p, where slot = slot and d = d and K = "{}"])
  note old = node_okD [OF inv p]
  have fresh: "i_delivered inst = None" using old(6) [of slot] one first unfolding inst_def by blast
  have "(p, fst slot, snd slot, e) \<notin> dels s" for e
    using old(5) [where slot = slot and d = e] floor fresh by (auto simp: inst_def)
  then show "new_del_ok c H s p slot d"
    using author one by (auto simp: new_del_ok_def sound_def delivery_justified_def)
  have other: "sl \<noteq> slot \<Longrightarrow> instance_of rb sl = instance_of (nodes s p) sl" for sl
    by (simp add: rb_def instance_of_def)
  have same_floor: "rb_floor rb = rb_floor (nodes s p)" by (simp add: rb_def)
  have this_slot: "instance_of rb slot = inst\<lparr>i_proposed := Some d, i_delivered := Some d\<rparr>"
    by (simp add: rb_def)
  show "node_ok c H (emit p rb [Deliver (fst slot) (snd slot) d] s) p"
  proof (rule node_okI; unfold emit_fields fun_upd_same)
    fix sl e j
    show "rb_me rb = p" using old(1) by (simp add: rb_def)
    show "tally_ok c H (sigs s \<union> Pair p ` broadcasts [Deliver (fst slot) (snd slot) d]) sl (instance_of rb sl) e j"
      by (rule tally_ok_unchanged [OF old(2)]; cases "sl = slot") (auto simp: this_slot other inst_def)
    show "i_proposed (instance_of rb sl) \<noteq> None" if "i_sent (instance_of rb sl) Echo \<noteq> None"
      using that old(3) [of sl] by (cases "sl = slot") (simp_all add: this_slot other)
    show "i_sent (instance_of rb sl) j = Some e"
      if "(p, sig_at j sl e) \<in> sigs s \<union> Pair p ` broadcasts [Deliver (fst slot) (snd slot) d]"
        "rb_floor rb \<le> fst sl"
      using that old(4) [where k = j and slot = sl and d = e]
      by (cases "sl = slot") (auto simp: this_slot other inst_def same_floor)
    show "i_delivered (instance_of rb sl) = Some e"
      if m: "(p, fst sl, snd sl, e) \<in> dels s \<union> Pair p ` deliveries [Deliver (fst slot) (snd slot) d]"
        and fl: "rb_floor rb \<le> fst sl"
    proof (cases "sl = slot")
      case True
      then have "(p, fst sl, snd sl, e) \<notin> dels s"
        using old(5) [where slot = slot and d = e] floor fresh by (auto simp: inst_def)
      then show ?thesis using m True by (auto simp: this_slot)
    next
      case False
      then have "(p, fst sl, snd sl, e) \<in> dels s" using m by (auto simp: prod_eq_iff)
      then show ?thesis using old(5) fl False by (simp add: other same_floor)
    qed
    show "i_proposed (instance_of rb sl) \<noteq> None" if "i_delivered (instance_of rb sl) \<noteq> None"
      using that old(6) [of sl] one by (cases "sl = slot") (simp_all add: this_slot other)
  qed
qed simp_all

lemma same_instance_refl [simp]: "same_instance i i"
  by (simp add: same_instance_def)

lemma on_propose_inv:
  assumes inv: "net_inv c H s" and fb: "fault_bound c H" and p: "p \<in> H" and a: "author \<in> member_set c"
    and said: "author \<in> H \<Longrightarrow> props s author r = Some d"
    and run: "on_propose c author r author d (nodes s p) = (rb, out)"
  shows "net_inv c H (emit p rb out s)"
proof -
  let ?slot = "(r, author)" and ?rb = "nodes s p"
  let ?inst = "instance_of ?rb ?slot" and ?echo = "sig_at Echo (r, author) d"
  let ?put = "put_instance ?rb ?slot (?inst\<lparr>i_proposed := Some d, i_sent := (i_sent ?inst)(Echo \<mapsto> d)\<rparr>)"
  have me: "rb_me ?rb = p" using node_okD(1) [OF inv p] .
  consider (stale) "out = []" "rb = ?rb \<or> rb = put_instance ?rb ?slot ?inst"
    | (sole) "rb_floor ?rb \<le> r" "i_proposed ?inst = None" "c_size c = 1" "out = [Deliver r author d]"
        "rb = (put_instance ?rb ?slot (?inst\<lparr>i_proposed := Some d, i_delivered := Some d\<rparr>))
           \<lparr>rb_stats := (rb_stats ?rb)\<lparr>fast_count := fast_count (rb_stats ?rb) + 1\<rparr>\<rparr>"
    | (echo) out' where "rb_floor ?rb \<le> r" "i_proposed ?inst = None" "c_size c \<noteq> 1" "out = Broadcast ?echo # out'"
        "on_signal c p ?echo ?put = (rb, out')"
    using run me unfolding on_propose_def
    by (auto simp: Let_def not_le split: if_splits prod.splits)
  then show ?thesis
  proof cases
    case stale
    then have "same_instance (instance_of rb slot) (instance_of ?rb slot)" for slot
      by (auto simp: instance_of_def)
    then show ?thesis
      using stale me same_instances_inv [OF inv p, of rb] by auto
  next
    case sole
    then show ?thesis using sole_delivery_inv [OF inv p, of ?slot d] a said by simp
  next
    case echo
    have "net_inv c H (emit p ?put [Broadcast ?echo] s)"
      using first_echo_inv [OF inv p, of ?slot d] a said echo(1-3) by simp
    then have "net_inv c H (emit p rb out' (emit p ?put [Broadcast ?echo] s))"
      by (rule on_signal_inv [OF _ fb p, where q = p]) (use echo(5) in auto)
    then show ?thesis by (simp add: emit_emit echo(4))
  qed
qed

lemma prune_inv:
  assumes inv: "net_inv c H s" and p: "p \<in> H"
  shows "net_inv c H (emit p (rbc_prune_below r (nodes s p)) [] s)"
proof (rule emit_inv [OF inv p, where K = "{}"])
  let ?rb = "nodes s p" and ?rb' = "rbc_prune_below r (nodes s p)"
  note old = node_okD [OF inv p]
  have keep: "rb_floor ?rb \<le> rb_floor ?rb'" "rb_me ?rb' = rb_me ?rb"
    by (auto simp: rbc_prune_below_def)
  have inst: "instance_of ?rb' sl = instance_of ?rb sl
      \<or> instance_of ?rb' sl = instance_default \<and> fst sl < rb_floor ?rb'" for sl
    by (auto simp: rbc_prune_below_def instance_of_def restrict_map_def)
  show "node_ok c H (emit p ?rb' [] s) p"
  proof (rule node_okI; unfold emit_fields fun_upd_same)
    fix sl e j
    show "rb_me ?rb' = p" using keep old(1) by simp
    have default: "tally_ok c H S sl instance_default e j" for S
      using seatset.elems_empty seatset.weight_empty
      by (simp add: tally_ok_def tally_of_def instance_default_def tally_default_def)
    show "tally_ok c H (sigs s \<union> Pair p ` broadcasts []) sl (instance_of ?rb' sl) e j"
      using inst [of sl] old(2) [where slot = sl and d = e and k = j] default by auto
    show "i_proposed (instance_of ?rb' sl) \<noteq> None" if "i_sent (instance_of ?rb' sl) Echo \<noteq> None"
      using inst [of sl] old(3) [of sl] that by (auto simp: instance_default_def)
    show "i_sent (instance_of ?rb' sl) j = Some e"
      if "(p, sig_at j sl e) \<in> sigs s \<union> Pair p ` broadcasts []" "rb_floor ?rb' \<le> fst sl"
      using inst [of sl] old(4) [where slot = sl and d = e and k = j] that keep(1) by auto
    show "i_delivered (instance_of ?rb' sl) = Some e"
      if "(p, fst sl, snd sl, e) \<in> dels s \<union> Pair p ` deliveries []" "rb_floor ?rb' \<le> fst sl"
      using inst [of sl] old(5) [where slot = sl and d = e] that keep(1) by auto
    show "i_proposed (instance_of ?rb' sl) \<noteq> None"
      if "c_size c = 1" "i_delivered (instance_of ?rb' sl) \<noteq> None"
      using inst [of sl] old(6) [of sl] that by (auto simp: instance_default_def)
  qed
qed auto

lemma init_inv: "net_inv c H net_init"
proof -
  have "instance_of (rbc_new p) sl = instance_default" for p sl
    by (simp add: rbc_new_def instance_of_def)
  moreover have "tally_ok c H {} sl instance_default e j" for sl e j
    using seatset.elems_empty seatset.weight_empty
    by (simp add: tally_ok_def tally_of_def instance_default_def tally_default_def)
  ultimately have "node_ok c H net_init p" for p
    by (intro node_okI) (auto simp: net_init_def instance_default_def rbc_new_def)
  then show ?thesis by (simp add: net_inv_def sigs_ok_def dels_ok_def net_init_def)
qed

lemma props_inv:
  assumes "net_inv c H s" "props s p r = None"
  shows "net_inv c H (s\<lparr>props := (props s)(p := (props s p)(r \<mapsto> d))\<rparr>)" (is "net_inv c H ?s")
proof -
  have g: "grows s ?s" using assms(2) by (auto simp: grows_def)
  show ?thesis
    using assms(1) sound_mono [OF _ g] justified_mono [OF _ g] delivery_justified_mono [OF _ g]
    unfolding net_inv_def sigs_ok_def dels_ok_def node_ok_def by simp
qed

lemma net_step_inv:
  assumes "net_step c H s s'" "net_inv c H s" "fault_bound c H"
  shows "net_inv c H s'"
  using assms(1)
proof cases
  case (propose p r d rb out)
  then have "p \<in> member_set c" using assms(3) by (auto simp: fault_bound_def)
  then show ?thesis
    unfolding propose(1)
    by (rule on_propose_inv [OF props_inv [where d = d, OF assms(2) propose(3)] assms(3) propose(2),
          where author = p and r = r and d = d])
      (use propose in simp_all)
next
  case (recv_propose p author r d rb out)
  then show ?thesis using on_propose_inv [OF assms(2,3)] by blast
next
  case (recv_signal p q sig rb out)
  then show ?thesis using on_signal_inv [OF assms(2,3)] by blast
next
  case (prune p r)
  then show ?thesis using prune_inv [OF assms(2)] by simp
qed

lemma reachable_inv: "net_reachable c H s \<Longrightarrow> fault_bound c H \<Longrightarrow> net_inv c H s"
  by (induction rule: net_reachable.induct) (auto intro: init_inv net_step_inv)

section \<open>Agreement\<close>

text \<open>
  The counting weight of an instance: every member's seats, one seat of the author left out. It
  totals one seat less than the committee, and the faulty members hold one less of it when the
  author is among them.
\<close>

lemma nbw_split:
  assumes "wf_committee c" "A \<subseteq> member_set c" "a \<in> A"
  shows "(\<Sum>q \<in> A. non_broadcaster_weight c q a) + 1 = sum (c_seats c) A"
proof -
  have fin: "finite A" using assms(2) finite_subset by (auto simp: member_set_def)
  have "(\<Sum>q \<in> A. non_broadcaster_weight c q a)
      = (c_seats c a - 1) + (\<Sum>q \<in> A - {a}. non_broadcaster_weight c q a)"
    using sum.remove [OF fin assms(3), of "\<lambda>q. non_broadcaster_weight c q a"]
    by (simp add: non_broadcaster_weight_def [of c a])
  also have "(\<Sum>q \<in> A - {a}. non_broadcaster_weight c q a) = sum (c_seats c) (A - {a})"
    by (intro sum.cong) (auto simp: non_broadcaster_weight_def)
  finally show ?thesis
    using sum.remove [OF fin assms(3), of "c_seats c"] c_seats_pos [OF assms(1)] assms(2,3)
    by (auto dest: subsetD)
qed

lemma nbw_le: "(\<Sum>q \<in> A. non_broadcaster_weight c q a) \<le> sum (c_seats c) A"
  by (intro sum_mono) (simp add: non_broadcaster_weight_def Let_def)

interpretation nq: quorum_system
  "\<lambda>(c, a). wf_committee c \<and> a \<in> member_set c \<and> 1 < c_total_seats c" "\<lambda>(c, a). member_set c"
  "\<lambda>(c, a) q. non_broadcaster_weight c q a" "\<lambda>(c, a). c_total_seats c - 1"
  "\<lambda>(c, a). max_faulty c - 1"
proof unfold_locales
  fix x :: "committee \<times> validator_index"
  obtain c a where x: "x = (c, a)" by (cases x)
  assume "case x of (c, a) \<Rightarrow> wf_committee c \<and> a \<in> member_set c \<and> 1 < c_total_seats c"
  then have wf: "wf_committee c" "a \<in> member_set c" "1 < c_total_seats c" by (simp_all add: x)
  show "finite (case x of (c, a) \<Rightarrow> member_set c)" by (simp add: x member_set_def)
  show "sum ((\<lambda>(c, a) q. non_broadcaster_weight c q a) x) (case x of (c, a) \<Rightarrow> member_set c)
      = (case x of (c, a) \<Rightarrow> c_total_seats c - 1)"
    using nbw_split [OF wf(1) order_refl wf(2)] cq.seats_sum [OF wf(1)] by (simp add: x)
  show "3 * (case x of (c, a) \<Rightarrow> max_faulty c - 1) < (case x of (c, a) \<Rightarrow> c_total_seats c - 1)"
    using wf(3) unfolding x prod.case max_faulty_def by linarith
qed

lemma supported_overlap:
  assumes fb: "fault_bound c H" and a: "snd slot \<in> member_set c" "snd slot \<notin> H"
    and sup: "supported c H S (nbw c slot) b1 sig1" "supported c H S (nbw c slot) b2 sig2"
    and bars: "c_total_seats c + max_faulty c < b1 + b2 + 2"
  shows "\<exists>q \<in> H. (q, sig1) \<in> S \<and> (q, sig2) \<in> S"
proof -
  obtain A B where A: "A \<subseteq> member_set c" "b1 \<le> sum (nbw c slot) A" "\<forall>q \<in> A \<inter> H. (q, sig1) \<in> S"
    and B: "B \<subseteq> member_set c" "b2 \<le> sum (nbw c slot) B" "\<forall>q \<in> B \<inter> H. (q, sig2) \<in> S"
    using sup unfolding supported_def by blast
  have wf: "wf_committee c" using fb by (simp add: fault_bound_def)
  have F: "- H \<inter> member_set c = member_set c - H" by auto
  have low: "sum (nbw c slot) (member_set c - H) + 1 \<le> max_faulty c"
    using nbw_split [OF wf, of "member_set c - H" "snd slot"] a fb by (simp add: fault_bound_def)
  have big: "1 < c_total_seats c" using low cq.faults_bound [OF wf] by linarith
  have "\<exists>v \<in> A \<inter> B. v \<notin> - H"
    using nq.honest_overlap [of "(c, snd slot)" A B "- H"] wf a A B low big bars
    unfolding prod.case F by simp
  then show ?thesis using A(3) B(3) by auto
qed

lemma supported_honest_nbw:
  assumes "fault_bound c H" "supported c H S (nbw c slot) bar sig" "max_faulty c < bar"
  shows "\<exists>q \<in> H. (q, sig) \<in> S"
proof -
  obtain A where "A \<subseteq> member_set c" "bar \<le> sum (nbw c slot) A" "\<forall>q \<in> A \<inter> H. (q, sig) \<in> S"
    using assms(2) unfolding supported_def by blast
  then have "supported c H S (c_seats c) bar sig"
    using order_trans [OF _ nbw_le [of c "snd slot" A]] unfolding supported_def by blast
  then show ?thesis using supported_honest assms(1,3) by blast
qed

text \<open>The thresholds of a committee that has a faulty member.\<close>

lemma faulty_thresholds:
  assumes "fault_bound c H" "\<not> member_set c \<subseteq> H"
  shows "0 < max_faulty c" "max_faulty c < rbc_vote_threshold c" "max_faulty c < rbc_ack_threshold c"
    "max_faulty c < rbc_fast_threshold c" "rbc_vote_threshold c \<le> rbc_ack_threshold c"
    "c_total_seats c + max_faulty c < rbc_fast_threshold c + rbc_vote_threshold c + 2"
    "c_total_seats c + max_faulty c < rbc_ack_threshold c + rbc_ack_threshold c + 2"
    "c_total_seats c + max_faulty c < rbc_fast_threshold c + rbc_fast_threshold c + 2"
proof -
  obtain q where q: "q \<in> member_set c - H" using assms(2) by blast
  have wf: "wf_committee c" using assms(1) by (simp add: fault_bound_def)
  have "0 < sum (c_seats c) (member_set c - H)"
    using q c_seats_pos [OF wf] by (intro sum_pos) (auto simp: member_set_def)
  then show pos: "0 < max_faulty c" using assms(1) by (simp add: fault_bound_def)
  have n: "3 * max_faulty c < c_total_seats c" using cq.faults_bound [OF wf] .
  show "max_faulty c < rbc_vote_threshold c" "max_faulty c < rbc_ack_threshold c"
    "max_faulty c < rbc_fast_threshold c" "rbc_vote_threshold c \<le> rbc_ack_threshold c"
    "c_total_seats c + max_faulty c < rbc_fast_threshold c + rbc_vote_threshold c + 2"
    "c_total_seats c + max_faulty c < rbc_ack_threshold c + rbc_ack_threshold c + 2"
    "c_total_seats c + max_faulty c < rbc_fast_threshold c + rbc_fast_threshold c + 2"
    using pos n unfolding rbc_vote_threshold_def rbc_ack_threshold_def rbc_fast_threshold_def div_ceil_2
    by (simp_all add: sat_sub_def)
qed

lemma honest_author_digest:
  assumes inv: "net_inv c H s" and fb: "fault_bound c H" and a: "snd slot \<in> H"
  shows "(p, sig_at k slot d) \<in> sigs s \<Longrightarrow> props s (snd slot) (fst slot) = Some d"
proof (induction "kind_index k" arbitrary: p k rule: less_induct)
  case less
  note j = sigs_okD [OF inv less.prems]
  show ?case
  proof (cases "member_set c \<subseteq> H")
    case True
    then show ?thesis using j(2) by (simp add: sound_def)
  next
    case False
    note bars = faulty_thresholds [OF fb False]
    have step: ?thesis if "supported c H (sigs s) (nbw c slot) bar (sig_at i slot d)"
      "max_faulty c < bar" "kind_index i < kind_index k" for bar i
      using supported_honest_nbw [OF fb that(1,2)] less.hyps [OF that(3)] by blast
    show ?thesis
      using j(3) a bars(2,3) step
      by (cases k) (auto simp: justified_def kind_index_def)
  qed
qed

lemma delivery_kinds:
  assumes inv: "net_inv c H s" and fb: "fault_bound c H" and del: "(p, fst slot, snd slot, d) \<in> dels s"
    and some: "\<not> member_set c \<subseteq> H"
  shows "supported c H (sigs s) (nbw c slot) (rbc_fast_threshold c) (sig_at Echo slot d)
    \<or> supported c H (sigs s) (nbw c slot) (rbc_ack_threshold c) (sig_at Ack slot d)"
proof -
  have p: "p \<in> H" using dels_okD(1) [OF inv del] .
  have "c_size c \<noteq> 1"
  proof
    assume "c_size c = 1"
    then have "member_set c = {0}" by (auto simp: member_set_def c_size_def)
    then show False using p some fb by (auto simp: fault_bound_def)
  qed
  moreover have ?thesis if ready: "supported c H (sigs s) (c_seats c) (ready_delivery c) (sig_at Ready slot d)"
  proof -
    obtain q where "(q, sig_at Ready slot d) \<in> sigs s"
      using supported_honest [OF fb ready] by (auto simp: ready_delivery_def)
    then show ?thesis using sigs_okD(3) [OF inv] by (fastforce simp: justified_def)
  qed
  ultimately show ?thesis
    using dels_okD(3) [OF inv del] by (auto simp: delivery_justified_def)
qed

lemma ack_has_echoes:
  assumes inv: "net_inv c H s" and fb: "fault_bound c H" and some: "\<not> member_set c \<subseteq> H"
    and ack: "supported c H (sigs s) (nbw c slot) (rbc_ack_threshold c) (sig_at Ack slot d)"
  shows "supported c H (sigs s) (nbw c slot) (rbc_vote_threshold c) (sig_at Echo slot d)"
proof -
  note bars = faulty_thresholds [OF fb some]
  obtain q where q: "(q, sig_at Ack slot d) \<in> sigs s" using supported_honest_nbw [OF fb ack bars(3)] by blast
  consider "supported c H (sigs s) (nbw c slot) (rbc_ack_threshold c) (sig_at Echo slot d)"
    | "supported c H (sigs s) (nbw c slot) (rbc_ack_threshold c) (sig_at Vote slot d)"
    using sigs_okD(3) [OF inv q] by (auto simp: justified_def)
  then show ?thesis
  proof cases
    case 1
    then show ?thesis using bars(5) order_trans unfolding supported_def by blast
  next
    case 2
    then obtain v where "(v, sig_at Vote slot d) \<in> sigs s" using supported_honest_nbw [OF fb 2 bars(3)] by blast
    then show ?thesis using sigs_okD(3) [OF inv] by (fastforce simp: justified_def)
  qed
qed

lemma deliveries_agree:
  assumes inv: "net_inv c H s" and fb: "fault_bound c H"
    and d: "(p, fst slot, snd slot, d) \<in> dels s" and e: "(q, fst slot, snd slot, e) \<in> dels s"
  shows "d = e"
proof (cases "member_set c \<subseteq> H")
  case True
  then show ?thesis using dels_okD(2) [OF inv d] dels_okD(2) [OF inv e] by (simp add: sound_def)
next
  case False
  note bars = faulty_thresholds [OF fb False]
  let ?echo = "\<lambda>x. supported c H (sigs s) (nbw c slot) (rbc_fast_threshold c) (sig_at Echo slot x)"
  let ?ack = "\<lambda>x. supported c H (sigs s) (nbw c slot) (rbc_ack_threshold c) (sig_at Ack slot x)"
  let ?half = "\<lambda>x. supported c H (sigs s) (nbw c slot) (rbc_vote_threshold c) (sig_at Echo slot x)"
  note kinds = delivery_kinds [OF inv fb d False] delivery_kinds [OF inv fb e False]
  show ?thesis
  proof (cases "snd slot \<in> H")
    case True
    have "props s (snd slot) (fst slot) = Some x" if "?echo x \<or> ?ack x" for x
      using that supported_honest_nbw [OF fb _ bars(3)] supported_honest_nbw [OF fb _ bars(4)]
        honest_author_digest [OF inv fb True] by blast
    from this [OF kinds(1)] this [OF kinds(2)] show ?thesis by simp
  next
    case faulty: False
    have mem: "snd slot \<in> member_set c" using dels_okD(2) [OF inv d] by (simp add: sound_def)
    note overlap = supported_overlap [OF fb mem faulty]
    have same: "x = y" if "(z, sig_at k slot x) \<in> sigs s" "(z, sig_at k slot y) \<in> sigs s" for z k x y
      using sigs_okD(5) [OF inv that(2) that(1)] .
    have echo_ack: "x = y" if "?echo x" "?ack y" for x y
      using overlap [OF that(1) ack_has_echoes [OF inv fb False that(2)] bars(6)] same by blast
    have "x = y" if "?echo x" "?echo y" for x y using overlap [OF that bars(8)] same by blast
    moreover have "x = y" if "?ack x" "?ack y" for x y using overlap [OF that bars(7)] same by blast
    ultimately show ?thesis using kinds echo_ack by metis
  qed
qed

text \<open>
  Property C7. Agreement of the reliable broadcast: in every run with at most \<open>max_faulty\<close> faulty
  seats, whatever the faulty members send, no two honest validators deliver different digests
  for the same round and author.
\<close>

theorem rbc_agreement:
  assumes "net_reachable c H s" "fault_bound c H"
    and "(p, r, a, d) \<in> dels s" "(q, r, a, e) \<in> dels s"
  shows "d = e"
  using deliveries_agree [OF reachable_inv [OF assms(1,2)] assms(2), of p "(r, a)" d q e] assms(3,4) by simp

text \<open>Every delivery is of a member, and for an honest one it is what that member proposed.\<close>

lemma delivery_integrity:
  assumes "net_reachable c H s" "fault_bound c H" "(p, r, a, d) \<in> dels s"
  shows "a \<in> member_set c \<and> (a \<in> H \<longrightarrow> props s a r = Some d)
    \<and> (\<forall>e. (p, r, a, e) \<in> dels s \<longrightarrow> e = d)"
proof -
  note inv = reachable_inv [OF assms(1,2)]
  have del: "(p, fst (r, a), snd (r, a), d) \<in> dels s" using assms(3) by simp
  note ok = dels_okD [OF inv del]
  have "props s a r = Some d" if a: "a \<in> H"
  proof (cases "member_set c \<subseteq> H")
    case True
    then show ?thesis using ok(2) by (simp add: sound_def)
  next
    case False
    note bars = faulty_thresholds [OF assms(2) False]
    obtain q k where "(q, sig_at k (r, a) d) \<in> sigs s"
      using delivery_kinds [OF inv assms(2) del False] supported_honest_nbw [OF assms(2) _ bars(3)]
        supported_honest_nbw [OF assms(2) _ bars(4)] by blast
    then show ?thesis using honest_author_digest [OF inv assms(2), of "(r, a)"] a by simp
  qed
  then show ?thesis using ok(2,4) by (auto simp: sound_def)
qed


section \<open>A run\<close>

text \<open>
  Four members of one seat, the last one faulty and silent: member 0 proposes, members 1 and 2
  echo, and members 0 and 1 deliver on the echoes.
\<close>

definition demo_echo :: signal where
  "demo_echo = sig_at Echo (0, 0) [7]"

definition demo_honest :: "validator_index set" where
  "demo_honest = {0, 1, 2}"

definition run_propose :: "validator_index \<Rightarrow> net \<Rightarrow> net" where
  "run_propose p s = (case on_propose demo_committee 0 0 0 [7] (nodes s p) of (rb, out) \<Rightarrow> emit p rb out s)"

definition run_signal :: "validator_index \<Rightarrow> validator_index \<Rightarrow> net \<Rightarrow> net" where
  "run_signal p q s = (case on_signal demo_committee q demo_echo (nodes s p) of (rb, out) \<Rightarrow> emit p rb out s)"

definition demo_run :: net where
  "demo_run = run_signal 1 2 (run_signal 0 2 (run_signal 0 1 (run_propose 2 (run_propose 1 (run_propose 0
     (net_init\<lparr>props := (\<lambda>_ _. None)(0 := [0 \<mapsto> [7]])\<rparr>))))))"

lemma demo_fault_bound: "fault_bound demo_committee demo_honest"
proof -
  have "member_set demo_committee - demo_honest = {3}" "demo_honest \<subseteq> member_set demo_committee"
    by (auto simp: demo_honest_def)
  then show ?thesis by (simp add: fault_bound_def c_seats_demo demo_thresholds)
qed

lemma run_propose_reachable:
  assumes "net_reachable demo_committee demo_honest s" "p \<in> demo_honest" "props s 0 0 = Some [7]"
  shows "net_reachable demo_committee demo_honest (run_propose p s)"
proof -
  obtain rb out where run: "on_propose demo_committee 0 0 0 [7] (nodes s p) = (rb, out)" by fastforce
  have "net_step demo_committee demo_honest s (emit p rb out s)"
    using assms(2,3) by (intro net_step.recv_propose [OF _ _ _ run]) simp_all
  then show ?thesis using net_reachable.step [OF assms(1)] by (simp add: run_propose_def run)
qed

lemma run_signal_reachable:
  assumes "net_reachable demo_committee demo_honest s" "p \<in> demo_honest" "(q, demo_echo) \<in> sigs s"
  shows "net_reachable demo_committee demo_honest (run_signal p q s)"
proof -
  obtain rb out where run: "on_signal demo_committee q demo_echo (nodes s p) = (rb, out)" by fastforce
  have "net_step demo_committee demo_honest s (emit p rb out s)"
    using assms(2,3) by (intro net_step.recv_signal [OF _ _ run]) simp_all
  then show ?thesis using net_reachable.step [OF assms(1)] by (simp add: run_signal_def run)
qed

lemma run_first_reachable:
  "net_reachable demo_committee demo_honest (run_propose 0 (net_init\<lparr>props := (\<lambda>_ _. None)(0 := [0 \<mapsto> [7]])\<rparr>))"
proof -
  obtain rb out where run: "on_propose demo_committee 0 0 0 [7] (nodes net_init 0) = (rb, out)" by fastforce
  have "net_step demo_committee demo_honest net_init
      (emit 0 rb out (net_init\<lparr>props := (props net_init)(0 := (props net_init 0)(0 \<mapsto> [7]))\<rparr>))"
    by (rule net_step.propose [OF _ _ run]) (simp_all add: demo_honest_def net_init_def)
  then show ?thesis
    using net_reachable.step [OF net_reachable.init] run by (simp add: run_propose_def net_init_def)
qed

lemma props_run [simp]: "props (run_propose p s) = props s" "props (run_signal p q s) = props s"
  by (simp_all add: run_propose_def run_signal_def split: prod.split)

lemma demo_run_reachable: "net_reachable demo_committee demo_honest demo_run"
  unfolding demo_run_def
proof (rule run_signal_reachable [OF run_signal_reachable [OF run_signal_reachable
        [OF run_propose_reachable [OF run_propose_reachable [OF run_first_reachable]]]]])
  let ?s0 = "run_propose 2 (run_propose 1 (run_propose 0 (net_init\<lparr>props := (\<lambda>_ _. None)(0 := [0 \<mapsto> [7]])\<rparr>)))"
  show "(1, demo_echo) \<in> sigs ?s0" by code_simp
  show "(2, demo_echo) \<in> sigs (run_signal 0 1 ?s0)" by code_simp
  show "(2, demo_echo) \<in> sigs (run_signal 0 2 (run_signal 0 1 ?s0))" by code_simp
qed (simp_all add: demo_honest_def)

lemma demo_run_deliveries: "(0, 0, 0, [7]) \<in> dels demo_run" "(1, 0, 0, [7]) \<in> dels demo_run"
  by code_simp+

theorem rbc_agreement_witness: "{d. \<exists>p. (p, 0, 0, d) \<in> dels demo_run} = {[7]}"
  using rbc_agreement [OF demo_run_reachable demo_fault_bound _ demo_run_deliveries(1)]
    demo_run_deliveries(1) by blast


end
