(* ===== verification/Composite_Keys.thy ===== *)
theory Composite_Keys
  imports Committee
begin

text \<open>
  Composite validator keys and signatures (\<^verbatim>\<open>crates/tenzro-types/src/signature_scheme.rs\<close>,
  \<^verbatim>\<open>crates/tenzro-finality/src/key.rs\<close>): an ML-DSA leg that names the scheme and an ECDSA leg, both of
  which must verify. The signature algorithms, SHA-512 and the curve checks are parameters.
\<close>

section \<open>Schemes\<close>

datatype signature_scheme = MlDsa65P256 | MlDsa87P384

definition SCHEME_TAG :: u8 where "SCHEME_TAG = 0xA7"

definition default_scheme :: signature_scheme where "default_scheme = MlDsa65P256"

fun scheme_id :: "signature_scheme \<Rightarrow> u8" where
  "scheme_id MlDsa65P256 = 0"
| "scheme_id MlDsa87P384 = 1"

definition scheme_from_id :: "u8 \<Rightarrow> signature_scheme option" where
  "scheme_from_id ident = find (\<lambda>s. scheme_id s = ident) [MlDsa65P256, MlDsa87P384]"

fun ml_dsa_public_key_len :: "signature_scheme \<Rightarrow> nat" where
  "ml_dsa_public_key_len MlDsa65P256 = 1952"
| "ml_dsa_public_key_len MlDsa87P384 = 2592"

fun ml_dsa_signature_len :: "signature_scheme \<Rightarrow> nat" where
  "ml_dsa_signature_len MlDsa65P256 = 3309"
| "ml_dsa_signature_len MlDsa87P384 = 4627"

fun scheme_label :: "signature_scheme \<Rightarrow> string" where
  "scheme_label MlDsa65P256 = ''COMPSIG-MLDSA65-ECDSA-P256-SHA512''"
| "scheme_label MlDsa87P384 = ''COMPSIG-MLDSA87-ECDSA-P384-SHA512''"

fun ecdsa_public_key_len :: "signature_scheme \<Rightarrow> nat" where
  "ecdsa_public_key_len MlDsa65P256 = 65"
| "ecdsa_public_key_len MlDsa87P384 = 97"

fun ecdsa_signature_len :: "signature_scheme \<Rightarrow> nat" where
  "ecdsa_signature_len MlDsa65P256 = 64"
| "ecdsa_signature_len MlDsa87P384 = 96"

definition scheme_tag :: "signature_scheme \<Rightarrow> bytes \<Rightarrow> bytes" where
  "scheme_tag s bare = (if s = default_scheme then bare else SCHEME_TAG # scheme_id s # bare)"

definition scheme_split :: "bytes \<Rightarrow> (signature_scheme \<Rightarrow> nat) \<Rightarrow> (signature_scheme \<times> bytes) option" where
  "scheme_split leg len =
     (if length leg = len default_scheme then Some (default_scheme, leg)
      else case leg of
          tag # ident # bare \<Rightarrow>
            (case scheme_from_id ident of
               None \<Rightarrow> None
             | Some s \<Rightarrow>
                 if s \<noteq> default_scheme \<and> tag = SCHEME_TAG \<and> length bare = len s then Some (s, bare) else None)
        | _ \<Rightarrow> None)"

definition split_public_key :: "bytes \<Rightarrow> (signature_scheme \<times> bytes) option" where
  "split_public_key leg = scheme_split leg ml_dsa_public_key_len"

definition split_signature :: "bytes \<Rightarrow> (signature_scheme \<times> bytes) option" where
  "split_signature leg = scheme_split leg ml_dsa_signature_len"

lemma scheme_split_iff:
  assumes "len MlDsa87P384 + 2 \<noteq> len MlDsa65P256"
  shows "scheme_split leg len = Some (s, bare) \<longleftrightarrow> length bare = len s \<and> leg = scheme_tag s bare"
proof (cases "length leg = len MlDsa65P256")
  case True
  then show ?thesis
    using assms by (cases s) (auto simp: scheme_split_def scheme_tag_def default_scheme_def)
next
  case False
  then show ?thesis
    by (cases s; cases leg; cases "tl leg")
      (auto simp: scheme_split_def scheme_tag_def default_scheme_def scheme_from_id_def split: option.splits if_splits)
qed

text \<open>
  A leg of a key or signature has exactly one reading: it splits into a scheme and a
  bare value exactly when it is the tagged encoding of a value of that scheme's length.
\<close>

theorem leg_encoding_unique:
  "(split_public_key leg = Some (s, key) \<longleftrightarrow> length key = ml_dsa_public_key_len s \<and> leg = scheme_tag s key)
   \<and> (split_signature leg = Some (s, sig) \<longleftrightarrow> length sig = ml_dsa_signature_len s \<and> leg = scheme_tag s sig)"
  unfolding split_public_key_def split_signature_def by (simp add: scheme_split_iff)

section \<open>Composite verification\<close>

record composite_signature =
  cs_ml_dsa :: bytes
  cs_p256 :: bytes

text \<open>The primitives of the signature libraries.\<close>

record primitives =
  pr_sha512 :: "bytes \<Rightarrow> bytes"
  pr_ml_dsa :: "signature_scheme \<Rightarrow> bytes \<Rightarrow> bytes \<Rightarrow> bytes \<Rightarrow> bytes \<Rightarrow> bool"
  pr_ecdsa :: "signature_scheme \<Rightarrow> bytes \<Rightarrow> bytes \<Rightarrow> bytes \<Rightarrow> bool"
  pr_on_curve :: "signature_scheme \<Rightarrow> bytes \<Rightarrow> bool"
  pr_blake3 :: "bytes \<Rightarrow> bytes"

definition COMPOSITE_PREFIX :: string where "COMPOSITE_PREFIX = ''CompositeAlgorithmSignatures2025''"

definition key_scheme :: "validator_public_key \<Rightarrow> signature_scheme" where
  "key_scheme k = (case split_public_key (ml_dsa k) of None \<Rightarrow> default_scheme | Some (s, _) \<Rightarrow> s)"

fun scheme_debug :: "signature_scheme \<Rightarrow> string" where
  "scheme_debug MlDsa65P256 = ''MlDsa65P256''"
| "scheme_debug MlDsa87P384 = ''MlDsa87P384''"

definition check_well_formed :: "primitives \<Rightarrow> validator_public_key \<Rightarrow> (finality_error, unit) result" where
  "check_well_formed pr k =
     (if split_public_key (ml_dsa k) = None
      then Inl (InvalidValidatorKey (''the ML-DSA leg names no known scheme: an ML-DSA-65 key is 1952 bytes, got ''
             @ dec (length (ml_dsa k))))
      else let s = key_scheme k in
        if length (p256 k) \<noteq> ecdsa_public_key_len s \<or> hd (p256 k) \<noteq> 4
        then Inl (InvalidValidatorKey (''the ECDSA key of '' @ scheme_debug s @ '' must be a ''
               @ dec (ecdsa_public_key_len s) @ ''-byte uncompressed SEC1 point''))
        else if \<not> pr_on_curve pr s (p256 k)
        then Inl (InvalidValidatorKey ''the ECDSA key is not a point on its curve'')
        else Inr ())"

definition public_key_new :: "primitives \<Rightarrow> bytes \<Rightarrow> bytes \<Rightarrow> (finality_error, validator_public_key) result" where
  "public_key_new pr ml ec =
     (let k = \<lparr>ml_dsa = ml, p256 = ec\<rparr> in
      case check_well_formed pr k of Inl e \<Rightarrow> Inl e | Inr _ \<Rightarrow> Inr k)"

definition fingerprint :: "primitives \<Rightarrow> validator_public_key \<Rightarrow> digest" where
  "fingerprint pr k = pr_blake3 pr (ascii_bytes ''tenzro/consensus/validator-key'' @ ml_dsa k @ p256 k)"

definition message_representative_for :: "primitives \<Rightarrow> signature_scheme \<Rightarrow> bytes \<Rightarrow> bytes \<Rightarrow> bytes option" where
  "message_representative_for pr s domain message =
     (if uint_max 8 < length domain then None
      else Some (ascii_bytes COMPOSITE_PREFIX @ ascii_bytes (scheme_label s) @ [of_nat (length domain)] @ domain @ pr_sha512 pr message))"

definition verify_ml_dsa_for :: "primitives \<Rightarrow> signature_scheme \<Rightarrow> bytes \<Rightarrow> bytes \<Rightarrow> bytes \<Rightarrow> bool" where
  "verify_ml_dsa_for pr s key representative sig \<longleftrightarrow>
     length key = ml_dsa_public_key_len s \<and> length sig = ml_dsa_signature_len s
     \<and> pr_ml_dsa pr s key representative (ascii_bytes (scheme_label s)) sig"

definition key_verify :: "primitives \<Rightarrow> validator_public_key \<Rightarrow> bytes \<Rightarrow> bytes \<Rightarrow> composite_signature \<Rightarrow> bool" where
  "key_verify pr k domain message sig =
     (case split_public_key (ml_dsa k) of
        None \<Rightarrow> False
      | Some (s, key) \<Rightarrow>
          (case split_signature (cs_ml_dsa sig) of
             None \<Rightarrow> False
           | Some (signed_as, ml) \<Rightarrow>
               if signed_as \<noteq> s \<or> length (cs_p256 sig) \<noteq> ecdsa_signature_len s then False
               else (case message_representative_for pr s domain message of
                   None \<Rightarrow> False
                 | Some rep \<Rightarrow> verify_ml_dsa_for pr s key rep ml \<and> pr_ecdsa pr s (p256 k) rep (cs_p256 sig))))"

definition verify_p256_leg :: "primitives \<Rightarrow> validator_public_key \<Rightarrow> bytes \<Rightarrow> bytes \<Rightarrow> bytes \<Rightarrow> bool" where
  "verify_p256_leg pr k domain message sig \<longleftrightarrow>
     key_scheme k = MlDsa65P256 \<and> length sig = 64
     \<and> (case message_representative_for pr (key_scheme k) domain message of
          None \<Rightarrow> False
        | Some rep \<Rightarrow> pr_ecdsa pr MlDsa65P256 (p256 k) rep sig)"

text \<open>
  A composite signature verifies exactly when key and signature are of one scheme and
  both legs verify over the same representative, which holds the label of that scheme, the domain
  with its length and the hash of the message.
\<close>

theorem composite_needs_both_legs:
  "key_verify pr k domain message sig \<longleftrightarrow>
     (\<exists>s key ml. split_public_key (ml_dsa k) = Some (s, key) \<and> split_signature (cs_ml_dsa sig) = Some (s, ml)
        \<and> length domain \<le> 255 \<and> length (cs_p256 sig) = ecdsa_signature_len s
        \<and> (let rep = ascii_bytes COMPOSITE_PREFIX @ ascii_bytes (scheme_label s) @ [of_nat (length domain)] @ domain @ pr_sha512 pr message
           in pr_ml_dsa pr s key rep (ascii_bytes (scheme_label s)) ml \<and> pr_ecdsa pr s (p256 k) rep (cs_p256 sig)))"
proof -
  have "length key = ml_dsa_public_key_len s" if "split_public_key leg = Some (s, key)" for leg s key
    using that unfolding split_public_key_def by (simp add: scheme_split_iff)
  moreover have "length ml = ml_dsa_signature_len s" if "split_signature leg = Some (s, ml)" for leg s ml
    using that unfolding split_signature_def by (simp add: scheme_split_iff)
  ultimately show ?thesis
    unfolding key_verify_def message_representative_for_def verify_ml_dsa_for_def Let_def
    by (auto simp: uint_max_def split: option.splits prod.splits)
qed

end
