(* ===== verification/Finality.thy ===== *)
theory Finality
  imports Composite_Keys
begin

text \<open>
  Sessions, checkpoints and their certificates (\<^verbatim>\<open>crates/tenzro-finality/src/session.rs\<close>,
  \<^verbatim>\<open>checkpoint.rs\<close>, \<^verbatim>\<open>step.rs\<close>, \<^verbatim>\<open>committee.rs\<close>'s root and
  \<^verbatim>\<open>crates/tenzro-types/src/hash_scheme.rs\<close>): what a quorum signs, the book of session keys a
  committee's hardware keys vouch for, the check of a certificate, and the step a light client takes.
  The hash functions and the byte encoding of the serialisation library are parameters.
\<close>

section \<open>Hash schemes\<close>

datatype hash_scheme = Sha256 | Sha3_256 | Blake3

definition default_hash :: hash_scheme where "default_hash = Sha256"

fun hash_id :: "hash_scheme \<Rightarrow> u8" where
  "hash_id Sha256 = 0"
| "hash_id Sha3_256 = 1"
| "hash_id Blake3 = 2"

definition hash_from_id :: "u8 \<Rightarrow> hash_scheme option" where
  "hash_from_id ident = find (\<lambda>s. hash_id s = ident) [Sha256, Sha3_256, Blake3]"

definition CHECKPOINT_DIGEST_SCHEMES :: "(nat \<times> hash_scheme) list" where
  "CHECKPOINT_DIGEST_SCHEMES = [(0, Blake3)]"

definition scheme_from :: "nat \<Rightarrow> (nat \<times> hash_scheme) list \<Rightarrow> hash_scheme" where
  "scheme_from at schemes =
     (let low = takeWhile (\<lambda>(start, _). start \<le> at) schemes
      in if low = [] then default_hash else snd (last low))"

section \<open>Data\<close>

record session_certificate =
  sc_chain_id :: nat
  sc_genesis_hash :: digest
  sc_epoch :: nat
  sc_validator :: digest
  sc_session_key :: validator_public_key
  sc_signature :: composite_signature

record checkpoint =
  cp_chain_id :: nat
  cp_genesis_hash :: digest
  cp_epoch :: nat
  cp_index :: nat
  cp_prev :: digest
  cp_first_height :: nat
  cp_last_height :: nat
  cp_blocks_root :: digest
  cp_state_height :: nat
  cp_state_root :: digest
  cp_statement_root :: digest
  cp_next_committee_root :: "digest option"
  cp_anchor_round :: round
  cp_timestamp_ms :: nat
  cp_ordering_root :: digest

text \<open>The primitives of the hash libraries and of the serialisation library.\<close>

record codecs = primitives +
  pr_sha256 :: "bytes \<Rightarrow> digest"
  pr_sha3_256 :: "bytes \<Rightarrow> digest"
  pr_session_bytes :: "session_certificate \<Rightarrow> bytes"
  pr_checkpoint_bytes :: "checkpoint \<Rightarrow> bytes"

abbreviation prims :: "codecs \<Rightarrow> primitives" where "prims pr \<equiv> primitives.truncate pr"

fun hash_digest :: "codecs \<Rightarrow> hash_scheme \<Rightarrow> bytes \<Rightarrow> digest" where
  "hash_digest pr Sha256 bs = pr_sha256 pr bs"
| "hash_digest pr Sha3_256 bs = pr_sha3_256 pr bs"
| "hash_digest pr Blake3 bs = pr_blake3 pr bs"

section \<open>Sessions\<close>

definition SESSION_CERTIFICATE_DOMAIN :: bytes where
  "SESSION_CERTIFICATE_DOMAIN = ascii_bytes ''tenzro/consensus/session-certificate''"

definition certificate_message :: "codecs \<Rightarrow> session_certificate \<Rightarrow> bytes" where
  "certificate_message pr c =
     to_be 8 (sc_chain_id c) @ sc_genesis_hash c @ to_be 8 (sc_epoch c) @ sc_validator c
     @ fingerprint (prims pr) (sc_session_key c)"

definition certifies ::
  "codecs \<Rightarrow> session_certificate \<Rightarrow> validator_public_key \<Rightarrow> nat \<Rightarrow> digest \<Rightarrow> nat \<Rightarrow> bool" where
  "certifies pr c hardware_key chain genesis epoch \<longleftrightarrow>
     sc_chain_id c = chain \<and> sc_genesis_hash c = genesis \<and> sc_epoch c = epoch
     \<and> sc_validator c = fingerprint (prims pr) hardware_key
     \<and> key_verify (prims pr) hardware_key SESSION_CERTIFICATE_DOMAIN (certificate_message pr c) (sc_signature c)"

definition session_digest :: "codecs \<Rightarrow> session_certificate \<Rightarrow> digest" where
  "session_digest pr c =
     pr_blake3 pr (ascii_bytes ''tenzro/consensus/session-certificate/id'' @ pr_session_bytes pr c)"

definition MAX_SESSIONS_PER_VALIDATOR :: nat where "MAX_SESSIONS_PER_VALIDATOR = 16"

record session_book =
  sb_chain_id :: nat
  sb_genesis_hash :: digest
  sb_epoch :: nat
  sb_by_digest :: "digest \<rightharpoonup> validator_index \<times> session_certificate"
  sb_per_validator :: "validator_index \<rightharpoonup> nat"
  sb_latest :: "validator_index \<rightharpoonup> digest"

definition book_new :: "nat \<Rightarrow> digest \<Rightarrow> nat \<Rightarrow> session_book" where
  "book_new chain genesis epoch =
     \<lparr>sb_chain_id = chain, sb_genesis_hash = genesis, sb_epoch = epoch,
      sb_by_digest = Map.empty, sb_per_validator = Map.empty, sb_latest = Map.empty\<rparr>"

fun position :: "('a \<Rightarrow> bool) \<Rightarrow> 'a list \<Rightarrow> nat option" where
  "position P [] = None"
| "position P (x # xs) = (if P x then Some 0 else map_option Suc (position P xs))"

definition admit ::
  "codecs \<Rightarrow> session_book \<Rightarrow> committee \<Rightarrow> session_certificate \<Rightarrow> (finality_error, digest) result \<times> session_book" where
  "admit pr book c cert =
     (let d = session_digest pr cert in
      if sb_by_digest book d \<noteq> None then (Inr d, book)
      else if c_epoch c \<noteq> sb_epoch book
      then (Inl (InvalidCertificate ''session book and committee are for different epochs''), book)
      else case position (\<lambda>m. fingerprint (prims pr) (m_public_key m) = sc_validator cert) (c_members c) of
          None \<Rightarrow> (Inl (InvalidCertificate ''session certificate of a non-member''), book)
        | Some index \<Rightarrow>
            let key = m_public_key (c_members c ! index) in
            if \<not> certifies pr cert key (sb_chain_id book) (sb_genesis_hash book) (sb_epoch book)
            then (Inl (InvalidCertificate
                    ''session certificate not signed by its validator for this chain and epoch''), book)
            else let count = (case sb_per_validator book index of None \<Rightarrow> 0 | Some n \<Rightarrow> n);
                     book = book\<lparr>sb_per_validator := (sb_per_validator book)(index \<mapsto> count)\<rparr> in
              if MAX_SESSIONS_PER_VALIDATOR \<le> count
              then (Inl (InvalidCertificate ''too many session certificates for one validator''), book)
              else (Inr d, book\<lparr>sb_per_validator := (sb_per_validator book)(index \<mapsto> count + 1),
                                sb_by_digest := (sb_by_digest book)(d \<mapsto> (index, cert)),
                                sb_latest := (sb_latest book)(index \<mapsto> d)\<rparr>))"

definition book_latest :: "session_book \<Rightarrow> validator_index \<Rightarrow> digest option" where
  "book_latest book i = sb_latest book i"

definition book_get :: "session_book \<Rightarrow> digest \<Rightarrow> (validator_index \<times> session_certificate) option" where
  "book_get book d = sb_by_digest book d"

fun first_named :: "digest set \<Rightarrow> digest list \<Rightarrow> digest list" where
  "first_named seen [] = []"
| "first_named seen (d # ds) =
     (if d \<in> seen then first_named seen ds else d # first_named (insert d seen) ds)"

definition book_bundle :: "session_book \<Rightarrow> digest list \<Rightarrow> session_certificate list" where
  "book_bundle book ds = List.map_filter (\<lambda>d. map_option snd (sb_by_digest book d)) (first_named {} ds)"

section \<open>Checkpoints\<close>

definition CHECKPOINT_VOTE_DOMAIN :: bytes where
  "CHECKPOINT_VOTE_DOMAIN = ascii_bytes ''tenzro/consensus/checkpoint''"

definition STATE_ROOT_LAG :: nat where "STATE_ROOT_LAG = 2"

definition state_root_height :: "nat \<Rightarrow> nat" where
  "state_root_height last_height = sat_sub last_height STATE_ROOT_LAG"

definition checkpoint_state_height :: "nat \<Rightarrow> nat \<Rightarrow> nat" where
  "checkpoint_state_height first_height last_height =
     (if last_height < first_height then last_height else state_root_height last_height)"

definition well_formed :: "checkpoint \<Rightarrow> bool" where
  "well_formed cp \<longleftrightarrow>
     cp_first_height cp \<le> sat_add 64 (cp_last_height cp) 1
     \<and> cp_state_height cp = checkpoint_state_height (cp_first_height cp) (cp_last_height cp)"

definition digest_under :: "codecs \<Rightarrow> (nat \<times> hash_scheme) list \<Rightarrow> checkpoint \<Rightarrow> digest" where
  "digest_under pr schemes cp =
     hash_digest pr (scheme_from (cp_epoch cp) schemes)
       (ascii_bytes ''tenzro/consensus/checkpoint/body'' @ pr_checkpoint_bytes pr cp)"

definition checkpoint_digest :: "codecs \<Rightarrow> checkpoint \<Rightarrow> digest" where
  "checkpoint_digest pr cp = digest_under pr CHECKPOINT_DIGEST_SCHEMES cp"

record vote_signature =
  vs_session :: session_certificate
  vs_signature :: composite_signature

definition vote_signature_verify :: "codecs \<Rightarrow> vote_signature \<Rightarrow> validator_public_key \<Rightarrow> checkpoint \<Rightarrow> bool" where
  "vote_signature_verify pr v key cp \<longleftrightarrow>
     certifies pr (vs_session v) key (cp_chain_id cp) (cp_genesis_hash cp) (cp_epoch cp)
     \<and> key_verify (prims pr) (sc_session_key (vs_session v)) CHECKPOINT_VOTE_DOMAIN (checkpoint_digest pr cp) (vs_signature v)"

section \<open>Certificates\<close>

record certificate =
  ct_checkpoint :: checkpoint
  ct_signers :: "validator_index list"
  ct_sessions :: "digest list"
  ct_signatures :: "composite_signature list"

record certificate_context =
  cx_chain_id :: nat
  cx_genesis_hash :: digest
  cx_committee :: committee
  cx_sessions :: session_book

fun check_signers ::
  "committee \<Rightarrow> validator_index option \<Rightarrow> seat_set \<Rightarrow> validator_index list \<Rightarrow> (finality_error, seat_set) result" where
  "check_signers c prev seats [] = Inr seats"
| "check_signers c prev seats (s # ss) =
     (if (case prev of None \<Rightarrow> False | Some p \<Rightarrow> s \<le> p)
      then Inl (InvalidCertificate ''signers are not strictly ascending'')
      else if c_member c s = None then Inl (InvalidCertificate ''signer is not a committee member'')
      else check_signers c (Some s) (snd (ss_insert seats s (c_seats c s))) ss)"

fun check_votes ::
  "codecs \<Rightarrow> session_book \<Rightarrow> digest \<Rightarrow> ((validator_index \<times> digest) \<times> composite_signature) list \<Rightarrow> (finality_error, unit) result" where
  "check_votes pr book d [] = Inr ()"
| "check_votes pr book d (((s, session), sig) # vs) =
     (case book_get book session of
        None \<Rightarrow> Inl (InvalidCertificate ''a signer's session certificate is not in the epoch's bundle'')
      | Some (holder, cert) \<Rightarrow>
          if holder \<noteq> s then Inl (InvalidCertificate ''a session certificate is another validator's'')
          else if \<not> key_verify (prims pr) (sc_session_key cert) CHECKPOINT_VOTE_DOMAIN d sig
          then Inl (InvalidCertificate
                 ''a signature does not verify under a session key its signer certified for this epoch'')
          else check_votes pr book d vs)"

definition certificate_verify :: "codecs \<Rightarrow> certificate \<Rightarrow> certificate_context \<Rightarrow> (finality_error, unit) result" where
  "certificate_verify pr ct cx =
     (let cp = ct_checkpoint ct; bad = \<lambda>why. Inl (InvalidCertificate why) in
      if cp_chain_id cp \<noteq> cx_chain_id cx \<or> cp_genesis_hash cp \<noteq> cx_genesis_hash cx
      then bad ''certificate is for another chain''
      else if cp_epoch cp \<noteq> c_epoch (cx_committee cx) \<or> cp_epoch cp \<noteq> sb_epoch (cx_sessions cx)
      then bad ''certificate is for another epoch's committee''
      else if \<not> well_formed cp then bad ''checkpoint's height range or state height is malformed''
      else if length (ct_signers ct) \<noteq> length (ct_signatures ct) \<or> length (ct_signers ct) \<noteq> length (ct_sessions ct)
      then bad ''signer, session and signature counts differ''
      else case check_signers (cx_committee cx) None ss_new (ct_signers ct) of
          Inl e \<Rightarrow> Inl e
        | Inr seats \<Rightarrow>
            if ss_weight seats < quorum (cx_committee cx)
            then bad ''signers carry less than a quorum of seats''
            else check_votes pr (cx_sessions cx) (checkpoint_digest pr cp)
                   (zip (zip (ct_signers ct) (ct_sessions ct)) (ct_signatures ct)))"

section \<open>The book holds only what hardware keys vouch for\<close>

definition entries_of :: "session_book \<Rightarrow> validator_index \<Rightarrow> digest set" where
  "entries_of book i = {d. \<exists>cert. sb_by_digest book d = Some (i, cert)}"

definition held_for :: "session_book \<Rightarrow> validator_index \<Rightarrow> nat" where
  "held_for book i = (case sb_per_validator book i of None \<Rightarrow> 0 | Some n \<Rightarrow> n)"

definition book_inv :: "codecs \<Rightarrow> committee \<Rightarrow> session_book \<Rightarrow> bool" where
  "book_inv pr c book \<longleftrightarrow>
     (\<forall>d i cert. sb_by_digest book d = Some (i, cert) \<longrightarrow>
        i \<in> member_set c \<and> d = session_digest pr cert
        \<and> certifies pr cert (m_public_key (c_members c ! i)) (sb_chain_id book) (sb_genesis_hash book) (sb_epoch book))
     \<and> (\<forall>i. finite (entries_of book i) \<and> card (entries_of book i) = held_for book i
            \<and> held_for book i \<le> MAX_SESSIONS_PER_VALIDATOR)
     \<and> (\<forall>i d. sb_latest book i = Some d \<longrightarrow> d \<in> entries_of book i)"

lemma book_inv_new: "book_inv pr c (book_new chain genesis epoch)"
  by (simp add: book_inv_def book_new_def entries_of_def held_for_def)

lemma position_Some: "position P xs = Some i \<Longrightarrow> i < length xs \<and> P (xs ! i)"
  by (induction xs arbitrary: i) (auto split: if_splits)

lemma admit_cases:
  obtains (kept) d where "admit pr book c cert = (Inr d, book)" "sb_by_digest book d \<noteq> None" "d = session_digest pr cert"
  | (refused) e where "admit pr book c cert = (Inl e, book)"
  | (full) e i where "admit pr book c cert =
        (Inl e, book\<lparr>sb_per_validator := (sb_per_validator book)(i \<mapsto> held_for book i)\<rparr>)"
  | (added) i where
      "admit pr book c cert = (Inr (session_digest pr cert),
         book\<lparr>sb_per_validator := (sb_per_validator book)(i \<mapsto> Suc (held_for book i)),
              sb_by_digest := (sb_by_digest book)(session_digest pr cert \<mapsto> (i, cert)),
              sb_latest := (sb_latest book)(i \<mapsto> session_digest pr cert)\<rparr>)"
      "sb_by_digest book (session_digest pr cert) = None" "i \<in> member_set c" "c_epoch c = sb_epoch book"
      "certifies pr cert (m_public_key (c_members c ! i)) (sb_chain_id book) (sb_genesis_hash book) (sb_epoch book)"
      "held_for book i < MAX_SESSIONS_PER_VALIDATOR"
proof (cases "sb_by_digest book (session_digest pr cert) = None")
  case False
  then show ?thesis using kept by (simp add: admit_def)
next
  case fresh: True
  show ?thesis
  proof (cases "c_epoch c = sb_epoch book")
    case False
    then show ?thesis using refused fresh by (simp add: admit_def)
  next
    case same: True
    let ?P = "\<lambda>m. fingerprint (prims pr) (m_public_key m) = sc_validator cert"
    show ?thesis
    proof (cases "position ?P (c_members c)")
      case None
      then show ?thesis using refused fresh same by (simp add: admit_def)
    next
      case (Some i)
      then have i: "i \<in> member_set c" using position_Some [OF Some] by (simp add: member_set_def)
      let ?ok = "certifies pr cert (m_public_key (c_members c ! i)) (sb_chain_id book) (sb_genesis_hash book) (sb_epoch book)"
      consider "\<not> ?ok" | "?ok" "MAX_SESSIONS_PER_VALIDATOR \<le> held_for book i" | "?ok" "held_for book i < MAX_SESSIONS_PER_VALIDATOR"
        by linarith
      then show ?thesis
        by cases (use Some fresh same i refused full added in \<open>simp_all add: admit_def Let_def held_for_def\<close>)
    qed
  qed
qed

lemma held_for_upd:
  "held_for (book\<lparr>sb_per_validator := (sb_per_validator book)(i \<mapsto> n)\<rparr>) j = (if j = i then n else held_for book j)"
  by (simp add: held_for_def)

lemma book_inv_full:
  assumes "book_inv pr c book"
  shows "book_inv pr c (book\<lparr>sb_per_validator := (sb_per_validator book)(i \<mapsto> held_for book i)\<rparr>)"
  using assms by (simp add: book_inv_def entries_of_def held_for_def)

lemma book_inv_added:
  assumes inv: "book_inv pr c book" and fresh: "sb_by_digest book (session_digest pr cert) = None"
    and ok: "i \<in> member_set c"
      "certifies pr cert (m_public_key (c_members c ! i)) (sb_chain_id book) (sb_genesis_hash book) (sb_epoch book)"
    and room: "held_for book i < MAX_SESSIONS_PER_VALIDATOR"
  shows "book_inv pr c (book\<lparr>sb_per_validator := (sb_per_validator book)(i \<mapsto> Suc (held_for book i)),
              sb_by_digest := (sb_by_digest book)(session_digest pr cert \<mapsto> (i, cert)),
              sb_latest := (sb_latest book)(i \<mapsto> session_digest pr cert)\<rparr>)" (is "book_inv pr c ?new")
proof -
  have new: "entries_of ?new j = (if j = i then insert (session_digest pr cert) (entries_of book j) else entries_of book j)" for j
    using fresh by (auto simp: entries_of_def)
  have notin: "session_digest pr cert \<notin> entries_of book j" for j using fresh by (simp add: entries_of_def)
  have held: "held_for ?new j = (if j = i then held_for book i + 1 else held_for book j)" for j
    by (simp add: held_for_def)
  show ?thesis
    unfolding book_inv_def new held
    using inv ok room notin unfolding book_inv_def by auto
qed

lemma book_inv_admit:
  assumes "book_inv pr c book"
  shows "book_inv pr c (snd (admit pr book c cert))"
  using assms by (cases rule: admit_cases [of pr book c cert]) (simp_all add: book_inv_full book_inv_added)

lemma admit_frame:
  "sb_epoch (snd (admit pr book c cert)) = sb_epoch book"
  "sb_chain_id (snd (admit pr book c cert)) = sb_chain_id book"
  "sb_genesis_hash (snd (admit pr book c cert)) = sb_genesis_hash book"
  by (cases rule: admit_cases [of pr book c cert]; simp)+

definition admit_each :: "codecs \<Rightarrow> committee \<Rightarrow> session_book \<Rightarrow> session_certificate list \<Rightarrow> session_book" where
  "admit_each pr c = foldl (\<lambda>book cert. snd (admit pr book c cert))"

text \<open>
  Whatever certificates a book is offered, accepted or refused, every entry it holds is
  filed under its own digest and certified by the hardware key of the member it names for the chain
  and epoch of the book, no member has more than sixteen, and its latest one is an entry of its own.
\<close>

theorem session_book_invariant: "book_inv pr c (admit_each pr c (book_new chain genesis epoch) certs)"
proof -
  have "book_inv pr c book \<Longrightarrow> book_inv pr c (admit_each pr c book certs)" for book
    unfolding admit_each_def by (induction certs arbitrary: book) (simp_all add: book_inv_admit)
  then show ?thesis by (simp add: book_inv_new)
qed

section \<open>What a verified certificate shows\<close>

lemma check_signers_Inr:
  "check_signers c prev seats ss = Inr out \<longleftrightarrow>
     sorted_wrt (<) (case prev of None \<Rightarrow> ss | Some p \<Rightarrow> p # ss) \<and> set ss \<subseteq> member_set c
     \<and> out = foldl (\<lambda>s i. snd (ss_insert s i (c_seats c i))) seats ss"
proof (induction ss arbitrary: prev seats)
  case (Cons s ss)
  have asc: "sorted_wrt (<) (case prev of None \<Rightarrow> s # ss | Some p \<Rightarrow> p # s # ss)
      \<longleftrightarrow> \<not> (case prev of None \<Rightarrow> False | Some p \<Rightarrow> s \<le> p) \<and> sorted_wrt (<) (s # ss)"
    by (auto split: option.splits)
  show ?case unfolding asc check_signers.simps by (auto simp: Cons.IH in_member_set_iff)
qed (auto split: option.splits)

lemma check_votes_Inr:
  "check_votes pr book d vs = Inr () \<longleftrightarrow>
     list_all (\<lambda>((s, session), sig). \<exists>cert. book_get book session = Some (s, cert)
       \<and> key_verify (prims pr) (sc_session_key cert) CHECKPOINT_VOTE_DOMAIN d sig) vs"
  by (induction pr book d vs rule: check_votes.induct) (auto split: option.splits prod.splits)

lemma certificate_verify_Inr:
  "certificate_verify pr ct cx = Inr () \<longleftrightarrow>
     (let cp = ct_checkpoint ct; c = cx_committee cx; book = cx_sessions cx in
      cp_chain_id cp = cx_chain_id cx \<and> cp_genesis_hash cp = cx_genesis_hash cx
      \<and> cp_epoch cp = c_epoch c \<and> cp_epoch cp = sb_epoch book \<and> well_formed cp
      \<and> length (ct_sessions ct) = length (ct_signers ct) \<and> length (ct_signatures ct) = length (ct_signers ct)
      \<and> sorted_wrt (<) (ct_signers ct) \<and> set (ct_signers ct) \<subseteq> member_set c
      \<and> quorum c \<le> sum (c_seats c) (set (ct_signers ct))
      \<and> list_all (\<lambda>((s, session), sig). \<exists>cert. book_get book session = Some (s, cert)
           \<and> key_verify (prims pr) (sc_session_key cert) CHECKPOINT_VOTE_DOMAIN (checkpoint_digest pr cp) sig)
         (zip (zip (ct_signers ct) (ct_sessions ct)) (ct_signatures ct)))"
proof -
  let ?out = "foldl (\<lambda>s i. snd (ss_insert s i (c_seats (cx_committee cx) i))) ss_new (ct_signers ct)"
  have "ss_weight ?out = sum (c_seats (cx_committee cx)) (set (ct_signers ct))"
    if "sorted_wrt (<) (ct_signers ct)"
    using that by (intro seatset.fold_ins_empty_weight) (simp add: strict_sorted_iff)
  then show ?thesis
    unfolding certificate_verify_def Let_def guard_Inr case_result_Inr check_signers_Inr check_votes_Inr
    by auto
qed

text \<open>
  Property C35. A certificate verifies exactly when it is for the expected chain, genesis and epoch,
  its checkpoint is well formed, its signers are strictly ascending members who hold a quorum of
  seats, and each of them has a session in the book whose key signed the digest of the checkpoint.
\<close>

theorem certificate_verify_iff:
  "certificate_verify pr ct cx = Inr () \<longleftrightarrow>
     (let cp = ct_checkpoint ct; c = cx_committee cx; book = cx_sessions cx in
      cp_chain_id cp = cx_chain_id cx \<and> cp_genesis_hash cp = cx_genesis_hash cx
      \<and> cp_epoch cp = c_epoch c \<and> cp_epoch cp = sb_epoch book \<and> well_formed cp
      \<and> length (ct_sessions ct) = length (ct_signers ct) \<and> length (ct_signatures ct) = length (ct_signers ct)
      \<and> sorted_wrt (<) (ct_signers ct) \<and> set (ct_signers ct) \<subseteq> member_set c
      \<and> quorum c \<le> sum (c_seats c) (set (ct_signers ct))
      \<and> list_all (\<lambda>((s, session), sig). \<exists>cert. book_get book session = Some (s, cert)
           \<and> key_verify (prims pr) (sc_session_key cert) CHECKPOINT_VOTE_DOMAIN (checkpoint_digest pr cp) sig)
         (zip (zip (ct_signers ct) (ct_sessions ct)) (ct_signatures ct)))"
  by (rule certificate_verify_Inr)

text \<open>The context a node builds for a committee from the session certificates it was offered.\<close>

definition context_for :: "codecs \<Rightarrow> committee \<Rightarrow> nat \<Rightarrow> digest \<Rightarrow> session_certificate list \<Rightarrow> certificate_context" where
  "context_for pr c chain genesis certs =
     \<lparr>cx_chain_id = chain, cx_genesis_hash = genesis, cx_committee = c,
      cx_sessions = admit_each pr c (book_new chain genesis (c_epoch c)) certs\<rparr>"

definition signed_by :: "codecs \<Rightarrow> validator_public_key \<Rightarrow> checkpoint \<Rightarrow> bool" where
  "signed_by pr key cp \<longleftrightarrow> (\<exists>v. vote_signature_verify pr v key cp)"

lemma admit_each_frame:
  "sb_chain_id (admit_each pr c book certs) = sb_chain_id book"
  "sb_genesis_hash (admit_each pr c book certs) = sb_genesis_hash book"
  "sb_epoch (admit_each pr c book certs) = sb_epoch book"
  unfolding admit_each_def by (induction certs arbitrary: book) (simp_all add: admit_frame)

lemma book_inv_admit_each: "book_inv pr c book \<Longrightarrow> book_inv pr c (admit_each pr c book certs)"
  unfolding admit_each_def by (induction certs arbitrary: book) (simp_all add: book_inv_admit)

lemma certificate_vote_at:
  assumes "certificate_verify pr ct cx = Inr ()" "k < length (ct_signers ct)"
  obtains cert where "book_get (cx_sessions cx) (ct_sessions ct ! k) = Some (ct_signers ct ! k, cert)"
    "key_verify (prims pr) (sc_session_key cert) CHECKPOINT_VOTE_DOMAIN (checkpoint_digest pr (ct_checkpoint ct)) (ct_signatures ct ! k)"
    "k < length (ct_sessions ct)" "k < length (ct_signatures ct)"
proof -
  have len: "length (ct_sessions ct) = length (ct_signers ct)" "length (ct_signatures ct) = length (ct_signers ct)"
    and votes: "list_all (\<lambda>((s, session), sig). \<exists>cert. book_get (cx_sessions cx) session = Some (s, cert)
         \<and> key_verify (prims pr) (sc_session_key cert) CHECKPOINT_VOTE_DOMAIN (checkpoint_digest pr (ct_checkpoint ct)) sig)
       (zip (zip (ct_signers ct) (ct_sessions ct)) (ct_signatures ct))"
    using assms(1) unfolding certificate_verify_def Let_def guard_Inr case_result_Inr check_votes_Inr by auto
  from votes len assms(2) have "\<exists>cert. book_get (cx_sessions cx) (ct_sessions ct ! k) = Some (ct_signers ct ! k, cert)
      \<and> key_verify (prims pr) (sc_session_key cert) CHECKPOINT_VOTE_DOMAIN (checkpoint_digest pr (ct_checkpoint ct)) (ct_signatures ct ! k)"
    by (fastforce simp: list_all_length)
  then show thesis using that len assms(2) by auto
qed

lemma certificate_verify_signers:
  assumes "certificate_verify pr ct cx = Inr ()"
  shows "set (ct_signers ct) \<subseteq> member_set (cx_committee cx)"
    "quorum (cx_committee cx) \<le> sum (c_seats (cx_committee cx)) (set (ct_signers ct))"
    "cp_epoch (ct_checkpoint ct) = c_epoch (cx_committee cx)"
    "cp_chain_id (ct_checkpoint ct) = cx_chain_id cx" "cp_genesis_hash (ct_checkpoint ct) = cx_genesis_hash cx"
    "well_formed (ct_checkpoint ct)"
  using assms seatset.fold_ins_empty_weight [of "ct_signers ct" "c_seats (cx_committee cx)"]
  unfolding certificate_verify_def Let_def guard_Inr case_result_Inr check_signers_Inr
  by (auto simp: strict_sorted_iff)

lemma certificate_vote_signature:
  assumes ok: "certificate_verify pr ct (context_for pr c chain genesis certs) = Inr ()"
    and k: "k < length (ct_signers ct)"
  obtains cert where "book_get (cx_sessions (context_for pr c chain genesis certs)) (ct_sessions ct ! k) = Some (ct_signers ct ! k, cert)"
    "k < length (ct_sessions ct)" "k < length (ct_signatures ct)"
    "vote_signature_verify pr \<lparr>vs_session = cert, vs_signature = ct_signatures ct ! k\<rparr>
       (m_public_key (c_members c ! (ct_signers ct ! k))) (ct_checkpoint ct)"
proof -
  let ?cx = "context_for pr c chain genesis certs"
  obtain cert where e: "book_get (cx_sessions ?cx) (ct_sessions ct ! k) = Some (ct_signers ct ! k, cert)"
    and v: "key_verify (prims pr) (sc_session_key cert) CHECKPOINT_VOTE_DOMAIN (checkpoint_digest pr (ct_checkpoint ct)) (ct_signatures ct ! k)"
    and len: "k < length (ct_sessions ct)" "k < length (ct_signatures ct)"
    by (rule certificate_vote_at [OF ok k])
  have "certifies pr cert (m_public_key (c_members c ! (ct_signers ct ! k))) chain genesis (c_epoch c)"
    using e book_inv_admit_each [OF book_inv_new, of pr c chain genesis "c_epoch c" certs]
    unfolding book_inv_def context_for_def book_get_def by (simp add: admit_each_frame book_new_def)
  then show thesis
    using that [OF e len] v certificate_verify_signers [OF ok] by (simp add: vote_signature_verify_def context_for_def)
qed

lemma certificate_signed:
  assumes ok: "certificate_verify pr ct (context_for pr c chain genesis certs) = Inr ()"
    and i: "i \<in> set (ct_signers ct)"
  shows "signed_by pr (m_public_key (c_members c ! i)) (ct_checkpoint ct)"
proof -
  obtain k where k: "k < length (ct_signers ct)" "ct_signers ct ! k = i" using i by (auto simp: in_set_conv_nth)
  show ?thesis
    by (rule certificate_vote_signature [OF ok k(1)]) (use k(2) in \<open>auto simp: signed_by_def\<close>)
qed

text \<open>
  Two certificates a node verified under one committee, each against a book of session
  certificates it was offered, have signers in common who hold more seats than may be faulty, and the
  hardware key of each of them stands behind a signature on both checkpoints.
\<close>

theorem certificates_double_sign:
  assumes "wf_committee c"
    and "certificate_verify pr ct (context_for pr c chain genesis certs) = Inr ()"
    and "certificate_verify pr ct' (context_for pr c chain genesis certs') = Inr ()"
  shows "max_faulty c < sum (c_seats c) (set (ct_signers ct) \<inter> set (ct_signers ct'))
    \<and> (\<forall>i \<in> set (ct_signers ct) \<inter> set (ct_signers ct').
         signed_by pr (m_public_key (c_members c ! i)) (ct_checkpoint ct)
         \<and> signed_by pr (m_public_key (c_members c ! i)) (ct_checkpoint ct'))"
proof
  have cx: "cx_committee (context_for pr c chain genesis ss) = c" for ss by (simp add: context_for_def)
  show "max_faulty c < sum (c_seats c) (set (ct_signers ct) \<inter> set (ct_signers ct'))"
    using certificate_verify_signers(1,2) [OF assms(2)] certificate_verify_signers(1,2) [OF assms(3)]
    unfolding cx quorum_def by (intro cq.quorums_overlap [OF assms(1)])
  show "\<forall>i \<in> set (ct_signers ct) \<inter> set (ct_signers ct').
      signed_by pr (m_public_key (c_members c ! i)) (ct_checkpoint ct)
      \<and> signed_by pr (m_public_key (c_members c ! i)) (ct_checkpoint ct')"
    using certificate_signed [OF assms(2)] certificate_signed [OF assms(3)] by blast
qed

text \<open>A committee of one validator, on which the witnesses of the certificate properties run.\<close>

definition demo_hash :: digest where "demo_hash = replicate 32 1"

definition demo_codecs :: codecs where
  "demo_codecs = \<lparr>pr_sha512 = (\<lambda>_. []), pr_ml_dsa = (\<lambda>_ _ _ _ _. True), pr_ecdsa = (\<lambda>_ _ _ _. True),
     pr_on_curve = (\<lambda>_ _. True), pr_blake3 = (\<lambda>_. demo_hash), pr_sha256 = (\<lambda>_. demo_hash),
     pr_sha3_256 = (\<lambda>_. demo_hash), pr_session_bytes = (\<lambda>_. []), pr_checkpoint_bytes = (\<lambda>_. [])\<rparr>"

definition demo_key :: validator_public_key where
  "demo_key = \<lparr>ml_dsa = replicate 1952 0, p256 = replicate 65 4\<rparr>"

definition demo_sig :: composite_signature where
  "demo_sig = \<lparr>cs_ml_dsa = replicate 3309 0, cs_p256 = replicate 64 0\<rparr>"

definition demo_member :: member where
  "demo_member = \<lparr>m_address = demo_hash, m_public_key = demo_key, m_stake = 1, m_seats = 1\<rparr>"

definition demo_session :: "nat \<Rightarrow> session_certificate" where
  "demo_session e = \<lparr>sc_chain_id = 7, sc_genesis_hash = demo_hash, sc_epoch = e, sc_validator = demo_hash,
     sc_session_key = demo_key, sc_signature = demo_sig\<rparr>"

definition demo_checkpoint :: "nat \<Rightarrow> digest option \<Rightarrow> checkpoint" where
  "demo_checkpoint e next_root = \<lparr>cp_chain_id = 7, cp_genesis_hash = demo_hash, cp_epoch = e, cp_index = e, cp_prev = demo_hash,
     cp_first_height = 1, cp_last_height = 4, cp_blocks_root = demo_hash, cp_state_height = 2, cp_state_root = demo_hash,
     cp_statement_root = demo_hash, cp_next_committee_root = next_root, cp_anchor_round = 3, cp_timestamp_ms = 9,
     cp_ordering_root = demo_hash\<rparr>"

definition demo_certificate :: "nat \<Rightarrow> digest option \<Rightarrow> certificate" where
  "demo_certificate e next_root = \<lparr>ct_checkpoint = demo_checkpoint e next_root, ct_signers = [0], ct_sessions = [demo_hash],
     ct_signatures = [demo_sig]\<rparr>"

definition solo_committee :: "nat \<Rightarrow> committee" where
  "solo_committee e = rebuild_index \<lparr>c_epoch = e, c_members = [demo_member], c_total_seats = 1, c_by_address = Map.empty\<rparr>"

lemma solo_committee [simp]:
  "c_epoch (solo_committee e) = e" "c_members (solo_committee e) = [demo_member]" "c_total_seats (solo_committee e) = 1"
  by (simp_all add: solo_committee_def rebuild_index_def)

lemma wf_solo [simp]: "wf_committee (solo_committee e)"
  by (simp add: wf_committee_def VALIDATOR_INDEX_MAX_def MAX_TOTAL_SEATS_def uint_max_def demo_member_def)

lemma solo_seats [simp]: "member_set (solo_committee e) = {0}" "c_seats (solo_committee e) 0 = 1" "quorum (solo_committee e) = 1"
  by (auto simp: member_set_def c_seats_def c_member_def demo_member_def quorum_def max_faulty_def)

lemma demo_domains: "length SESSION_CERTIFICATE_DOMAIN \<le> 255" "length CHECKPOINT_VOTE_DOMAIN \<le> 255"
  by (simp_all add: SESSION_CERTIFICATE_DOMAIN_def CHECKPOINT_VOTE_DOMAIN_def ascii_bytes_def)

definition demo_book :: "nat \<Rightarrow> session_book" where
  "demo_book e = (book_new 7 demo_hash e)\<lparr>sb_per_validator := [0 \<mapsto> 1],
     sb_by_digest := [demo_hash \<mapsto> (0, demo_session e)], sb_latest := [0 \<mapsto> demo_hash]\<rparr>"

lemma demo_book [simp]:
  "sb_epoch (demo_book e) = e" "book_get (demo_book e) demo_hash = Some (0, demo_session e)"
  "sc_session_key (demo_session e) = demo_key"
  by (simp_all add: demo_book_def book_new_def book_get_def demo_session_def)

text \<open>Primitives under which every signature of the right length verifies.\<close>

definition demo_like :: "codecs \<Rightarrow> bool" where
  "demo_like pr \<longleftrightarrow> pr_ml_dsa pr = (\<lambda>_ _ _ _ _. True) \<and> pr_ecdsa pr = (\<lambda>_ _ _ _. True)
     \<and> fingerprint (prims pr) demo_key = demo_hash \<and> (\<forall>e. session_digest pr (demo_session e) = demo_hash)"

lemma demo_like_codecs [simp]: "demo_like demo_codecs"
  by (simp add: demo_like_def demo_codecs_def fingerprint_def session_digest_def primitives.truncate_def)

lemma demo_key_verify:
  assumes "demo_like pr" "length domain \<le> 255"
  shows "key_verify (prims pr) demo_key domain msg demo_sig"
  using assms
  by (simp add: demo_like_def key_verify_def split_public_key_def split_signature_def scheme_split_def default_scheme_def
      demo_key_def demo_sig_def message_representative_for_def uint_max_def verify_ml_dsa_for_def primitives.truncate_def)

lemma demo_admit:
  assumes "demo_like pr"
  shows "admit pr (book_new 7 demo_hash e) (solo_committee e) (demo_session e) = (Inr demo_hash, demo_book e)"
proof -
  have pr: "fingerprint (prims pr) demo_key = demo_hash" "session_digest pr (demo_session e) = demo_hash"
    using assms by (simp_all add: demo_like_def)
  have "certifies pr (demo_session e) demo_key 7 demo_hash e"
    using demo_key_verify [OF assms demo_domains(1)] pr by (simp add: certifies_def demo_session_def)
  moreover have "sc_validator (demo_session e) = demo_hash" "m_public_key demo_member = demo_key"
    by (simp_all add: demo_session_def demo_member_def)
  ultimately show ?thesis
    by (simp add: admit_def book_new_def demo_book_def Let_def pr MAX_SESSIONS_PER_VALIDATOR_def)
qed

lemma demo_certificate_verifies:
  assumes "demo_like pr"
  shows "certificate_verify pr (demo_certificate e next_root) (context_for pr (solo_committee e) 7 demo_hash [demo_session e]) = Inr ()"
  using demo_key_verify [OF assms demo_domains(2)] seatset.fold_ins_empty_weight [of "[0]" "c_seats (solo_committee e)"]
  by (simp add: certificate_verify_def Let_def context_for_def admit_each_def demo_admit [OF assms] demo_certificate_def
      demo_checkpoint_def well_formed_def sat_add_def uint_max_def checkpoint_state_height_def state_root_height_def
      STATE_ROOT_LAG_def c_member_def)

theorem certificates_double_sign_witness:
  "max_faulty (solo_committee 0) < sum (c_seats (solo_committee 0)) {0}
   \<and> signed_by demo_codecs demo_key (demo_checkpoint 0 None) \<and> signed_by demo_codecs demo_key (demo_checkpoint 0 (Some demo_hash))"
  using certificates_double_sign [OF wf_solo demo_certificate_verifies [OF demo_like_codecs, of 0 None]
      demo_certificate_verifies [OF demo_like_codecs, of 0 "Some demo_hash"]]
  by (simp add: demo_certificate_def demo_member_def)

end
