(* ===== verification/Handover_Chain.thy ===== *)
theory Handover_Chain
  imports Finality
begin

text \<open>
  The light client (\<^verbatim>\<open>crates/tenzro-finality/src/step.rs\<close>, \<^verbatim>\<open>chain.rs\<close> and the handover
  program \<^verbatim>\<open>crates/tenzro-finality-prover/methods/handover-guest/src/main.rs\<close>): one step checks a
  certificate under the committee it is handed, one link adds an epoch's handover to a proven chain,
  and a chained proof leads from the genesis committee to a checkpoint. The receipt verifier of the
  zkVM is a parameter.
\<close>

section \<open>One step\<close>

definition committee_root :: "codecs \<Rightarrow> committee \<Rightarrow> digest" where
  "committee_root pr c =
     pr_blake3 pr (ascii_bytes ''tenzro/consensus/committee'' @ to_be 8 (c_epoch c) @ to_be 8 (length (c_members c))
       @ concat (map (\<lambda>m. m_address m @ fingerprint (prims pr) (m_public_key m) @ to_be 16 (m_stake m) @ to_be 8 (m_seats m))
           (c_members c)))"

record finality_step =
  fs_chain_id :: nat
  fs_genesis_hash :: digest
  fs_members :: "member list"
  fs_sessions :: "session_certificate list"
  fs_certificate :: certificate

record finality_journal =
  fj_chain_id :: nat
  fj_genesis_hash :: digest
  fj_epoch :: nat
  fj_committee_root :: digest
  fj_index :: nat
  fj_checkpoint_digest :: digest
  fj_last_height :: nat
  fj_state_height :: nat
  fj_state_root :: digest
  fj_blocks_root :: digest
  fj_statement_root :: digest
  fj_next_committee_root :: digest
  fj_timestamp_ms :: nat

fun admit_all ::
  "codecs \<Rightarrow> committee \<Rightarrow> session_book \<Rightarrow> session_certificate list \<Rightarrow> (finality_error, session_book) result" where
  "admit_all pr c book [] = Inr book"
| "admit_all pr c book (s # ss) =
     (case admit pr book c s of (Inl e, _) \<Rightarrow> Inl e | (Inr _, book') \<Rightarrow> admit_all pr c book' ss)"

definition zero_digest :: digest where "zero_digest = replicate 32 0"

definition step_verify :: "codecs \<Rightarrow> finality_step \<Rightarrow> (finality_error, finality_journal) result" where
  "step_verify pr st =
     (let cp = ct_checkpoint (fs_certificate st) in
      case from_members (fingerprint (prims pr)) (cp_epoch cp) (fs_members st) of
        Inl e \<Rightarrow> Inl e
      | Inr c \<Rightarrow>
         (case admit_all pr c (book_new (fs_chain_id st) (fs_genesis_hash st) (cp_epoch cp)) (fs_sessions st) of
            Inl e \<Rightarrow> Inl e
          | Inr book \<Rightarrow>
             (case certificate_verify pr (fs_certificate st)
                     \<lparr>cx_chain_id = fs_chain_id st, cx_genesis_hash = fs_genesis_hash st,
                      cx_committee = c, cx_sessions = book\<rparr> of
                Inl e \<Rightarrow> Inl e
              | Inr _ \<Rightarrow> Inr
                  \<lparr>fj_chain_id = cp_chain_id cp, fj_genesis_hash = cp_genesis_hash cp, fj_epoch = cp_epoch cp,
                   fj_committee_root = committee_root pr c, fj_index = cp_index cp,
                   fj_checkpoint_digest = checkpoint_digest pr cp, fj_last_height = cp_last_height cp,
                   fj_state_height = cp_state_height cp, fj_state_root = cp_state_root cp,
                   fj_blocks_root = cp_blocks_root cp, fj_statement_root = cp_statement_root cp,
                   fj_next_committee_root = (case cp_next_committee_root cp of None \<Rightarrow> zero_digest | Some r \<Rightarrow> r),
                   fj_timestamp_ms = cp_timestamp_ms cp\<rparr>)))"

section \<open>Journals\<close>

definition word_u64 :: "nat \<Rightarrow> bytes" where
  "word_u64 v = replicate 24 0 @ to_be 8 v"

definition read_u64 :: "bytes \<Rightarrow> nat option" where
  "read_u64 word = (if \<exists>b \<in> set (take 24 word). b \<noteq> 0 then None else Some (from_be (drop 24 word)))"

definition JOURNAL_LEN :: nat where "JOURNAL_LEN = 13 * 32"

definition journal_words :: "finality_journal \<Rightarrow> bytes list" where
  "journal_words j =
     [word_u64 (fj_chain_id j), fj_genesis_hash j, word_u64 (fj_epoch j), fj_committee_root j,
      word_u64 (fj_index j), fj_checkpoint_digest j, word_u64 (fj_last_height j), word_u64 (fj_state_height j),
      fj_state_root j, fj_blocks_root j, fj_statement_root j, fj_next_committee_root j, word_u64 (fj_timestamp_ms j)]"

definition journal_encode :: "finality_journal \<Rightarrow> bytes" where
  "journal_encode j = concat (journal_words j)"

definition journal_decode :: "bytes \<Rightarrow> finality_journal option" where
  "journal_decode bs =
     (if length bs \<noteq> JOURNAL_LEN then None
      else let w = chunks 32 bs in
        Option.bind (read_u64 (w ! 0)) (\<lambda>chain. Option.bind (read_u64 (w ! 2)) (\<lambda>epoch.
        Option.bind (read_u64 (w ! 4)) (\<lambda>index. Option.bind (read_u64 (w ! 6)) (\<lambda>last_height.
        Option.bind (read_u64 (w ! 7)) (\<lambda>state_height. Option.bind (read_u64 (w ! 12)) (\<lambda>timestamp.
          Some \<lparr>fj_chain_id = chain, fj_genesis_hash = w ! 1, fj_epoch = epoch, fj_committee_root = w ! 3,
                fj_index = index, fj_checkpoint_digest = w ! 5, fj_last_height = last_height,
                fj_state_height = state_height, fj_state_root = w ! 8, fj_blocks_root = w ! 9,
                fj_statement_root = w ! 10, fj_next_committee_root = w ! 11, fj_timestamp_ms = timestamp\<rparr>)))))))"

record chain_journal =
  cj_program :: digest
  cj_chain_id :: nat
  cj_genesis_hash :: digest
  cj_genesis_root :: digest
  cj_epoch :: nat
  cj_committee_root :: digest

definition CHAIN_JOURNAL_LEN :: nat where "CHAIN_JOURNAL_LEN = 6 * 32"

definition chain_words :: "chain_journal \<Rightarrow> bytes list" where
  "chain_words j =
     [cj_program j, word_u64 (cj_chain_id j), cj_genesis_hash j, cj_genesis_root j, word_u64 (cj_epoch j),
      cj_committee_root j]"

definition chain_encode :: "chain_journal \<Rightarrow> bytes" where
  "chain_encode j = concat (chain_words j)"

definition chain_decode :: "bytes \<Rightarrow> chain_journal option" where
  "chain_decode bs =
     (if length bs \<noteq> CHAIN_JOURNAL_LEN then None
      else let w = chunks 32 bs in
        Option.bind (read_u64 (w ! 1)) (\<lambda>chain. Option.bind (read_u64 (w ! 4)) (\<lambda>epoch.
          Some \<lparr>cj_program = w ! 0, cj_chain_id = chain, cj_genesis_hash = w ! 2, cj_genesis_root = w ! 3,
                cj_epoch = epoch, cj_committee_root = w ! 5\<rparr>)))"

text \<open>The values the fields of a journal can hold: 64-bit numbers and 32-byte digests.\<close>

definition journal_ok :: "finality_journal \<Rightarrow> bool" where
  "journal_ok j \<longleftrightarrow>
     (\<forall>v \<in> {fj_chain_id j, fj_epoch j, fj_index j, fj_last_height j, fj_state_height j, fj_timestamp_ms j}. v < 256 ^ 8)
     \<and> (\<forall>d \<in> {fj_genesis_hash j, fj_committee_root j, fj_checkpoint_digest j, fj_state_root j, fj_blocks_root j,
              fj_statement_root j, fj_next_committee_root j}. length d = 32)"

definition chain_journal_ok :: "chain_journal \<Rightarrow> bool" where
  "chain_journal_ok j \<longleftrightarrow> cj_chain_id j < 256 ^ 8 \<and> cj_epoch j < 256 ^ 8
     \<and> length (cj_program j) = 32 \<and> length (cj_genesis_hash j) = 32 \<and> length (cj_genesis_root j) = 32
     \<and> length (cj_committee_root j) = 32"

lemma length_word_u64 [simp]: "length (word_u64 v) = 32"
  by (simp add: word_u64_def)

lemma read_u64_Some:
  assumes "length w = 32"
  shows "read_u64 w = Some v \<longleftrightarrow> v < 256 ^ 8 \<and> w = word_u64 v"
proof
  assume r: "read_u64 w = Some v"
  then have z: "\<forall>b \<in> set (take 24 w). b = 0" and v: "v = from_be (drop 24 w)"
    by (auto simp: read_u64_def split: if_splits)
  have "take 24 w = replicate 24 0"
  proof (rule replicate_eqI)
    show "length (take 24 w) = 24" using assms by simp
    show "\<And>b. b \<in> set (take 24 w) \<Longrightarrow> b = 0" using z by blast
  qed
  moreover have "to_be 8 v = drop 24 w" using v assms by (simp add: to_from_be)
  moreover have "v < 256 ^ 8" using from_be_less [of "drop 24 w"] assms v by simp
  ultimately show "v < 256 ^ 8 \<and> w = word_u64 v"
    unfolding word_u64_def by (metis append_take_drop_id)
next
  assume "v < 256 ^ 8 \<and> w = word_u64 v"
  then show "read_u64 w = Some v" by (simp add: read_u64_def word_u64_def from_to_be)
qed

lemma read_word_u64: "v < 18446744073709551616 \<Longrightarrow> read_u64 (word_u64 v) = Some v"
  by (simp add: read_u64_Some)

lemma word_list_13:
  assumes "length ws = 13"
  shows "ws = [ws ! 0, ws ! 1, ws ! 2, ws ! 3, ws ! 4, ws ! 5, ws ! 6, ws ! 7, ws ! 8, ws ! 9, ws ! 10, ws ! 11, ws ! 12]"
  using assms by (intro nth_equalityI) (auto simp: less_Suc_eq numeral_eq_Suc)

lemma word_list_6:
  assumes "length ws = 6"
  shows "ws = [ws ! 0, ws ! 1, ws ! 2, ws ! 3, ws ! 4, ws ! 5]"
  using assms by (intro nth_equalityI) (auto simp: less_Suc_eq numeral_eq_Suc)

lemma journal_decode_Some:
  "journal_decode bs = Some j \<longleftrightarrow> journal_ok j \<and> bs = journal_encode j"
proof
  assume d: "journal_decode bs = Some j"
  let ?w = "chunks 32 bs"
  have len: "length bs = 13 * 32" using d by (simp add: journal_decode_def JOURNAL_LEN_def split: if_splits)
  note exact = chunks_exact [OF _ len, simplified]
  have words: "length (?w ! k) = 32" if "k < 13" for k
    using exact that by (metis nth_mem)
  have "length ?w = 13" using exact by simp
  then have "bs = concat [?w ! 0, ?w ! 1, ?w ! 2, ?w ! 3, ?w ! 4, ?w ! 5, ?w ! 6, ?w ! 7, ?w ! 8, ?w ! 9, ?w ! 10, ?w ! 11, ?w ! 12]"
    using word_list_13 [of ?w] concat_chunks [of 32 bs] by (metis zero_less_numeral)
  then show "journal_ok j \<and> bs = journal_encode j"
    using d len words
    by (auto simp: journal_decode_def JOURNAL_LEN_def Let_def bind_eq_Some_conv read_u64_Some journal_ok_def journal_encode_def journal_words_def)
next
  assume e: "journal_ok j \<and> bs = journal_encode j"
  then have "\<forall>w \<in> set (journal_words j). length w = 32" by (auto simp: journal_ok_def journal_words_def)
  then have "chunks 32 bs = journal_words j"
    using e chunks_concat [of 32 "journal_words j"] by (simp add: journal_encode_def)
  moreover have "length bs = JOURNAL_LEN"
    using e by (simp add: journal_encode_def journal_words_def journal_ok_def JOURNAL_LEN_def)
  ultimately show "journal_decode bs = Some j"
    using e by (simp add: journal_decode_def Let_def read_word_u64 journal_ok_def journal_words_def)
qed

lemma chain_decode_Some:
  "chain_decode bs = Some j \<longleftrightarrow> chain_journal_ok j \<and> bs = chain_encode j"
proof
  assume d: "chain_decode bs = Some j"
  let ?w = "chunks 32 bs"
  have len: "length bs = 6 * 32" using d by (simp add: chain_decode_def CHAIN_JOURNAL_LEN_def split: if_splits)
  note exact = chunks_exact [OF _ len, simplified]
  have words: "length (?w ! k) = 32" if "k < 6" for k
    using exact that by (metis nth_mem)
  have "length ?w = 6" using exact by simp
  then have "bs = concat [?w ! 0, ?w ! 1, ?w ! 2, ?w ! 3, ?w ! 4, ?w ! 5]"
    using word_list_6 [of ?w] concat_chunks [of 32 bs] by (metis zero_less_numeral)
  then show "chain_journal_ok j \<and> bs = chain_encode j"
    using d len words
    by (auto simp: chain_decode_def CHAIN_JOURNAL_LEN_def Let_def bind_eq_Some_conv read_u64_Some chain_journal_ok_def
        chain_encode_def chain_words_def)
next
  assume e: "chain_journal_ok j \<and> bs = chain_encode j"
  then have "\<forall>w \<in> set (chain_words j). length w = 32" by (auto simp: chain_journal_ok_def chain_words_def)
  then have "chunks 32 bs = chain_words j"
    using e chunks_concat [of 32 "chain_words j"] by (simp add: chain_encode_def)
  moreover have "length bs = CHAIN_JOURNAL_LEN"
    using e by (simp add: chain_encode_def chain_words_def chain_journal_ok_def CHAIN_JOURNAL_LEN_def)
  ultimately show "chain_decode bs = Some j"
    using e by (simp add: chain_decode_def Let_def read_word_u64 chain_journal_ok_def chain_words_def)
qed

text \<open>
  Both journals have one encoding and decode only it: the bytes of a journal decode to
  it, and bytes that decode are the encoding of a journal whose numbers fit 64 bits and whose
  digests are 32 bytes.
\<close>

theorem journals_round_trip:
  "(journal_decode bs = Some j \<longleftrightarrow> journal_ok j \<and> bs = journal_encode j)
   \<and> (chain_decode bs = Some cj \<longleftrightarrow> chain_journal_ok cj \<and> bs = chain_encode cj)"
  by (simp add: journal_decode_Some chain_decode_Some)

section \<open>The chain of handovers\<close>

record epoch_handover =
  eh_certificate :: certificate
  eh_sessions :: "session_certificate list"
  eh_next_members :: "member list"

record handover_link =
  hl_program :: digest
  hl_genesis_root :: digest
  hl_prev :: "chain_journal option"
  hl_step :: finality_step

abbreviation refuse :: "string \<Rightarrow> finality_error" where
  "refuse \<equiv> InvalidCertificate"

definition link_prev_check :: "handover_link \<Rightarrow> finality_journal \<Rightarrow> (finality_error, unit) result" where
  "link_prev_check l j =
     (case hl_prev l of
        None \<Rightarrow>
          if fj_epoch j \<noteq> 0 \<or> fj_committee_root j \<noteq> hl_genesis_root l
          then Inl (refuse ''the first link must hand over epoch 0 under the genesis committee'')
          else Inr ()
      | Some p \<Rightarrow>
          if cj_program p \<noteq> hl_program l then Inl (refuse ''the previous link was proven by another program'')
          else if cj_chain_id p \<noteq> fj_chain_id j \<or> cj_genesis_hash p \<noteq> fj_genesis_hash j \<or> cj_genesis_root p \<noteq> hl_genesis_root l
          then Inl (refuse ''the previous link is of another chain'')
          else if cj_epoch p \<noteq> fj_epoch j \<or> cj_committee_root p \<noteq> fj_committee_root j
          then Inl (refuse (''the chain reaches epoch '' @ dec (cj_epoch p)
                 @ '' under another committee than the link's epoch '' @ dec (fj_epoch j)))
          else Inr ())"

definition link_verify :: "codecs \<Rightarrow> handover_link \<Rightarrow> (finality_error, chain_journal) result" where
  "link_verify pr l =
     (case step_verify pr (hl_step l) of
        Inl e \<Rightarrow> Inl e
      | Inr j \<Rightarrow>
          if fj_chain_id j \<noteq> fs_chain_id (hl_step l) \<or> fj_genesis_hash j \<noteq> fs_genesis_hash (hl_step l)
          then Inl (refuse ''the checkpoint is of another chain'')
          else (case link_prev_check l j of
              Inl e \<Rightarrow> Inl e
            | Inr _ \<Rightarrow>
                if fj_next_committee_root j = zero_digest then Inl (refuse ''the checkpoint does not end its epoch'')
                else Inr \<lparr>cj_program = hl_program l, cj_chain_id = fj_chain_id j, cj_genesis_hash = fj_genesis_hash j,
                          cj_genesis_root = hl_genesis_root l, cj_epoch = fj_epoch j + 1,
                          cj_committee_root = fj_next_committee_root j\<rparr>))"

record chain_anchor =
  ca_chain_id :: nat
  ca_genesis_hash :: digest
  ca_genesis_root :: digest
  ca_program :: digest

record chained_checkpoint_proof =
  cc_chain :: bytes
  cc_members :: "member list"
  cc_handovers :: "epoch_handover list"
  cc_certificate :: certificate
  cc_sessions :: "session_certificate list"

type_synonym receipt_verifier = "digest \<Rightarrow> bytes \<Rightarrow> (string, bytes) result"

definition reached :: "receipt_verifier \<Rightarrow> chain_anchor \<Rightarrow> bytes \<Rightarrow> (finality_error, nat \<times> digest) result" where
  "reached verify_receipt a chain =
     (if chain = [] then Inr (0, ca_genesis_root a)
      else case verify_receipt (ca_program a) chain of
          Inl e \<Rightarrow> Inl (refuse (''the handover chain proof does not verify: '' @ e))
        | Inr journal \<Rightarrow>
           (case chain_decode journal of
              None \<Rightarrow> Inl (refuse ''the handover chain proof commits no chain journal'')
            | Some j \<Rightarrow>
                if cj_program j \<noteq> ca_program a then Inl (refuse ''the handover chain proof names another program'')
                else if cj_chain_id j \<noteq> ca_chain_id a \<or> cj_genesis_hash j \<noteq> ca_genesis_hash a
                   \<or> cj_genesis_root j \<noteq> ca_genesis_root a
                then Inl (refuse ''the handover chain proof is of another chain'')
                else Inr (cj_epoch j, cj_committee_root j)))"

definition proof_step ::
  "codecs \<Rightarrow> chain_anchor \<Rightarrow> member list \<Rightarrow> certificate \<Rightarrow> session_certificate list \<Rightarrow> (finality_error, finality_journal) result" where
  "proof_step pr a members certificate sessions =
     step_verify pr \<lparr>fs_chain_id = ca_chain_id a, fs_genesis_hash = ca_genesis_hash a, fs_members = members,
       fs_sessions = sessions, fs_certificate = certificate\<rparr>"

fun walk_handovers ::
  "codecs \<Rightarrow> chain_anchor \<Rightarrow> nat \<Rightarrow> member list \<Rightarrow> epoch_handover list \<Rightarrow> (finality_error, nat \<times> member list) result" where
  "walk_handovers pr a epoch members [] = Inr (epoch, members)"
| "walk_handovers pr a epoch members (h # hs) =
     (case proof_step pr a members (eh_certificate h) (eh_sessions h) of
        Inl e \<Rightarrow> Inl e
      | Inr j \<Rightarrow>
          if fj_epoch j \<noteq> epoch \<or> fj_next_committee_root j = zero_digest
          then Inl (refuse (''the handover of epoch '' @ dec epoch @ '' does not end it''))
          else (case from_members (fingerprint (prims pr)) (epoch + 1) (eh_next_members h) of
              Inl e \<Rightarrow> Inl e
            | Inr c \<Rightarrow>
                if committee_root pr c \<noteq> fj_next_committee_root j
                then Inl (refuse (''the members are not the committee epoch '' @ dec epoch @ CHR 0x27 # ''s last checkpoint commits''))
                else walk_handovers pr a (epoch + 1) (eh_next_members h) hs))"

definition chained_verify ::
  "codecs \<Rightarrow> receipt_verifier \<Rightarrow> chain_anchor \<Rightarrow> chained_checkpoint_proof \<Rightarrow> (finality_error, checkpoint) result" where
  "chained_verify pr verify_receipt a p =
     (case reached verify_receipt a (cc_chain p) of
        Inl e \<Rightarrow> Inl e
      | Inr (epoch, root) \<Rightarrow>
         (case from_members (fingerprint (prims pr)) epoch (cc_members p) of
            Inl e \<Rightarrow> Inl e
          | Inr c \<Rightarrow>
              if committee_root pr c \<noteq> root
              then Inl (refuse (''the members are not the committee of epoch '' @ dec epoch @ '' the chain reaches''))
              else (case walk_handovers pr a epoch (cc_members p) (cc_handovers p) of
                  Inl e \<Rightarrow> Inl e
                | Inr (epoch, members) \<Rightarrow>
                   (case proof_step pr a members (cc_certificate p) (cc_sessions p) of
                      Inl e \<Rightarrow> Inl e
                    | Inr j \<Rightarrow>
                        if fj_epoch j \<noteq> epoch
                        then Inl (refuse (''a checkpoint of epoch '' @ dec (fj_epoch j) @ '' under a proof that reaches epoch '' @ dec epoch))
                        else Inr (ct_checkpoint (cc_certificate p))))))"

section \<open>What a chained proof shows\<close>

text \<open>
  The specification: the genesis committee is trusted for epoch 0, and a committee for the next epoch
  when a quorum of a trusted one signed a checkpoint of its epoch that names its root.
\<close>

definition quorum_signed :: "codecs \<Rightarrow> committee \<Rightarrow> checkpoint \<Rightarrow> bool" where
  "quorum_signed pr c cp \<longleftrightarrow>
     (\<exists>S \<subseteq> member_set c. quorum c \<le> sum (c_seats c) S \<and> (\<forall>i \<in> S. signed_by pr (m_public_key (c_members c ! i)) cp))"

definition of_chain :: "chain_anchor \<Rightarrow> checkpoint \<Rightarrow> bool" where
  "of_chain a cp \<longleftrightarrow> cp_chain_id cp = ca_chain_id a \<and> cp_genesis_hash cp = ca_genesis_hash a"

inductive trusted :: "codecs \<Rightarrow> chain_anchor \<Rightarrow> nat \<Rightarrow> digest \<Rightarrow> bool" for pr a where
  genesis: "trusted pr a 0 (ca_genesis_root a)"
| handover:
    "\<lbrakk>trusted pr a (c_epoch c) (committee_root pr c); wf_committee c; cp_epoch cp = c_epoch c; of_chain a cp;
      quorum_signed pr c cp; cp_next_committee_root cp = Some root\<rbrakk> \<Longrightarrow> trusted pr a (c_epoch c + 1) root"

text \<open>
  What a receipt of a program stands for. A receipt of the handover program, whose image id is
  \<open>img\<close>, is a run of it: it verified a link, whose previous journal was proven by a receipt of the
  program that journal names. Nothing is known of other programs.
\<close>

inductive receipt_of :: "codecs \<Rightarrow> digest \<Rightarrow> digest \<Rightarrow> bytes \<Rightarrow> bool" for pr img where
  guest: "\<lbrakk>link_verify pr l = Inr j; chain_journal_ok j;
     \<And>p. hl_prev l = Some p \<Longrightarrow> chain_journal_ok p \<and> receipt_of pr img (cj_program p) (chain_encode p)\<rbrakk>
     \<Longrightarrow> receipt_of pr img img (chain_encode j)"
| foreign: "prog \<noteq> img \<Longrightarrow> receipt_of pr img prog b"

lemma chain_encode_inj: "chain_journal_ok j \<Longrightarrow> chain_journal_ok j' \<Longrightarrow> chain_encode j = chain_encode j' \<Longrightarrow> j = j'"
  using chain_decode_Some [of "chain_encode j" j] chain_decode_Some [of "chain_encode j" j'] by simp

lemma admit_all_Inr: "admit_all pr c book certs = Inr b \<Longrightarrow> b = admit_each pr c book certs"
  by (induction pr c book certs rule: admit_all.induct) (auto simp: admit_each_def split: prod.splits sum.splits)

lemma step_verify_shows:
  assumes "step_verify pr st = Inr j"
  defines "cp \<equiv> ct_checkpoint (fs_certificate st)"
  obtains c where "wf_committee c" "c_epoch c = fj_epoch j" "fj_committee_root j = committee_root pr c"
    "cp_epoch cp = fj_epoch j" "cp_chain_id cp = fs_chain_id st" "cp_genesis_hash cp = fs_genesis_hash st"
    "quorum_signed pr c cp" "from_members (fingerprint (prims pr)) (cp_epoch cp) (fs_members st) = Inr c"
    "fj_chain_id j = cp_chain_id cp" "fj_genesis_hash j = cp_genesis_hash cp"
    "fj_next_committee_root j \<noteq> zero_digest \<Longrightarrow> cp_next_committee_root cp = Some (fj_next_committee_root j)"
proof -
  obtain c book where c: "from_members (fingerprint (prims pr)) (cp_epoch cp) (fs_members st) = Inr c"
    and b: "admit_all pr c (book_new (fs_chain_id st) (fs_genesis_hash st) (cp_epoch cp)) (fs_sessions st) = Inr book"
    and v: "certificate_verify pr (fs_certificate st) \<lparr>cx_chain_id = fs_chain_id st, cx_genesis_hash = fs_genesis_hash st,
          cx_committee = c, cx_sessions = book\<rparr> = Inr ()"
    and j: "fj_epoch j = cp_epoch cp" "fj_committee_root j = committee_root pr c" "fj_chain_id j = cp_chain_id cp"
      "fj_genesis_hash j = cp_genesis_hash cp"
      "fj_next_committee_root j = (case cp_next_committee_root cp of None \<Rightarrow> zero_digest | Some r \<Rightarrow> r)"
    using assms unfolding step_verify_def Let_def case_result_Inr by auto
  have ep: "c_epoch c = cp_epoch cp" using from_members_fields [OF c] by simp
  have ok: "certificate_verify pr (fs_certificate st)
      (context_for pr c (fs_chain_id st) (fs_genesis_hash st) (fs_sessions st)) = Inr ()"
    using v admit_all_Inr [OF b] by (simp add: context_for_def ep)
  have signed: "quorum_signed pr c cp"
    unfolding quorum_signed_def cp_def
    using certificate_verify_signers(1,2) [OF ok] certificate_signed [OF ok] by (auto simp: context_for_def)
  have chain: "cp_chain_id cp = fs_chain_id st" "cp_genesis_hash cp = fs_genesis_hash st"
    using certificate_verify_signers(4,5) [OF v] by (simp_all add: cp_def)
  show thesis
    by (rule that [of c]) (use from_members_wf [OF c] ep c j signed chain in \<open>simp_all split: option.splits\<close>)
qed

definition anchor_of :: "chain_journal \<Rightarrow> chain_anchor" where
  "anchor_of j = \<lparr>ca_chain_id = cj_chain_id j, ca_genesis_hash = cj_genesis_hash j,
     ca_genesis_root = cj_genesis_root j, ca_program = cj_program j\<rparr>"

lemma trusted_step:
  assumes step: "step_verify pr st = Inr j" and tr: "trusted pr a (fj_epoch j) (fj_committee_root j)"
    and chain: "fs_chain_id st = ca_chain_id a" "fs_genesis_hash st = ca_genesis_hash a"
    and ends: "fj_next_committee_root j \<noteq> zero_digest"
  shows "trusted pr a (fj_epoch j + 1) (fj_next_committee_root j)"
proof -
  obtain c where "wf_committee c" "c_epoch c = fj_epoch j" "fj_committee_root j = committee_root pr c"
    "cp_epoch (ct_checkpoint (fs_certificate st)) = fj_epoch j" "of_chain a (ct_checkpoint (fs_certificate st))"
    "quorum_signed pr c (ct_checkpoint (fs_certificate st))"
    "cp_next_committee_root (ct_checkpoint (fs_certificate st)) = Some (fj_next_committee_root j)"
    using step_verify_shows [OF step] chain ends unfolding of_chain_def by metis
  then show ?thesis using tr handover [of pr a c "ct_checkpoint (fs_certificate st)"] by simp
qed

lemma link_verify_Inr:
  assumes "link_verify pr l = Inr j"
  obtains fj where "step_verify pr (hl_step l) = Inr fj" "link_prev_check l fj = Inr ()"
    "fj_chain_id fj = fs_chain_id (hl_step l)" "fj_genesis_hash fj = fs_genesis_hash (hl_step l)"
    "fj_next_committee_root fj \<noteq> zero_digest"
    "j = \<lparr>cj_program = hl_program l, cj_chain_id = fj_chain_id fj, cj_genesis_hash = fj_genesis_hash fj,
          cj_genesis_root = hl_genesis_root l, cj_epoch = fj_epoch fj + 1,
          cj_committee_root = fj_next_committee_root fj\<rparr>"
  using assms unfolding link_verify_def guard_Inr case_result_Inr by auto

lemma receipt_trusted:
  assumes "receipt_of pr img prog b"
  shows "prog = img \<Longrightarrow> chain_journal_ok j \<Longrightarrow> b = chain_encode j \<Longrightarrow> cj_program j = img \<Longrightarrow>
    trusted pr (anchor_of j) (cj_epoch j) (cj_committee_root j)"
  using assms
proof (induction arbitrary: j)
  case (guest l j0)
  then have j: "j = j0" using chain_encode_inj by metis
  from guest.hyps(1) obtain fj where st: "step_verify pr (hl_step l) = Inr fj" and prev: "link_prev_check l fj = Inr ()"
    and chain: "fj_chain_id fj = fs_chain_id (hl_step l)" "fj_genesis_hash fj = fs_genesis_hash (hl_step l)"
    and ends: "fj_next_committee_root fj \<noteq> zero_digest"
    and j0: "j0 = \<lparr>cj_program = hl_program l, cj_chain_id = fj_chain_id fj, cj_genesis_hash = fj_genesis_hash fj,
          cj_genesis_root = hl_genesis_root l, cj_epoch = fj_epoch fj + 1, cj_committee_root = fj_next_committee_root fj\<rparr>"
    by (rule link_verify_Inr)
  have "trusted pr (anchor_of j) (fj_epoch fj) (fj_committee_root fj)"
  proof (cases "hl_prev l")
    case None
    then have "fj_epoch fj = 0" "fj_committee_root fj = ca_genesis_root (anchor_of j)"
      using prev by (simp_all add: link_prev_check_def j j0 anchor_of_def guard_Inr)
    then show ?thesis using trusted.genesis [of pr "anchor_of j"] by simp
  next
    case (Some p)
    then have p: "cj_program p = hl_program l" "cj_chain_id p = fj_chain_id fj" "cj_genesis_hash p = fj_genesis_hash fj"
      "cj_genesis_root p = hl_genesis_root l" "cj_epoch p = fj_epoch fj" "cj_committee_root p = fj_committee_root fj"
      using prev by (simp_all add: link_prev_check_def guard_Inr)
    then have "anchor_of p = anchor_of j" by (simp add: anchor_of_def j j0)
    moreover have "cj_program p = img" using p(1) guest.prems(4) by (simp add: j j0)
    ultimately show ?thesis using guest.IH [OF Some] p(5,6) by metis
  qed
  moreover have "fs_chain_id (hl_step l) = ca_chain_id (anchor_of j)" "fs_genesis_hash (hl_step l) = ca_genesis_hash (anchor_of j)"
    by (simp_all add: anchor_of_def j j0 chain)
  ultimately have "trusted pr (anchor_of j) (fj_epoch fj + 1) (fj_next_committee_root fj)"
    using ends by (intro trusted_step [OF st])
  then show ?case by (simp add: j j0)
qed simp

lemma reached_trusted:
  assumes receipts: "\<And>chain b. verify_receipt (ca_program a) chain = Inr b \<Longrightarrow> receipt_of pr (ca_program a) (ca_program a) b"
    and r: "reached verify_receipt a chain = Inr (e, root)"
  shows "trusted pr a e root"
proof (cases "chain = []")
  case True
  then show ?thesis using r trusted.genesis [of pr a] by (simp add: reached_def)
next
  case False
  then obtain b j where b: "verify_receipt (ca_program a) chain = Inr b" and d: "chain_decode b = Some j"
    and a: "cj_program j = ca_program a" "anchor_of j = a" "e = cj_epoch j" "root = cj_committee_root j"
    using r unfolding reached_def
    by (auto simp: guard_Inr anchor_of_def split: sum.splits option.splits if_splits)
  then show ?thesis
    using receipt_trusted [OF receipts [OF b], of j] by (simp add: chain_decode_Some)
qed

lemma walk_trusted:
  assumes "walk_handovers pr a e ms hs = Inr (e', ms')"
    and "from_members (fingerprint (prims pr)) e ms = Inr c" "trusted pr a e (committee_root pr c)"
  shows "\<exists>c'. from_members (fingerprint (prims pr)) e' ms' = Inr c' \<and> trusted pr a e' (committee_root pr c')"
  using assms
proof (induction pr a e ms hs arbitrary: c rule: walk_handovers.induct)
  case (2 pr a e ms h hs)
  let ?st = "\<lparr>fs_chain_id = ca_chain_id a, fs_genesis_hash = ca_genesis_hash a, fs_members = ms,
       fs_sessions = eh_sessions h, fs_certificate = eh_certificate h\<rparr>"
  from 2(2) obtain j c1 where st: "step_verify pr ?st = Inr j" and e: "fj_epoch j = e"
    and ends: "fj_next_committee_root j \<noteq> zero_digest"
    and c1: "from_members (fingerprint (prims pr)) (e + 1) (eh_next_members h) = Inr c1"
      "committee_root pr c1 = fj_next_committee_root j"
    and rest: "walk_handovers pr a (e + 1) (eh_next_members h) hs = Inr (e', ms')"
    unfolding walk_handovers.simps case_result_Inr guard_Inr proof_step_def by auto
  have "fj_committee_root j = committee_root pr c"
    by (rule step_verify_shows [OF st]) (use e 2(3) in auto)
  then have "trusted pr a (e + 1) (committee_root pr c1)"
    using trusted_step [OF st, of a] e 2(4) ends c1(2) by simp
  moreover have "proof_step pr a ms (eh_certificate h) (eh_sessions h) = Inr j" using st by (simp add: proof_step_def)
  ultimately show ?case using 2(1) [of j c1] e ends c1 rest by simp
qed simp

text \<open>
  Property C36. When receipts of the handover program stand for runs of it, a chained proof a client
  accepts ends at a checkpoint of its chain signed by a quorum of the committee of that epoch, and the
  root of that committee is reached from the genesis root by handovers that a quorum of each committee
  in between signed.
\<close>

theorem chained_proof_sound:
  assumes receipts: "\<And>chain b. verify_receipt (ca_program a) chain = Inr b \<Longrightarrow> receipt_of pr (ca_program a) (ca_program a) b"
    and ok: "chained_verify pr verify_receipt a p = Inr cp"
  shows "\<exists>c. wf_committee c \<and> c_epoch c = cp_epoch cp \<and> trusted pr a (cp_epoch cp) (committee_root pr c)
    \<and> of_chain a cp \<and> quorum_signed pr c cp"
proof -
  let ?st = "\<lambda>ms. \<lparr>fs_chain_id = ca_chain_id a, fs_genesis_hash = ca_genesis_hash a, fs_members = ms,
       fs_sessions = cc_sessions p, fs_certificate = cc_certificate p\<rparr>"
  obtain e root c e' ms j where r: "reached verify_receipt a (cc_chain p) = Inr (e, root)"
    and c: "from_members (fingerprint (prims pr)) e (cc_members p) = Inr c" "committee_root pr c = root"
    and w: "walk_handovers pr a e (cc_members p) (cc_handovers p) = Inr (e', ms)"
    and st: "step_verify pr (?st ms) = Inr j" "fj_epoch j = e'" and cp: "cp = ct_checkpoint (cc_certificate p)"
    using ok unfolding chained_verify_def proof_step_def
    by (auto simp: case_result_Inr guard_Inr split: sum.splits prod.splits if_splits)
  obtain c' where c': "from_members (fingerprint (prims pr)) e' ms = Inr c'" "trusted pr a e' (committee_root pr c')"
    using walk_trusted [OF w c(1)] reached_trusted [OF receipts r] c(2) by auto
  show ?thesis
    by (rule step_verify_shows [OF st(1)]) (use c' st(2) cp in \<open>auto simp: of_chain_def intro!: exI [of _ c']\<close>)
qed

definition demo_step :: "nat \<Rightarrow> digest option \<Rightarrow> finality_step" where
  "demo_step e next_root = \<lparr>fs_chain_id = 7, fs_genesis_hash = demo_hash, fs_members = [demo_member],
     fs_sessions = [demo_session e], fs_certificate = demo_certificate e next_root\<rparr>"

lemma demo_from_members: "from_members (fingerprint (prims demo_codecs)) e [demo_member] = Inr (solo_committee e)"
  by (simp add: from_members_def VALIDATOR_INDEX_MAX_def MAX_TOTAL_SEATS_def uint_max_def demo_member_def
      checked_add_def solo_committee_def)

lemma demo_fingerprint [simp]: "fingerprint (prims demo_codecs) k = demo_hash"
  by (simp add: fingerprint_def demo_codecs_def primitives.truncate_def)

lemma demo_root [simp]: "committee_root demo_codecs c = demo_hash"
  by (simp add: committee_root_def demo_codecs_def)

definition demo_journal :: "nat \<Rightarrow> digest option \<Rightarrow> finality_journal" where
  "demo_journal e next_root = \<lparr>fj_chain_id = 7, fj_genesis_hash = demo_hash, fj_epoch = e, fj_committee_root = demo_hash,
     fj_index = e, fj_checkpoint_digest = checkpoint_digest demo_codecs (demo_checkpoint e next_root), fj_last_height = 4,
     fj_state_height = 2, fj_state_root = demo_hash, fj_blocks_root = demo_hash, fj_statement_root = demo_hash,
     fj_next_committee_root = (case next_root of None \<Rightarrow> zero_digest | Some r \<Rightarrow> r), fj_timestamp_ms = 9\<rparr>"

lemma demo_step_verify: "step_verify demo_codecs (demo_step e next_root) = Inr (demo_journal e next_root)"
proof -
  have "certificate_verify demo_codecs (demo_certificate e next_root)
     \<lparr>cx_chain_id = 7, cx_genesis_hash = demo_hash, cx_committee = solo_committee e, cx_sessions = demo_book e\<rparr> = Inr ()"
    using demo_certificate_verifies [OF demo_like_codecs, of e next_root]
    by (simp add: context_for_def admit_each_def demo_admit)
  then show ?thesis
    unfolding step_verify_def demo_step_def
    by (simp add: Let_def demo_certificate_def demo_checkpoint_def demo_from_members demo_admit demo_journal_def)
qed

definition demo_anchor :: chain_anchor where
  "demo_anchor = \<lparr>ca_chain_id = 7, ca_genesis_hash = demo_hash, ca_genesis_root = demo_hash, ca_program = demo_hash\<rparr>"

definition demo_chain_journal :: chain_journal where
  "demo_chain_journal = \<lparr>cj_program = demo_hash, cj_chain_id = 7, cj_genesis_hash = demo_hash, cj_genesis_root = demo_hash,
     cj_epoch = 1, cj_committee_root = demo_hash\<rparr>"

definition demo_link :: handover_link where
  "demo_link = \<lparr>hl_program = demo_hash, hl_genesis_root = demo_hash, hl_prev = None, hl_step = demo_step 0 (Some demo_hash)\<rparr>"

definition demo_receipts :: receipt_verifier where
  "demo_receipts prog chain = (if chain = [1] then Inr (chain_encode demo_chain_journal) else Inl ''no such receipt'')"

definition demo_proof :: chained_checkpoint_proof where
  "demo_proof = \<lparr>cc_chain = [1], cc_members = [demo_member],
     cc_handovers = [\<lparr>eh_certificate = demo_certificate 1 (Some demo_hash), eh_sessions = [demo_session 1],
       eh_next_members = [demo_member]\<rparr>],
     cc_certificate = demo_certificate 2 None, cc_sessions = [demo_session 2]\<rparr>"

lemma demo_hash_not_zero: "demo_hash \<noteq> zero_digest"
  by (simp add: demo_hash_def zero_digest_def)

lemma demo_chain_journal_ok: "chain_journal_ok demo_chain_journal"
  by (simp add: chain_journal_ok_def demo_chain_journal_def demo_hash_def)

lemma demo_link_verify: "link_verify demo_codecs demo_link = Inr demo_chain_journal"
  using demo_step_verify [of 0 "Some demo_hash"] demo_hash_not_zero
  by (simp add: link_verify_def demo_link_def link_prev_check_def demo_journal_def demo_chain_journal_def demo_step_def)

lemma demo_receipt_of:
  assumes "demo_receipts prog chain = Inr b"
  shows "receipt_of demo_codecs demo_hash demo_hash b"
proof -
  have "b = chain_encode demo_chain_journal" using assms by (simp add: demo_receipts_def split: if_splits)
  moreover have "hl_prev demo_link = None" by (simp add: demo_link_def)
  ultimately show ?thesis using receipt_of.guest [OF demo_link_verify demo_chain_journal_ok] by simp
qed

lemma demo_proof_verifies: "chained_verify demo_codecs demo_receipts demo_anchor demo_proof = Inr (demo_checkpoint 2 None)"
proof -
  have r: "reached demo_receipts demo_anchor [1] = Inr (1, demo_hash)"
    using chain_decode_Some [of "chain_encode demo_chain_journal" demo_chain_journal] demo_chain_journal_ok
    by (simp add: reached_def demo_receipts_def demo_chain_journal_def demo_anchor_def)
  have step: "proof_step demo_codecs demo_anchor [demo_member] (demo_certificate e n) [demo_session e] = Inr (demo_journal e n)" for e n
    using demo_step_verify [of e n] by (simp add: proof_step_def demo_anchor_def demo_step_def)
  have fields: "fj_epoch (demo_journal e n) = e" "fj_next_committee_root (demo_journal e (Some d)) = d" for e n d
    by (simp_all add: demo_journal_def)
  show ?thesis
    using demo_hash_not_zero
    by (simp add: chained_verify_def demo_proof_def r demo_from_members step fields) (simp add: demo_certificate_def)
qed

theorem chained_proof_sound_witness:
  "\<exists>c. wf_committee c \<and> c_epoch c = 2 \<and> trusted demo_codecs demo_anchor 2 (committee_root demo_codecs c)
    \<and> of_chain demo_anchor (demo_checkpoint 2 None) \<and> quorum_signed demo_codecs c (demo_checkpoint 2 None)"
proof -
  have p: "ca_program demo_anchor = demo_hash" "cp_epoch (demo_checkpoint 2 None) = 2"
    by (simp_all add: demo_anchor_def demo_checkpoint_def)
  show ?thesis
    using chained_proof_sound [of demo_receipts demo_anchor demo_codecs, OF _ demo_proof_verifies] demo_receipt_of
    unfolding p by blast
qed

end
