(* ===== verification/Vertex.thy ===== *)
theory Vertex
  imports Committee
begin

text \<open>
  DAG vertices (\<^verbatim>\<open>crates/tenzro-consensus/src/vertex.rs\<close>): a vertex, its references and
  batches, and the structural check every proposal passes before it is echoed. The digest of a
  vertex (BLAKE3 of its bincode encoding) is a parameter \<open>vdigest\<close> of the definitions that
  use it.
\<close>

record vertex_ref =
  r_round :: round
  r_source :: validator_index
  r_digest :: digest

record batch_ref =
  b_sequence :: nat
  b_digest :: digest
  b_bytes :: nat
  b_transactions :: nat

record carried_batch =
  cb_author :: validator_index
  cb_batch :: batch_ref

record vertex =
  v_epoch :: nat
  v_round :: round
  v_source :: validator_index
  v_strong :: "vertex_ref list"
  v_weak :: "vertex_ref list"
  v_batches :: "batch_ref list"
  v_carried :: "carried_batch list"
  v_timestamp_ms :: nat

datatype consensus_error = InvalidVertex string | VoteRefused string | Storage string | Malformed string

definition MAX_REFS :: nat where "MAX_REFS = 4096"
definition MAX_BATCH_REFS :: nat where "MAX_BATCH_REFS = 4096"
definition MAX_CARRIED :: nat where "MAX_CARRIED = 4096"

definition reference :: "(vertex \<Rightarrow> digest) \<Rightarrow> vertex \<Rightarrow> vertex_ref" where
  "reference vdigest v = \<lparr>r_round = v_round v, r_source = v_source v, r_digest = vdigest v\<rparr>"

definition references :: "vertex \<Rightarrow> vertex_ref \<Rightarrow> bool" where
  "references v r = list_ex (\<lambda>s. s = r) (v_strong v)"

definition references_author :: "vertex \<Rightarrow> validator_index \<Rightarrow> bool" where
  "references_author v source = list_ex (\<lambda>s. r_source s = source) (v_strong v)"

text \<open>\<open>windows(2)\<close> of a slice: the pairs of neighbours.\<close>

definition windows2 :: "'a list \<Rightarrow> ('a \<times> 'a) list" where
  "windows2 xs = zip xs (tl xs)"

fun check_strong ::
  "committee \<Rightarrow> round \<Rightarrow> seat_set \<Rightarrow> vertex_ref list \<Rightarrow> (consensus_error, seat_set) result" where
  "check_strong c previous seats [] = Inr seats"
| "check_strong c previous seats (s # ss) =
     (if r_round s \<noteq> previous
      then Inl (InvalidVertex ''strong reference to a round other than the previous one'')
      else if c_member c (r_source s) = None
      then Inl (InvalidVertex ''strong reference to a non-member'')
      else let (fresh, seats') = ss_insert seats (r_source s) (c_seats c (r_source s)) in
        if \<not> fresh then Inl (InvalidVertex ''two strong references to one author'')
        else check_strong c previous seats' ss)"

definition check_structure :: "vertex \<Rightarrow> committee \<Rightarrow> (consensus_error, unit) result" where
  "check_structure v c =
     (if v_epoch v \<noteq> c_epoch c then Inl (InvalidVertex ''vertex is for another epoch'')
      else if c_member c (v_source v) = None
      then Inl (InvalidVertex ''vertex author is not a committee member'')
      else if MAX_REFS < length (v_strong v) \<or> MAX_REFS < length (v_weak v)
           \<or> MAX_BATCH_REFS < length (v_batches v) \<or> MAX_CARRIED < length (v_carried v)
      then Inl (InvalidVertex ''vertex carries too many references'')
      else if list_ex (\<lambda>(a, b). checked_add 64 (b_sequence a) 1 \<noteq> Some (b_sequence b))
             (windows2 (v_batches v))
      then Inl (InvalidVertex ''introduced batches are not consecutive'')
      else if list_ex (\<lambda>x. cb_author x = v_source v \<or> c_member c (cb_author x) = None) (v_carried v)
      then Inl (InvalidVertex ''a carried batch must be another member's'')
      else if list_ex (\<lambda>(a, b). (cb_author b, b_sequence (cb_batch b))
                                  \<le> (cb_author a, b_sequence (cb_batch a)))
             (windows2 (v_carried v))
      then Inl (InvalidVertex ''carried batches are not sorted by author and sequence'')
      else if v_round v = 0
      then if v_strong v \<noteq> [] \<or> v_weak v \<noteq> []
           then Inl (InvalidVertex ''a round-0 vertex has no parents'')
           else Inr ()
      else case check_strong c (v_round v - 1) ss_new (v_strong v) of
          Inl e \<Rightarrow> Inl e
        | Inr seats \<Rightarrow>
            if ss_weight seats < quorum c
            then Inl (InvalidVertex ''strong references carry less than a quorum'')
            else if list_ex (\<lambda>w. v_round v - 1 \<le> r_round w \<or> c_member c (r_source w) = None) (v_weak v)
            then Inl (InvalidVertex ''weak reference must name an older vertex of a member'')
            else Inr ())"

section \<open>What the check establishes\<close>

definition strong_ok :: "committee \<Rightarrow> vertex \<Rightarrow> bool" where
  "strong_ok c v \<longleftrightarrow>
     (\<forall>s \<in> set (v_strong v). r_round s = v_round v - 1 \<and> r_source s \<in> member_set c)
     \<and> distinct (map r_source (v_strong v))
     \<and> quorum c \<le> sum (c_seats c) (r_source ` set (v_strong v))"

lemma check_strong_ok_iff:
  "(\<exists>seats'. check_strong c previous seats ss = Inr seats') \<longleftrightarrow>
     (\<forall>s \<in> set ss. r_round s = previous \<and> r_source s \<in> member_set c)
     \<and> distinct (map r_source ss) \<and> r_source ` set ss \<inter> ss_elems seats = {}"
proof (induction c previous seats ss rule: check_strong.induct)
  case (2 c previous seats s ss)
  obtain fresh seats' where ins: "ss_insert seats (r_source s) (c_seats c (r_source s)) = (fresh, seats')"
    by fastforce
  have "fresh \<longleftrightarrow> r_source s \<notin> ss_elems seats" "ss_elems seats' = insert (r_source s) (ss_elems seats)"
    using seatset.ins_fst [of seats "r_source s"] seatset.ins_elems [of seats "r_source s"] ins
    by (metis fst_conv snd_conv)+
  with 2 ins show ?case by (auto simp: in_member_set_iff)
qed simp

lemma check_strong_fold:
  "check_strong c previous seats ss = Inr seats' \<Longrightarrow>
     seats' = foldl (\<lambda>s i. snd (ss_insert s i (c_seats c i))) seats (map r_source ss)"
  by (induction c previous seats ss rule: check_strong.induct)
    (auto split: if_splits prod.splits)

lemma check_strong_weight:
  assumes "check_strong c previous ss_new ss = Inr seats"
  shows "ss_weight seats = sum (c_seats c) (r_source ` set ss)"
proof -
  have "distinct (map r_source ss)" using check_strong_ok_iff [of c previous ss_new ss] assms by blast
  then show ?thesis
    using check_strong_fold [OF assms] seatset.fold_ins_empty_weight [of "map r_source ss" "c_seats c"]
    by simp
qed

definition consecutive :: "batch_ref list \<Rightarrow> bool" where
  "consecutive bs \<longleftrightarrow> (\<forall>i. Suc i < length bs \<longrightarrow>
     b_sequence (bs ! Suc i) = b_sequence (bs ! i) + 1 \<and> b_sequence (bs ! i) < uint_max 64)"

definition sorted_carried :: "carried_batch list \<Rightarrow> bool" where
  "sorted_carried cs \<longleftrightarrow>
     sorted_wrt (<) (map (\<lambda>x. (cb_author x, b_sequence (cb_batch x))) cs)"

lemma windows2_all: "list_all P (windows2 xs) \<longleftrightarrow> (\<forall>i. Suc i < length xs \<longrightarrow> P (xs ! i, xs ! Suc i))"
  by (auto simp: windows2_def list_all_length nth_tl)

lemma not_list_ex: "\<not> list_ex P xs \<longleftrightarrow> list_all (\<lambda>x. \<not> P x) xs"
  by (induction xs) auto

lemma consecutive_windows:
  "list_all (\<lambda>x. \<not> (case x of (a, b) \<Rightarrow> checked_add 64 (b_sequence a) 1 \<noteq> Some (b_sequence b)))
     (windows2 bs) \<longleftrightarrow> consecutive bs"
  unfolding windows2_all consecutive_def by (auto simp: checked_add_Some_iff)

lemma sorted_carried_windows:
  "list_all (\<lambda>x. \<not> (case x of (a, b) \<Rightarrow> (cb_author b, b_sequence (cb_batch b))
       \<le> (cb_author a, b_sequence (cb_batch a)))) (windows2 cs) \<longleftrightarrow> sorted_carried cs"
  unfolding windows2_all sorted_carried_def
  by (subst sorted_wrt_iff_nth_Suc_transp) (auto simp: transp_on_def not_le)

lemma check_structure_cases:
  "check_structure v c = Inr () \<longleftrightarrow>
     v_epoch v = c_epoch c \<and> v_source v \<in> member_set c
     \<and> length (v_strong v) \<le> MAX_REFS \<and> length (v_weak v) \<le> MAX_REFS
     \<and> length (v_batches v) \<le> MAX_BATCH_REFS \<and> length (v_carried v) \<le> MAX_CARRIED
     \<and> consecutive (v_batches v) \<and> sorted_carried (v_carried v)
     \<and> (\<forall>x \<in> set (v_carried v). cb_author x \<noteq> v_source v \<and> cb_author x \<in> member_set c)
     \<and> (if v_round v = 0 then v_strong v = [] \<and> v_weak v = []
        else strong_ok c v
          \<and> (\<forall>w \<in> set (v_weak v). r_round w < v_round v - 1 \<and> r_source w \<in> member_set c))"
proof -
  have strong: "(case check_strong c (v_round v - 1) ss_new (v_strong v) of
        Inl e \<Rightarrow> Inl e
      | Inr seats \<Rightarrow> if ss_weight seats < quorum c then Inl e1
          else if Q then Inl e2 else Inr ()) = Inr () \<longleftrightarrow> strong_ok c v \<and> \<not> Q" for e1 e2 Q
    using check_strong_ok_iff [of c "v_round v - 1" ss_new "v_strong v"]
    by (cases "check_strong c (v_round v - 1) ss_new (v_strong v)")
      (auto simp: strong_ok_def seatset.elems_empty dest: check_strong_weight)
  have genesis: "(if v_round v = 0
        then if v_strong v \<noteq> [] \<or> v_weak v \<noteq> [] then Inl e else Inr ()
        else X) = Inr () \<longleftrightarrow>
      (if v_round v = 0 then v_strong v = [] \<and> v_weak v = [] else X = Inr ())"
    for e and X :: "(consensus_error, unit) result" by simp
  have member: "c_member c i = None \<longleftrightarrow> i \<notin> member_set c" for i
    by (simp add: in_member_set_iff)
  show ?thesis
    unfolding check_structure_def guard_Inr genesis strong not_list_ex consecutive_windows
      sorted_carried_windows member
    unfolding list_all_iff de_Morgan_disj not_less not_not not_le
    by (rule iffI; elim conjE; intro conjI; assumption)
qed

lemma check_structureD:
  assumes "check_structure v c = Inr ()"
  shows "v_source v \<in> member_set c" "v_round v = 0 \<Longrightarrow> v_strong v = [] \<and> v_weak v = []"
    "0 < v_round v \<Longrightarrow> strong_ok c v"
  using assms unfolding check_structure_cases by auto

text \<open>
  \<open>check_structure\<close> accepts exactly the vertices of the epoch by a member, with
  bounded lists, consecutive introductions, other members' batches carried in order, and, past
  round 0, strong parents of distinct members in the previous round that carry a quorum of
  seats and weak parents in older rounds.
\<close>

theorem check_structure_iff:
  "check_structure v c = Inr () \<longleftrightarrow>
     v_epoch v = c_epoch c \<and> v_source v \<in> member_set c
     \<and> length (v_strong v) \<le> MAX_REFS \<and> length (v_weak v) \<le> MAX_REFS
     \<and> length (v_batches v) \<le> MAX_BATCH_REFS \<and> length (v_carried v) \<le> MAX_CARRIED
     \<and> consecutive (v_batches v) \<and> sorted_carried (v_carried v)
     \<and> (\<forall>x \<in> set (v_carried v). cb_author x \<noteq> v_source v \<and> cb_author x \<in> member_set c)
     \<and> (if v_round v = 0 then v_strong v = [] \<and> v_weak v = []
        else strong_ok c v
          \<and> (\<forall>w \<in> set (v_weak v). r_round w < v_round v - 1 \<and> r_source w \<in> member_set c))"
  by (rule check_structure_cases)

text \<open>A round-1 vertex with three of four members as strong parents.\<close>

definition demo_vertex :: vertex where
  "demo_vertex = \<lparr>v_epoch = 0, v_round = 1, v_source = 0,
     v_strong = map (\<lambda>i. \<lparr>r_round = 0, r_source = i, r_digest = [of_nat i]\<rparr>) [0, 1, 2],
     v_weak = [], v_batches = [], v_carried = [], v_timestamp_ms = 7\<rparr>"

theorem check_structure_iff_witness: "check_structure demo_vertex demo_committee = Inr ()"
  unfolding check_structure_iff
  by (simp add: demo_vertex_def strong_ok_def c_seats_demo MAX_REFS_def MAX_BATCH_REFS_def
      MAX_CARRIED_def consecutive_def sorted_carried_def)
    (simp add: demo_committee_def quorum_def max_faulty_def)

end
