(* ===== verification/Dag.thy ===== *)
theory Dag
  imports Vertex
begin

text \<open>
  The local DAG of delivered vertices (\<^verbatim>\<open>crates/tenzro-consensus/src/dag.rs\<close>): the causally closed
  vertices, the pending, expected and held ones, and the walks over references. Hash maps that the
  source iterates over are association lists; where the iteration order is unspecified the source
  sorts what it collects, or the result is a set. The digest of a vertex is the parameter
  \<open>vdigest\<close>.
\<close>

section \<open>State and operations\<close>

record dag =
  g_rounds :: "((round \<times> validator_index) \<times> (digest \<times> vertex)) list"
  g_by_digest :: "(digest \<times> (round \<times> validator_index)) list"
  g_pending :: "(digest \<times> vertex) list"
  g_expected :: "(digest \<times> round) list"
  g_floor :: round
  g_seats :: "nat list"
  g_vouch_seats :: nat
  g_held :: "(digest \<times> vertex) list"
  g_reached_by :: "(digest \<times> (round \<times> validator_index list)) list"

definition dag_new :: dag where
  "dag_new = \<lparr>g_rounds = [], g_by_digest = [], g_pending = [], g_expected = [], g_floor = 0,
     g_seats = [], g_vouch_seats = uint_max 64, g_held = [], g_reached_by = []\<rparr>"

definition with_vouching :: "nat list \<Rightarrow> nat \<Rightarrow> dag" where
  "with_vouching seats vouch_seats = dag_new\<lparr>g_seats := seats, g_vouch_seats := vouch_seats\<rparr>"

definition dag_contains :: "dag \<Rightarrow> digest \<Rightarrow> bool" where
  "dag_contains g d \<longleftrightarrow> map_of (g_by_digest g) d \<noteq> None"

definition dag_get :: "dag \<Rightarrow> digest \<Rightarrow> vertex option" where
  "dag_get g d = (case map_of (g_by_digest g) d of
       None \<Rightarrow> None
     | Some slot \<Rightarrow> map_option snd (map_of (g_rounds g) slot))"

definition dag_at :: "dag \<Rightarrow> round \<Rightarrow> validator_index \<Rightarrow> (digest \<times> vertex) option" where
  "dag_at g r source = map_of (g_rounds g) (r, source)"

definition dag_round :: "dag \<Rightarrow> round \<Rightarrow> (validator_index \<times> digest \<times> vertex) list" where
  "dag_round g r = map (\<lambda>((r, s), (d, v)). (s, d, v)) (filter (\<lambda>p. fst (fst p) = r) (g_rounds g))"

definition highest_round :: "dag \<Rightarrow> round option" where
  "highest_round g = (if g_rounds g = [] then None else Some (Max (set (map (fst \<circ> fst) (g_rounds g)))))"

definition expect :: "digest \<Rightarrow> round \<Rightarrow> dag \<Rightarrow> dag" where
  "expect d r g =
     (if g_floor g \<le> r \<and> \<not> dag_contains g d
      then g\<lparr>g_expected := al_put d r (g_expected g)\<rparr> else g)"

definition is_expected :: "dag \<Rightarrow> digest \<Rightarrow> bool" where
  "is_expected g d \<longleftrightarrow> map_of (g_expected g) d \<noteq> None"

definition missing_refs :: "dag \<Rightarrow> vertex \<Rightarrow> vertex_ref list" where
  "missing_refs g v =
     filter (\<lambda>r. g_floor g \<le> r_round r \<and> \<not> dag_contains g (r_digest r)) (v_strong v @ v_weak v)"

definition accept ::
  "digest \<Rightarrow> vertex \<Rightarrow> dag \<Rightarrow> (vertex_ref \<times> validator_index list) list \<times> dag" where
  "accept d v g =
     (let authors = (case map_of (g_reached_by g) d of None \<Rightarrow> [] | Some (_, as) \<Rightarrow> as);
          g = g\<lparr>g_reached_by := al_del d (g_reached_by g)\<rparr>;
          authors = (if v_source v \<in> set authors then authors else authors @ [v_source v]);
          work = map (\<lambda>r. (r, authors)) (missing_refs g v)
      in (work, g\<lparr>g_pending := al_put d v (g_pending g)\<rparr>))"

text \<open>The seats of the authors that reach a digest.\<close>

definition authors_weight :: "dag \<Rightarrow> validator_index list \<Rightarrow> nat" where
  "authors_weight g as =
     sum_list (map (\<lambda>a. if a < length (g_seats g) then g_seats g ! a else 0) (remdups as))"

text \<open>
  The worklist of \<open>reach\<close> is a stack, its top first here. The loop ends: an accepted held vertex is
  no longer held, and an author added to a held digest is not added again.
\<close>

definition reached :: "dag \<Rightarrow> digest \<Rightarrow> validator_index set" where
  "reached g d = (case map_of (g_reached_by g) d of None \<Rightarrow> {} | Some (_, as) \<Rightarrow> set as)"

definition reach_authors :: "(vertex_ref \<times> validator_index list) list \<Rightarrow> dag \<Rightarrow> validator_index set" where
  "reach_authors work g = (\<Union>(r, as) \<in> set work. set as) \<union> (\<Union>d \<in> fst ` set (g_held g). reached g d)"

definition reach_room :: "(vertex_ref \<times> validator_index list) list \<Rightarrow> dag \<Rightarrow> nat" where
  "reach_room work g = (\<Sum>d \<in> fst ` set (g_held g). card (reach_authors work g - reached g d))"

function reach_loop :: "(vertex_ref \<times> validator_index list) list \<Rightarrow> dag \<Rightarrow> dag" where
  "reach_loop [] g = g"
| "reach_loop ((r, authors) # work) g =
     (if r_round r < g_floor g \<or> dag_contains g (r_digest r)
         \<or> map_of (g_pending g) (r_digest r) \<noteq> None
      then reach_loop work g
      else let d = r_digest r;
               (round0, old) = (case map_of (g_reached_by g) d of None \<Rightarrow> (r_round r, []) | Some e \<Rightarrow> e);
               added = filter (\<lambda>a. a \<notin> set old) (remdups authors);
               g' = g\<lparr>g_reached_by := al_put d (round0, old @ added) (g_reached_by g)\<rparr>
           in if added = [] then reach_loop work g'
              else if g_vouch_seats g \<le> authors_weight g (old @ added)
              then (case map_of (g_held g) d of
                  Some v \<Rightarrow>
                    (let (more, g'') = accept d v (g'\<lparr>g_held := al_del d (g_held g),
                           g_expected := al_del d (g_expected g)\<rparr>)
                     in reach_loop (rev more @ work) g'')
                | None \<Rightarrow> reach_loop work (g'\<lparr>g_expected := al_put d (r_round r) (g_expected g)\<rparr>))
              else (case map_of (g_held g) d of
                  Some v \<Rightarrow> reach_loop (rev (map (\<lambda>p. (p, added)) (missing_refs g v)) @ work) g'
                | None \<Rightarrow> reach_loop work g'))"
  by pat_completeness auto

lemma finite_reach_authors: "finite (reach_authors work g)"
  by (auto simp: reach_authors_def reached_def split: option.splits)

lemma reach_room_le:
  assumes "g_held g' = g_held g" "reach_authors work' g' \<subseteq> reach_authors work g"
    and "\<And>d. d \<in> fst ` set (g_held g) \<Longrightarrow> reached g d \<subseteq> reached g' d"
  shows "reach_room work' g' \<le> reach_room work g"
  unfolding reach_room_def assms(1)
  using assms(2,3) finite_reach_authors by (intro sum_mono card_mono) blast+

lemma reach_room_less:
  assumes "g_held g' = g_held g" "reach_authors work' g' \<subseteq> reach_authors work g"
    and "\<And>d. d \<in> fst ` set (g_held g) \<Longrightarrow> reached g d \<subseteq> reached g' d"
    and "d \<in> fst ` set (g_held g)" "a \<in> reach_authors work g" "a \<in> reached g' d" "a \<notin> reached g d"
  shows "reach_room work' g' < reach_room work g"
  unfolding reach_room_def assms(1)
proof (rule sum_strict_mono_ex1)
  show "\<forall>d \<in> fst ` set (g_held g). card (reach_authors work' g' - reached g' d) \<le> card (reach_authors work g - reached g d)"
    using assms(2,3) finite_reach_authors by (intro ballI card_mono) blast+
  have "card (reach_authors work' g' - reached g' d) < card (reach_authors work g - reached g d)"
    using assms(2-7) finite_reach_authors by (intro psubset_card_mono) blast+
  then show "\<exists>d \<in> fst ` set (g_held g). card (reach_authors work' g' - reached g' d) < card (reach_authors work g - reached g d)"
    using assms(4) by blast
qed simp

lemma reached_update:
  "reached (g\<lparr>g_reached_by := al_put d (x, as) (g_reached_by g)\<rparr>) e = (if e = d then set as else reached g e)"
  by (simp add: reached_def)

lemma reached_fields [simp]:
  "reached (g\<lparr>g_expected := x\<rparr>) = reached g" "reached (g\<lparr>g_pending := y\<rparr>) = reached g"
  by (simp_all add: reached_def fun_eq_iff)

lemma held_key: "map_of (g_held g) d = Some v \<Longrightarrow> d \<in> fst ` set (g_held g)"
  "map_of (g_held g) d = None \<Longrightarrow> d \<notin> fst ` set (g_held g)"
  by (auto dest: map_of_SomeD simp: map_of_eq_None_iff intro: rev_image_eqI)

text \<open>
  Adding authors to a digest that is not held, or no author at all, leaves no more room.
\<close>

lemma reach_room_stale:
  assumes "d \<notin> fst ` set (g_held g) \<or> set as = reached g d" "g_held g' = g_held g"
    and upd: "\<And>e. reached g' e = (if e = d then set as else reached g e)"
  shows "reach_room work g' \<le> reach_room ((r, bs) # work) g"
proof (rule reach_room_le [OF assms(2)])
  have same: "reached g' e = reached g e" if "e \<in> fst ` set (g_held g)" for e
    using assms(1) that upd [of e] by (cases "e = d") auto
  then show "reached g e \<subseteq> reached g' e" if "e \<in> fst ` set (g_held g)" for e using that by simp
  show "reach_authors work g' \<subseteq> reach_authors ((r, bs) # work) g"
    unfolding reach_authors_def assms(2) using same by auto
qed

lemma reach_room_spread:
  assumes "map_of (g_held g) d = Some v" "added \<noteq> []" "set added \<subseteq> set bs" "set added \<inter> reached g d = {}"
    and "set as = reached g d \<union> set added"
  shows "reach_room (rev (map (\<lambda>p. (p, added)) ps) @ work) (g\<lparr>g_reached_by := al_put d (x, as) (g_reached_by g)\<rparr>)
    < reach_room ((r, bs) # work) g"
proof -
  have d: "d \<in> fst ` set (g_held g)" using held_key(1) assms(1) .
  obtain a where "a \<in> set added" using assms(2) by (cases added) auto
  then show ?thesis
    using assms(3-5) d
    by (intro reach_room_less [where d = d and a = a])
      (auto simp: reached_update reach_authors_def split: if_splits)
qed

termination reach_loop
proof (relation "measures [\<lambda>(work, g). length (g_held g), \<lambda>(work, g). reach_room work g, \<lambda>(work, g). length work]",
    goal_cases)
  case 1
  then show ?case by simp
next
  case (2 r authors work g)
  have "reach_room work g \<le> reach_room ((r, authors) # work) g"
    by (rule reach_room_le) (auto simp: reach_authors_def)
  then show ?case by (auto simp: le_less)
next
  case (3 r authors work g d x round0 old added g')
  have "set (old @ added) = reached g d"
    using 3(3,4,7) by (auto simp: reached_def split: option.splits)
  then have "reach_room work g' \<le> reach_room ((r, authors) # work) g"
    unfolding 3(6) by (intro reach_room_stale disjI2) (simp_all add: reached_update)
  then show ?case using 3 by (auto simp: le_less)
next
  case (4 r authors work g d x round0 old added g')
  have "reach_room work (g'\<lparr>g_expected := al_put d (r_round r) (g_expected g)\<rparr>) \<le> reach_room ((r, authors) # work) g"
    unfolding 4(6) by (rule reach_room_stale [where d = d and as = "old @ added"])
      (use held_key(2) [OF 4(9)] in \<open>simp_all add: reached_update\<close>)
  then show ?case using 4(6) by (auto simp: le_less)
next
  case (5 r authors work g d x round0 old added g' v y more g'')
  then show ?case
    using held_key(1) [of g d v] length_al_del(2) [of d "g_held g"] by (auto simp: accept_def Let_def)
next
  case (6 r authors work g d x round0 old added g')
  have "reach_room work g' \<le> reach_room ((r, authors) # work) g"
    unfolding 6(6) by (rule reach_room_stale [where d = d and as = "old @ added"])
      (use held_key(2) [OF 6(9)] in \<open>simp_all add: reached_update\<close>)
  then show ?case using 6(6) by (auto simp: le_less)
next
  case (7 r authors work g d x round0 old added g' v)
  have "set added \<subseteq> set authors" "set added \<inter> reached g d = {}" "set (old @ added) = reached g d \<union> set added"
    using 7(3-5) by (auto simp: reached_def split: option.splits)
  then have "reach_room (rev (map (\<lambda>p. (p, added)) (missing_refs g v)) @ work) g' < reach_room ((r, authors) # work) g"
    unfolding 7(6) using reach_room_spread [OF 7(9,7)] by simp
  then show ?case using 7(6) by simp
qed

definition reach :: "(vertex_ref \<times> validator_index list) list \<Rightarrow> dag \<Rightarrow> dag" where
  "reach work g = (if g_vouch_seats g = uint_max 64 then g else reach_loop (rev work) g)"

definition ready_list :: "dag \<Rightarrow> (round \<times> validator_index \<times> digest) list" where
  "ready_list g =
     sort (map (\<lambda>(d, v). (v_round v, v_source v, d)) (filter (\<lambda>(d, v). missing_refs g v = []) (g_pending g)))"

definition insert_ready ::
  "dag \<times> vertex_ref list \<Rightarrow> round \<times> validator_index \<times> digest \<Rightarrow> dag \<times> vertex_ref list" where
  "insert_ready = (\<lambda>(g, inserted) (r, s, d).
     case map_of (g_pending g) d of
       None \<Rightarrow> (g, inserted)
     | Some v \<Rightarrow>
         let g = g\<lparr>g_pending := al_del d (g_pending g)\<rparr>; slot = (v_round v, v_source v) in
         if map_of (g_rounds g) slot \<noteq> None then (g, inserted)
         else (g\<lparr>g_by_digest := al_put d slot (g_by_digest g), g_rounds := al_put slot (d, v) (g_rounds g)\<rparr>,
               inserted @ [\<lparr>r_round = v_round v, r_source = v_source v, r_digest = d\<rparr>]))"

lemma insert_ready_pending:
  "length (g_pending (fst (insert_ready (g, ins) (r, s, d)))) \<le> length (g_pending g)"
  "map_of (g_pending g) d \<noteq> None \<Longrightarrow> length (g_pending (fst (insert_ready (g, ins) (r, s, d)))) < length (g_pending g)"
  using length_al_del(1) [of d "g_pending g"] length_al_del(2) [of d "g_pending g"] map_of_SomeD [of "g_pending g" d]
  by (force simp: insert_ready_def Let_def split: option.splits)+

lemma insert_ready_fold_pending:
  "length (g_pending (fst (foldl insert_ready st xs))) \<le> length (g_pending (fst st))"
proof (induction xs arbitrary: st)
  case (Cons x xs)
  have "length (g_pending (fst (insert_ready st x))) \<le> length (g_pending (fst st))"
    using insert_ready_pending(1) by (metis prod.exhaust_sel)
  then show ?case using Cons.IH [of "insert_ready st x"] by simp
qed simp

lemma ready_list_in: "(r, s, d) \<in> set (ready_list g) \<Longrightarrow>
    \<exists>v. (d, v) \<in> set (g_pending g) \<and> missing_refs g v = [] \<and> r = v_round v \<and> s = v_source v"
  by (auto simp: ready_list_def)

function drain_loop :: "dag \<Rightarrow> vertex_ref list \<Rightarrow> dag \<times> vertex_ref list" where
  "drain_loop g inserted =
     (let ready = ready_list g in
      if ready = [] then (g, inserted)
      else case foldl insert_ready (g, inserted) ready of (g', inserted') \<Rightarrow> drain_loop g' inserted')"
  by pat_completeness auto

termination drain_loop
proof (relation "measure (\<lambda>(g, inserted). length (g_pending g))", goal_cases)
  case (2 g inserted ready g' inserted')
  obtain r s d rest where ready: "ready = (r, s, d) # rest" using 2(2) by (metis list.exhaust prod_cases3)
  obtain v where "(d, v) \<in> set (g_pending g)" using ready_list_in [of r s d g] 2(1) ready by (metis list.set_intros(1))
  then have "map_of (g_pending g) d \<noteq> None" by (simp add: map_of_eq_None_iff) (metis fst_conv image_eqI)
  then show ?case
    using insert_ready_pending(2) [of g d inserted r s] 2(3) ready
      insert_ready_fold_pending [of "insert_ready (g, inserted) (r, s, d)" rest]
    by (simp add: case_prod_unfold)
qed simp

declare drain_loop.simps [simp del]

definition drain_pending :: "dag \<Rightarrow> (vertex_ref list \<times> digest list) \<times> dag" where
  "drain_pending g =
     (let (g, inserted) = drain_loop g [];
          unknown = (\<lambda>d. map_of (g_pending g) d = None \<and> map_of (g_held g) d = None);
          refs = (\<lambda>vs. filter unknown (map r_digest (concat (map (\<lambda>(d, v). missing_refs g v) vs))))
      in ((inserted, remdups_adj (sort (refs (g_pending g) @ refs (g_held g)))), g))"

definition offer :: "(vertex \<Rightarrow> digest) \<Rightarrow> vertex \<Rightarrow> dag \<Rightarrow> (vertex_ref list \<times> digest list) \<times> dag" where
  "offer vdigest v g =
     (let d = vdigest v in
      if dag_contains g d \<or> v_round v < g_floor g then (([], []), g)
      else if map_of (g_expected g) d = None then (([], []), g)
      else let g = g\<lparr>g_expected := al_del d (g_expected g), g_held := al_del d (g_held g)\<rparr>;
               (work, g) = accept d v g
           in drain_pending (reach work g))"

definition hold :: "(vertex \<Rightarrow> digest) \<Rightarrow> vertex \<Rightarrow> dag \<Rightarrow> (vertex_ref list \<times> digest list) \<times> dag" where
  "hold vdigest v g =
     (let d = vdigest v in
      if dag_contains g d \<or> map_of (g_pending g) d \<noteq> None \<or> v_round v < g_floor g then (([], []), g)
      else if is_expected g d then offer vdigest v g
      else let carried = (case map_of (g_reached_by g) d of None \<Rightarrow> [] | Some (_, as) \<Rightarrow> as);
               refs = missing_refs g v;
               g = g\<lparr>g_held := al_put d v (g_held g)\<rparr>;
               work = (if carried = [] then [] else map (\<lambda>r. (r, carried)) refs)
           in drain_pending (reach work g))"

text \<open>The frontier of \<open>strong_path\<close> descends one round a pass.\<close>

definition strong_refs :: "dag \<Rightarrow> digest \<Rightarrow> vertex_ref set" where
  "strong_refs g d = (case dag_get g d of None \<Rightarrow> {} | Some v \<Rightarrow> set (v_strong v))"

function path_loop :: "dag \<Rightarrow> vertex_ref \<Rightarrow> round \<Rightarrow> digest set \<Rightarrow> bool" where
  "path_loop g to r frontier =
     (if r_round to < r \<and> frontier \<noteq> {}
      then if \<exists>d \<in> frontier. \<exists>s \<in> strong_refs g d. r_round s = r_round to \<and> r_digest s = r_digest to then True
           else path_loop g to (r - 1)
             (\<Union>d \<in> frontier. r_digest ` {s \<in> strong_refs g d. r_round s \<noteq> r_round to})
      else False)"
  by pat_completeness auto

termination path_loop
  by (relation "measure (\<lambda>(g, to, r, frontier). r)") auto

declare path_loop.simps [simp del]

definition strong_path :: "dag \<Rightarrow> digest \<Rightarrow> vertex_ref \<Rightarrow> bool" where
  "strong_path g start to =
     (case dag_get g start of
        None \<Rightarrow> False
      | Some v \<Rightarrow>
          if v_round v < r_round to then False
          else if start = r_digest to then True
          else path_loop g to (v_round v) {start})"

definition all_refs :: "dag \<Rightarrow> vertex \<Rightarrow> digest list" where
  "all_refs g v = map r_digest (filter (\<lambda>r. g_floor g \<le> r_round r) (v_strong v @ v_weak v))"

lemma dag_get_key: "dag_get g d = Some v \<Longrightarrow> d \<in> fst ` set (g_by_digest g)"
  by (auto simp: dag_get_def split: option.splits dest: map_of_SomeD intro: rev_image_eqI)

function hist_loop ::
  "dag \<Rightarrow> (digest \<Rightarrow> bool) \<Rightarrow> digest list \<Rightarrow> digest set \<Rightarrow> vertex_ref list \<Rightarrow> vertex_ref list" where
  "hist_loop g skip [] seen out = out"
| "hist_loop g skip (d # queue) seen out =
     (if skip d \<or> d \<in> seen then hist_loop g skip queue seen out
      else case dag_get g d of
          None \<Rightarrow> hist_loop g skip queue (insert d seen) out
        | Some v \<Rightarrow> hist_loop g skip (queue @ all_refs g v) (insert d seen)
            (out @ [\<lparr>r_round = v_round v, r_source = v_source v, r_digest = d\<rparr>]))"
  by pat_completeness auto

termination hist_loop
proof (relation "measures [\<lambda>(g, skip, queue, seen, out). card (fst ` set (g_by_digest g) - seen),
    \<lambda>(g, skip, queue, seen, out). length queue]", goal_cases)
  case (3 g skip d queue seen out)
  have "card (fst ` set (g_by_digest g) - insert d seen) \<le> card (fst ` set (g_by_digest g) - seen)"
    by (intro card_mono) auto
  then show ?case by (auto simp: le_less)
next
  case (4 g skip d queue seen out v)
  have "card (fst ` set (g_by_digest g) - insert d seen) < card (fst ` set (g_by_digest g) - seen)"
    using 4 dag_get_key [of g d v] by (intro psubset_card_mono) auto
  then show ?case by simp
qed auto

definition causal_history :: "dag \<Rightarrow> digest \<Rightarrow> (digest \<Rightarrow> bool) \<Rightarrow> vertex_ref list" where
  "causal_history g root skip =
     sort_key (\<lambda>r. (r_round r, r_source r, r_digest r)) (hist_loop g skip [root] {} [])"

function orphan_loop :: "dag \<Rightarrow> (digest \<Rightarrow> bool) \<Rightarrow> digest list \<Rightarrow> digest set \<Rightarrow> digest set" where
  "orphan_loop g ordered [] reachable = reachable"
| "orphan_loop g ordered (d # queue) reachable =
     (if d \<in> reachable then orphan_loop g ordered queue reachable
      else case dag_get g d of
          None \<Rightarrow> orphan_loop g ordered queue (insert d reachable)
        | Some v \<Rightarrow> orphan_loop g ordered (queue @ filter (\<lambda>e. \<not> ordered e) (all_refs g v)) (insert d reachable))"
  by pat_completeness auto

termination orphan_loop
proof (relation "measures [\<lambda>(g, ordered, queue, reachable). card (fst ` set (g_by_digest g) - reachable),
    \<lambda>(g, ordered, queue, reachable). length queue]", goal_cases)
  case (3 g ordered d queue reachable)
  have "card (fst ` set (g_by_digest g) - insert d reachable) \<le> card (fst ` set (g_by_digest g) - reachable)"
    by (intro card_mono) auto
  then show ?case by (auto simp: le_less)
next
  case (4 g ordered d queue reachable v)
  have "card (fst ` set (g_by_digest g) - insert d reachable) < card (fst ` set (g_by_digest g) - reachable)"
    using 4 dag_get_key [of g d v] by (intro psubset_card_mono) auto
  then show ?case by simp
qed auto

text \<open>The limit is tested after a push, so a limit of zero limits nothing.\<close>

definition orphans_below ::
  "dag \<Rightarrow> round \<Rightarrow> digest list \<Rightarrow> (digest \<Rightarrow> bool) \<Rightarrow> nat \<Rightarrow> vertex_ref list" where
  "orphans_below g r roots ordered limit =
     (let reachable = orphan_loop g ordered roots {};
          below = sort_key fst (filter (\<lambda>p. g_floor g \<le> fst (fst p) \<and> fst (fst p) < r) (g_rounds g));
          out = map (\<lambda>((r, s), (d, v)). \<lparr>r_round = r, r_source = s, r_digest = d\<rparr>)
            (filter (\<lambda>(slot, (d, v)). d \<notin> reachable \<and> \<not> ordered d) below)
      in if limit = 0 then out else take limit out)"

definition dag_prune_below :: "round \<Rightarrow> dag \<Rightarrow> (digest \<times> vertex) list \<times> dag" where
  "dag_prune_below r g =
     (if r \<le> g_floor g then ([], g)
      else let pruned = map snd (filter (\<lambda>p. fst (fst p) < r) (g_rounds g)) in
        (pruned,
         g\<lparr>g_floor := r,
           g_rounds := filter (\<lambda>p. r \<le> fst (fst p)) (g_rounds g),
           g_by_digest := filter (\<lambda>p. fst p \<notin> fst ` set pruned) (g_by_digest g),
           g_pending := filter (\<lambda>p. r \<le> v_round (snd p)) (g_pending g),
           g_expected := filter (\<lambda>p. r \<le> snd p) (g_expected g),
           g_held := filter (\<lambda>p. r \<le> v_round (snd p)) (g_held g),
           g_reached_by := filter (\<lambda>p. r \<le> fst (snd p)) (g_reached_by g)\<rparr>))"

section \<open>Well-formedness and causal closure\<close>

definition dag_wf :: "(vertex \<Rightarrow> digest) \<Rightarrow> dag \<Rightarrow> bool" where
  "dag_wf vdigest g \<longleftrightarrow>
     distinct (map fst (g_rounds g)) \<and> distinct (map fst (g_by_digest g)) \<and> distinct (map fst (g_pending g))
     \<and> (\<forall>slot d v. map_of (g_rounds g) slot = Some (d, v) \<longrightarrow>
          slot = (v_round v, v_source v) \<and> vdigest v = d \<and> g_floor g \<le> fst slot
          \<and> map_of (g_by_digest g) d = Some slot)
     \<and> (\<forall>d slot. map_of (g_by_digest g) d = Some slot \<longrightarrow> (\<exists>v. map_of (g_rounds g) slot = Some (d, v)))
     \<and> (\<forall>d v. (d, v) \<in> set (g_pending g) \<longrightarrow> vdigest v = d \<and> g_floor g \<le> v_round v
          \<and> map_of (g_by_digest g) d = None)
     \<and> (\<forall>d v. (d, v) \<in> set (g_held g) \<longrightarrow> vdigest v = d \<and> g_floor g \<le> v_round v)"

text \<open>Every reference at or above the floor of a vertex in the DAG is in the DAG.\<close>

definition dag_closed :: "dag \<Rightarrow> bool" where
  "dag_closed g \<longleftrightarrow> (\<forall>slot d v. map_of (g_rounds g) slot = Some (d, v) \<longrightarrow> missing_refs g v = [])"

lemma dag_wfD:
  assumes "dag_wf vdigest g"
  shows "distinct (map fst (g_rounds g))" "distinct (map fst (g_by_digest g))" "distinct (map fst (g_pending g))"
    "map_of (g_rounds g) slot = Some (d, v) \<Longrightarrow> slot = (v_round v, v_source v) \<and> vdigest v = d
       \<and> g_floor g \<le> fst slot \<and> map_of (g_by_digest g) d = Some slot"
    "map_of (g_by_digest g) d = Some slot \<Longrightarrow> \<exists>v. map_of (g_rounds g) slot = Some (d, v)"
    "(d, v) \<in> set (g_pending g) \<Longrightarrow> vdigest v = d \<and> g_floor g \<le> v_round v
       \<and> map_of (g_by_digest g) d = None"
    "(d, v) \<in> set (g_held g) \<Longrightarrow> vdigest v = d \<and> g_floor g \<le> v_round v"
  using assms unfolding dag_wf_def by blast+

lemma dag_get_iff:
  assumes "dag_wf vdigest g"
  shows "dag_get g d = Some v \<longleftrightarrow> map_of (g_rounds g) (v_round v, v_source v) = Some (d, v)"
    and "dag_contains g d \<longleftrightarrow> (\<exists>v. dag_get g d = Some v)"
proof -
  show "dag_get g d = Some v \<longleftrightarrow> map_of (g_rounds g) (v_round v, v_source v) = Some (d, v)"
  proof
    assume "dag_get g d = Some v"
    then obtain slot where slot: "map_of (g_by_digest g) d = Some slot" "map_option snd (map_of (g_rounds g) slot) = Some v"
      unfolding dag_get_def by (cases "map_of (g_by_digest g) d") (simp_all del: map_option_eq_Some)
    obtain v' where at: "map_of (g_rounds g) slot = Some (d, v')" using dag_wfD(5) [OF assms slot(1)] by blast
    then have "v' = v" using slot(2) by simp
    moreover have "slot = (v_round v', v_source v')" using dag_wfD(4) [OF assms at] by blast
    ultimately show "map_of (g_rounds g) (v_round v, v_source v) = Some (d, v)" using at by metis
  next
    assume "map_of (g_rounds g) (v_round v, v_source v) = Some (d, v)"
    note at = this
    then have "map_of (g_by_digest g) d = Some (v_round v, v_source v)" using dag_wfD(4) [OF assms at] by blast
    then show "dag_get g d = Some v" using at by (simp add: dag_get_def)
  qed
  show "dag_contains g d \<longleftrightarrow> (\<exists>v. dag_get g d = Some v)"
  proof (cases "map_of (g_by_digest g) d")
    case (Some slot)
    then show ?thesis using dag_wfD(5) [OF assms Some] by (auto simp: dag_get_def dag_contains_def)
  qed (simp add: dag_get_def dag_contains_def)
qed

text \<open>The operations that touch only the waiting sets.\<close>

definition same_dag :: "dag \<Rightarrow> dag \<Rightarrow> bool" where
  "same_dag g g' \<longleftrightarrow> g_rounds g' = g_rounds g \<and> g_by_digest g' = g_by_digest g \<and> g_floor g' = g_floor g
     \<and> g_vouch_seats g' = g_vouch_seats g \<and> g_seats g' = g_seats g"

lemma same_dag_contains: "same_dag g g' \<Longrightarrow> dag_contains g' = dag_contains g"
  by (simp add: same_dag_def dag_contains_def fun_eq_iff)

lemma same_dag_closed: "same_dag g g' \<Longrightarrow> dag_closed g' \<longleftrightarrow> dag_closed g"
  by (simp add: dag_closed_def missing_refs_def same_dag_contains) (simp add: same_dag_def)

lemma same_dag_trans: "same_dag g g' \<Longrightarrow> same_dag g' g'' \<Longrightarrow> same_dag g g''"
  by (simp add: same_dag_def)

lemma accept_fields:
  assumes "accept d v g = (work, g')"
  shows "same_dag g g'" "g_held g' = g_held g" "g_pending g' = al_put d v (g_pending g)"
  using assms by (auto simp: accept_def Let_def same_dag_def)

lemma dag_wf_same:
  assumes "dag_wf vdigest g" "same_dag g g'" "distinct (map fst (g_pending g'))"
    and "\<And>d v. (d, v) \<in> set (g_pending g') \<Longrightarrow> vdigest v = d \<and> g_floor g \<le> v_round v \<and> map_of (g_by_digest g) d = None"
    and "\<And>d v. (d, v) \<in> set (g_held g') \<Longrightarrow> vdigest v = d \<and> g_floor g \<le> v_round v"
  shows "dag_wf vdigest g'"
proof -
  have eqs: "g_rounds g' = g_rounds g" "g_by_digest g' = g_by_digest g" "g_floor g' = g_floor g"
    using assms(2) by (simp_all add: same_dag_def)
  show ?thesis unfolding dag_wf_def eqs using assms(1) [unfolded dag_wf_def] assms(3-5) by blast
qed

lemma accept_wf:
  assumes "dag_wf vdigest g" "vdigest v = d" "g_floor g \<le> v_round v" "\<not> dag_contains g d"
    and "accept d v g = (work, g')"
  shows "dag_wf vdigest g'"
proof (rule dag_wf_same [OF assms(1)])
  note f = accept_fields [OF assms(5)]
  show "same_dag g g'" using f(1) .
  show "distinct (map fst (g_pending g'))" using f(3) dag_wfD(3) [OF assms(1)] by simp
  show "vdigest w = e \<and> g_floor g \<le> v_round w \<and> map_of (g_by_digest g) e = None" if "(e, w) \<in> set (g_pending g')" for e w
    using that dag_wfD(6) [OF assms(1), of e w] assms(2-4) f(3) unfolding dag_contains_def
    by (cases "e = d") (simp_all add: set_al_put del: not_None_eq)
  show "vdigest w = e \<and> g_floor g \<le> v_round w" if "(e, w) \<in> set (g_held g')" for e w
    using that dag_wfD(7) [OF assms(1)] f(2) by auto
qed

lemma dag_wf_waiting:
  "dag_wf vdigest g \<Longrightarrow> dag_wf vdigest (g\<lparr>g_expected := x\<rparr>)"
  "dag_wf vdigest g \<Longrightarrow> dag_wf vdigest (g\<lparr>g_reached_by := y\<rparr>)"
  "dag_wf vdigest g \<Longrightarrow> dag_wf vdigest (g\<lparr>g_held := al_del d (g_held g)\<rparr>)"
  "dag_wf vdigest g \<Longrightarrow> vdigest v = d \<Longrightarrow> g_floor g \<le> v_round v \<Longrightarrow> dag_wf vdigest (g\<lparr>g_held := al_put d v (g_held g)\<rparr>)"
  subgoal by (rule dag_wf_same) (auto simp: same_dag_def dag_wfD)
  subgoal by (rule dag_wf_same) (auto simp: same_dag_def dag_wfD)
  subgoal by (rule dag_wf_same) (auto simp: same_dag_def set_al_del dag_wfD)
  subgoal by (rule dag_wf_same) (auto simp: same_dag_def set_al_put dag_wfD)
  done

lemma same_dag_waiting [simp]:
  "same_dag g (g\<lparr>g_expected := x\<rparr>)" "same_dag g (g\<lparr>g_reached_by := y\<rparr>)" "same_dag g (g\<lparr>g_held := z\<rparr>)"
  "same_dag g (g\<lparr>g_pending := u\<rparr>)" "same_dag g g"
  by (simp_all add: same_dag_def)

lemma reach_loop_wf:
  "dag_wf vdigest g \<Longrightarrow> dag_wf vdigest (reach_loop work g) \<and> same_dag g (reach_loop work g)"
proof (induction work g rule: reach_loop.induct)
  case (2 r authors work g)
  define d where "d = r_digest r"
  obtain round0 old where old: "(case map_of (g_reached_by g) d of None \<Rightarrow> (r_round r, []) | Some e \<Rightarrow> e) = (round0, old)"
    by fastforce
  define added where "added = filter (\<lambda>a. a \<notin> set old) (remdups authors)"
  define g' where "g' = g\<lparr>g_reached_by := al_put d (round0, old @ added) (g_reached_by g)\<rparr>"
  have g': "dag_wf vdigest g'" "same_dag g g'" using 2(7) dag_wf_waiting(2) by (simp_all add: g'_def)
  show ?case
  proof (cases "r_round r < g_floor g \<or> dag_contains g (r_digest r) \<or> map_of (g_pending g) (r_digest r) \<noteq> None")
    case True
    then show ?thesis using 2(1) [OF True 2(7)] by simp
  next
    case False
    let ?held = "g'\<lparr>g_held := al_del d (g_held g), g_expected := al_del d (g_expected g)\<rparr>"
    have eq: "reach_loop ((r, authors) # work) g =
       (if added = [] then reach_loop work g'
        else if g_vouch_seats g \<le> authors_weight g (old @ added)
        then (case map_of (g_held g) d of
            Some v \<Rightarrow> (case accept d v ?held of (mr, g'') \<Rightarrow> reach_loop (rev mr @ work) g'')
          | None \<Rightarrow> reach_loop work (g'\<lparr>g_expected := al_put d (r_round r) (g_expected g)\<rparr>))
        else (case map_of (g_held g) d of
            Some v \<Rightarrow> reach_loop (rev (map (\<lambda>p. (p, added)) (missing_refs g v)) @ work) g'
          | None \<Rightarrow> reach_loop work g'))"
      using False old unfolding reach_loop.simps(2) Let_def d_def [symmetric] added_def g'_def by simp
    note args = False d_def refl old [symmetric] added_def g'_def
    consider (none) "added = []"
      | (expect) "added \<noteq> []" "g_vouch_seats g \<le> authors_weight g (old @ added)" "map_of (g_held g) d = None"
      | (accept) v mr g'' where "added \<noteq> []" "g_vouch_seats g \<le> authors_weight g (old @ added)" "map_of (g_held g) d = Some v"
          "accept d v ?held = (mr, g'')"
      | (wait) "added \<noteq> []" "\<not> g_vouch_seats g \<le> authors_weight g (old @ added)" "map_of (g_held g) d = None"
      | (spread) v where "added \<noteq> []" "\<not> g_vouch_seats g \<le> authors_weight g (old @ added)" "map_of (g_held g) d = Some v"
      by (metis option.exhaust surj_pair)
    then show ?thesis
    proof cases
      case none
      then show ?thesis using 2(2) [OF args none g'(1)] same_dag_trans [OF g'(2)] unfolding eq by simp
    next
      case expect
      let ?g = "g'\<lparr>g_expected := al_put d (r_round r) (g_expected g)\<rparr>"
      have "dag_wf vdigest ?g" "same_dag g ?g" using g' dag_wf_waiting(1) by (simp_all add: same_dag_def)
      then show ?thesis using 2(3) [OF args expect] same_dag_trans [of g ?g] expect unfolding eq by simp
    next
      case accept
      have held: "(d, v) \<in> set (g_held g)" using accept(3) by (rule map_of_SomeD)
      have h: "dag_wf vdigest ?held" "same_dag g ?held"
        using dag_wf_waiting(1) [OF dag_wf_waiting(3) [OF g'(1), of d]] g'(2) by (simp_all add: g'_def same_dag_def)
      have v: "vdigest v = d" "g_floor ?held \<le> v_round v" "\<not> dag_contains ?held d"
        using dag_wfD(7) [OF 2(7) held] False by (simp_all add: g'_def d_def dag_contains_def)
      have "dag_wf vdigest g''" "same_dag g g''"
        using accept_wf [OF h(1) v accept(4)] same_dag_trans [OF h(2) accept_fields(1) [OF accept(4)]] by simp_all
      then show ?thesis using 2(4) [OF args accept(1-3) accept(4) [symmetric] refl] same_dag_trans [of g g''] accept unfolding eq by simp
    next
      case wait
      then show ?thesis using 2(5) [OF args wait g'(1)] same_dag_trans [OF g'(2)] unfolding eq by simp
    next
      case spread
      then show ?thesis using 2(6) [OF args spread g'(1)] same_dag_trans [OF g'(2)] unfolding eq by simp
    qed
  qed
qed simp

lemma reach_wf:
  "dag_wf vdigest g \<Longrightarrow> dag_wf vdigest (reach work g) \<and> same_dag g (reach work g)"
  using reach_loop_wf by (simp add: reach_def)

text \<open>Moving a ready vertex from the pending set into the DAG.\<close>

definition drains_to :: "dag \<Rightarrow> dag \<Rightarrow> bool" where
  "drains_to g g' \<longleftrightarrow> g_floor g' = g_floor g \<and> (\<forall>d. dag_contains g d \<longrightarrow> dag_contains g' d)
     \<and> (\<forall>d v. map_of (g_pending g') d = Some v \<longrightarrow> map_of (g_pending g) d = Some v)
     \<and> (\<forall>slot x. map_of (g_rounds g) slot = Some x \<longrightarrow> map_of (g_rounds g') slot = Some x)"

lemma drains_to_trans: "drains_to g g' \<Longrightarrow> drains_to g' g'' \<Longrightarrow> drains_to g g''"
  by (simp add: drains_to_def)

lemma missing_refs_mono: "drains_to g g' \<Longrightarrow> missing_refs g v = [] \<Longrightarrow> missing_refs g' v = []"
  unfolding missing_refs_def drains_to_def filter_empty_conv by auto

lemma insert_ready_ok:
  assumes wf: "dag_wf vdigest g" and closed: "dag_closed g"
    and ready: "\<And>v. map_of (g_pending g) d = Some v \<Longrightarrow> missing_refs g v = []"
    and run: "insert_ready (g, ins) (r, s, d) = (g', ins')"
  shows "dag_wf vdigest g' \<and> dag_closed g' \<and> drains_to g g'"
proof (cases "map_of (g_pending g) d")
  case None
  then show ?thesis using run wf closed by (simp add: insert_ready_def drains_to_def)
next
  case (Some v)
  have pend: "vdigest v = d" "g_floor g \<le> v_round v" "map_of (g_by_digest g) d = None"
    using dag_wfD(6) [OF wf map_of_SomeD [OF Some]] by blast+
  let ?slot = "(v_round v, v_source v)"
  define g1 where "g1 = g\<lparr>g_pending := al_del d (g_pending g)\<rparr>"
  have wf1: "dag_wf vdigest g1"
    by (rule dag_wf_same [OF wf]) (auto simp: g1_def same_dag_def set_al_del dag_wfD [OF wf])
  have closed1: "dag_closed g1" using closed same_dag_closed [of g g1] by (simp add: g1_def)
  have d1: "drains_to g g1" by (simp add: drains_to_def g1_def dag_contains_def)
  show ?thesis
  proof (cases "map_of (g_rounds g) ?slot = None")
    case False
    then have "g' = g1" using run Some by (auto simp: insert_ready_def g1_def Let_def)
    then show ?thesis using wf1 closed1 d1 by simp
  next
    case True
    have g': "g' = g1\<lparr>g_by_digest := al_put d ?slot (g_by_digest g), g_rounds := al_put ?slot (d, v) (g_rounds g)\<rparr>"
      using run Some True by (auto simp: insert_ready_def g1_def Let_def)
    have contains: "dag_contains g' e \<longleftrightarrow> e = d \<or> dag_contains g e" for e
      by (simp add: g' g1_def dag_contains_def)
    have drains: "drains_to g g'"
      unfolding drains_to_def using contains True by (auto simp: g' g1_def)
    have "dag_closed g'"
      unfolding dag_closed_def
    proof (intro allI impI)
      fix slot e w assume "map_of (g_rounds g') slot = Some (e, w)"
      then have "w = v \<or> map_of (g_rounds g) slot = Some (e, w)" by (auto simp: g' split: if_splits)
      then show "missing_refs g' w = []"
        using ready [OF Some] closed missing_refs_mono [OF drains] unfolding dag_closed_def by blast
    qed
    moreover have "dag_wf vdigest g'"
      unfolding dag_wf_def
    proof (intro conjI allI impI)
      show "distinct (map fst (g_rounds g'))" "distinct (map fst (g_by_digest g'))" "distinct (map fst (g_pending g'))"
        using dag_wfD(1-3) [OF wf] by (simp_all add: g' g1_def)
      fix slot e w assume at: "map_of (g_rounds g') slot = Some (e, w)"
      show "slot = (v_round w, v_source w)" "vdigest w = e" "g_floor g' \<le> fst slot" "map_of (g_by_digest g') e = Some slot"
      proof -
        have "slot = ?slot \<and> e = d \<and> w = v \<or> slot \<noteq> ?slot \<and> map_of (g_rounds g) slot = Some (e, w)"
          using at by (auto simp: g' split: if_splits)
        then show "slot = (v_round w, v_source w)" "vdigest w = e" "g_floor g' \<le> fst slot" "map_of (g_by_digest g') e = Some slot"
          using pend dag_wfD(4) [OF wf, of slot e w] by (auto simp: g' g1_def)
      qed
    next
      fix e slot assume at: "map_of (g_by_digest g') e = Some slot"
      show "\<exists>w. map_of (g_rounds g') slot = Some (e, w)"
      proof (cases "e = d")
        case False
        then obtain w where "map_of (g_rounds g) slot = Some (e, w)"
          using at dag_wfD(5) [OF wf, of e slot] by (auto simp: g')
        then show ?thesis using True by (auto simp: g')
      qed (use at in \<open>auto simp: g'\<close>)
    next
      fix e w assume "(e, w) \<in> set (g_pending g')"
      then have "e \<noteq> d" "(e, w) \<in> set (g_pending g)" by (auto simp: g' g1_def set_al_del)
      then show "vdigest w = e" "g_floor g' \<le> v_round w" "map_of (g_by_digest g') e = None"
        using dag_wfD(6) [OF wf, of e w] by (auto simp: g' g1_def)
    next
      fix e w assume "(e, w) \<in> set (g_held g')"
      then show "vdigest w = e" "g_floor g' \<le> v_round w" using dag_wfD(7) [OF wf, of e w] by (auto simp: g' g1_def)
    qed
    ultimately show ?thesis using drains by blast
  qed
qed

lemma insert_ready_fold_ok:
  assumes "dag_wf vdigest g" "dag_closed g"
    and "\<And>r s d v. (r, s, d) \<in> set xs \<Longrightarrow> map_of (g_pending g) d = Some v \<Longrightarrow> missing_refs g v = []"
    and "foldl insert_ready (g, ins) xs = (g', ins')"
  shows "dag_wf vdigest g' \<and> dag_closed g' \<and> drains_to g g'"
  using assms
proof (induction xs arbitrary: g ins)
  case Nil
  then show ?case by (simp add: drains_to_def)
next
  case (Cons x xs)
  obtain r s d where x: "x = (r, s, d)" by (metis prod_cases3)
  obtain g1 ins1 where run: "insert_ready (g, ins) (r, s, d) = (g1, ins1)" by fastforce
  have ok: "dag_wf vdigest g1 \<and> dag_closed g1 \<and> drains_to g g1"
    using Cons.prems(3) [of r s d] x by (intro insert_ready_ok [OF Cons.prems(1,2) _ run]) auto
  have "missing_refs g1 v = []" if "(r, s, d) \<in> set xs" "map_of (g_pending g1) d = Some v" for r s d v
    using ok that Cons.prems(3) [of r s d v] missing_refs_mono unfolding drains_to_def by (metis list.set_intros(2))
  then show ?case using Cons.IH [of g1 ins1] ok Cons.prems(4) run x drains_to_trans by auto
qed

lemma drain_loop_ok:
  "dag_wf vdigest g \<Longrightarrow> dag_closed g \<Longrightarrow>
    dag_wf vdigest (fst (drain_loop g ins)) \<and> dag_closed (fst (drain_loop g ins)) \<and> drains_to g (fst (drain_loop g ins))"
proof (induction g ins rule: drain_loop.induct)
  case (1 g ins)
  show ?case
  proof (cases "ready_list g = []")
    case True
    then show ?thesis using 1(2,3) by (subst (1 2 3) drain_loop.simps) (simp add: drains_to_def)
  next
    case False
    obtain g' ins' where run: "foldl insert_ready (g, ins) (ready_list g) = (g', ins')" by fastforce
    have "missing_refs g v = []" if "(r, s, d) \<in> set (ready_list g)" "map_of (g_pending g) d = Some v" for r s d v
      using ready_list_in [OF that(1)] that(2) dag_wfD(3) [OF 1(2)] by (auto simp del: map_of_eq_Some_iff dest: map_of_is_SomeI)
    then have ok: "dag_wf vdigest g' \<and> dag_closed g' \<and> drains_to g g'"
      by (intro insert_ready_fold_ok [OF 1(2,3) _ run]) blast
    have "drain_loop g ins = drain_loop g' ins'" by (subst drain_loop.simps) (simp add: False run)
    then show ?thesis
      using 1(1) [OF refl False run [symmetric]] ok drains_to_trans [of g g'] by simp
  qed
qed

lemma drain_pending_ok:
  assumes "dag_wf vdigest g" "dag_closed g" "drain_pending g = (out, g')"
  shows "dag_wf vdigest g' \<and> dag_closed g' \<and> drains_to g g'"
proof -
  have "g' = fst (drain_loop g [])" using assms(3) by (auto simp: drain_pending_def Let_def split: prod.splits)
  then show ?thesis using drain_loop_ok [OF assms(1,2)] by simp
qed

lemma offer_ok:
  assumes wf: "dag_wf vdigest g" and closed: "dag_closed g" and run: "offer vdigest v g = (out, g')"
  shows "dag_wf vdigest g' \<and> dag_closed g' \<and> (\<forall>slot x. map_of (g_rounds g) slot = Some x \<longrightarrow> map_of (g_rounds g') slot = Some x)"
proof (cases "dag_contains g (vdigest v) \<or> v_round v < g_floor g \<or> map_of (g_expected g) (vdigest v) = None")
  case True
  then have "g' = g" using run unfolding offer_def Let_def by (simp split: if_splits)
  then show ?thesis using wf closed by simp
next
  case False
  define d where "d = vdigest v"
  define g1 where "g1 = g\<lparr>g_expected := al_del d (g_expected g), g_held := al_del d (g_held g)\<rparr>"
  obtain work g2 where acc: "accept d v g1 = (work, g2)" by fastforce
  have drain: "drain_pending (reach work g2) = (out, g')"
    using run False acc by (auto simp: offer_def Let_def g1_def d_def)
  have "g1 = (g\<lparr>g_expected := al_del d (g_expected g)\<rparr>)\<lparr>g_held := al_del d (g_held (g\<lparr>g_expected := al_del d (g_expected g)\<rparr>))\<rparr>"
    by (simp add: g1_def)
  then have wf1: "dag_wf vdigest g1" using dag_wf_waiting(1,3) [OF wf] dag_wf_waiting(3) by metis
  have same1: "same_dag g g1" by (simp add: g1_def same_dag_def)
  have wf2: "dag_wf vdigest g2"
    by (rule accept_wf [OF wf1 _ _ _ acc]) (use False in \<open>simp_all add: g1_def d_def dag_contains_def\<close>)
  have same2: "same_dag g g2" using same_dag_trans [OF same1 accept_fields(1) [OF acc]] .
  have r: "dag_wf vdigest (reach work g2)" "same_dag g (reach work g2)"
    using reach_wf [OF wf2] same_dag_trans [OF same2] by blast+
  then have "dag_closed (reach work g2)" using closed same_dag_closed by blast
  then show ?thesis
    using drain_pending_ok [OF r(1) _ drain] r(2) by (auto simp: drains_to_def same_dag_def)
qed

lemma hold_ok:
  assumes wf: "dag_wf vdigest g" and closed: "dag_closed g" and run: "hold vdigest v g = (out, g')"
  shows "dag_wf vdigest g' \<and> dag_closed g' \<and> (\<forall>slot x. map_of (g_rounds g) slot = Some x \<longrightarrow> map_of (g_rounds g') slot = Some x)"
proof -
  consider (ignored) "g' = g" | (offered) "offer vdigest v g = (out, g')"
    | (held) work where "g_floor g \<le> v_round v"
        "drain_pending (reach work (g\<lparr>g_held := al_put (vdigest v) v (g_held g)\<rparr>)) = (out, g')"
    using run by (auto simp: hold_def Let_def not_less split: if_splits)
  then show ?thesis
  proof cases
    case offered
    then show ?thesis using offer_ok [OF wf closed] by blast
  next
    case held
    let ?g = "g\<lparr>g_held := al_put (vdigest v) v (g_held g)\<rparr>"
    have wf1: "dag_wf vdigest ?g" using dag_wf_waiting(4) [OF wf refl held(1)] .
    have r: "dag_wf vdigest (reach work ?g)" "same_dag g (reach work ?g)"
      using reach_wf [OF wf1] same_dag_trans [of g ?g] by simp_all
    then have "dag_closed (reach work ?g)" using closed same_dag_closed by blast
    then show ?thesis using drain_pending_ok [OF r(1) _ held(2)] r(2) by (auto simp: drains_to_def same_dag_def)
  qed (use wf closed in simp)
qed

text \<open>
  References name what they claim: the vertex a reference's digest resolves to is of the round and
  author the reference names. The operations do not check it; \<open>dag_closed\<close> survives pruning only
  when it holds.
\<close>

definition dag_genuine :: "dag \<Rightarrow> bool" where
  "dag_genuine g \<longleftrightarrow> (\<forall>d v s w. dag_get g d = Some v \<longrightarrow> s \<in> set (v_strong v @ v_weak v) \<longrightarrow>
     dag_get g (r_digest s) = Some w \<longrightarrow> v_round w = r_round s \<and> v_source w = r_source s)"

lemma map_of_filter_Some:
  "distinct (map fst xs) \<Longrightarrow> map_of (filter P xs) k = Some v \<longleftrightarrow> map_of xs k = Some v \<and> P (k, v)"
  by (simp add: distinct_map_filter)

lemma prune_ok:
  assumes wf: "dag_wf vdigest g" and r: "g_floor g < r"
  defines "g' \<equiv> snd (dag_prune_below r g)"
  shows "dag_get g' d = Some v \<longleftrightarrow> dag_get g d = Some v \<and> r \<le> v_round v" "dag_wf vdigest g'"
proof -
  let ?pruned = "map snd (filter (\<lambda>p. fst (fst p) < r) (g_rounds g))"
  note dist = dag_wfD(1-3) [OF wf]
  have rounds: "map_of (g_rounds g') slot = Some x \<longleftrightarrow> map_of (g_rounds g) slot = Some x \<and> r \<le> fst slot" for slot x
    using r dist(1) map_of_filter_Some [of "g_rounds g" "\<lambda>p. r \<le> fst (fst p)" slot x]
    by (simp add: g'_def dag_prune_below_def Let_def)
  have gone: "d \<in> fst ` set ?pruned \<longleftrightarrow> (\<exists>slot v. map_of (g_rounds g) slot = Some (d, v) \<and> fst slot < r)" for d
    using map_of_eq_Some_iff [OF dist(1)] by (force simp: image_iff)
  have gone': "d \<in> fst ` set ?pruned \<longleftrightarrow> fst slot < r" if "map_of (g_by_digest g) d = Some slot" for d slot
  proof -
    obtain v where v: "map_of (g_rounds g) slot = Some (d, v)" using dag_wfD(5) [OF wf \<open>map_of (g_by_digest g) d = Some slot\<close>] by blast
    have "slot' = slot" if "map_of (g_rounds g) slot' = Some (d, v')" for slot' v'
      using dag_wfD(4) [OF wf that] dag_wfD(4) [OF wf v] by (metis option.inject)
    then show ?thesis unfolding gone using v by blast
  qed
  have by_digest: "map_of (g_by_digest g') d = Some slot \<longleftrightarrow> map_of (g_by_digest g) d = Some slot \<and> r \<le> fst slot" for d slot
  proof -
    have "g_by_digest g' = filter (\<lambda>p. fst p \<notin> fst ` set ?pruned) (g_by_digest g)"
      using r by (simp add: g'_def dag_prune_below_def Let_def)
    then have "map_of (g_by_digest g') d = Some slot \<longleftrightarrow>
        map_of (g_by_digest g) d = Some slot \<and> d \<notin> fst ` set ?pruned"
      using map_of_filter_Some [OF dist(2), of "\<lambda>p. fst p \<notin> fst ` set ?pruned" d slot] by (simp only: fst_conv)
    then show ?thesis using gone' [of d slot] not_less by blast
  qed
  have waiting: "(e, w) \<in> set (g_pending g') \<Longrightarrow> (e, w) \<in> set (g_pending g) \<and> r \<le> v_round w"
    "(e, w) \<in> set (g_held g') \<Longrightarrow> (e, w) \<in> set (g_held g) \<and> r \<le> v_round w" for e w
    using r by (auto simp: g'_def dag_prune_below_def Let_def)
  have floor: "g_floor g' = r" using r by (simp add: g'_def dag_prune_below_def Let_def)
  show wf': "dag_wf vdigest g'"
    unfolding dag_wf_def
  proof (intro conjI allI impI)
    show "distinct (map fst (g_rounds g'))" "distinct (map fst (g_by_digest g'))" "distinct (map fst (g_pending g'))"
      using dist r by (simp_all add: g'_def dag_prune_below_def Let_def distinct_map_filter)
    fix slot e w assume at: "map_of (g_rounds g') slot = Some (e, w)"
    then have "map_of (g_rounds g) slot = Some (e, w)" "r \<le> fst slot" using rounds by blast+
    then show "slot = (v_round w, v_source w)" "vdigest w = e" "g_floor g' \<le> fst slot" "map_of (g_by_digest g') e = Some slot"
      using dag_wfD(4) [OF wf] by_digest floor by blast+
  next
    fix e slot assume "map_of (g_by_digest g') e = Some slot"
    then show "\<exists>w. map_of (g_rounds g') slot = Some (e, w)" using by_digest rounds dag_wfD(5) [OF wf] by blast
  next
    fix e w assume p: "(e, w) \<in> set (g_pending g')"
    show "vdigest w = e" "g_floor g' \<le> v_round w" using waiting(1) [OF p] dag_wfD(6) [OF wf] floor by blast+
    have "map_of (g_by_digest g) e = None" using waiting(1) [OF p] dag_wfD(6) [OF wf] by blast
    then show "map_of (g_by_digest g') e = None" using by_digest [of e] by (metis option.exhaust option.distinct(1))
  next
    fix e w assume h: "(e, w) \<in> set (g_held g')"
    show "vdigest w = e" "g_floor g' \<le> v_round w" using waiting(2) [OF h] dag_wfD(7) [OF wf] floor by blast+
  qed
  show "dag_get g' d = Some v \<longleftrightarrow> dag_get g d = Some v \<and> r \<le> v_round v"
    unfolding dag_get_iff(1) [OF wf'] dag_get_iff(1) [OF wf] rounds by simp
qed

lemma closed_get:
  assumes "dag_wf vdigest g"
  shows "dag_closed g \<longleftrightarrow> (\<forall>d v s. dag_get g d = Some v \<longrightarrow> s \<in> set (v_strong v @ v_weak v) \<longrightarrow>
    g_floor g \<le> r_round s \<longrightarrow> (\<exists>w. dag_get g (r_digest s) = Some w))"
proof -
  have "dag_closed g \<longleftrightarrow> (\<forall>d v. dag_get g d = Some v \<longrightarrow> missing_refs g v = [])"
    unfolding dag_closed_def dag_get_iff(1) [OF assms] using dag_wfD(4) [OF assms] by metis
  then show ?thesis
    unfolding missing_refs_def filter_empty_conv dag_get_iff(2) [OF assms] by (simp add: Ball_def)
qed

lemma prune_closed:
  assumes wf: "dag_wf vdigest g" and closed: "dag_closed g" and genuine: "dag_genuine g"
  shows "dag_wf vdigest (snd (dag_prune_below r g)) \<and> dag_closed (snd (dag_prune_below r g))
    \<and> dag_genuine (snd (dag_prune_below r g))"
proof (cases "g_floor g < r")
  case False
  then show ?thesis using assms by (simp add: dag_prune_below_def)
next
  case True
  note p = prune_ok [OF wf True]
  have floor: "g_floor (snd (dag_prune_below r g)) = r" using True by (simp add: dag_prune_below_def Let_def)
  have "dag_closed (snd (dag_prune_below r g))"
    unfolding closed_get [OF p(2)] floor
  proof (intro allI impI)
    fix d v s
    assume v: "dag_get (snd (dag_prune_below r g)) d = Some v" and s: "s \<in> set (v_strong v @ v_weak v)" "r \<le> r_round s"
    then have v': "dag_get g d = Some v" using p(1) by blast
    then obtain w where w: "dag_get g (r_digest s) = Some w" using closed s True unfolding closed_get [OF wf] by force
    then have "v_round w = r_round s" using genuine v' s(1) unfolding dag_genuine_def by blast
    then show "\<exists>w. dag_get (snd (dag_prune_below r g)) (r_digest s) = Some w" using p(1) w s(2) by metis
  qed
  moreover have "dag_genuine (snd (dag_prune_below r g))"
    using genuine p(1) unfolding dag_genuine_def by blast
  ultimately show ?thesis using p(2) by blast
qed

section \<open>Reachability\<close>

definition strong_edge :: "dag \<Rightarrow> (digest \<times> digest) set" where
  "strong_edge g = {(d, e). \<exists>s \<in> strong_refs g d. r_digest s = e}"

text \<open>The check of every vertex's structure puts its strong references in the round before.\<close>

definition dag_layered :: "dag \<Rightarrow> bool" where
  "dag_layered g \<longleftrightarrow> (\<forall>d v s. dag_get g d = Some v \<longrightarrow> s \<in> set (v_strong v) \<longrightarrow> v_round v = Suc (r_round s))"

lemma strong_refs_iff: "s \<in> strong_refs g d \<longleftrightarrow> (\<exists>v. dag_get g d = Some v \<and> s \<in> set (v_strong v))"
  by (auto simp: strong_refs_def split: option.splits)

lemma strong_edge_round:
  assumes "dag_genuine g" "dag_layered g" "s \<in> strong_refs g d" "dag_get g d = Some v" "dag_get g (r_digest s) = Some w"
  shows "v_round v = Suc (v_round w)" "v_round w = r_round s"
  using assms unfolding dag_genuine_def dag_layered_def strong_refs_iff by fastforce+

lemma strong_edges_descend:
  assumes "dag_genuine g" "dag_layered g"
  shows "(d, e) \<in> (strong_edge g)\<^sup>+ \<Longrightarrow> dag_get g d = Some v \<Longrightarrow> dag_get g e = Some w \<Longrightarrow> v_round w < v_round v"
proof (induction arbitrary: w rule: trancl_induct)
  case (base e)
  then show ?case using strong_edge_round(1) [OF assms] by (fastforce simp: strong_edge_def)
next
  case (step e f)
  then obtain s where s: "s \<in> strong_refs g e" "r_digest s = f" by (auto simp: strong_edge_def)
  then obtain u where u: "dag_get g e = Some u" by (auto simp: strong_refs_iff)
  then have "v_round u = Suc (v_round w)" using strong_edge_round(1) [OF assms s(1) u] s(2) step.prems(2) by simp
  then show ?case using step.IH [OF step.prems(1) u] by simp
qed

lemma path_loop_iff:
  assumes "dag_genuine g" "dag_layered g" "dag_get g (r_digest to) = Some w" "v_round w = r_round to"
  shows "(\<And>d v. d \<in> F \<Longrightarrow> dag_get g d = Some v \<Longrightarrow> v_round v = r) \<Longrightarrow>
    path_loop g to r F \<longleftrightarrow> r_round to < r \<and> (\<exists>d \<in> F. (d, r_digest to) \<in> (strong_edge g)\<^sup>+)"
proof (induction r arbitrary: F)
  case 0
  then show ?case by (simp add: path_loop.simps)
next
  case (Suc r)
  let ?F' = "\<Union>d \<in> F. r_digest ` {s \<in> strong_refs g d. r_round s \<noteq> r_round to}"
  let ?hit = "\<exists>d \<in> F. \<exists>s \<in> strong_refs g d. r_round s = r_round to \<and> r_digest s = r_digest to"
  have below: "r_round s = r" if "d \<in> F" "s \<in> strong_refs g d" for d s
    using that Suc.prems assms(2) unfolding strong_refs_iff dag_layered_def by fastforce
  have round': "v_round v = r" if "e \<in> ?F'" "dag_get g e = Some v" for e v
    using that below strong_edge_round(2) [OF assms(1,2)] unfolding strong_refs_iff by fastforce
  have loop: "path_loop g to (Suc r) F \<longleftrightarrow> r_round to \<le> r \<and> F \<noteq> {} \<and> (?hit \<or> path_loop g to r ?F')"
    by (subst path_loop.simps) auto
  have IH: "path_loop g to r ?F' \<longleftrightarrow> r_round to < r \<and> (\<exists>e \<in> ?F'. (e, r_digest to) \<in> (strong_edge g)\<^sup>+)"
    using Suc.IH [of ?F'] round' by blast
  show ?case
  proof
    assume "path_loop g to (Suc r) F"
    then consider "r_round to \<le> r" ?hit | "r_round to \<le> r" "\<exists>e \<in> ?F'. (e, r_digest to) \<in> (strong_edge g)\<^sup>+"
      using loop IH by blast
    then show "r_round to < Suc r \<and> (\<exists>d \<in> F. (d, r_digest to) \<in> (strong_edge g)\<^sup>+)"
    proof cases
      case 1
      then show ?thesis by (fastforce simp: strong_edge_def)
    next
      case 2
      then obtain d s where "d \<in> F" "s \<in> strong_refs g d" "(r_digest s, r_digest to) \<in> (strong_edge g)\<^sup>+" by blast
      moreover from this have "(d, r_digest s) \<in> strong_edge g" by (auto simp: strong_edge_def)
      ultimately show ?thesis using 2(1) by (meson le_imp_less_Suc trancl_into_trancl2)
    qed
  next
    assume "r_round to < Suc r \<and> (\<exists>d \<in> F. (d, r_digest to) \<in> (strong_edge g)\<^sup>+)"
    then obtain d where le: "r_round to \<le> r" and d: "d \<in> F" "(d, r_digest to) \<in> (strong_edge g)\<^sup>+" by auto
    obtain e where e: "(d, e) \<in> strong_edge g" "(e, r_digest to) \<in> (strong_edge g)\<^sup>*"
      using d(2) by (meson tranclD)
    then obtain s where s: "s \<in> strong_refs g d" "r_digest s = e" by (auto simp: strong_edge_def)
    have sr: "r_round s = r" using below d(1) s(1) .
    have "?hit \<or> path_loop g to r ?F'"
    proof (cases "e = r_digest to")
      case True
      then have "r_round s = r_round to"
        using strong_edge_round(2) [OF assms(1,2) s(1)] s assms(3,4) unfolding strong_refs_iff by fastforce
      then show ?thesis using d(1) s True by blast
    next
      case False
      then have path: "(e, r_digest to) \<in> (strong_edge g)\<^sup>+" using e(2) by (meson rtranclD)
      obtain u where u: "dag_get g e = Some u" using path by (auto simp: strong_edge_def strong_refs_iff dest!: tranclD)
      have "v_round w < v_round u" using strong_edges_descend [OF assms(1,2) path u assms(3)] .
      moreover have "v_round u = r" using strong_edge_round(2) [OF assms(1,2) s(1)] s u sr unfolding strong_refs_iff by fastforce
      ultimately have lt: "r_round to < r" using assms(4) by simp
      then have "e \<in> r_digest ` {s \<in> strong_refs g d. r_round s \<noteq> r_round to}" using s sr by auto
      then have "e \<in> ?F'" using d(1) by blast
      then show ?thesis using IH lt path by blast
    qed
    then show "path_loop g to (Suc r) F" using loop le d(1) by blast
  qed
qed

lemma strong_path_reaches:
  assumes "dag_genuine g" "dag_layered g" "dag_get g (r_digest to) = Some w" "v_round w = r_round to"
  shows "strong_path g start to \<longleftrightarrow>
    (\<exists>v. dag_get g start = Some v) \<and> (start, r_digest to) \<in> (strong_edge g)\<^sup>*"
proof (cases "dag_get g start")
  case None
  then show ?thesis by (simp add: strong_path_def)
next
  case (Some v)
  have loop: "path_loop g to (v_round v) {start} \<longleftrightarrow> r_round to < v_round v \<and> (start, r_digest to) \<in> (strong_edge g)\<^sup>+"
    using path_loop_iff [OF assms, of "{start}" "v_round v"] Some by simp
  have "(start, r_digest to) \<in> (strong_edge g)\<^sup>+ \<Longrightarrow> r_round to < v_round v"
    using strong_edges_descend [OF assms(1,2) _ Some assms(3)] assms(4) by simp
  moreover have "start = r_digest to \<Longrightarrow> v_round v = r_round to" using Some assms(3,4) by simp
  ultimately show ?thesis
    using Some loop by (auto simp: strong_path_def rtrancl_eq_or_trancl)
qed


subsection \<open>Causal history\<close>

text \<open>One reference of a vertex that is in the DAG and not skipped.\<close>

definition hist_edge :: "dag \<Rightarrow> (digest \<Rightarrow> bool) \<Rightarrow> (digest \<times> digest) set" where
  "hist_edge g skip = {(d, e). \<not> skip d \<and> (\<exists>v. dag_get g d = Some v \<and> e \<in> set (all_refs g v))}"

definition history_set :: "dag \<Rightarrow> digest \<Rightarrow> (digest \<Rightarrow> bool) \<Rightarrow> digest set" where
  "history_set g root skip =
     {d. (root, d) \<in> (hist_edge g skip)\<^sup>* \<and> \<not> skip d \<and> dag_get g d \<noteq> None}"

definition dag_ref :: "dag \<Rightarrow> digest \<Rightarrow> vertex_ref" where
  "dag_ref g d = (let v = the (dag_get g d) in \<lparr>r_round = v_round v, r_source = v_source v, r_digest = d\<rparr>)"

lemma hist_loop_set:
  assumes "\<forall>d \<in> seen \<union> set queue. (root, d) \<in> (hist_edge g skip)\<^sup>*"
    and "root \<in> seen \<union> set queue \<union> {d. skip d}" "\<forall>d \<in> seen. \<not> skip d"
    and "\<forall>d \<in> seen. \<forall>e. (d, e) \<in> hist_edge g skip \<longrightarrow> e \<in> seen \<union> set queue \<union> {d. skip d}"
    and "out = map (dag_ref g) ds" "distinct ds" "set ds = {d \<in> seen. dag_get g d \<noteq> None}"
  shows "\<exists>ds. hist_loop g skip queue seen out = map (dag_ref g) ds \<and> distinct ds \<and> set ds = history_set g root skip"
  using assms
proof (induction g skip queue seen out arbitrary: ds rule: hist_loop.induct)
  case (1 g skip seen out)
  have "d \<in> seen \<or> skip d" if "(root, d) \<in> (hist_edge g skip)\<^sup>*" for d
    using that
  proof induction
    case (step d e)
    then have "d \<in> seen" by (auto simp: hist_edge_def)
    then show ?case using step.hyps(2) 1(4) by auto
  qed (use 1(2) in auto)
  then have "set ds = history_set g root skip"
    using 1(1,3,7) by (auto simp: history_set_def)
  then show ?case using 1(5,6) by auto
next
  case (2 g skip d queue seen out)
  show ?case
  proof (cases "skip d \<or> d \<in> seen")
    case True
    then show ?thesis using 2(1) [OF True, of ds] 2(4-) by auto
  next
    case False
    show ?thesis
    proof (cases "dag_get g d")
      case None
      then have "(d, e) \<notin> hist_edge g skip" for e by (simp add: hist_edge_def)
      moreover have "{x \<in> insert d seen. dag_get g x \<noteq> None} = {x \<in> seen. dag_get g x \<noteq> None}" using None by auto
      ultimately show ?thesis using 2(2) [OF False None, of ds] 2(4-) False None by auto
    next
      case (Some v)
      let ?q = "queue @ all_refs g v"
      have edge: "(d, e) \<in> hist_edge g skip \<longleftrightarrow> e \<in> set (all_refs g v)" for e
        using Some False by (simp add: hist_edge_def)
      have reach: "(root, d) \<in> (hist_edge g skip)\<^sup>*" using 2(4) by simp
      have step: "(root, e) \<in> (hist_edge g skip)\<^sup>*" if "e \<in> set (all_refs g v)" for e
        using rtrancl_into_rtrancl [OF reach] edge that by blast
      have out: "out @ [\<lparr>r_round = v_round v, r_source = v_source v, r_digest = d\<rparr>] = map (dag_ref g) (ds @ [d])"
        using 2(8) Some by (simp add: dag_ref_def)
      have "\<exists>ds. hist_loop g skip ?q (insert d seen) (out @ [\<lparr>r_round = v_round v, r_source = v_source v, r_digest = d\<rparr>])
          = map (dag_ref g) ds \<and> distinct ds \<and> set ds = history_set g root skip"
      proof (rule 2(3) [OF False Some])
        show "\<forall>e \<in> insert d seen \<union> set ?q. (root, e) \<in> (hist_edge g skip)\<^sup>*" using 2(4) reach step by auto
        show "\<forall>x \<in> insert d seen. \<forall>e. (x, e) \<in> hist_edge g skip \<longrightarrow> e \<in> insert d seen \<union> set ?q \<union> {d. skip d}"
          using 2(7) edge by auto
        show "distinct (ds @ [d])" using 2(9,10) False by auto
        show "set (ds @ [d]) = {x \<in> insert d seen. dag_get g x \<noteq> None}" using 2(10) Some by auto
      qed (use 2(5,6) False out in auto)
      then show ?thesis using False Some by simp
    qed
  qed
qed

lemma causal_history_set:
  "set (causal_history g root skip) = dag_ref g ` history_set g root skip
   \<and> distinct (causal_history g root skip)
   \<and> sorted (map (\<lambda>r. (r_round r, r_source r, r_digest r)) (causal_history g root skip))"
proof -
  obtain ds where ds: "hist_loop g skip [root] {} [] = map (dag_ref g) ds" "distinct ds" "set ds = history_set g root skip"
    using hist_loop_set [of "{}" "[root]" root g skip "[]" "[]"] by auto
  have "inj_on (dag_ref g) A" for A by (auto simp: inj_on_def dag_ref_def Let_def)
  then have "distinct (map (dag_ref g) ds)" using ds(2) by (simp add: distinct_map)
  then show ?thesis unfolding causal_history_def ds(1) using ds(3) by simp
qed

text \<open>
  Property C20. The causal history of a vertex is exactly the set of vertices of the DAG reachable
  from it through references at or above the floor without passing a skipped vertex, each once, in
  the order of round, author and digest: every validator with the same vertices orders the same
  history.
\<close>

theorem causal_history_spec:
  "set (causal_history g root skip) = dag_ref g ` history_set g root skip
   \<and> distinct (causal_history g root skip)
   \<and> sorted (map (\<lambda>r. (r_round r, r_source r, r_digest r)) (causal_history g root skip))"
  by (rule causal_history_set)

section \<open>Runs of the DAG\<close>

datatype dag_op = Expect digest round | Offer vertex | Hold vertex

definition run_op :: "(vertex \<Rightarrow> digest) \<Rightarrow> dag \<Rightarrow> dag_op \<Rightarrow> dag" where
  "run_op vdigest g op = (case op of
       Expect d r \<Rightarrow> expect d r g
     | Offer v \<Rightarrow> snd (offer vdigest v g)
     | Hold v \<Rightarrow> snd (hold vdigest v g))"

lemma run_op_ok:
  assumes "dag_wf vdigest g" "dag_closed g"
  shows "dag_wf vdigest (run_op vdigest g op) \<and> dag_closed (run_op vdigest g op)
    \<and> (\<forall>slot x. map_of (g_rounds g) slot = Some x \<longrightarrow> map_of (g_rounds (run_op vdigest g op)) slot = Some x)"
proof (cases op)
  case (Expect d r)
  have "dag_closed (g\<lparr>g_expected := x\<rparr>)" for x using assms(2) same_dag_closed [of g "g\<lparr>g_expected := x\<rparr>"] by simp
  then show ?thesis using assms dag_wf_waiting(1) [OF assms(1)] Expect by (simp add: run_op_def expect_def)
next
  case (Offer v)
  then show ?thesis using offer_ok [OF assms, of v] by (simp add: run_op_def) (metis prod.collapse)
next
  case (Hold v)
  then show ?thesis using hold_ok [OF assms, of v] by (simp add: run_op_def) (metis prod.collapse)
qed

lemma run_ops_ok:
  assumes "dag_wf vdigest g" "dag_closed g"
  shows "dag_wf vdigest (foldl (run_op vdigest) g ops) \<and> dag_closed (foldl (run_op vdigest) g ops)
    \<and> (\<forall>slot x. map_of (g_rounds g) slot = Some x \<longrightarrow>
         map_of (g_rounds (foldl (run_op vdigest) g ops)) slot = Some x)"
  using assms
proof (induction ops arbitrary: g)
  case (Cons op ops)
  then show ?case using run_op_ok [of vdigest g op] Cons.IH [of "run_op vdigest g op"] by auto
qed simp

text \<open>
  Property C21. Whatever vertices are expected, offered and held, in whatever order, the DAG stays
  causally closed, holds at most one vertex per round and author, under its own digest, and never
  replaces a vertex it holds.
\<close>

theorem dag_run_closed:
  assumes "dag_wf vdigest g" "dag_closed g"
  shows "dag_wf vdigest (foldl (run_op vdigest) g ops) \<and> dag_closed (foldl (run_op vdigest) g ops)
    \<and> (\<forall>slot x. map_of (g_rounds g) slot = Some x \<longrightarrow>
         map_of (g_rounds (foldl (run_op vdigest) g ops)) slot = Some x)"
  using run_ops_ok [OF assms] .

text \<open>
  Pruning keeps exactly the vertices at or above the new floor and keeps the DAG
  causally closed, provided that references name what they claim.
\<close>

theorem prune_keeps_closed:
  assumes "dag_wf vdigest g" "dag_closed g" "dag_genuine g"
  shows "dag_wf vdigest (snd (dag_prune_below r g)) \<and> dag_closed (snd (dag_prune_below r g))
    \<and> (g_floor g < r \<longrightarrow> (\<forall>d v. dag_get (snd (dag_prune_below r g)) d = Some v \<longleftrightarrow> dag_get g d = Some v \<and> r \<le> v_round v))"
  using prune_closed [OF assms] prune_ok(1) [OF assms(1)] by blast

section \<open>A small DAG\<close>

lemma dag_new_ok: "dag_wf vdigest dag_new" "dag_closed dag_new"
  by (simp_all add: dag_wf_def dag_closed_def dag_new_def)

definition genuine_list :: "dag \<Rightarrow> bool" where
  "genuine_list g = list_all (\<lambda>(slot, (d, v)). list_all (\<lambda>s. case dag_get g (r_digest s) of
       None \<Rightarrow> True | Some w \<Rightarrow> v_round w = r_round s \<and> v_source w = r_source s) (v_strong v @ v_weak v)) (g_rounds g)"

definition layered_list :: "dag \<Rightarrow> bool" where
  "layered_list g = list_all (\<lambda>(slot, (d, v)). list_all (\<lambda>s. v_round v = Suc (r_round s)) (v_strong v)) (g_rounds g)"

lemma dag_lists:
  assumes "dag_wf vdigest g"
  shows "genuine_list g \<Longrightarrow> dag_genuine g" "layered_list g \<Longrightarrow> dag_layered g"
proof -
  have at: "((v_round v, v_source v), (d, v)) \<in> set (g_rounds g)" if "dag_get g d = Some v" for d v
    using that unfolding dag_get_iff(1) [OF assms] by (rule map_of_SomeD)
  show "genuine_list g \<Longrightarrow> dag_genuine g"
    unfolding genuine_list_def dag_genuine_def list_all_iff using at by fastforce
  show "layered_list g \<Longrightarrow> dag_layered g"
    unfolding layered_list_def dag_layered_def list_all_iff using at by fastforce
qed

text \<open>A DAG that holds the listed vertices and nothing else.\<close>

definition dag_of :: "(vertex \<Rightarrow> digest) \<Rightarrow> vertex list \<Rightarrow> dag" where
  "dag_of vdigest vs = dag_new\<lparr>
     g_rounds := map (\<lambda>v. ((v_round v, v_source v), (vdigest v, v))) vs,
     g_by_digest := map (\<lambda>v. (vdigest v, (v_round v, v_source v))) vs\<rparr>"

lemma map_of_map_fst: "distinct (map f vs) \<Longrightarrow> map_of (map (\<lambda>v. (f v, h v)) vs) k = Some x \<longleftrightarrow> (\<exists>v \<in> set vs. f v = k \<and> h v = x)"
  by (subst map_of_eq_Some_iff) (auto simp: comp_def)

lemma dag_of_fields:
  "map fst (g_rounds (dag_of vdigest vs)) = map (\<lambda>v. (v_round v, v_source v)) vs"
  "map fst (g_by_digest (dag_of vdigest vs)) = map vdigest vs"
  "g_pending (dag_of vdigest vs) = []" "g_held (dag_of vdigest vs) = []" "g_floor (dag_of vdigest vs) = 0"
  by (simp_all add: dag_of_def dag_new_def comp_def)

lemma dag_of_lists:
  "g_rounds (dag_of vdigest vs) = map (\<lambda>v. ((v_round v, v_source v), (vdigest v, v))) vs"
  "g_by_digest (dag_of vdigest vs) = map (\<lambda>v. (vdigest v, (v_round v, v_source v))) vs"
  by (simp_all add: dag_of_def)

lemma dag_of_maps:
  "distinct (map (\<lambda>v. (v_round v, v_source v)) vs) \<Longrightarrow> map_of (g_rounds (dag_of vdigest vs)) k = Some x
    \<longleftrightarrow> (\<exists>v \<in> set vs. (v_round v, v_source v) = k \<and> (vdigest v, v) = x)"
  "distinct (map vdigest vs) \<Longrightarrow> map_of (g_by_digest (dag_of vdigest vs)) d = Some y
    \<longleftrightarrow> (\<exists>v \<in> set vs. vdigest v = d \<and> (v_round v, v_source v) = y)"
  unfolding dag_of_lists by (erule map_of_map_fst)+

lemma dag_of_wf:
  assumes "distinct (map (\<lambda>v. (v_round v, v_source v)) vs)" "distinct (map vdigest vs)"
  shows "dag_wf vdigest (dag_of vdigest vs)"
  unfolding dag_wf_def dag_of_fields dag_of_maps(1) [OF assms(1)] dag_of_maps(2) [OF assms(2)]
  using assms by fastforce

definition small_digest :: "vertex \<Rightarrow> digest" where
  "small_digest v = [of_nat (v_round v), of_nat (v_source v)]"

definition small_ref :: "round \<Rightarrow> validator_index \<Rightarrow> vertex_ref" where
  "small_ref r s = \<lparr>r_round = r, r_source = s, r_digest = [of_nat r, of_nat s]\<rparr>"

definition small_vertex :: "round \<Rightarrow> validator_index \<Rightarrow> validator_index list \<Rightarrow> vertex" where
  "small_vertex r s parents = \<lparr>v_epoch = 0, v_round = r, v_source = s,
     v_strong = (if r = 0 then [] else map (small_ref (r - 1)) parents), v_weak = [], v_batches = [],
     v_carried = [], v_timestamp_ms = 7\<rparr>"

text \<open>Expecting and offering a vertex, as a delivery does.\<close>

definition deliver_ops :: "vertex list \<Rightarrow> dag_op list" where
  "deliver_ops vs = concat (map (\<lambda>v. [Expect (small_digest v) (v_round v), Offer v]) vs)"

definition small_dag :: dag where
  "small_dag = dag_of small_digest
     [small_vertex 0 0 [], small_vertex 0 1 [], small_vertex 0 2 [], small_vertex 1 3 [0, 1, 2]]"

lemmas small_defs = small_dag_def dag_of_def dag_new_def small_vertex_def small_digest_def small_ref_def

lemma small_dag_wf: "dag_wf small_digest small_dag"
  unfolding small_dag_def by (rule dag_of_wf) (simp_all add: small_defs)

lemma small_dag_genuine: "dag_genuine small_dag" "dag_layered small_dag"
proof -
  have "genuine_list small_dag" "layered_list small_dag"
    by (simp_all add: genuine_list_def layered_list_def small_defs dag_get_def)
  then show "dag_genuine small_dag" "dag_layered small_dag" using dag_lists [OF small_dag_wf] by blast+
qed

lemma small_dag_closed: "dag_closed small_dag"
  by (simp add: dag_closed_def small_defs missing_refs_def dag_contains_def split: if_splits)

lemma small_dag_get: "dag_get small_dag [0, 1] = Some (small_vertex 0 1 [])"
  by (simp add: small_defs dag_get_def)


theorem dag_run_closed_witness:
  "dag_closed (foldl (run_op small_digest) dag_new (deliver_ops [small_vertex 0 0 [], small_vertex 1 0 [0, 1, 2]]))"
  using dag_run_closed [OF dag_new_ok] by blast

theorem prune_keeps_closed_witness: "dag_closed (snd (dag_prune_below 1 small_dag))"
  using prune_keeps_closed [OF small_dag_wf small_dag_closed small_dag_genuine(1)] by blast

end
