(* ===== verification/Leader_Schedule.thy ===== *)
theory Leader_Schedule
  imports Committee "HOL-Library.Sublist"
begin

text \<open>
  The leader schedule (\<^verbatim>\<open>crates/tenzro-consensus/src/schedule.rs\<close>): the credit-bounded draw of the
  leaders of a round, the lazily extended, truncated and pruned list of draws with its credit
  snapshots, and the schedule of an epoch with the behaviour weights a checkpoint releases. The
  BLAKE3 draws are a parameter \<open>h\<close> (seed, round and slot to 64 bits), as is the seed hash. Credit
  is an integer: \<open>credit_share\<close> bounds it well inside 64 bits.
\<close>

section \<open>Drawing\<close>

definition BEHAVIOUR_WINDOW :: nat where "BEHAVIOUR_WINDOW = 200"
definition ACTIVE_FACTOR :: nat where "ACTIVE_FACTOR = 1000"
definition FAILED_FACTOR :: nat where "FAILED_FACTOR = 1"
definition FAILURE_THRESHOLD_PERCENT :: nat where "FAILURE_THRESHOLD_PERCENT = 10"
definition SNAPSHOT_EVERY :: nat where "SNAPSHOT_EVERY = 64"

record schedule_entry =
  e_from :: round
  e_seed :: digest
  e_weights :: "nat list"
  e_total :: nat

definition entry_new :: "round \<Rightarrow> digest \<Rightarrow> nat list \<Rightarrow> schedule_entry" where
  "entry_new from seed weights =
     \<lparr>e_from = from, e_seed = seed, e_weights = weights, e_total = sum_list weights\<rparr>"

record drawn =
  d_slots :: nat
  d_base :: round
  d_leaders :: "validator_index list"
  d_credit :: "int list"
  d_snapshots :: "(round \<times> int list) list"

definition drawn_new :: "nat \<Rightarrow> nat \<Rightarrow> drawn" where
  "drawn_new n slots = \<lparr>d_slots = slots, d_base = 0, d_leaders = [], d_credit = replicate n 0,
     d_snapshots = [(0, replicate n 0)]\<rparr>"

definition next_round :: "drawn \<Rightarrow> round" where
  "next_round d = d_base d + length (d_leaders d) div d_slots d"

definition draw_index :: "drawn \<Rightarrow> round \<Rightarrow> nat \<Rightarrow> nat" where
  "draw_index d r slot = (r - d_base d) * d_slots d + slot"

text \<open>\<open>credit.iter_mut().zip(weights)\<close>: as many as both have.\<close>

fun earn :: "int list \<Rightarrow> nat list \<Rightarrow> int list" where
  "earn (c # cs) (w # ws) = (c + int w) # earn cs ws"
| "earn cs [] = cs"
| "earn [] ws = []"

text \<open>The members a slot may go to in proportion to weight: positive credit, not picked yet.\<close>

definition due_members :: "int list \<Rightarrow> nat list \<Rightarrow> nat list \<Rightarrow> (nat \<times> nat) list" where
  "due_members credit weights picked =
     map (\<lambda>(i, c, w). (i, w))
       (filter (\<lambda>(i, c, w). 0 < c \<and> i \<notin> set picked) (enumerate 0 (zip credit weights)))"

fun pick_due :: "nat \<Rightarrow> (nat \<times> nat) list \<Rightarrow> nat" where
  "pick_due draw [] = 0"
| "pick_due draw ((i, w) # rest) = (if draw < w then i else pick_due (draw - w) rest)"

text \<open>\<open>max_by_key\<close> with key (credit, reversed index): the most credit, the smaller index on a tie.\<close>

fun most_credit :: "int list \<Rightarrow> nat list \<Rightarrow> nat option" where
  "most_credit credit [] = None"
| "most_credit credit (i # is) = (case most_credit credit is of
       None \<Rightarrow> Some i
     | Some j \<Rightarrow> Some (if credit ! j < credit ! i \<or> credit ! j = credit ! i \<and> i < j then i else j))"

text \<open>The leader of one slot; None is the panic of a round with more slots than members.\<close>

definition pick_leader ::
  "(digest \<Rightarrow> round \<Rightarrow> nat \<Rightarrow> nat) \<Rightarrow> schedule_entry \<Rightarrow> round \<Rightarrow> nat \<Rightarrow> int list \<Rightarrow> nat list \<Rightarrow> nat option" where
  "pick_leader h e r slot credit picked =
     (let due = due_members credit (e_weights e) picked;
          weight = sum_list (map snd due)
      in if weight = 0
         then most_credit credit (filter (\<lambda>i. i \<notin> set picked) [0..<length credit])
         else Some (pick_due (h (e_seed e) r slot mod weight) due))"

definition draw_slot ::
  "(digest \<Rightarrow> round \<Rightarrow> nat \<Rightarrow> nat) \<Rightarrow> schedule_entry \<Rightarrow> round \<Rightarrow> int list \<times> nat list \<Rightarrow> nat
     \<Rightarrow> int list \<times> nat list" where
  "draw_slot h e r = (\<lambda>(credit, picked) slot.
     let credit = earn credit (e_weights e);
         leader = the (pick_leader h e r slot credit picked)
     in (credit[leader := credit ! leader - int (e_total e)], picked @ [leader]))"

definition draw_round ::
  "(digest \<Rightarrow> round \<Rightarrow> nat \<Rightarrow> nat) \<Rightarrow> schedule_entry \<Rightarrow> nat \<Rightarrow> round \<Rightarrow> int list \<Rightarrow> int list \<times> nat list" where
  "draw_round h e slots r credit = foldl (draw_slot h e r) (credit, []) [0..<slots]"

definition draw :: "(digest \<Rightarrow> round \<Rightarrow> nat \<Rightarrow> nat) \<Rightarrow> schedule_entry \<Rightarrow> drawn \<Rightarrow> drawn" where
  "draw h e d =
     (let r = next_round d;
          snaps = (if r mod SNAPSHOT_EVERY = 0 \<and> (d_snapshots d = [] \<or> fst (last (d_snapshots d)) < r)
                   then d_snapshots d @ [(r, d_credit d)] else d_snapshots d);
          (credit, picked) = draw_round h e (d_slots d) r (d_credit d)
      in d\<lparr>d_snapshots := snaps, d_credit := credit, d_leaders := d_leaders d @ picked\<rparr>)"

definition entry_for :: "schedule_entry list \<Rightarrow> round \<Rightarrow> schedule_entry" where
  "entry_for es r = (case find (\<lambda>e. e_from e \<le> r) (rev es) of None \<Rightarrow> hd es | Some e \<Rightarrow> e)"

definition replay_round :: "schedule_entry list \<Rightarrow> drawn \<Rightarrow> int list \<Rightarrow> round \<Rightarrow> int list" where
  "replay_round es d credit r =
     (let e = entry_for es r in
      foldl (\<lambda>credit slot.
          let credit = earn credit (e_weights e);
              leader = d_leaders d ! draw_index d r slot
          in credit[leader := credit ! leader - int (e_total e)])
        credit [0..<d_slots d])"

definition drawn_truncate :: "round \<Rightarrow> schedule_entry list \<Rightarrow> drawn \<Rightarrow> drawn" where
  "drawn_truncate r es d =
     (if next_round d \<le> r then d
      else let r = max r (d_base d);
               snaps = filter (\<lambda>s. fst s \<le> r) (d_snapshots d);
               (from, credit) = last snaps
           in d\<lparr>d_snapshots := snaps, d_credit := foldl (replay_round es d) credit [from..<r],
                d_leaders := take (draw_index d r 0) (d_leaders d)\<rparr>)"

text \<open>\<open>rposition\<close>: the last index whose element satisfies the predicate.\<close>

fun rposition :: "('a \<Rightarrow> bool) \<Rightarrow> 'a list \<Rightarrow> nat option" where
  "rposition P [] = None"
| "rposition P (x # xs) = (case rposition P xs of
       Some i \<Rightarrow> Some (Suc i)
     | None \<Rightarrow> if P x then Some 0 else None)"

definition unwrap_or :: "'a option \<Rightarrow> 'a \<Rightarrow> 'a" where
  "unwrap_or x y = (case x of None \<Rightarrow> y | Some v \<Rightarrow> v)"

definition drawn_prune_below :: "round \<Rightarrow> drawn \<Rightarrow> drawn" where
  "drawn_prune_below r d =
     (let keep = unwrap_or (rposition (\<lambda>s. fst s \<le> r) (d_snapshots d)) 0;
          snaps = drop keep (d_snapshots d);
          new_base = fst (hd snaps)
      in d\<lparr>d_snapshots := snaps, d_leaders := drop ((new_base - d_base d) * d_slots d) (d_leaders d),
           d_base := new_base\<rparr>)"

section \<open>The schedule\<close>

record schedule =
  sc_lookahead :: round
  sc_entries :: "schedule_entry list"
  sc_outcomes :: "(validator_index \<times> bool) list"
  sc_drawn :: drawn

record schedule_state =
  ss_entries :: "(round \<times> digest \<times> nat list) list"
  ss_outcomes :: "(validator_index \<times> bool) list"
  ss_slots :: nat
  ss_lookahead :: round
  ss_base :: round
  ss_credit :: "int list"

definition schedule_new :: "committee \<Rightarrow> digest \<Rightarrow> nat \<Rightarrow> round \<Rightarrow> schedule" where
  "schedule_new c epoch_seed slots lookahead =
     \<lparr>sc_lookahead = max lookahead 1,
      sc_entries = [entry_new 0 epoch_seed (map (\<lambda>m. m_seats m * ACTIVE_FACTOR) (c_members c))],
      sc_outcomes = [],
      sc_drawn = drawn_new (c_size c) (min (max slots 1) (max (c_size c) 1))\<rparr>"

definition schedule_export :: "schedule \<Rightarrow> schedule_state" where
  "schedule_export s =
     (let (base, credit) = hd (d_snapshots (sc_drawn s)) in
      \<lparr>ss_entries = map (\<lambda>e. (e_from e, e_seed e, e_weights e)) (sc_entries s),
       ss_outcomes = sc_outcomes s, ss_slots = d_slots (sc_drawn s), ss_lookahead = sc_lookahead s,
       ss_base = base, ss_credit = credit\<rparr>)"

definition schedule_import :: "schedule_state \<Rightarrow> schedule" where
  "schedule_import st =
     \<lparr>sc_lookahead = max (ss_lookahead st) 1,
      sc_entries = map (\<lambda>(from, seed, weights). entry_new from seed weights) (ss_entries st),
      sc_outcomes = ss_outcomes st,
      sc_drawn = \<lparr>d_slots = max (ss_slots st) 1, d_base = ss_base st, d_leaders = [],
        d_credit = ss_credit st, d_snapshots = [(ss_base st, ss_credit st)]\<rparr>\<rparr>"

text \<open>
  The loop of \<open>leader\<close> draws one round at a time until the asked round is drawn; the fuel is the
  number of rounds missing.
\<close>

primrec draw_while ::
  "nat \<Rightarrow> (digest \<Rightarrow> round \<Rightarrow> nat \<Rightarrow> nat) \<Rightarrow> schedule_entry list \<Rightarrow> round \<Rightarrow> drawn \<Rightarrow> drawn" where
  "draw_while 0 h es r d = d"
| "draw_while (Suc n) h es r d =
     (if next_round d \<le> r then draw_while n h es r (draw h (entry_for es (next_round d)) d) else d)"

definition leader ::
  "(digest \<Rightarrow> round \<Rightarrow> nat \<Rightarrow> nat) \<Rightarrow> schedule \<Rightarrow> round \<Rightarrow> nat \<Rightarrow> validator_index \<times> schedule" where
  "leader h s r slot =
     (let d = sc_drawn s; slot = min slot (d_slots d - 1) in
      if r < d_base d
      then let d = (if d_leaders d = [] then draw h (entry_for (sc_entries s) (d_base d)) d else d)
           in (d_leaders d ! slot, s\<lparr>sc_drawn := d\<rparr>)
      else let d = draw_while (Suc r - next_round d) h (sc_entries s) r d
           in (d_leaders d ! draw_index d r slot, s\<lparr>sc_drawn := d\<rparr>))"

text \<open>\<open>any\<close> stops at the first slot the member leads, each query drawing what it needs.\<close>

fun leads_from ::
  "(digest \<Rightarrow> round \<Rightarrow> nat \<Rightarrow> nat) \<Rightarrow> schedule \<Rightarrow> round \<Rightarrow> validator_index \<Rightarrow> nat list \<Rightarrow> bool \<times> schedule" where
  "leads_from h s r v [] = (False, s)"
| "leads_from h s r v (k # ks) =
     (let (l, s') = leader h s r k in if l = v then (True, s') else leads_from h s' r v ks)"

definition leads ::
  "(digest \<Rightarrow> round \<Rightarrow> nat \<Rightarrow> nat) \<Rightarrow> schedule \<Rightarrow> round \<Rightarrow> validator_index \<Rightarrow> bool \<times> schedule" where
  "leads h s r v = leads_from h s r v [0..<d_slots (sc_drawn s)]"

definition record_outcome :: "validator_index \<Rightarrow> bool \<Rightarrow> schedule \<Rightarrow> schedule" where
  "record_outcome l committed s =
     (let outs = sc_outcomes s @ [(l, committed)] in
      s\<lparr>sc_outcomes := drop (length outs - BEHAVIOUR_WINDOW) outs\<rparr>)"

definition behaviour_weights :: "committee \<Rightarrow> (validator_index \<times> bool) list \<Rightarrow> nat list" where
  "behaviour_weights c outcomes =
     map (\<lambda>(i, m).
         let total = length (filter (\<lambda>(l, ok). l = i) outcomes);
             skipped = length (filter (\<lambda>(l, ok). l = i \<and> \<not> ok) outcomes);
             failed = 0 < total \<and> total * FAILURE_THRESHOLD_PERCENT < skipped * 100
         in m_seats m * (if failed then FAILED_FACTOR else ACTIVE_FACTOR))
       (enumerate 0 (c_members c))"

definition advance :: "(digest \<Rightarrow> digest) \<Rightarrow> committee \<Rightarrow> round \<Rightarrow> digest \<Rightarrow> schedule \<Rightarrow> schedule" where
  "advance seed_hash c anchor_round seed_checkpoint s =
     (let seed = seed_hash seed_checkpoint;
          weights = behaviour_weights c (sc_outcomes s);
          from = anchor_round + sc_lookahead s + 1;
          d = drawn_truncate from (sc_entries s) (sc_drawn s);
          es = filter (\<lambda>e. e_from e < from) (sc_entries s) @ [entry_new from seed weights];
          d = drawn_prune_below anchor_round d;
          keep_from = unwrap_or (rposition (\<lambda>e. e_from e \<le> d_base d) es) 0
      in s\<lparr>sc_drawn := d, sc_entries := drop keep_from es\<rparr>)"

section \<open>One draw\<close>

lemma length_earn [simp]: "length (earn cs ws) = length cs"
  by (induction cs ws rule: earn.induct) auto

lemma nth_earn: "length cs = length ws \<Longrightarrow> i < length cs \<Longrightarrow> earn cs ws ! i = cs ! i + int (ws ! i)"
  by (induction cs ws arbitrary: i rule: list_induct2) (auto simp: nth_Cons split: nat.split)

lemma sum_list_earn: "length cs = length ws \<Longrightarrow> sum_list (earn cs ws) = sum_list cs + int (sum_list ws)"
  by (induction cs ws rule: list_induct2) auto

lemma pick_due_in: "x < sum_list (map snd xs) \<Longrightarrow> \<exists>w. (pick_due x xs, w) \<in> set xs"
proof (induction x xs rule: pick_due.induct)
  case (2 x i w rest)
  then show ?case by (cases "x < w") fastforce+
qed simp

lemma most_credit_in: "is \<noteq> [] \<Longrightarrow> \<exists>i \<in> set is. most_credit credit is = Some i"
proof (induction credit "is" rule: most_credit.induct)
  case (2 credit i "is")
  then show ?case by (cases "is = []") (auto split: option.splits)
qed simp

lemma due_members_iff:
  "(i, w) \<in> set (due_members credit weights picked) \<longleftrightarrow>
     i < length credit \<and> i < length weights \<and> w = weights ! i \<and> 0 < credit ! i \<and> i \<notin> set picked"
  by (auto simp: due_members_def in_set_enumerate_eq image_iff
      intro!: exI [of _ "(i, credit ! i, w)"])

definition wf_entry :: "nat \<Rightarrow> schedule_entry \<Rightarrow> bool" where
  "wf_entry n e \<longleftrightarrow> length (e_weights e) = n \<and> e_total e = sum_list (e_weights e)"

lemma pick_leader_ok:
  assumes "length credit = n" "wf_entry n e" "set picked \<subseteq> {..<n}" "length picked < n"
  obtains l where "pick_leader h e r slot credit picked = Some l" "l < n" "l \<notin> set picked"
    "due_members credit (e_weights e) picked \<noteq> [] \<Longrightarrow> \<forall>w \<in> set (e_weights e). 0 < w \<Longrightarrow> 0 < credit ! l"
proof -
  let ?due = "due_members credit (e_weights e) picked"
  let ?open = "filter (\<lambda>i. i \<notin> set picked) [0..<length credit]"
  show thesis
  proof (cases "sum_list (map snd ?due) = 0")
    case True
    have "card (set picked) < card {..<n}" using assms(4) card_length [of picked] by simp
    then have "\<not> {..<n} \<subseteq> set picked" using card_mono [of "set picked" "{..<n}"] by auto
    then have "\<exists>i < n. i \<notin> set picked" by auto
    then have "?open \<noteq> []" using assms(1) by (auto simp: filter_empty_conv)
    then obtain l where "most_credit credit ?open = Some l" "l \<in> set ?open" using most_credit_in by blast
    moreover have "?due = []" if "\<forall>w \<in> set (e_weights e). 0 < w"
    proof (rule ccontr)
      assume "?due \<noteq> []"
      then obtain i w where iw: "(i, w) \<in> set ?due" by (cases ?due) auto
      then have "0 < w" using that by (auto simp: due_members_iff)
      moreover have "w = 0" using True iw by (force simp: sum_list_eq_0_iff)
      ultimately show False by simp
    qed
    ultimately show thesis using that [of l] True assms(1) by (auto simp: pick_leader_def Let_def)
  next
    case False
    let ?draw = "h (e_seed e) r slot mod sum_list (map snd ?due)"
    have "?draw < sum_list (map snd ?due)" using False by (intro mod_less_divisor) (simp del: sum_list_eq_0_iff)
    then obtain w where "(pick_due ?draw ?due, w) \<in> set ?due" using pick_due_in by blast
    then have "pick_due ?draw ?due < n" "pick_due ?draw ?due \<notin> set picked" "0 < credit ! pick_due ?draw ?due"
      using assms(1) by (auto simp: due_members_iff)
    then show thesis using that [of "pick_due ?draw ?due"] False by (simp add: pick_leader_def Let_def del: sum_list_eq_0_iff)
  qed
qed

lemma sum_list_update_int: "i < length xs \<Longrightarrow> sum_list (xs[i := x]) = sum_list xs + x - (xs ! i :: int)"
  by (induction xs arbitrary: i) (auto simp: nth_Cons split: nat.split)

lemma draw_slot_ok:
  assumes "length credit = n" "wf_entry n e" "set picked \<subseteq> {..<n}" "distinct picked" "length picked < n"
  obtains l where "draw_slot h e r (credit, picked) slot
      = ((earn credit (e_weights e))[l := earn credit (e_weights e) ! l - int (e_total e)], picked @ [l])"
    "l < n" "l \<notin> set picked" "pick_leader h e r slot (earn credit (e_weights e)) picked = Some l"
proof -
  obtain l where "pick_leader h e r slot (earn credit (e_weights e)) picked = Some l" "l < n" "l \<notin> set picked"
    using pick_leader_ok [of "earn credit (e_weights e)" n e picked h r slot] assms by auto
  then show thesis using that [of l] by (simp add: draw_slot_def Let_def)
qed

lemma draw_slots_ok:
  assumes "length credit = n" "wf_entry n e" "k \<le> n"
  shows "case foldl (draw_slot h e r) (credit, []) [0..<k] of (credit', picked) \<Rightarrow>
    length credit' = n \<and> sum_list credit' = sum_list credit \<and> length picked = k
    \<and> distinct picked \<and> set picked \<subseteq> {..<n}"
  using assms(3)
proof (induction k)
  case (Suc k)
  obtain credit1 picked where st: "foldl (draw_slot h e r) (credit, []) [0..<k] = (credit1, picked)"
    by fastforce
  then have IH: "length credit1 = n" "sum_list credit1 = sum_list credit" "length picked = k"
    "distinct picked" "set picked \<subseteq> {..<n}"
    using Suc by simp_all
  obtain l where l: "draw_slot h e r (credit1, picked) k
      = ((earn credit1 (e_weights e))[l := earn credit1 (e_weights e) ! l - int (e_total e)], picked @ [l])"
    "l < n" "l \<notin> set picked"
    using draw_slot_ok [OF IH(1) assms(2) IH(5,4)] IH(3) Suc.prems by (metis Suc_le_eq)
  have "sum_list ((earn credit1 (e_weights e))[l := earn credit1 (e_weights e) ! l - int (e_total e)])
      = sum_list credit1"
    using l(2) IH(1) assms(2) by (simp add: sum_list_update_int sum_list_earn wf_entry_def)
  then show ?case using st l IH by simp
qed (simp add: assms(1))

text \<open>
  The draw of a round hands its slots to as many distinct members, never panics while
  there are no more slots than members, and leaves the members' credit adding up as before: every
  slot pays out what the leader pays in.
\<close>

theorem draw_round_fair:
  assumes "length credit = n" "wf_entry n e" "slots \<le> n"
    and "draw_round h e slots r credit = (credit', leaders)"
  shows "length leaders = slots \<and> distinct leaders \<and> set leaders \<subseteq> {..<n}
    \<and> length credit' = n \<and> sum_list credit' = sum_list credit"
  using draw_slots_ok [OF assms(1,2,3), of h r] assms(4) by (simp add: draw_round_def)

definition demo_hash :: "digest \<Rightarrow> round \<Rightarrow> nat \<Rightarrow> nat" where
  "demo_hash seed r slot = 7 * r + slot"

theorem draw_round_fair_witness:
  "distinct (snd (draw_round demo_hash (entry_new 0 [] [1, 2, 3]) 2 5 [0, 0, 0]))"
  using draw_round_fair [of "[0, 0, 0]" 3 "entry_new 0 [] [1, 2, 3]" 2 demo_hash 5
      "fst (draw_round demo_hash (entry_new 0 [] [1, 2, 3]) 2 5 [0, 0, 0])"
      "snd (draw_round demo_hash (entry_new 0 [] [1, 2, 3]) 2 5 [0, 0, 0])"]
  by (simp add: wf_entry_def entry_new_def)

section \<open>The reference schedule\<close>

text \<open>
  The schedule without laziness, truncation or pruning: the credit before, and the leaders of, the
  \<open>n\<close>-th round past \<open>base\<close>, every round drawn in turn from the credit at \<open>base\<close>.
\<close>

primrec ref_credit ::
  "(digest \<Rightarrow> round \<Rightarrow> nat \<Rightarrow> nat) \<Rightarrow> schedule_entry list \<Rightarrow> nat \<Rightarrow> round \<Rightarrow> int list \<Rightarrow> nat \<Rightarrow> int list" where
  "ref_credit h es slots base c0 0 = c0"
| "ref_credit h es slots base c0 (Suc n) =
     fst (draw_round h (entry_for es (base + n)) slots (base + n) (ref_credit h es slots base c0 n))"

definition ref_leaders ::
  "(digest \<Rightarrow> round \<Rightarrow> nat \<Rightarrow> nat) \<Rightarrow> schedule_entry list \<Rightarrow> nat \<Rightarrow> round \<Rightarrow> int list \<Rightarrow> nat \<Rightarrow> nat list" where
  "ref_leaders h es slots base c0 n =
     snd (draw_round h (entry_for es (base + n)) slots (base + n) (ref_credit h es slots base c0 n))"

definition wf_entries :: "nat \<Rightarrow> schedule_entry list \<Rightarrow> bool" where
  "wf_entries n es \<longleftrightarrow> es \<noteq> [] \<and> list_all (wf_entry n) es"

lemma entry_for_in: "es \<noteq> [] \<Longrightarrow> entry_for es r \<in> set es"
  by (auto simp: entry_for_def find_Some_iff split: option.splits) (metis length_rev nth_mem set_rev)

lemma wf_entries_for: "wf_entries n es \<Longrightarrow> wf_entry n (entry_for es r)"
  using entry_for_in by (auto simp: wf_entries_def list_all_iff)

lemma ref_credit_ok:
  assumes "wf_entries n es" "length c0 = n" "slots \<le> n"
  shows "length (ref_credit h es slots base c0 k) = n"
    "sum_list (ref_credit h es slots base c0 k) = sum_list c0"
    "length (ref_leaders h es slots base c0 k) = slots"
    "distinct (ref_leaders h es slots base c0 k)" "set (ref_leaders h es slots base c0 k) \<subseteq> {..<n}"
proof -
  have *: "length (ref_credit h es slots base c0 k) = n \<and> sum_list (ref_credit h es slots base c0 k) = sum_list c0" for k
  proof (induction k)
    case (Suc k)
    then show ?case
      using draw_slots_ok [OF _ wf_entries_for [OF assms(1)] assms(3), of "ref_credit h es slots base c0 k"]
      by (simp add: draw_round_def case_prod_unfold)
  qed (simp add: assms)
  show "length (ref_credit h es slots base c0 k) = n" "sum_list (ref_credit h es slots base c0 k) = sum_list c0"
    using * by simp_all
  show "length (ref_leaders h es slots base c0 k) = slots"
    "distinct (ref_leaders h es slots base c0 k)" "set (ref_leaders h es slots base c0 k) \<subseteq> {..<n}"
    using draw_slots_ok [OF _ wf_entries_for [OF assms(1)] assms(3), of "ref_credit h es slots base c0 k"] *
    by (simp_all add: draw_round_def ref_leaders_def case_prod_unfold)
qed

subsection \<open>The share of a member\<close>

lemma sole_slot:
  assumes "length credit = n" "wf_entry n e" "sum_list credit = 0" "0 < n" "\<forall>w \<in> set (e_weights e). 0 < w"
  obtains l where "draw_round h e 1 r credit
      = ((earn credit (e_weights e))[l := earn credit (e_weights e) ! l - int (e_total e)], [l])"
    "l < n" "0 < earn credit (e_weights e) ! l"
proof -
  let ?c = "earn credit (e_weights e)"
  have "sum_list (e_weights e) \<noteq> 0"
    using assms(2,4,5) by (cases "e_weights e") (auto simp: wf_entry_def)
  then have "0 < sum_list ?c" using assms(1-3) by (simp add: sum_list_earn wf_entry_def del: sum_list_eq_0_iff)
  then have "\<exists>x \<in> set ?c. 0 < x" using sum_list_nonpos [of ?c] by (meson leD not_le_imp_less)
  then obtain i where i: "i < n" "0 < ?c ! i" using assms(1) by (auto simp: in_set_conv_nth)
  then have "(i, e_weights e ! i) \<in> set (due_members ?c (e_weights e) [])"
    using assms(1,2) by (simp add: due_members_iff wf_entry_def)
  then have due: "due_members ?c (e_weights e) [] \<noteq> []" by auto
  obtain l where l: "pick_leader h e r 0 ?c [] = Some l" "l < n" "0 < ?c ! l"
    by (rule pick_leader_ok [of ?c n e "[]" h r 0]) (use assms due in auto)
  then show thesis using that [of l] by (simp add: draw_round_def draw_slot_def Let_def)
qed

definition leads_count :: "nat list \<Rightarrow> nat \<Rightarrow> nat" where
  "leads_count ls i = length (filter (\<lambda>l. l = i) ls)"

lemma credit_share:
  fixes h :: "digest \<Rightarrow> round \<Rightarrow> nat \<Rightarrow> nat"
  assumes "wf_entries n es" "0 < n" "length ws = n" "\<forall>w \<in> set ws. 0 < w" "\<forall>e \<in> set es. e_weights e = ws"
    and "i < n"
  defines "led \<equiv> \<lambda>t. leads_count (concat (map (ref_leaders h es 1 0 (replicate n 0)) [0..<t])) i"
  shows "ref_credit h es 1 0 (replicate n 0) t ! i = int t * int (ws ! i) - int (sum_list ws) * int (led t)
    \<and> - int (sum_list ws) < ref_credit h es 1 0 (replicate n 0) t ! i"
proof (induction t)
  case 0
  have "0 < sum_list ws" using assms(2-4) by (cases ws) auto
  then show ?case using assms(6) by (simp add: led_def leads_count_def)
next
  case (Suc t)
  let ?c = "ref_credit h es 1 0 (replicate n 0)" and ?e = "entry_for es t"
  have e: "wf_entry n ?e" "e_weights ?e = ws" "e_total ?e = sum_list ws"
    using wf_entries_for [OF assms(1)] assms(1,5) entry_for_in [of es t]
    by (auto simp: wf_entries_def wf_entry_def)
  have c: "length (?c t) = n" "sum_list (?c t) = 0"
    using ref_credit_ok(1,2) [OF assms(1), of "replicate n 0" 1 h 0 t] assms(2) by (simp_all add: sum_list_replicate)
  obtain l where l: "draw_round h ?e 1 t (?c t)
      = ((earn (?c t) ws)[l := earn (?c t) ws ! l - int (sum_list ws)], [l])" "l < n" "0 < earn (?c t) ws ! l"
    using sole_slot [OF c(1) e(1) c(2) assms(2), of h t] assms(4) unfolding e(2,3) by metis
  have ref: "ref_leaders h es 1 0 (replicate n 0) t = [l]" using l(1) by (simp add: ref_leaders_def)
  have led: "led (Suc t) = led t + (if l = i then 1 else 0)" by (simp add: led_def ref [unfolded One_nat_def] leads_count_def)
  have earned: "earn (?c t) ws ! j = ?c t ! j + int (ws ! j)" if "j < n" for j
    using nth_earn [of "?c t" ws j] c(1) assms(3) that by simp
  have next_credit: "?c (Suc t) ! i = ?c t ! i + int (ws ! i) - (if l = i then int (sum_list ws) else 0)"
    using l(1) earned [OF assms(6)] l(2) c(1) assms(6) by (simp add: nth_list_update)
  have "- int (sum_list ws) < ?c (Suc t) ! i"
    using Suc.IH next_credit l(3) earned [OF assms(6)] by (cases "l = i") simp_all
  moreover have "?c t ! i = int t * int (ws ! i) - int (sum_list ws) * int (led t)" using Suc.IH by simp
  ultimately show ?case
    unfolding next_credit led by (cases "l = i") (simp_all add: algebra_simps)
qed



section \<open>The lazy schedule is the reference schedule\<close>

definition drawn_rounds :: "drawn \<Rightarrow> nat" where
  "drawn_rounds d = length (d_leaders d) div d_slots d"

definition base_credit :: "drawn \<Rightarrow> int list" where
  "base_credit d = snd (hd (d_snapshots d))"

text \<open>The state of the draws agrees with the reference schedule from its oldest snapshot.\<close>

definition consistent ::
  "(digest \<Rightarrow> round \<Rightarrow> nat \<Rightarrow> nat) \<Rightarrow> nat \<Rightarrow> schedule_entry list \<Rightarrow> drawn \<Rightarrow> bool" where
  "consistent h n es d \<longleftrightarrow>
     0 < d_slots d \<and> d_slots d \<le> n \<and> wf_entries n es
     \<and> d_snapshots d \<noteq> [] \<and> fst (hd (d_snapshots d)) = d_base d \<and> length (base_credit d) = n
     \<and> sorted_wrt (<) (map fst (d_snapshots d))
     \<and> d_leaders d = concat (map (ref_leaders h es (d_slots d) (d_base d) (base_credit d)) [0..<drawn_rounds d])
     \<and> d_credit d = ref_credit h es (d_slots d) (d_base d) (base_credit d) (drawn_rounds d)
     \<and> (\<forall>s \<in> set (d_snapshots d). d_base d \<le> fst s \<and> fst s \<le> d_base d + drawn_rounds d
          \<and> snd s = ref_credit h es (d_slots d) (d_base d) (base_credit d) (fst s - d_base d))"

lemma length_concat_const: "(\<And>k. length (f k) = m) \<Longrightarrow> length (concat (map f [0..<n])) = n * m"
  by (induction n) auto

lemma take_concat_const:
  assumes "\<And>k. length (f k) = m" "j \<le> n"
  shows "take (j * m) (concat (map f [0..<n])) = concat (map f [0..<j])"
proof -
  have "[0..<n] = [0..<j] @ [j..<n]" using assms(2) by (metis le_add_diff_inverse upt_add_eq_append zero_le)
  then show ?thesis using length_concat_const [of f m j] assms(1) by simp
qed

lemma drop_concat_const:
  assumes "\<And>k. length (f k) = m" "j \<le> n"
  shows "drop (j * m) (concat (map f [0..<n])) = concat (map (\<lambda>k. f (j + k)) [0..<n - j])"
proof -
  have "[0..<n] = [0..<j] @ [j..<n]" using assms(2) by (metis le_add_diff_inverse upt_add_eq_append zero_le)
  moreover have "map f [j..<n] = map (\<lambda>k. f (j + k)) [0..<n - j]"
    by (rule nth_equalityI) auto
  ultimately show ?thesis using length_concat_const [of f m j] assms(1) by simp
qed

lemma nth_concat_const:
  assumes "\<And>k. length (f k) = m" "j < n" "s < m"
  shows "concat (map f [0..<n]) ! (j * m + s) = f j ! s"
proof -
  have "concat (map f [0..<n]) ! (j * m + s) = drop (j * m) (concat (map f [0..<n])) ! s"
    using length_concat_const [of f m n, OF assms(1)] assms(2,3)
    by (intro nth_drop [symmetric]) (metis mult_le_mono1 less_imp_le)
  also have "\<dots> = f j ! s"
    unfolding drop_concat_const [OF assms(1) less_imp_le [OF assms(2)]]
    using assms by (cases "n - j") (simp_all add: upt_rec nth_append)
  finally show ?thesis .
qed

lemma consistent_ref:
  assumes "consistent h n es d"
  shows "length (ref_credit h es (d_slots d) (d_base d) (base_credit d) k) = n"
    "length (ref_leaders h es (d_slots d) (d_base d) (base_credit d) k) = d_slots d"
  using assms ref_credit_ok(1,3) [of n es "base_credit d" "d_slots d"] by (simp_all add: consistent_def)

lemma consistentD:
  assumes "consistent h n es d"
  shows "0 < d_slots d" "d_slots d \<le> n" "wf_entries n es" "d_snapshots d \<noteq> []"
    "fst (hd (d_snapshots d)) = d_base d" "length (base_credit d) = n"
    "sorted_wrt (<) (map fst (d_snapshots d))"
    "d_leaders d = concat (map (ref_leaders h es (d_slots d) (d_base d) (base_credit d)) [0..<drawn_rounds d])"
    "d_credit d = ref_credit h es (d_slots d) (d_base d) (base_credit d) (drawn_rounds d)"
    "s \<in> set (d_snapshots d) \<Longrightarrow> d_base d \<le> fst s \<and> fst s \<le> d_base d + drawn_rounds d
       \<and> snd s = ref_credit h es (d_slots d) (d_base d) (base_credit d) (fst s - d_base d)"
  using assms unfolding consistent_def by blast+

lemma next_round_rounds: "next_round d = d_base d + drawn_rounds d"
  by (simp add: next_round_def drawn_rounds_def)

lemma consistent_new:
  assumes "0 < slots" "slots \<le> n" "wf_entries n es"
  shows "consistent h n es (drawn_new n slots)"
  using assms by (simp add: consistent_def drawn_new_def base_credit_def drawn_rounds_def)

text \<open>Drawing the next round.\<close>

lemma sorted_wrt_less_snoc: "sorted_wrt (<) (xs :: nat list) \<Longrightarrow> (xs \<noteq> [] \<Longrightarrow> last xs < y) \<Longrightarrow> sorted_wrt (<) (xs @ [y])"
  by (cases xs rule: rev_cases) (auto simp: sorted_wrt_append dest: order.strict_trans)

lemma draw_consistent:
  assumes c: "consistent h n es d"
  shows "consistent h n es (draw h (entry_for es (next_round d)) d)"
    "drawn_rounds (draw h (entry_for es (next_round d)) d) = Suc (drawn_rounds d)"
    "d_slots (draw h (entry_for es (next_round d)) d) = d_slots d"
    "d_base (draw h (entry_for es (next_round d)) d) = d_base d"
    "base_credit (draw h (entry_for es (next_round d)) d) = base_credit d"
proof -
  let ?d = "draw h (entry_for es (next_round d)) d" and ?k = "drawn_rounds d"
  let ?rc = "ref_credit h es (d_slots d) (d_base d) (base_credit d)"
  let ?rl = "ref_leaders h es (d_slots d) (d_base d) (base_credit d)"
  note len = consistent_ref [OF c]
  have leaders: "d_leaders ?d = d_leaders d @ ?rl ?k" and credit: "d_credit ?d = ?rc (Suc ?k)"
    using c unfolding consistent_def draw_def ref_leaders_def next_round_rounds Let_def case_prod_unfold
    by simp_all
  have snaps: "d_snapshots ?d = d_snapshots d \<or>
      d_snapshots ?d = d_snapshots d @ [(next_round d, d_credit d)] \<and> fst (last (d_snapshots d)) < next_round d"
    using consistentD(4) [OF c] by (auto simp: draw_def Let_def split: prod.split)
  show slots: "d_slots ?d = d_slots d" and base: "d_base ?d = d_base d"
    by (simp_all add: draw_def Let_def split: prod.split)
  show b0: "base_credit ?d = base_credit d"
    using snaps consistentD(4) [OF c] by (auto simp: base_credit_def hd_append)
  show rounds: "drawn_rounds ?d = Suc ?k"
    unfolding drawn_rounds_def slots leaders using len(2) consistentD(1) [OF c] by (simp add: div_add_self2)
  have "d_base d \<le> fst s \<and> fst s \<le> d_base d + Suc ?k \<and> snd s = ?rc (fst s - d_base d)"
    if "s \<in> set (d_snapshots ?d)" for s
  proof (cases "s \<in> set (d_snapshots d)")
    case True
    then show ?thesis using consistentD(10) [OF c True] by linarith
  next
    case False
    then have "s = (d_base d + ?k, d_credit d)" using snaps that by (auto simp: next_round_rounds)
    then show ?thesis using consistentD(9) [OF c] by simp
  qed
  moreover have "sorted_wrt (<) (map fst (d_snapshots ?d))"
    using snaps consistentD(4,7) [OF c] sorted_wrt_less_snoc [of "map fst (d_snapshots d)" "next_round d"]
    by (auto simp: last_map)
  moreover have "d_snapshots ?d \<noteq> []" "fst (hd (d_snapshots ?d)) = d_base d"
    using snaps consistentD(4,5) [OF c] by (auto simp: hd_append)
  moreover have "d_leaders ?d = concat (map ?rl [0..<Suc ?k])"
    using leaders consistentD(8) [OF c] by simp
  ultimately show "consistent h n es ?d"
    unfolding consistent_def slots base b0 rounds credit using consistentD(1,2,3,6) [OF c] by blast
qed

lemma draw_while_consistent:
  "consistent h n es d \<Longrightarrow> Suc r - next_round d \<le> fuel \<Longrightarrow>
    (let d' = draw_while fuel h es r d in
      consistent h n es d' \<and> drawn_rounds d' = max (drawn_rounds d) (Suc r - d_base d)
      \<and> d_slots d' = d_slots d \<and> d_base d' = d_base d \<and> base_credit d' = base_credit d)"
proof (induction fuel arbitrary: d)
  case 0
  then have "max (drawn_rounds d) (Suc r - d_base d) = drawn_rounds d" by (simp add: next_round_rounds)
  then show ?case using 0 by simp
next
  case (Suc fuel)
  note dc = draw_consistent [OF Suc.prems(1)]
  show ?case
  proof (cases "next_round d \<le> r")
    case True
    let ?d = "draw h (entry_for es (next_round d)) d"
    have "Suc r - next_round ?d \<le> fuel" using Suc.prems(2) dc(2,4) by (simp add: next_round_rounds)
    moreover have "max (Suc (drawn_rounds d)) (Suc r - d_base d) = max (drawn_rounds d) (Suc r - d_base d)"
      using True by (simp add: next_round_rounds)
    ultimately show ?thesis
      using True Suc.IH [OF dc(1)] dc(2-5) by (simp add: Let_def)
  next
    case False
    then have "max (drawn_rounds d) (Suc r - d_base d) = drawn_rounds d" by (simp add: next_round_rounds)
    then show ?thesis using Suc.prems False by simp
  qed
qed

definition schedule_ok :: "(digest \<Rightarrow> round \<Rightarrow> nat \<Rightarrow> nat) \<Rightarrow> nat \<Rightarrow> schedule \<Rightarrow> bool" where
  "schedule_ok h n s \<longleftrightarrow> consistent h n (sc_entries s) (sc_drawn s)
     \<and> e_from (hd (sc_entries s)) \<le> d_base (sc_drawn s)"

text \<open>The leaders of a round under the reference schedule of a state.\<close>

definition spec_leaders :: "(digest \<Rightarrow> round \<Rightarrow> nat \<Rightarrow> nat) \<Rightarrow> schedule \<Rightarrow> round \<Rightarrow> nat list" where
  "spec_leaders h s r =
     (let d = sc_drawn s in ref_leaders h (sc_entries s) (d_slots d) (d_base d) (base_credit d) (r - d_base d))"

lemma leader_ok:
  assumes ok: "schedule_ok h n s" and r: "d_base (sc_drawn s) \<le> r"
    and run: "leader h s r slot = (l, s')"
  shows "l = spec_leaders h s r ! min slot (d_slots (sc_drawn s) - 1)" "schedule_ok h n s'"
    "spec_leaders h s' = spec_leaders h s" "d_base (sc_drawn s') = d_base (sc_drawn s)"
    "d_slots (sc_drawn s') = d_slots (sc_drawn s)"
proof -
  let ?d = "sc_drawn s" and ?es = "sc_entries s"
  define d' where "d' = draw_while (Suc r - next_round ?d) h ?es r ?d"
  have c: "consistent h n ?es ?d" using ok by (simp add: schedule_ok_def)
  have d': "consistent h n ?es d'" "drawn_rounds d' = max (drawn_rounds ?d) (Suc r - d_base ?d)"
    "d_slots d' = d_slots ?d" "d_base d' = d_base ?d" "base_credit d' = base_credit ?d"
    using draw_while_consistent [OF c order_refl] unfolding d'_def Let_def by blast+
  have res: "l = d_leaders d' ! draw_index d' r (min slot (d_slots ?d - 1))" "s' = s\<lparr>sc_drawn := d'\<rparr>"
    using run r by (auto simp: leader_def Let_def d'_def)
  have "r - d_base ?d < drawn_rounds d'" using r d'(2) by auto
  then have "d_leaders d' ! draw_index d' r (min slot (d_slots ?d - 1))
      = ref_leaders h ?es (d_slots ?d) (d_base ?d) (base_credit ?d) (r - d_base ?d) ! min slot (d_slots ?d - 1)"
    unfolding consistentD(8) [OF d'(1)] draw_index_def d'(3-5)
    using consistentD(1) [OF c] consistent_ref(2) [OF c] by (intro nth_concat_const) auto
  then show "l = spec_leaders h s r ! min slot (d_slots ?d - 1)" by (simp add: res spec_leaders_def Let_def)
  show "schedule_ok h n s'" using ok d' by (simp add: schedule_ok_def res)
  show "spec_leaders h s' = spec_leaders h s" "d_base (sc_drawn s') = d_base ?d" "d_slots (sc_drawn s') = d_slots ?d"
    by (simp_all add: spec_leaders_def res d' fun_eq_iff Let_def)
qed

text \<open>Truncating: the credit is restored by replaying the recorded leaders from a snapshot.\<close>

lemma replay_slots:
  assumes "length credit = n" "wf_entry n e" "k \<le> n"
    and "foldl (draw_slot h e r) (credit, []) [0..<k] = (credit', picked)" "prefix picked ls"
  shows "foldl (\<lambda>credit slot. let credit = earn credit (e_weights e); leader = ls ! slot
      in credit[leader := credit ! leader - int (e_total e)]) credit [0..<k] = credit'"
  using assms(3-5)
proof (induction k arbitrary: credit' picked)
  case (Suc k)
  obtain credit1 picked1 where st: "foldl (draw_slot h e r) (credit, []) [0..<k] = (credit1, picked1)"
    by fastforce
  have len: "length picked1 = k"
    using draw_slots_ok [OF assms(1,2), of k h r] st Suc.prems(1) by simp
  define l where "l = the (pick_leader h e r k (earn credit1 (e_weights e)) picked1)"
  have new: "picked = picked1 @ [l]"
    "credit' = (earn credit1 (e_weights e))[l := earn credit1 (e_weights e) ! l - int (e_total e)]"
    using Suc.prems(2) st by (simp_all add: draw_slot_def Let_def l_def)
  have "prefix picked1 ls" "ls ! k = l"
    using Suc.prems(3) len unfolding new(1) by (auto simp: prefix_def)
  then show ?case using Suc.IH [OF _ st] Suc.prems(1) by (simp add: new(2) Let_def)
qed simp

lemma replay_round_ref:
  assumes c: "consistent h n es d" and j: "j < drawn_rounds d"
  shows "replay_round es d (ref_credit h es (d_slots d) (d_base d) (base_credit d) j) (d_base d + j)
    = ref_credit h es (d_slots d) (d_base d) (base_credit d) (Suc j)"
proof -
  let ?rc = "ref_credit h es (d_slots d) (d_base d) (base_credit d)"
  let ?rl = "ref_leaders h es (d_slots d) (d_base d) (base_credit d)"
  let ?e = "entry_for es (d_base d + j)"
  obtain credit' picked where run: "foldl (draw_slot h ?e (d_base d + j)) (?rc j, []) [0..<d_slots d] = (credit', picked)"
    by fastforce
  have rl: "?rl j = picked" and rc: "?rc (Suc j) = credit'"
    using run by (simp_all add: ref_leaders_def draw_round_def)
  have "d_leaders d ! draw_index d (d_base d + j) slot = picked ! slot" if "slot < d_slots d" for slot
    unfolding draw_index_def consistentD(8) [OF c] rl [symmetric]
    using nth_concat_const [of ?rl "d_slots d" j] consistent_ref(2) [OF c] j that by simp
  then have "replay_round es d (?rc j) (d_base d + j) = foldl (\<lambda>credit slot.
      let credit = earn credit (e_weights ?e); leader = picked ! slot
      in credit[leader := credit ! leader - int (e_total ?e)]) (?rc j) [0..<d_slots d]"
    unfolding replay_round_def Let_def by (intro foldl_cong) auto
  also have "\<dots> = credit'"
    using replay_slots [OF consistent_ref(1) [OF c] wf_entries_for [OF consistentD(3) [OF c]] consistentD(2) [OF c] run]
    by simp
  finally show ?thesis by (simp only: rc)
qed

lemma replay_rounds_ref:
  assumes c: "consistent h n es d" and "j \<le> k" "k \<le> drawn_rounds d"
  shows "foldl (replay_round es d) (ref_credit h es (d_slots d) (d_base d) (base_credit d) j)
      [d_base d + j..<d_base d + k]
    = ref_credit h es (d_slots d) (d_base d) (base_credit d) k"
  using assms(2,3)
proof (induction k rule: dec_induct)
  case (step k)
  then have "[d_base d + j..<d_base d + Suc k] = [d_base d + j..<d_base d + k] @ [d_base d + k]" by simp
  then show ?case
    using step replay_round_ref [OF c, of k] by (simp del: ref_credit.simps upt_Suc)
qed simp

lemma drawn_truncate_consistent:
  fixes r :: round
  assumes c: "consistent h n es d"
  defines "d' \<equiv> drawn_truncate r es d"
  shows "consistent h n es d'" "d_slots d' = d_slots d" "d_base d' = d_base d" "base_credit d' = base_credit d"
    "d_base d + drawn_rounds d' \<le> max r (d_base d)"
proof -
  let ?rc = "ref_credit h es (d_slots d) (d_base d) (base_credit d)"
  let ?rl = "ref_leaders h es (d_slots d) (d_base d) (base_credit d)"
  have "consistent h n es d' \<and> d_slots d' = d_slots d \<and> d_base d' = d_base d \<and> base_credit d' = base_credit d
    \<and> d_base d + drawn_rounds d' \<le> max r (d_base d)"
  proof (cases "next_round d \<le> r")
    case True
    then show ?thesis using c by (simp add: d'_def drawn_truncate_def next_round_rounds)
  next
    case False
    define m where "m = max r (d_base d)"
    define k where "k = m - d_base d"
    define snaps where "snaps = filter (\<lambda>s. fst s \<le> m) (d_snapshots d)"
    have m: "m = d_base d + k" and k: "k \<le> drawn_rounds d"
      using False by (auto simp: m_def k_def next_round_rounds)
    obtain s0 rest where snaps0: "d_snapshots d = s0 # rest" using consistentD(4) [OF c] by (cases "d_snapshots d") auto
    have s0: "fst s0 = d_base d" "snd s0 = base_credit d"
      using consistentD(5) [OF c] by (simp_all add: snaps0 base_credit_def)
    have ne: "snaps \<noteq> []" "hd snaps = s0" by (simp_all add: snaps_def snaps0 s0 m)
    have last: "last snaps \<in> set (d_snapshots d)" "fst (last snaps) \<le> m"
      using last_in_set [OF ne(1)] by (auto simp: snaps_def)
    define j where "j = fst (last snaps) - d_base d"
    have at_last: "d_base d \<le> fst (last snaps)" "snd (last snaps) = ?rc (fst (last snaps) - d_base d)"
      using consistentD(10) [OF c last(1)] by blast+
    have j: "fst (last snaps) = d_base d + j" "snd (last snaps) = ?rc j" "j \<le> k"
      using at_last last(2) unfolding j_def k_def by simp_all
    have d': "d' = d\<lparr>d_snapshots := snaps, d_credit := ?rc k, d_leaders := take (k * d_slots d) (d_leaders d)\<rparr>"
    proof -
      have "foldl (replay_round es d) (snd (last snaps)) [fst (last snaps)..<m] = ?rc k"
        using replay_rounds_ref [OF c j(3) k] unfolding j(1,2) m .
      then show ?thesis
        using False
        unfolding d'_def drawn_truncate_def Let_def m_def [symmetric] snaps_def [symmetric] case_prod_unfold
          draw_index_def k_def [symmetric] by simp
    qed
    have leaders: "take (k * d_slots d) (d_leaders d) = concat (map ?rl [0..<k])"
      unfolding consistentD(8) [OF c] using k consistent_ref(2) [OF c] by (intro take_concat_const) auto
    have rounds: "drawn_rounds d' = k"
      using length_concat_const [of ?rl "d_slots d" k] consistent_ref(2) [OF c] consistentD(1) [OF c]
      by (simp add: drawn_rounds_def d' leaders)
    have base: "base_credit d' = base_credit d" using ne s0 by (simp add: base_credit_def d')
    have "consistent h n es d'"
      unfolding consistent_def base rounds
    proof (intro conjI ballI)
      fix s assume "s \<in> set (d_snapshots d')"
      then have "s \<in> set (d_snapshots d)" "fst s \<le> m" by (auto simp: d' snaps_def)
      then show "d_base d' \<le> fst s" "fst s \<le> d_base d' + k"
        "snd s = ref_credit h es (d_slots d') (d_base d') (base_credit d) (fst s - d_base d')"
        using consistentD(10) [OF c] m by (auto simp: d')
    qed (use consistentD [OF c] ne s0 leaders sorted_wrt_filter in \<open>simp_all add: d' snaps_def sorted_wrt_map\<close>)
    then show ?thesis using base rounds m by (simp add: d' m_def)
  qed
  then show "consistent h n es d'" "d_slots d' = d_slots d" "d_base d' = d_base d" "base_credit d' = base_credit d"
    "d_base d + drawn_rounds d' \<le> max r (d_base d)" by blast+
qed

text \<open>Pruning: the reference schedule from a snapshot is the rest of the one from the base.\<close>

lemma ref_shift:
  "ref_credit h es slots (base + j) (ref_credit h es slots base c0 j) k = ref_credit h es slots base c0 (j + k)"
  "ref_leaders h es slots (base + j) (ref_credit h es slots base c0 j) k = ref_leaders h es slots base c0 (j + k)"
proof -
  show *: "ref_credit h es slots (base + j) (ref_credit h es slots base c0 j) k = ref_credit h es slots base c0 (j + k)" for k
    by (induction k) (simp_all add: add.assoc)
  show "ref_leaders h es slots (base + j) (ref_credit h es slots base c0 j) k = ref_leaders h es slots base c0 (j + k)"
    by (simp add: ref_leaders_def * add.assoc)
qed

lemma rposition_Some:
  "rposition P xs = Some i \<Longrightarrow> i < length xs \<and> P (xs ! i)"
  by (induction xs arbitrary: i) (auto split: option.splits if_splits)

lemma rposition_None: "rposition P xs = None \<longleftrightarrow> (\<forall>x \<in> set xs. \<not> P x)"
  by (induction xs) (auto split: option.splits)

lemma drawn_prune_consistent:
  fixes r :: round
  assumes c: "consistent h n es d"
  defines "d' \<equiv> drawn_prune_below r d"
  shows "consistent h n es d'" "d_slots d' = d_slots d" "d_base d \<le> d_base d'" "d_base d' \<le> max r (d_base d)"
    "d_base d' \<le> d_base d + drawn_rounds d" "d_base d' + drawn_rounds d' = d_base d + drawn_rounds d"
    "base_credit d' = ref_credit h es (d_slots d) (d_base d) (base_credit d) (d_base d' - d_base d)"
proof -
  let ?rc = "ref_credit h es (d_slots d) (d_base d) (base_credit d)"
  let ?rl = "ref_leaders h es (d_slots d) (d_base d) (base_credit d)"
  let ?snaps = "d_snapshots d"
  define keep where "keep = unwrap_or (rposition (\<lambda>s. fst s \<le> r) ?snaps) 0"
  have keep: "keep < length ?snaps" "keep \<noteq> 0 \<Longrightarrow> fst (?snaps ! keep) \<le> r"
    using consistentD(4) [OF c] rposition_Some [of "\<lambda>s. fst s \<le> r" ?snaps]
    by (auto simp: keep_def unwrap_or_def split: option.splits)
  define j where "j = fst (?snaps ! keep) - d_base d"
  have at_keep: "fst (?snaps ! keep) = d_base d + j" "snd (?snaps ! keep) = ?rc j" "j \<le> drawn_rounds d"
    using consistentD(10) [OF c nth_mem [OF keep(1)]] unfolding j_def by linarith+
  have hd: "hd (drop keep ?snaps) = ?snaps ! keep" using keep(1) by (simp add: hd_drop_conv_nth)
  have d': "d' = d\<lparr>d_snapshots := drop keep ?snaps, d_leaders := drop (j * d_slots d) (d_leaders d),
      d_base := d_base d + j\<rparr>"
    by (simp add: d'_def drawn_prune_below_def Let_def keep_def [symmetric] hd at_keep)
  have leaders: "d_leaders d' = concat (map (\<lambda>k. ?rl (j + k)) [0..<drawn_rounds d - j])"
    using drop_concat_const [of ?rl "d_slots d" j "drawn_rounds d"] consistent_ref(2) [OF c] at_keep(3)
      consistentD(8) [OF c] by (simp add: d')
  have rounds: "drawn_rounds d' = drawn_rounds d - j"
    using length_concat_const [of "\<lambda>k. ?rl (j + k)" "d_slots d"] consistent_ref(2) [OF c] consistentD(1) [OF c]
    by (simp add: drawn_rounds_def [of d'] leaders) (simp add: d')
  show base_credit: "base_credit d' = ?rc (d_base d' - d_base d)"
    using hd at_keep by (simp add: base_credit_def d')
  then have c0: "base_credit d' = ?rc j" by (simp add: d')
  show "d_slots d' = d_slots d" "d_base d \<le> d_base d'" "d_base d' \<le> d_base d + drawn_rounds d"
    "d_base d' + drawn_rounds d' = d_base d + drawn_rounds d"
    using at_keep(3) rounds by (simp_all add: d')
  show "d_base d' \<le> max r (d_base d)"
    using keep(2) at_keep(1) consistentD(4,5) [OF c] by (cases "keep = 0") (auto simp: d' hd_conv_nth)
  show "consistent h n es d'"
    unfolding consistent_def rounds c0
  proof (intro conjI ballI)
    fix s assume s: "s \<in> set (d_snapshots d')"
    then obtain i where i: "keep \<le> i" "i < length ?snaps" "s = ?snaps ! i"
      by (auto simp: d' in_set_conv_nth) (metis add.commute le_add1 less_diff_conv)
    have snap: "d_base d \<le> fst s \<and> fst s \<le> d_base d + drawn_rounds d \<and> snd s = ?rc (fst s - d_base d)"
      using consistentD(10) [OF c, of s] i(2,3) by simp
    have "fst (?snaps ! keep) \<le> fst s"
      using consistentD(7) [OF c] i by (cases "i = keep") (auto simp: sorted_wrt_iff_nth_less less_imp_le)
    then have ge: "d_base d + j \<le> fst s" using at_keep(1) by simp
    show "d_base d' \<le> fst s" "fst s \<le> d_base d' + (drawn_rounds d - j)"
      using ge snap at_keep(3) by (simp_all add: d')
    have "j + (fst s - (d_base d + j)) = fst s - d_base d" using ge by simp
    then show "snd s = ref_credit h es (d_slots d') (d_base d') (?rc j) (fst s - d_base d')"
      using snap by (simp add: d' ref_shift)
  next
    show "d_leaders d' = concat (map (ref_leaders h es (d_slots d') (d_base d') (?rc j)) [0..<drawn_rounds d - j])"
    proof -
      have "ref_leaders h es (d_slots d') (d_base d') (?rc j) = (\<lambda>k. ?rl (j + k))"
        by (rule ext) (simp add: d' ref_shift)
      then show ?thesis by (simp only: leaders)
    qed
    show "d_credit d' = ref_credit h es (d_slots d') (d_base d') (?rc j) (drawn_rounds d - j)"
      using at_keep(3) consistentD(9) [OF c] by (simp add: d' ref_shift)
    show "sorted_wrt (<) (map fst (d_snapshots d'))"
      using consistentD(7) [OF c] by (simp add: d' sorted_wrt_map sorted_wrt_drop)
  qed (use consistentD(1-3) [OF c] consistent_ref(1) [OF c] keep(1) hd at_keep in \<open>simp_all add: d'\<close>)
qed

text \<open>Changing the entries past the rounds drawn.\<close>

lemma ref_credit_cong:
  assumes "\<And>r. base \<le> r \<Longrightarrow> r < base + k \<Longrightarrow> entry_for es' r = entry_for es r"
  shows "ref_credit h es' slots base c0 k = ref_credit h es slots base c0 k"
  using assms by (induction k) auto

lemma ref_leaders_cong:
  assumes "\<And>r. base \<le> r \<Longrightarrow> r \<le> base + k \<Longrightarrow> entry_for es' r = entry_for es r"
  shows "ref_leaders h es' slots base c0 k = ref_leaders h es slots base c0 k"
  using assms ref_credit_cong [of base k es' es] by (simp add: ref_leaders_def)

lemma consistent_entries:
  assumes c: "consistent h n es d" and wf: "wf_entries n es'"
    and same: "\<And>r. d_base d \<le> r \<Longrightarrow> r < d_base d + drawn_rounds d \<Longrightarrow> entry_for es' r = entry_for es r"
  shows "consistent h n es' d"
proof -
  have rc: "ref_credit h es' (d_slots d) (d_base d) (base_credit d) k
      = ref_credit h es (d_slots d) (d_base d) (base_credit d) k" if "k \<le> drawn_rounds d" for k
    using that same by (intro ref_credit_cong) auto
  have "ref_leaders h es' (d_slots d) (d_base d) (base_credit d) k
      = ref_leaders h es (d_slots d) (d_base d) (base_credit d) k" if "k < drawn_rounds d" for k
    using that same by (intro ref_leaders_cong) auto
  then have rl: "map (ref_leaders h es' (d_slots d) (d_base d) (base_credit d)) [0..<drawn_rounds d]
      = map (ref_leaders h es (d_slots d) (d_base d) (base_credit d)) [0..<drawn_rounds d]" by simp
  show ?thesis
    unfolding consistent_def rl rc [OF order_refl]
  proof (intro conjI ballI)
    fix s assume "s \<in> set (d_snapshots d)"
    note s = consistentD(10) [OF c this]
    then show "d_base d \<le> fst s" "fst s \<le> d_base d + drawn_rounds d"
      "snd s = ref_credit h es' (d_slots d) (d_base d) (base_credit d) (fst s - d_base d)"
      using rc [of "fst s - d_base d"] by auto
  qed (use consistentD [OF c] wf in blast)+
qed

section \<open>Advancing, exporting and importing\<close>

lemma find_append: "find P (xs @ ys) = (case find P xs of None \<Rightarrow> find P ys | Some x \<Rightarrow> Some x)"
  by (induction xs) auto

lemma entry_for_append_later: "r < e_from e \<Longrightarrow> es \<noteq> [] \<Longrightarrow> entry_for (es @ [e]) r = entry_for es r"
  by (simp add: entry_for_def split: option.split)

lemma entry_for_drop:
  assumes "i < length es" "e_from (es ! i) \<le> r"
  shows "entry_for (drop i es) r = entry_for es r"
proof -
  have split: "rev es = rev (drop i es) @ rev (take i es)" by (metis append_take_drop_id rev_append)
  have "es ! i \<in> set (drop i es)" using assms(1) by (metis Cons_nth_drop_Suc list.set_intros(1))
  then have "find (\<lambda>e. e_from e \<le> r) (rev (drop i es)) \<noteq> None"
    using assms(2) by (auto simp: find_None_iff)
  then show ?thesis unfolding entry_for_def split find_append by auto
qed

lemma entry_for_filter:
  assumes "r < from" "\<exists>e \<in> set es. e_from e \<le> r"
  shows "entry_for (filter (\<lambda>e. e_from e < from) es) r = entry_for es r"
proof -
  have "find (\<lambda>e. e_from e \<le> r) (rev (filter (\<lambda>e. e_from e < from) es)) = find (\<lambda>e. e_from e \<le> r) (rev es)"
    using assms(1) by (induction es rule: rev_induct) auto
  moreover have "find (\<lambda>e. e_from e \<le> r) (rev es) \<noteq> None" using assms(2) by (auto simp: find_None_iff)
  ultimately show ?thesis by (auto simp: entry_for_def)
qed

lemma wf_behaviour_entry:
  "length (c_members c) = n \<Longrightarrow> wf_entry n (entry_new from seed (behaviour_weights c outs))"
  by (simp add: wf_entry_def entry_new_def behaviour_weights_def)

lemma advance_ok:
  fixes anchor :: round and sh :: "digest \<Rightarrow> digest" and cp :: digest
  assumes ok: "schedule_ok h n s" and n: "length (c_members c) = n"
  defines "s' \<equiv> advance sh c anchor cp s"
  shows "schedule_ok h n s'" "d_base (sc_drawn s') \<le> max anchor (d_base (sc_drawn s))"
    "d_base (sc_drawn s) \<le> d_base (sc_drawn s')"
    "d_base (sc_drawn s') \<le> r \<Longrightarrow> r \<le> anchor + sc_lookahead s \<Longrightarrow> spec_leaders h s' r = spec_leaders h s r"
proof -
  define start where "start = anchor + sc_lookahead s + 1"
  define es where "es = sc_entries s"
  define d where "d = sc_drawn s"
  define d1 where "d1 = drawn_truncate start es d"
  define d2 where "d2 = drawn_prune_below anchor d1"
  define new where "new = entry_new start (sh cp) (behaviour_weights c (sc_outcomes s))"
  define kept where "kept = filter (\<lambda>e. e_from e < start) es @ [new]"
  define keep where "keep = unwrap_or (rposition (\<lambda>e. e_from e \<le> d_base d2) kept) 0"
  have s': "s' = s\<lparr>sc_drawn := d2, sc_entries := drop keep kept\<rparr>"
    by (simp add: s'_def advance_def Let_def keep_def kept_def new_def d2_def d1_def d_def es_def start_def)
  have c: "consistent h n es d" and hd_from: "e_from (hd es) \<le> d_base d"
    using ok by (simp_all add: schedule_ok_def es_def d_def)
  note t = drawn_truncate_consistent [OF c, of start, folded d1_def]
  note p = drawn_prune_consistent [OF t(1), of anchor, folded d2_def]
  have es: "es \<noteq> []" "hd es \<in> set es" using consistentD(3) [OF c] by (auto simp: wf_entries_def)
  have base: "d_base d \<le> d_base d2" "d_base d2 \<le> max anchor (d_base d)" using p(3,4) t(3) by simp_all
  have before: "entry_for kept r = entry_for es r" if "d_base d \<le> r" "r < start" for r
  proof -
    have ex: "\<exists>e \<in> set es. e_from e \<le> r" using es(2) hd_from that(1) by (meson order_trans)
    then have "filter (\<lambda>e. e_from e < start) es \<noteq> []" using that(2) by (force simp: filter_empty_conv)
    then show ?thesis
      using entry_for_append_later [of r new] entry_for_filter [OF that(2) ex] that(2)
      by (simp add: kept_def new_def entry_new_def)
  qed
  have some: "keep < length kept \<and> e_from (kept ! keep) \<le> d_base d2"
  proof (cases "rposition (\<lambda>e. e_from e \<le> d_base d2) kept")
    case None
    have "hd es \<notin> set kept" using None base(1) hd_from by (auto simp: rposition_None dest!: bspec)
    then have "start \<le> e_from (hd es)" using es(2) by (auto simp: kept_def)
    then have "start \<le> d_base d2" using hd_from base(1) by simp
    then have "new \<notin> set kept" using None by (auto simp: rposition_None new_def entry_new_def dest!: bspec)
    then show ?thesis by (simp add: kept_def)
  next
    case (Some i)
    then show ?thesis using rposition_Some [OF Some] by (simp add: keep_def unwrap_or_def)
  qed
  have after: "entry_for (drop keep kept) r = entry_for kept r" if "d_base d2 \<le> r" for r
    using some that by (intro entry_for_drop) auto
  have wf: "wf_entries n (drop keep kept)"
    using some consistentD(3) [OF c] wf_behaviour_entry [OF n]
    by (auto simp: wf_entries_def list_all_iff kept_def new_def dest!: in_set_dropD)
  have "consistent h n (drop keep kept) d2"
  proof (rule consistent_entries [OF p(1) wf])
    fix r assume r: "d_base d2 \<le> r" "r < d_base d2 + drawn_rounds d2"
    then have "d_base d2 < d_base d + drawn_rounds d1" using p(6) t(3) by simp
    then have "r < start" using r p(6) t(3,5) base by (auto simp: max_def split: if_splits)
    then show "entry_for (drop keep kept) r = entry_for es r"
      using after before r base(1) by simp
  qed
  moreover have "e_from (hd (drop keep kept)) \<le> d_base d2" using some by (simp add: hd_drop_conv_nth)
  ultimately show "schedule_ok h n s'" by (simp add: schedule_ok_def s')
  show "d_base (sc_drawn s') \<le> max anchor (d_base (sc_drawn s))" "d_base (sc_drawn s) \<le> d_base (sc_drawn s')"
    using base by (simp_all add: s' d_def)
  assume r: "d_base (sc_drawn s') \<le> r" "r \<le> anchor + sc_lookahead s"
  have r': "d_base d2 \<le> r" "r < start" "d_base d \<le> r" using r base by (simp_all add: s' start_def)
  let ?j = "d_base d2 - d_base d"
  have "spec_leaders h s' r = ref_leaders h (drop keep kept) (d_slots d2) (d_base d2) (base_credit d2) (r - d_base d2)"
    by (simp add: spec_leaders_def s' Let_def)
  also have "\<dots> = ref_leaders h es (d_slots d2) (d_base d2) (base_credit d2) (r - d_base d2)"
    using after before r' base(1) by (intro ref_leaders_cong) auto
  also have "\<dots> = ref_leaders h es (d_slots d) (d_base d + ?j)
      (ref_credit h es (d_slots d) (d_base d) (base_credit d) ?j) (r - d_base d2)"
    using p(2,7) t(2-4) base(1) by simp
  also have "\<dots> = ref_leaders h es (d_slots d) (d_base d) (base_credit d) (r - d_base d)"
    unfolding ref_shift using r' base(1) by simp
  finally show "spec_leaders h s' r = spec_leaders h s r" by (simp add: spec_leaders_def Let_def es_def d_def)
qed

text \<open>
  Property C22. The leader of a round at or above the retained base is the one of the reference
  schedule drawn round by round, whatever was drawn, truncated or pruned before; asking for it
  changes the leaders of no round.
\<close>

theorem leader_is_reference:
  assumes "schedule_ok h n s" "d_base (sc_drawn s) \<le> r" "leader h s r slot = (l, s')"
  shows "l = spec_leaders h s r ! min slot (d_slots (sc_drawn s) - 1)
    \<and> schedule_ok h n s' \<and> spec_leaders h s' = spec_leaders h s"
  using leader_ok [OF assms] by blast

text \<open>
  Property C23. A checkpoint's schedule takes effect only past the lookahead: advancing at an anchor
  leaves the leaders of every retained round up to \<open>lookahead\<close> rounds past the anchor as they were,
  and retains every round above the anchor.
\<close>

theorem advance_keeps_leaders:
  assumes "schedule_ok h n s" "length (c_members c) = n" "d_base (sc_drawn s) \<le> anchor"
  shows "schedule_ok h n (advance sh c anchor cp s)
    \<and> d_base (sc_drawn (advance sh c anchor cp s)) \<le> anchor
    \<and> (\<forall>r. anchor \<le> r \<longrightarrow> r \<le> anchor + sc_lookahead s \<longrightarrow>
          spec_leaders h (advance sh c anchor cp s) r = spec_leaders h s r)"
proof -
  note adv = advance_ok [where sh = sh and anchor = anchor and cp = cp, OF assms(1,2)]
  have "d_base (sc_drawn (advance sh c anchor cp s)) \<le> anchor" using adv(2) assms(3) by simp
  then show ?thesis using adv(1,4) order_trans by blast
qed

lemma schedule_new_ok:
  assumes "wf_committee c"
  shows "schedule_ok h (c_size c) (schedule_new c seed slots look)"
proof -
  define slots' where "slots' = min (max slots 1) (max (c_size c) 1)"
  have "0 < c_size c" using assms by (simp add: wf_committee_def c_size_def)
  then have slots: "0 < slots'" "slots' \<le> c_size c" by (auto simp: slots'_def)
  have "consistent h (c_size c) (sc_entries (schedule_new c seed slots look)) (drawn_new (c_size c) slots')"
    by (rule consistent_new [OF slots])
      (simp add: wf_entries_def wf_entry_def entry_new_def schedule_new_def c_size_def)
  then show ?thesis
    by (simp add: schedule_ok_def schedule_new_def slots'_def) (simp add: entry_new_def drawn_new_def)
qed

text \<open>
  A schedule imported from an exported one draws exactly the leaders of the original in
  every retained round, and exports the same state again.
\<close>

theorem import_export:
  assumes "schedule_ok h n s" "1 \<le> sc_lookahead s"
  shows "schedule_ok h n (schedule_import (schedule_export s))
    \<and> spec_leaders h (schedule_import (schedule_export s)) = spec_leaders h s
    \<and> schedule_export (schedule_import (schedule_export s)) = schedule_export s"
proof -
  let ?d = "sc_drawn s" and ?s' = "schedule_import (schedule_export s)"
  have c: "consistent h n (sc_entries s) ?d" using assms(1) by (simp add: schedule_ok_def)
  note cd = consistentD [OF c]
  obtain base credit where hd: "hd (d_snapshots ?d) = (base, credit)" by fastforce
  have base: "base = d_base ?d" "credit = base_credit ?d" using cd(5) hd by (simp_all add: base_credit_def)
  have entries: "map (\<lambda>e. entry_new (e_from e) (e_seed e) (e_weights e)) (sc_entries s) = sc_entries s"
    using cd(3) by (intro map_idI) (auto simp: wf_entries_def list_all_iff wf_entry_def entry_new_def)
  have s': "?s' = s\<lparr>sc_drawn := \<lparr>d_slots = d_slots ?d, d_base = d_base ?d, d_leaders = [],
      d_credit = base_credit ?d, d_snapshots = [(d_base ?d, base_credit ?d)]\<rparr>\<rparr>"
    using assms(2) cd(1)
    by (simp add: schedule_import_def schedule_export_def hd base comp_def entries max_def)
  have "consistent h n (sc_entries s) (sc_drawn ?s')"
    using cd(1-3,6) by (simp add: s' consistent_def base_credit_def drawn_rounds_def)
  moreover have "base_credit (sc_drawn ?s') = base_credit ?d" by (simp add: s' base_credit_def)
  ultimately have "schedule_ok h n ?s' \<and> spec_leaders h ?s' = spec_leaders h s"
    using assms(1) by (simp add: schedule_ok_def s' spec_leaders_def fun_eq_iff Let_def)
  moreover have "schedule_export ?s' = schedule_export s"
    unfolding s' by (simp add: schedule_export_def hd base)
  ultimately show ?thesis by blast
qed

definition demo_schedule :: schedule where
  "demo_schedule = schedule_new demo_committee [9] 2 4"

lemma demo_schedule_ok: "schedule_ok demo_hash 4 demo_schedule"
  using schedule_new_ok [OF wf_demo_committee] by (simp add: demo_schedule_def c_size_def demo_committee_def)

theorem leader_is_reference_witness:
  "fst (leader demo_hash demo_schedule 9 1) = spec_leaders demo_hash demo_schedule 9 ! 1"
  using leader_is_reference [OF demo_schedule_ok, of 9 1 "fst (leader demo_hash demo_schedule 9 1)"
      "snd (leader demo_hash demo_schedule 9 1)"]
  by (simp add: demo_schedule_def schedule_new_def drawn_new_def c_size_def demo_committee_def)

theorem advance_keeps_leaders_witness:
  "spec_leaders demo_hash (advance id demo_committee 3 [1] demo_schedule) 7 = spec_leaders demo_hash demo_schedule 7"
  using advance_keeps_leaders [OF demo_schedule_ok, of demo_committee 3 id "[1]"]
  by (simp add: demo_schedule_def schedule_new_def drawn_new_def demo_committee_def)

theorem import_export_witness:
  "spec_leaders demo_hash (schedule_import (schedule_export demo_schedule)) 5 = spec_leaders demo_hash demo_schedule 5"
  using import_export [OF demo_schedule_ok] by (simp add: demo_schedule_def schedule_new_def)

end
