(* ===== verification/Commit_Rule.thy ===== *)
theory Commit_Rule
  imports Dag Leader_Schedule
begin

text \<open>
  The commit rule of the consensus core (\<^verbatim>\<open>crates/tenzro-consensus/src/core.rs\<close>): the direct and
  indirect decisions of the leader slots over the DAG and the first proposals, and the walk that
  decides them from the highest slot down. The theory shows that two validators whose views are
  consistent never decide a slot differently, and that this needs the references of delivered
  vertices to name what they claim, which the code does not check.

  A view holds the fields of \<open>Core\<close> the rule reads. The leader of a slot is asked of the schedule
  model; drawing it only fills the schedule's table, so the view is not changed here.
\<close>

section \<open>Views and decisions\<close>

type_synonym slot = "round \<times> nat"

datatype decision = Commit vertex_ref | Skip | Undecided

record view =
  w_committee :: committee
  w_dag :: dag
  w_schedule :: schedule
  w_first_proposals :: "(round \<times> (validator_index \<times> vertex_ref list) list) list"
  w_next_slot :: slot

type_synonym draw_hash = "digest \<Rightarrow> round \<Rightarrow> nat \<Rightarrow> nat"

definition slot_leader :: "draw_hash \<Rightarrow> 'a view_scheme \<Rightarrow> slot \<Rightarrow> validator_index" where
  "slot_leader h w = (\<lambda>(r, k). fst (leader h (w_schedule w) r k))"

definition slots_per_round :: "'a view_scheme \<Rightarrow> nat" where
  "slots_per_round w = d_slots (sc_drawn (w_schedule w))"

definition slot_vertex :: "draw_hash \<Rightarrow> 'a view_scheme \<Rightarrow> slot \<Rightarrow> vertex_ref option" where
  "slot_vertex h w slot =
     (let l = slot_leader h w slot in
      map_option (\<lambda>(d, v). \<lparr>r_round = fst slot, r_source = l, r_digest = d\<rparr>) (dag_at (w_dag w) (fst slot) l))"

definition round_weight :: "'a view_scheme \<Rightarrow> round \<Rightarrow> nat" where
  "round_weight w r = sum_list (map (\<lambda>(s, d, v). c_seats (w_committee w) s) (dag_round (w_dag w) r))"

definition first_refs :: "'a view_scheme \<Rightarrow> round \<Rightarrow> (validator_index \<times> vertex_ref list) list" where
  "first_refs w r = (case map_of (w_first_proposals w) r of None \<Rightarrow> [] | Some props \<Rightarrow> props)"

definition delivered_at :: "'a view_scheme \<Rightarrow> round \<Rightarrow> validator_index list" where
  "delivered_at w r = map fst (dag_round (w_dag w) r)"

definition support :: "draw_hash \<Rightarrow> 'a view_scheme \<Rightarrow> slot \<Rightarrow> nat" where
  "support h w slot =
     (let l = slot_leader h w slot; r = fst slot; seats = c_seats (w_committee w) in
      sum_list (map (\<lambda>(s, d, v). if references_author v l then seats s else 0) (dag_round (w_dag w) (r + 1)))
      + sum_list (map (\<lambda>(s, refs). if s \<notin> set (delivered_at w (r + 1))
            \<and> list_ex (\<lambda>p. r_round p = r \<and> r_source p = l) refs then seats s else 0) (first_refs w (r + 1))))"

definition blame :: "draw_hash \<Rightarrow> 'a view_scheme \<Rightarrow> slot \<Rightarrow> nat" where
  "blame h w slot =
     sum_list (map (\<lambda>(s, d, v). if references_author v (slot_leader h w slot) then 0
       else c_seats (w_committee w) s) (dag_round (w_dag w) (fst slot + 1)))"

definition direct :: "draw_hash \<Rightarrow> 'a view_scheme \<Rightarrow> slot \<Rightarrow> decision" where
  "direct h w slot =
     (if quorum (w_committee w) \<le> support h w slot
      then (case slot_vertex h w slot of None \<Rightarrow> Undecided | Some l \<Rightarrow> Commit l)
      else if c_total_seats (w_committee w) \<le> blame h w slot then Skip
      else Undecided)"

text \<open>The scan of the later slots' decisions, in slot order.\<close>

fun scan_anchor :: "draw_hash \<Rightarrow> 'a view_scheme \<Rightarrow> slot \<Rightarrow> decision list \<Rightarrow> decision" where
  "scan_anchor h w slot [] = Undecided"
| "scan_anchor h w slot (Skip # ds) = scan_anchor h w slot ds"
| "scan_anchor h w slot (Undecided # ds) = Undecided"
| "scan_anchor h w slot (Commit anchor # ds) =
     (case slot_vertex h w slot of
        Some l \<Rightarrow> if strong_path (w_dag w) (r_digest anchor) l then Commit l else Skip
      | None \<Rightarrow> Skip)"

definition indirect :: "draw_hash \<Rightarrow> 'a view_scheme \<Rightarrow> slot \<Rightarrow> (slot \<times> decision) list \<Rightarrow> decision" where
  "indirect h w slot later =
     scan_anchor h w slot (map snd (filter (\<lambda>p. (fst slot + 2, 0) \<le> fst p) later))"

text \<open>The highest round of the DAG or of a first proposal; \<open>None\<close> when there is neither.\<close>

definition top_round :: "'a view_scheme \<Rightarrow> round option" where
  "top_round w =
     (let rs = map (fst \<circ> fst) (g_rounds (w_dag w)) @ map fst (w_first_proposals w) in
      if rs = [] then None else Some (Max (set rs)))"

text \<open>The slots to decide, from the highest down.\<close>

definition open_slots :: "'a view_scheme \<Rightarrow> slot list" where
  "open_slots w =
     (case top_round w of
        None \<Rightarrow> []
      | Some t \<Rightarrow>
          if t = 0 then []
          else filter (\<lambda>s. \<not> s < w_next_slot w)
            (concat (map (\<lambda>r. map (\<lambda>k. (r, k)) (rev [0..<slots_per_round w])) (rev [fst (w_next_slot w)..<t]))))"

definition decide_step :: "draw_hash \<Rightarrow> 'a view_scheme \<Rightarrow> (slot \<times> decision) list \<Rightarrow> slot \<Rightarrow> (slot \<times> decision) list" where
  "decide_step h w out slot =
     (slot, case direct h w slot of Undecided \<Rightarrow> indirect h w slot out | d \<Rightarrow> d) # out"

definition decide_slots :: "draw_hash \<Rightarrow> 'a view_scheme \<Rightarrow> (slot \<times> decision) list" where
  "decide_slots h w = foldl (decide_step h w) [] (open_slots w)"

section \<open>The walk from the highest slot down\<close>

lemma decide_fold_keys: "map fst (foldl (decide_step h w) out xs) = rev xs @ map fst out"
  by (induction xs arbitrary: out) (simp_all add: decide_step_def)

lemma decide_fold_suffix: "\<exists>pre. foldl (decide_step h w) out xs = pre @ out \<and> map fst pre = rev xs"
proof (induction xs arbitrary: out)
  case (Cons x xs)
  obtain pre where "foldl (decide_step h w) (decide_step h w out x) xs = pre @ decide_step h w out x" "map fst pre = rev xs"
    using Cons.IH by blast
  then show ?case unfolding decide_step_def by (intro exI [where x = "pre @ [hd (decide_step h w out x)]"]) (simp add: decide_step_def)
qed simp

lemma sorted_rounds_desc:
  "sorted_wrt (>) (concat (map (\<lambda>r. map (\<lambda>k. (r, k)) (rev [0..<n])) (rev [(lo::nat)..<t])))"
proof (induction t)
  case (Suc t)
  have "sorted_wrt (>) (rev [0..<n])" by (simp add: sorted_wrt_rev)
  then have "sorted_wrt (>) (map (\<lambda>k. (t, k)) (rev [0..<n]))" by (simp add: sorted_wrt_map)
  with Suc show ?case by (auto simp: sorted_wrt_append)
qed simp

lemma open_slots_desc: "sorted_wrt (>) (open_slots w)"
  unfolding open_slots_def using sorted_rounds_desc by (auto split: option.splits intro!: sorted_wrt_filter)

lemma in_round_slots:
  "s \<in> set (concat (map (\<lambda>r. map (\<lambda>k. (r, k)) (rev [0..<n])) (rev [lo..<t]))) \<longleftrightarrow>
     lo \<le> fst s \<and> fst s < t \<and> snd s < n"
  by (cases s) (force simp: image_iff)

lemma in_open_slots:
  "s \<in> set (open_slots w) \<longleftrightarrow>
     (\<exists>t. top_round w = Some t \<and> fst s < t) \<and> snd s < slots_per_round w \<and> w_next_slot w \<le> s"
proof (cases "top_round w")
  case (Some t)
  have "w_next_slot w \<le> s \<Longrightarrow> fst (w_next_slot w) \<le> fst s" by (auto simp: less_eq_prod_def)
  then show ?thesis
    unfolding open_slots_def Some option.case if_distrib [where f = set] set_filter
    by (cases "t = 0") (auto simp only: in_round_slots mem_Collect_eq if_False if_True not_less list.set empty_iff option.inject not_less0 simp_thms)
qed (simp add: open_slots_def)

lemma decide_slots_keys: "map fst (decide_slots h w) = rev (open_slots w)"
  by (simp add: decide_slots_def decide_fold_keys)

lemma decide_slots_sorted: "sorted_wrt (<) (map fst (decide_slots h w))"
  unfolding decide_slots_keys sorted_wrt_rev using open_slots_desc .

text \<open>
  A slot's decision rests on the decisions of the slots two rounds later, which are all made before
  it: reading them from the final result is the same.
\<close>

lemma decide_slots_decision:
  assumes "(slot, d) \<in> set (decide_slots h w)"
  shows "d = (case direct h w slot of Undecided \<Rightarrow> indirect h w slot (decide_slots h w) | d \<Rightarrow> d)"
proof -
  have "slot \<in> set (open_slots w)" using assms decide_slots_keys [of h w] by (metis fst_conv image_eqI list.set_map set_rev)
  then obtain ys zs where split: "open_slots w = ys @ slot # zs" by (meson split_list)
  let ?out = "foldl (decide_step h w) [] ys"
  obtain pre where pre: "decide_slots h w = pre @ decide_step h w ?out slot" "map fst pre = rev zs"
    using decide_fold_suffix [of h w "decide_step h w ?out slot" zs] unfolding decide_slots_def split by auto
  have below: "z < slot" if "z \<in> set zs" for z using open_slots_desc [of w] that unfolding split by (simp add: sorted_wrt_append)
  have "filter (\<lambda>p. (fst slot + 2, 0) \<le> fst p) pre = []"
  proof (rule ccontr)
    assume "filter (\<lambda>p. (fst slot + 2, 0) \<le> fst p) pre \<noteq> []"
    then obtain p where "p \<in> set pre" "(fst slot + 2, 0) \<le> fst p" by (auto simp: filter_empty_conv)
    moreover from this have "fst p < slot" using below pre(2) by (metis image_eqI list.set_map set_rev)
    ultimately show False by (cases slot; cases p) (auto simp: less_eq_prod_def less_prod_def)
  qed
  then have same: "indirect h w slot (decide_slots h w) = indirect h w slot ?out"
    unfolding indirect_def pre(1) by (simp add: decide_step_def less_eq_prod_def)
  have "distinct (map fst (decide_slots h w))"
    using decide_slots_sorted [of h w] by (simp add: strict_sorted_iff)
  moreover have "(slot, case direct h w slot of Undecided \<Rightarrow> indirect h w slot ?out | d \<Rightarrow> d) \<in> set (decide_slots h w)"
    unfolding pre(1) by (simp add: decide_step_def)
  ultimately show ?thesis using assms unfolding same by (meson eq_key_imp_eq_value)
qed

section \<open>Consistent views\<close>

text \<open>
  What the core keeps of one view: every vertex of the DAG passed \<open>check_structure\<close>, the DAG is
  causally closed above its floor, and the floor is not above the first undecided slot.
\<close>

definition view_checked :: "(vertex \<Rightarrow> digest) \<Rightarrow> 'a view_scheme \<Rightarrow> bool" where
  "view_checked vdigest w \<longleftrightarrow>
     wf_committee (w_committee w) \<and> dag_wf vdigest (w_dag w) \<and> dag_closed (w_dag w)
     \<and> (\<forall>d v. dag_get (w_dag w) d = Some v \<longrightarrow> check_structure v (w_committee w) = Inr ())
     \<and> (\<forall>r. distinct (map fst (first_refs w r)))
     \<and> g_floor (w_dag w) \<le> fst (w_next_slot w)"

text \<open>What it does not check: that a reference names the round and author of the vertex it resolves to.\<close>

definition view_ok :: "(vertex \<Rightarrow> digest) \<Rightarrow> 'a view_scheme \<Rightarrow> bool" where
  "view_ok vdigest w \<longleftrightarrow> view_checked vdigest w \<and> dag_genuine (w_dag w)"

text \<open>
  What reliable broadcast and the leader schedule give two honest validators: one vertex per round
  and author among what they delivered, an honest author's first proposal equal to its delivered
  vertex, and the same leaders.
\<close>

definition agrees :: "draw_hash \<Rightarrow> validator_index set \<Rightarrow> 'a view_scheme \<Rightarrow> 'a view_scheme \<Rightarrow> bool" where
  "agrees h F w w' \<longleftrightarrow>
     w_committee w' = w_committee w \<and> slots_per_round w' = slots_per_round w
     \<and> (\<forall>slot. slot_leader h w' slot = slot_leader h w slot)
     \<and> (\<forall>r s x y. dag_at (w_dag w) r s = Some x \<longrightarrow> dag_at (w_dag w') r s = Some y \<longrightarrow> x = y)
     \<and> (\<forall>r s refs d v. s \<notin> F \<longrightarrow> (s, refs) \<in> set (first_refs w r) \<longrightarrow> dag_at (w_dag w') r s = Some (d, v)
          \<longrightarrow> v_strong v = refs)"

definition view_pair :: "draw_hash \<Rightarrow> validator_index set \<Rightarrow> 'a view_scheme \<Rightarrow> 'a view_scheme \<Rightarrow> bool" where
  "view_pair h F w w' \<longleftrightarrow> agrees h F w w' \<and> agrees h F w' w"

lemma view_pair_sym: "view_pair h F w w' \<Longrightarrow> view_pair h F w' w"
  by (simp add: view_pair_def)

lemma agreesD:
  assumes "agrees h F w w'"
  shows "w_committee w' = w_committee w" "slots_per_round w' = slots_per_round w"
    "slot_leader h w' slot = slot_leader h w slot"
    "dag_at (w_dag w) r s = Some x \<Longrightarrow> dag_at (w_dag w') r s = Some y \<Longrightarrow> x = y"
    "s \<notin> F \<Longrightarrow> (s, refs) \<in> set (first_refs w r) \<Longrightarrow> dag_at (w_dag w') r s = Some (d, v) \<Longrightarrow> v_strong v = refs"
  using assms unfolding agrees_def by blast+

lemma view_okD:
  assumes "view_ok vdigest w"
  shows "wf_committee (w_committee w)" "dag_wf vdigest (w_dag w)" "dag_closed (w_dag w)" "dag_genuine (w_dag w)"
    "dag_get (w_dag w) d = Some v \<Longrightarrow> check_structure v (w_committee w) = Inr ()"
    "distinct (map fst (first_refs w r))" "g_floor (w_dag w) \<le> fst (w_next_slot w)"
  using assms unfolding view_ok_def view_checked_def by blast+

lemma get_at:
  assumes "view_ok vdigest w"
  shows "dag_get (w_dag w) d = Some v \<longleftrightarrow> dag_at (w_dag w) (v_round v) (v_source v) = Some (d, v)"
  using dag_get_iff(1) [OF view_okD(2) [OF assms]] by (simp add: dag_at_def)

lemma at_get:
  assumes "view_ok vdigest w" "dag_at (w_dag w) r s = Some (d, v)"
  shows "dag_get (w_dag w) d = Some v" "v_round v = r" "v_source v = s" "s \<in> member_set (w_committee w)"
proof -
  have "(r, s) = (v_round v, v_source v)"
    using dag_wfD(4) [OF view_okD(2) [OF assms(1)]] assms(2) unfolding dag_at_def by blast
  then show rs: "v_round v = r" "v_source v = s" by simp_all
  then show get: "dag_get (w_dag w) d = Some v" using get_at [OF assms(1)] assms(2) by simp
  show "s \<in> member_set (w_committee w)" using check_structureD(1) [OF view_okD(5) [OF assms(1) get]] rs(2) by simp
qed

text \<open>A strong reference at or above the floor leads to the vertex it names, one round down.\<close>

lemma strong_ref_round:
  assumes "view_ok vdigest w" "dag_get (w_dag w) d = Some v" "p \<in> set (v_strong v)"
  shows "v_round v = Suc (r_round p)"
proof -
  note cs = view_okD(5) [OF assms(1,2)]
  have pos: "0 < v_round v" using check_structureD(2) [OF cs] assms(3) by (cases "v_round v") auto
  then have "strong_ok (w_committee w) v" using check_structureD(3) [OF cs] by blast
  then show ?thesis using assms(3) pos unfolding strong_ok_def by fastforce
qed

lemma view_layered: "view_ok vdigest w \<Longrightarrow> dag_layered (w_dag w)"
  unfolding dag_layered_def using strong_ref_round by blast

lemma strong_ref_target:
  assumes "view_ok vdigest w" "dag_get (w_dag w) d = Some v" "p \<in> set (v_strong v)" "g_floor (w_dag w) \<le> r_round p"
  shows "\<exists>u. dag_get (w_dag w) (r_digest p) = Some u \<and> dag_at (w_dag w) (r_round p) (r_source p) = Some (r_digest p, u)
    \<and> v_round u = r_round p \<and> v_source u = r_source p"
proof -
  note wf = view_okD(2) [OF assms(1)]
  have "missing_refs (w_dag w) v = []"
    using view_okD(3) [OF assms(1)] assms(2) unfolding dag_get_iff(1) [OF wf] dag_closed_def by blast
  then have "dag_contains (w_dag w) (r_digest p)"
    using assms(3,4) by (auto simp: missing_refs_def filter_empty_conv)
  then obtain u where u: "dag_get (w_dag w) (r_digest p) = Some u" using dag_get_iff(2) [OF wf] by blast
  then have "v_round u = r_round p" "v_source u = r_source p"
    using view_okD(4) [OF assms(1)] assms(2,3) unfolding dag_genuine_def by fastforce+
  then show ?thesis using u get_at [OF assms(1)] by auto
qed

section \<open>Support and blame as sets\<close>

lemma dag_round_at:
  assumes "view_ok vdigest w"
  shows "(s, d, v) \<in> set (dag_round (w_dag w) r) \<longleftrightarrow> dag_at (w_dag w) r s = Some (d, v)"
    "distinct (map fst (dag_round (w_dag w) r))"
proof -
  have dis: "distinct (map fst (g_rounds (w_dag w)))" using dag_wfD(1) [OF view_okD(2) [OF assms]] .
  then show "(s, d, v) \<in> set (dag_round (w_dag w) r) \<longleftrightarrow> dag_at (w_dag w) r s = Some (d, v)"
    unfolding dag_at_def dag_round_def by (force simp: image_iff)
  have "distinct (map fst (filter (\<lambda>p. fst (fst p) = r) xs)) \<Longrightarrow>
      distinct (map fst (map (\<lambda>((r, s), (d, v)). (s, d, v)) (filter (\<lambda>p. fst (fst p) = r) xs)))"
    for xs :: "((round \<times> validator_index) \<times> (digest \<times> vertex)) list"
    by (induction xs) (auto split: prod.splits, force)
  then show "distinct (map fst (dag_round (w_dag w) r))"
    unfolding dag_round_def using dis distinct_map_filter by blast
qed

lemma delivered_iff:
  assumes "view_ok vdigest w"
  shows "s \<in> set (delivered_at w r) \<longleftrightarrow> (\<exists>d v. dag_at (w_dag w) r s = Some (d, v))"
  unfolding delivered_at_def using dag_round_at(1) [OF assms] by (force simp: image_iff)

definition supporters :: "draw_hash \<Rightarrow> 'a view_scheme \<Rightarrow> slot \<Rightarrow> validator_index set" where
  "supporters h w slot =
     {s. \<exists>d v. dag_at (w_dag w) (fst slot + 1) s = Some (d, v) \<and> references_author v (slot_leader h w slot)}
     \<union> {s. dag_at (w_dag w) (fst slot + 1) s = None \<and> (\<exists>refs. (s, refs) \<in> set (first_refs w (fst slot + 1))
          \<and> (\<exists>p \<in> set refs. r_round p = fst slot \<and> r_source p = slot_leader h w slot))}"

definition blamers :: "draw_hash \<Rightarrow> 'a view_scheme \<Rightarrow> slot \<Rightarrow> validator_index set" where
  "blamers h w slot =
     {s. \<exists>d v. dag_at (w_dag w) (fst slot + 1) s = Some (d, v) \<and> \<not> references_author v (slot_leader h w slot)}"

lemma sum_list_if_filter: "(\<Sum>x\<leftarrow>xs. if P x then f x else (0::nat)) = sum_list (map f (filter P xs))"
  by (induction xs) auto

lemma sum_list_keyed:
  fixes f :: "'k \<Rightarrow> nat"
  assumes "distinct (map fst xs)"
  shows "(\<Sum>x\<leftarrow>xs. if P x then f (fst x) else 0) = sum f (fst ` {x \<in> set xs. P x})"
proof -
  have "(\<Sum>x\<leftarrow>xs. if P x then f (fst x) else 0) = sum_list (map f (map fst (filter P xs)))"
    by (simp add: sum_list_if_filter comp_def)
  also have "\<dots> = sum f (set (map fst (filter P xs)))"
    using assms distinct_map_filter sum_list_distinct_conv_sum_set by blast
  finally show ?thesis by simp
qed

lemma support_sum:
  assumes ok: "view_ok vdigest w"
  shows "support h w slot = sum (c_seats (w_committee w)) (supporters h w slot)"
proof -
  let ?l = "slot_leader h w slot" and ?r = "fst slot" and ?seats = "c_seats (w_committee w)"
  let ?A = "fst ` {x \<in> set (dag_round (w_dag w) (?r + 1)). references_author (snd (snd x)) ?l}"
  let ?B = "fst ` {x \<in> set (first_refs w (?r + 1)). fst x \<notin> set (delivered_at w (?r + 1))
      \<and> list_ex (\<lambda>p. r_round p = ?r \<and> r_source p = ?l) (snd x)}"
  have "support h w slot = sum ?seats ?A + sum ?seats ?B"
    unfolding support_def Let_def case_prod_unfold
    using sum_list_keyed [OF dag_round_at(2) [OF ok], of "\<lambda>x. references_author (snd (snd x)) ?l" ?seats "?r + 1"]
      sum_list_keyed [OF view_okD(6) [OF ok], of "\<lambda>x. fst x \<notin> set (delivered_at w (?r + 1))
        \<and> list_ex (\<lambda>p. r_round p = ?r \<and> r_source p = ?l) (snd x)" ?seats "?r + 1"]
    by simp
  also have "\<dots> = sum ?seats (?A \<union> ?B)"
    by (rule sum.union_disjoint [symmetric]) (auto simp: delivered_at_def, force)
  also have "?A \<union> ?B = supporters h w slot"
  proof -
    have "?A = {s. \<exists>d v. dag_at (w_dag w) (?r + 1) s = Some (d, v) \<and> references_author v ?l}"
      using dag_round_at(1) [OF ok] by (force simp: image_iff)
    moreover have "?B = {s. dag_at (w_dag w) (?r + 1) s = None \<and> (\<exists>refs. (s, refs) \<in> set (first_refs w (?r + 1))
          \<and> (\<exists>p \<in> set refs. r_round p = ?r \<and> r_source p = ?l))}"
      using delivered_iff [OF ok] by (force simp: image_iff list_ex_iff)
    ultimately show ?thesis by (simp add: supporters_def)
  qed
  finally show ?thesis .
qed

lemma blame_sum:
  assumes ok: "view_ok vdigest w"
  shows "blame h w slot = sum (c_seats (w_committee w)) (blamers h w slot)"
proof -
  let ?l = "slot_leader h w slot"
  have flip: "(if b then 0 else x) = (if \<not> b then x else (0::nat))" for b x by simp
  have "blame h w slot = sum (c_seats (w_committee w)) (fst ` {x \<in> set (dag_round (w_dag w) (fst slot + 1)).
      \<not> references_author (snd (snd x)) ?l})"
    unfolding blame_def case_prod_unfold flip
    by (rule sum_list_keyed [OF dag_round_at(2) [OF ok]])
  also have "fst ` {x \<in> set (dag_round (w_dag w) (fst slot + 1)). \<not> references_author (snd (snd x)) ?l} = blamers h w slot"
    unfolding blamers_def using dag_round_at(1) [OF ok] by (force simp: image_iff)
  finally show ?thesis .
qed

text \<open>Blame of every seat leaves no member out.\<close>

lemma full_blame:
  assumes "view_ok vdigest w" "c_total_seats (w_committee w) \<le> blame h w slot"
  shows "member_set (w_committee w) \<subseteq> blamers h w slot"
proof (rule ccontr)
  note wf = view_okD(1) [OF assms(1)]
  let ?c = "w_committee w"
  assume "\<not> member_set ?c \<subseteq> blamers h w slot"
  then obtain i where i: "i \<in> member_set ?c" "i \<notin> blamers h w slot" by blast
  have sub: "blamers h w slot \<subseteq> member_set ?c" unfolding blamers_def using at_get(4) [OF assms(1)] by blast
  then have "sum (c_seats ?c) (blamers h w slot) \<le> sum (c_seats ?c) (member_set ?c - {i})"
    using i(2) cq.finite_voters [OF wf] by (intro sum_mono2) auto
  also have "\<dots> < sum (c_seats ?c) (member_set ?c)"
    using i(1) cq.finite_voters [OF wf] c_seats_pos [OF wf i(1)] by (simp add: sum.remove)
  finally show False using assms(2) blame_sum [OF assms(1)] cq.seats_sum [OF wf] by simp
qed

section \<open>A direct commit is reached from everywhere\<close>

text \<open>
  A quorum of support leaves more honest supporters than a vertex can avoid as parents: every
  vertex two or more rounds later reaches the supported leader's vertex.
\<close>

definition backed :: "validator_index set \<Rightarrow> 'a view_scheme \<Rightarrow> round \<Rightarrow> validator_index \<Rightarrow> bool" where
  "backed H w r l \<longleftrightarrow> H \<subseteq> member_set (w_committee w) \<and> max_faulty (w_committee w) < sum (c_seats (w_committee w)) H
     \<and> (\<forall>s d v. s \<in> H \<longrightarrow> dag_at (w_dag w) (r + 1) s = Some (d, v) \<longrightarrow> references_author v l)"

lemma backed_base:
  assumes ok: "view_ok vdigest w" and backed: "backed H w r l" and floor: "g_floor (w_dag w) \<le> r"
    and v: "dag_get (w_dag w) d = Some v" "v_round v = r + 2"
  shows "\<exists>e x. dag_at (w_dag w) r l = Some (e, x) \<and> (d, e) \<in> (strong_edge (w_dag w))\<^sup>*"
proof -
  let ?c = "w_committee w"
  have strong: "strong_ok ?c v" using check_structureD(3) [OF view_okD(5) [OF ok v(1)]] v(2) by simp
  have "quorum ?c \<le> sum (c_seats ?c) (r_source ` set (v_strong v))" "r_source ` set (v_strong v) \<subseteq> member_set ?c"
    using strong unfolding strong_ok_def by auto
  then have "r_source ` set (v_strong v) \<inter> H \<noteq> {}"
    using cq.quorum_meets [OF view_okD(1) [OF ok], of "r_source ` set (v_strong v)" H] backed
    unfolding backed_def quorum_def by auto
  then obtain p where p: "p \<in> set (v_strong v)" "r_source p \<in> H" by auto
  have pr: "r_round p = r + 1" using strong_ref_round [OF ok v(1) p(1)] v(2) by simp
  then obtain u where u: "dag_get (w_dag w) (r_digest p) = Some u" "dag_at (w_dag w) (r + 1) (r_source p) = Some (r_digest p, u)"
    "v_round u = r + 1"
    using strong_ref_target [OF ok v(1) p(1)] floor by auto
  then have "references_author u l" using backed p(2) unfolding backed_def by blast
  then obtain q where q: "q \<in> set (v_strong u)" "r_source q = l" by (auto simp: references_author_def list_ex_iff)
  have qr: "r_round q = r" using strong_ref_round [OF ok u(1) q(1)] u(3) by simp
  then obtain x where x: "dag_at (w_dag w) r l = Some (r_digest q, x)"
    using strong_ref_target [OF ok u(1) q(1)] floor q(2) by auto
  have "(d, r_digest p) \<in> strong_edge (w_dag w)" "(r_digest p, r_digest q) \<in> strong_edge (w_dag w)"
    using v(1) u(1) p(1) q(1) unfolding strong_edge_def strong_refs_def by auto
  then show ?thesis using x by (meson converse_rtrancl_into_rtrancl rtrancl.rtrancl_refl)
qed

lemma backed_reached:
  assumes ok: "view_ok vdigest w" and backed: "backed H w r l" and floor: "g_floor (w_dag w) \<le> r"
  shows "dag_get (w_dag w) d = Some v \<Longrightarrow> v_round v = r + 2 + n \<Longrightarrow>
    \<exists>e x. dag_at (w_dag w) r l = Some (e, x) \<and> (d, e) \<in> (strong_edge (w_dag w))\<^sup>*"
proof (induction n arbitrary: d v)
  case 0
  then show ?case using backed_base [OF ok backed floor] by simp
next
  case (Suc n)
  let ?c = "w_committee w"
  have "strong_ok ?c v" using check_structureD(3) [OF view_okD(5) [OF ok Suc.prems(1)]] Suc.prems(2) by simp
  then have "quorum ?c \<le> sum (c_seats ?c) (r_source ` set (v_strong v))" unfolding strong_ok_def by blast
  moreover have "0 < quorum ?c"
    using cq.faults_bound [OF view_okD(1) [OF ok]] unfolding quorum_def by linarith
  ultimately obtain p where p: "p \<in> set (v_strong v)" by (cases "v_strong v") auto
  have pr: "r_round p = r + 2 + n" using strong_ref_round [OF ok Suc.prems(1) p] Suc.prems(2) by simp
  then obtain u where u: "dag_get (w_dag w) (r_digest p) = Some u" "v_round u = r + 2 + n"
    using strong_ref_target [OF ok Suc.prems(1) p] floor by auto
  have "(d, r_digest p) \<in> strong_edge (w_dag w)"
    using Suc.prems(1) p unfolding strong_edge_def strong_refs_def by auto
  then show ?case using Suc.IH [OF u] by (meson converse_rtrancl_into_rtrancl)
qed

lemma support_backed:
  assumes ok: "view_ok vdigest w" and ok': "view_ok vdigest w'" and agree: "agrees h F w w'"
    and F: "sum (c_seats (w_committee w)) (F \<inter> member_set (w_committee w)) \<le> max_faulty (w_committee w)"
    and support: "quorum (w_committee w) \<le> support h w slot"
  shows "backed (supporters h w slot \<inter> member_set (w_committee w) - F) w' (fst slot) (slot_leader h w slot)"
proof -
  let ?c = "w_committee w" and ?S = "supporters h w slot"
  note wf = view_okD(1) [OF ok]
  have c': "w_committee w' = ?c" using agreesD(1) [OF agree] .
  have pos: "0 < quorum ?c" using cq.faults_bound [OF wf] unfolding quorum_def by linarith
  have sum: "quorum ?c \<le> sum (c_seats ?c) ?S" using support support_sum [OF ok] by simp
  have fin: "finite ?S"
  proof (rule ccontr)
    assume "infinite ?S"
    then show False using sum pos by simp
  qed
  have "sum (c_seats ?c) (?S \<inter> member_set ?c) = sum (c_seats ?c) ?S"
    using fin by (intro sum.mono_neutral_left) auto
  then have weight: "max_faulty ?c < sum (c_seats ?c) (?S \<inter> member_set ?c - F)"
    using cq.quorum_honest_weight [OF wf _ F, of "?S \<inter> member_set ?c"] sum unfolding quorum_def by simp
  have "references_author v (slot_leader h w slot)"
    if s: "s \<in> ?S" "s \<notin> F" and at: "dag_at (w_dag w') (fst slot + 1) s = Some (d, v)" for s d v
  proof (cases "dag_at (w_dag w) (fst slot + 1) s")
    case None
    then obtain refs where "(s, refs) \<in> set (first_refs w (fst slot + 1))" "\<exists>p \<in> set refs. r_source p = slot_leader h w slot"
      using s(1) unfolding supporters_def by auto
    then show ?thesis using agreesD(5) [OF agree s(2) _ at] by (auto simp: references_author_def list_ex_iff)
  next
    case (Some x)
    then have "x = (d, v)" using agreesD(4) [OF agree _ at] by blast
    then show ?thesis using s(1) Some unfolding supporters_def by auto
  qed
  then show ?thesis using weight unfolding backed_def c' by blast
qed

section \<open>Consistent views decide alike\<close>

lemma slot_vertex_Some:
  "slot_vertex h w slot = Some l \<longleftrightarrow>
     (\<exists>d v. dag_at (w_dag w) (fst slot) (slot_leader h w slot) = Some (d, v)
        \<and> l = \<lparr>r_round = fst slot, r_source = slot_leader h w slot, r_digest = d\<rparr>)"
  by (auto simp: slot_vertex_def Let_def)

lemma slot_vertex_same:
  assumes "agrees h F w w'" "slot_vertex h w slot = Some l" "slot_vertex h w' slot = Some l'"
  shows "l' = l"
  using assms(2,3) agreesD(3) [OF assms(1), of slot] agreesD(4) [OF assms(1)]
  unfolding slot_vertex_Some by (metis Pair_inject)

lemma scan_anchor_decided:
  "scan_anchor h w slot ds \<noteq> Undecided \<Longrightarrow> \<exists>pre a post. ds = pre @ Commit a # post \<and> list_all (\<lambda>d. d = Skip) pre
     \<and> scan_anchor h w slot ds = (case slot_vertex h w slot of
         Some l \<Rightarrow> if strong_path (w_dag w) (r_digest a) l then Commit l else Skip | None \<Rightarrow> Skip)"
proof (induction h w slot ds rule: scan_anchor.induct)
  case (2 h w slot ds)
  then obtain pre a post where "ds = pre @ Commit a # post" "list_all (\<lambda>d. d = Skip) pre"
    "scan_anchor h w slot ds = (case slot_vertex h w slot of
       Some l \<Rightarrow> if strong_path (w_dag w) (r_digest a) l then Commit l else Skip | None \<Rightarrow> Skip)" by auto
  then show ?case by (intro exI [where x = "Skip # pre"] exI [where x = a] exI [where x = post]) simp
next
  case (4 h w slot anchor ds)
  then show ?case by (intro exI [where x = "[]"] exI [where x = anchor] exI [where x = ds]) simp
qed simp_all

lemma indirect_commit_vertex:
  assumes "scan_anchor h w slot ds = Commit l"
  shows "slot_vertex h w slot = Some l"
  using scan_anchor_decided [of h w slot ds] assms by (auto split: option.splits if_splits)

lemma decided_vertex:
  assumes "(slot, Commit l) \<in> set (decide_slots h w)"
  shows "slot_vertex h w slot = Some l"
proof (cases "direct h w slot")
  case (Commit m)
  then show ?thesis using decide_slots_decision [OF assms] by (auto simp: direct_def split: option.splits if_splits)
next
  case Skip
  then show ?thesis using decide_slots_decision [OF assms] by simp
next
  case Undecided
  then show ?thesis
    using decide_slots_decision [OF assms] by (intro indirect_commit_vertex) (simp add: indirect_def)
qed

text \<open>An indirectly decided slot has an anchor: the first later slot not skipped, and committed.\<close>

lemma indirect_anchor:
  assumes "(slot, d) \<in> set (decide_slots h w)" "direct h w slot = Undecided" "d \<noteq> Undecided"
  obtains A a where "(A, Commit a) \<in> set (decide_slots h w)" "fst slot + 2 \<le> fst A"
    "\<And>B e. (B, e) \<in> set (decide_slots h w) \<Longrightarrow> (fst slot + 2, 0) \<le> B \<Longrightarrow> B < A \<Longrightarrow> e = Skip"
    "d = (case slot_vertex h w slot of
       Some l \<Rightarrow> if strong_path (w_dag w) (r_digest a) l then Commit l else Skip | None \<Rightarrow> Skip)"
proof -
  let ?later = "filter (\<lambda>p. (fst slot + 2, 0) \<le> fst p) (decide_slots h w)"
  have d: "d = scan_anchor h w slot (map snd ?later)"
    using decide_slots_decision [OF assms(1)] assms(2) by (simp add: indirect_def)
  then obtain pre a post where *: "map snd ?later = pre @ Commit a # post" "list_all (\<lambda>d. d = Skip) pre"
    "d = (case slot_vertex h w slot of
       Some l \<Rightarrow> if strong_path (w_dag w) (r_digest a) l then Commit l else Skip | None \<Rightarrow> Skip)"
    using scan_anchor_decided [of h w slot "map snd ?later"] assms(3) by metis
  obtain ps A qs where split: "?later = ps @ (A, Commit a) # qs" "map snd ps = pre"
    using *(1) unfolding map_eq_append_conv by (auto simp: map_eq_Cons_conv)
  have mem: "(A, Commit a) \<in> set ?later" unfolding split(1) by simp
  have sorted: "sorted_wrt (<) (map fst ?later)"
    using decide_slots_sorted [of h w] by (simp add: sorted_wrt_map sorted_wrt_filter)
  show ?thesis
  proof (rule that)
    show "(A, Commit a) \<in> set (decide_slots h w)" using mem by simp
    show "fst slot + 2 \<le> fst A" using mem by (auto simp: less_eq_prod_def)
    show "e = Skip" if "(B, e) \<in> set (decide_slots h w)" "(fst slot + 2, 0) \<le> B" "B < A" for B e
    proof -
      have "(B, e) \<in> set ps \<union> {(A, Commit a)} \<union> set qs" using that(1,2) split(1) by (metis (no_types, lifting)
        Un_iff append.assoc append_Cons append_Nil fst_conv insert_iff list.set(2) mem_Collect_eq set_append set_filter sup_bot_left empty_iff list.set(1))
      moreover have "(B, e) \<notin> set qs" using sorted that(3) unfolding split(1) by (fastforce simp: sorted_wrt_append)
      ultimately have "(B, e) \<in> set ps" using that(3) by auto
      then show ?thesis using *(2) split(2) by (force simp: list_all_iff)
    qed
  qed (rule *(3))
qed

lemma decided_slot:
  assumes "(slot, d) \<in> set (decide_slots h w)"
  shows "slot \<in> set (open_slots w)"
  using assms decide_slots_keys [of h w] by (metis fst_conv image_eqI list.set_map set_rev)

lemma slot_floor:
  assumes "view_ok vdigest w" "(slot, d) \<in> set (decide_slots h w)"
  shows "g_floor (w_dag w) \<le> fst slot"
proof -
  have "w_next_slot w \<le> slot" using decided_slot [OF assms(2)] in_open_slots by blast
  then have "fst (w_next_slot w) \<le> fst slot" by (auto simp: less_eq_prod_def)
  then show ?thesis using view_okD(7) [OF assms(1)] by simp
qed

lemma slot_vertex_path:
  assumes "view_ok vdigest w" "slot_vertex h w slot = Some l"
  shows "strong_path (w_dag w) start l \<longleftrightarrow>
    (\<exists>v. dag_get (w_dag w) start = Some v) \<and> (start, r_digest l) \<in> (strong_edge (w_dag w))\<^sup>*"
proof -
  obtain d v where at: "dag_at (w_dag w) (fst slot) (slot_leader h w slot) = Some (d, v)"
    "l = \<lparr>r_round = fst slot, r_source = slot_leader h w slot, r_digest = d\<rparr>"
    using assms(2) unfolding slot_vertex_Some by blast
  then show ?thesis
    using strong_path_reaches [OF view_okD(4) [OF assms(1)] view_layered [OF assms(1)], of l v start]
      at_get [OF assms(1) at(1)] by simp
qed

text \<open>An anchor's vertex is in the DAG, in the round of its slot.\<close>

lemma anchor_vertex:
  assumes "view_ok vdigest w" "(A, Commit a) \<in> set (decide_slots h w)"
  obtains v where "dag_get (w_dag w) (r_digest a) = Some v" "v_round v = fst A"
  using decided_vertex [OF assms(2)] at_get(1,2) [OF assms(1)] unfolding slot_vertex_Some by auto

lemma direct_commit_forces:
  assumes ok: "view_ok vdigest w" and ok': "view_ok vdigest w'" and cons: "view_pair h F w w'"
    and F: "sum (c_seats (w_committee w)) (F \<inter> member_set (w_committee w)) \<le> max_faulty (w_committee w)"
    and commit: "direct h w slot = Commit l" and d': "(slot, d') \<in> set (decide_slots h w')" "d' \<noteq> Undecided"
  shows "d' = Commit l"
proof -
  let ?c = "w_committee w" and ?r = "fst slot" and ?l = "slot_leader h w slot"
  let ?H = "supporters h w slot \<inter> member_set ?c - F"
  have agree: "agrees h F w w'" using cons by (simp add: view_pair_def)
  note same = agreesD(1,3) [OF agree]
  have sup: "quorum ?c \<le> support h w slot" and l: "slot_vertex h w slot = Some l"
    using commit by (auto simp: direct_def split: if_splits option.splits)
  note backed = support_backed [OF ok ok' agree F sup]
  have commit_l: "direct h w' slot \<noteq> Undecided \<Longrightarrow> direct h w' slot \<noteq> Skip \<Longrightarrow> direct h w' slot = Commit l"
    using slot_vertex_same [OF agree l] by (auto simp: direct_def split: if_splits option.splits)
  have not_skip: "direct h w' slot \<noteq> Skip"
  proof
    assume "direct h w' slot = Skip"
    then have "c_total_seats (w_committee w') \<le> blame h w' slot" by (auto simp: direct_def split: if_splits option.splits)
    then have blamed: "member_set ?c \<subseteq> blamers h w' slot" using full_blame [OF ok'] same(1) by simp
    obtain s where "s \<in> ?H" using backed unfolding backed_def by (metis all_not_in_conv not_less0 sum.empty)
    then show False using blamed backed same(2) [of slot] unfolding backed_def blamers_def by fastforce
  qed
  show ?thesis
  proof (cases "direct h w' slot = Undecided")
    case False
    then show ?thesis using commit_l not_skip decide_slots_decision [OF d'(1)] by simp
  next
    case True
    obtain A a where A: "(A, Commit a) \<in> set (decide_slots h w')" "?r + 2 \<le> fst A"
      "d' = (case slot_vertex h w' slot of
         Some l \<Rightarrow> if strong_path (w_dag w') (r_digest a) l then Commit l else Skip | None \<Rightarrow> Skip)"
      using indirect_anchor [OF d'(1) True d'(2)] by metis
    obtain v where v: "dag_get (w_dag w') (r_digest a) = Some v" "v_round v = fst A" using anchor_vertex [OF ok' A(1)] .
    have "v_round v = ?r + 2 + (fst A - (?r + 2))" using v(2) A(2) by linarith
    then obtain e x where ex: "dag_at (w_dag w') ?r ?l = Some (e, x)" "(r_digest a, e) \<in> (strong_edge (w_dag w'))\<^sup>*"
      using backed_reached [OF ok' backed slot_floor [OF ok' d'(1)] v(1)] by blast
    then have sv': "slot_vertex h w' slot = Some \<lparr>r_round = ?r, r_source = ?l, r_digest = e\<rparr>"
      unfolding slot_vertex_Some same(2) by blast
    then have "l = \<lparr>r_round = ?r, r_source = ?l, r_digest = e\<rparr>" using slot_vertex_same [OF agree l] by simp
    then show ?thesis using A(3) sv' slot_vertex_path [OF ok' sv', of "r_digest a"] v(1) ex(2) by simp
  qed
qed

lemma direct_skip_forces:
  assumes ok: "view_ok vdigest w" and ok': "view_ok vdigest w'" and cons: "view_pair h F w w'"
    and F: "sum (c_seats (w_committee w)) (F \<inter> member_set (w_committee w)) \<le> max_faulty (w_committee w)"
    and skip: "direct h w slot = Skip" "(slot, d) \<in> set (decide_slots h w)"
    and d': "(slot, d') \<in> set (decide_slots h w')" "d' \<noteq> Undecided"
  shows "d' = Skip"
proof (rule ccontr)
  assume "d' \<noteq> Skip"
  then obtain l where l: "d' = Commit l" using d'(2) by (cases d') auto
  let ?r = "fst slot" and ?l = "slot_leader h w slot"
  have agree: "agrees h F w w'" using cons by (simp add: view_pair_def)
  note same = agreesD(1,3) [OF agree]
  have dskip: "d = Skip" using decide_slots_decision [OF skip(2)] skip(1) by simp
  have blamed: "member_set (w_committee w) \<subseteq> blamers h w slot"
    using skip(1) by (intro full_blame [OF ok]) (auto simp: direct_def split: if_splits option.splits)
  show False
  proof (cases "direct h w' slot = Undecided")
    case False
    then have "direct h w' slot = Commit l" using decide_slots_decision [OF d'(1)] l by (cases "direct h w' slot") auto
    then show False
      using direct_commit_forces [OF ok' ok view_pair_sym [OF cons] _ _ skip(2)] F same(1) dskip by simp
  next
    case True
    obtain A a where A: "(A, Commit a) \<in> set (decide_slots h w')" "?r + 2 \<le> fst A"
      "d' = (case slot_vertex h w' slot of
         Some l \<Rightarrow> if strong_path (w_dag w') (r_digest a) l then Commit l else Skip | None \<Rightarrow> Skip)"
      using indirect_anchor [OF d'(1) True d'(2)] by metis
    have sv: "slot_vertex h w' slot = Some l" and path: "strong_path (w_dag w') (r_digest a) l"
      using A(3) l by (auto split: option.splits if_splits)
    obtain x where x: "dag_at (w_dag w') ?r ?l = Some (r_digest l, x)"
      using sv same(2) unfolding slot_vertex_Some by auto
    note gx = at_get [OF ok' x]
    obtain v where v: "dag_get (w_dag w') (r_digest a) = Some v" "v_round v = fst A" using anchor_vertex [OF ok' A(1)] .
    have "r_digest a \<noteq> r_digest l" using v gx A(2) by auto
    then obtain y where y: "(y, r_digest l) \<in> strong_edge (w_dag w')"
      using path unfolding slot_vertex_path [OF ok' sv] by (metis rtranclE)
    then obtain u p where u: "dag_get (w_dag w') y = Some u" "p \<in> set (v_strong u)" "r_digest p = r_digest l"
      unfolding strong_edge_def strong_refs_def by (auto split: option.splits)
    have "r_round p = ?r" "r_source p = ?l"
      using view_okD(4) [OF ok'] u gx unfolding dag_genuine_def by fastforce+
    then have ur: "v_round u = ?r + 1" "references_author u ?l"
      using strong_ref_round [OF ok' u(1,2)] u(2) by (auto simp: references_author_def list_ex_iff)
    have at: "dag_at (w_dag w') (?r + 1) (v_source u) = Some (y, u)" using get_at [OF ok'] u(1) ur(1) by auto
    have "v_source u \<in> blamers h w slot" using at_get(4) [OF ok' at] blamed same(1) by auto
    then show False using agreesD(4) [OF agree _ at] ur(2) unfolding blamers_def by auto
  qed
qed

text \<open>
  A vertex both views hold has the same ancestors in both, down to the floor of the other view.
\<close>

lemma path_transfer:
  assumes ok: "view_ok vdigest w" and ok': "view_ok vdigest w'" and agree: "agrees h F w w'"
    and start: "dag_get (w_dag w) d = Some v" "dag_get (w_dag w') d = Some v"
  shows "(d, e) \<in> (strong_edge (w_dag w))\<^sup>* \<Longrightarrow> dag_get (w_dag w) e = Some x \<Longrightarrow> g_floor (w_dag w') \<le> v_round x \<Longrightarrow>
    dag_get (w_dag w') e = Some x \<and> (d, e) \<in> (strong_edge (w_dag w'))\<^sup>*"
proof (induction arbitrary: x rule: rtrancl_induct)
  case base
  then show ?case using start by auto
next
  case (step y z)
  obtain u p where u: "dag_get (w_dag w) y = Some u" "p \<in> set (v_strong u)" "r_digest p = z"
    using step.hyps(2) unfolding strong_edge_def strong_refs_def by (auto split: option.splits)
  have x: "v_round x = r_round p" "v_source x = r_source p"
    using view_okD(4) [OF ok] u step.prems(1) unfolding dag_genuine_def by fastforce+
  then have "g_floor (w_dag w') \<le> v_round u" using strong_ref_round [OF ok u(1,2)] step.prems(2) by simp
  then have IH: "dag_get (w_dag w') y = Some u" "(d, y) \<in> (strong_edge (w_dag w'))\<^sup>*" using step.IH [OF u(1)] by blast+
  obtain x' where x': "dag_at (w_dag w') (r_round p) (r_source p) = Some (z, x')" "dag_get (w_dag w') z = Some x'"
    using strong_ref_target [OF ok' IH(1) u(2)] step.prems(2) x u(3) by auto
  have "dag_at (w_dag w) (r_round p) (r_source p) = Some (z, x)" using get_at [OF ok] step.prems(1) x by auto
  then have "x' = x" using agreesD(4) [OF agree _ x'(1)] by auto
  moreover have "(y, z) \<in> strong_edge (w_dag w')" using IH(1) u(2,3) unfolding strong_edge_def strong_refs_def by auto
  ultimately show ?case using IH(2) x'(2) by auto
qed

lemma same_anchor_forces:
  assumes ok: "view_ok vdigest w" and ok': "view_ok vdigest w'" and agree: "agrees h F w w'"
    and anchor: "dag_get (w_dag w) a = Some v" "dag_get (w_dag w') a = Some v"
    and floor: "g_floor (w_dag w') \<le> fst slot"
    and path: "slot_vertex h w slot = Some l" "strong_path (w_dag w) a l"
  shows "slot_vertex h w' slot = Some l \<and> strong_path (w_dag w') a l"
proof -
  obtain x where x: "dag_at (w_dag w) (fst slot) (slot_leader h w slot) = Some (r_digest l, x)"
    "l = \<lparr>r_round = fst slot, r_source = slot_leader h w slot, r_digest = r_digest l\<rparr>"
    using path(1) unfolding slot_vertex_Some by auto
  note gx = at_get [OF ok x(1)]
  have "(a, r_digest l) \<in> (strong_edge (w_dag w))\<^sup>*" using path slot_vertex_path [OF ok path(1)] by blast
  then have there: "dag_get (w_dag w') (r_digest l) = Some x" "(a, r_digest l) \<in> (strong_edge (w_dag w'))\<^sup>*"
    using path_transfer [OF ok ok' agree anchor _ gx(1)] floor gx(2) by simp_all
  have "dag_at (w_dag w') (fst slot) (slot_leader h w slot) = Some (r_digest l, x)"
    using get_at [OF ok'] there(1) gx(2,3) by auto
  then have sv: "slot_vertex h w' slot = Some l"
    unfolding slot_vertex_Some agreesD(3) [OF agree] using x(2) by blast
  then show ?thesis using slot_vertex_path [OF ok' sv, of a] anchor(2) there(2) by simp
qed

lemma anchor_same_vertex:
  assumes "view_ok vdigest w" "view_ok vdigest w'" "agrees h F w w'"
    and "(A, Commit a) \<in> set (decide_slots h w)" "(A, Commit a) \<in> set (decide_slots h w')"
  obtains v where "dag_get (w_dag w) (r_digest a) = Some v" "dag_get (w_dag w') (r_digest a) = Some v"
proof -
  obtain v where v: "dag_at (w_dag w) (fst A) (slot_leader h w A) = Some (r_digest a, v)"
    using decided_vertex [OF assms(4)] unfolding slot_vertex_Some by auto
  obtain v' where v': "dag_at (w_dag w') (fst A) (slot_leader h w A) = Some (r_digest a, v')"
    using decided_vertex [OF assms(5)] agreesD(3) [OF assms(3)] unfolding slot_vertex_Some by auto
  have "v' = v" using agreesD(4) [OF assms(3) v v'] by simp
  then show ?thesis using that at_get(1) [OF assms(1) v] at_get(1) [OF assms(2) v'] by blast
qed

text \<open>A slot between the next undecided one and a decided one is decided too.\<close>

lemma open_slots_between:
  assumes "(s, d) \<in> set (decide_slots h w)" "(A, e) \<in> set (decide_slots h w)" "s \<le> B" "B \<le> A" "snd B < slots_per_round w"
  obtains f where "(B, f) \<in> set (decide_slots h w)"
proof -
  have "B \<in> set (open_slots w)"
    using decided_slot [OF assms(1)] decided_slot [OF assms(2)] assms(3-5) unfolding in_open_slots
    by (auto simp: less_eq_prod_def)
  then have "B \<in> set (map fst (decide_slots h w))" unfolding decide_slots_keys by simp
  then show ?thesis using that by auto
qed

lemma anchor_not_before:
  assumes agree: "agrees h F w w'"
    and IH: "\<And>B e e'. fst slot + 2 \<le> fst B \<Longrightarrow> (B, e) \<in> set (decide_slots h w) \<Longrightarrow> (B, e') \<in> set (decide_slots h w') \<Longrightarrow>
      e \<noteq> Undecided \<Longrightarrow> e' \<noteq> Undecided \<Longrightarrow> e = e'"
    and d': "(slot, d') \<in> set (decide_slots h w')"
    and A: "(A, Commit a) \<in> set (decide_slots h w)" "fst slot + 2 \<le> fst A"
    and A': "(A', Commit a') \<in> set (decide_slots h w')"
    and skipped: "\<And>B e. (B, e) \<in> set (decide_slots h w') \<Longrightarrow> (fst slot + 2, 0) \<le> B \<Longrightarrow> B < A' \<Longrightarrow> e = Skip"
  shows "A' \<le> A"
proof (rule ccontr)
  assume "\<not> A' \<le> A"
  then have less: "A < A'" by simp
  have le: "slot \<le> A" "(fst slot + 2, 0) \<le> A" using A(2) by (auto simp: less_eq_prod_def)
  have "snd A < slots_per_round w'"
    using decided_slot [OF A(1)] agreesD(2) [OF agree] unfolding in_open_slots by simp
  then obtain f where f: "(A, f) \<in> set (decide_slots h w')"
    using open_slots_between [OF d' A' le(1) less_imp_le [OF less]] by blast
  then have "f = Skip" using skipped le(2) less by blast
  then show False using IH [OF A(2,1) f] by simp
qed

lemma both_indirect:
  assumes ok: "view_ok vdigest w" and ok': "view_ok vdigest w'" and cons: "view_pair h F w w'"
    and IH: "\<And>B e e'. fst slot + 2 \<le> fst B \<Longrightarrow> (B, e) \<in> set (decide_slots h w) \<Longrightarrow> (B, e') \<in> set (decide_slots h w') \<Longrightarrow>
      e \<noteq> Undecided \<Longrightarrow> e' \<noteq> Undecided \<Longrightarrow> e = e'"
    and d: "(slot, d) \<in> set (decide_slots h w)" "direct h w slot = Undecided" "d \<noteq> Undecided"
    and d': "(slot, d') \<in> set (decide_slots h w')" "direct h w' slot = Undecided" "d' \<noteq> Undecided"
  shows "d = d'"
proof -
  have agree: "agrees h F w w'" and agree': "agrees h F w' w" using cons by (simp_all add: view_pair_def)
  obtain A a where A: "(A, Commit a) \<in> set (decide_slots h w)" "fst slot + 2 \<le> fst A"
    "\<And>B e. (B, e) \<in> set (decide_slots h w) \<Longrightarrow> (fst slot + 2, 0) \<le> B \<Longrightarrow> B < A \<Longrightarrow> e = Skip"
    and dA: "d = (case slot_vertex h w slot of
       Some l \<Rightarrow> if strong_path (w_dag w) (r_digest a) l then Commit l else Skip | None \<Rightarrow> Skip)"
    by (rule indirect_anchor [OF d]) (rule that; blast)
  obtain A' a' where A': "(A', Commit a') \<in> set (decide_slots h w')" "fst slot + 2 \<le> fst A'"
    "\<And>B e. (B, e) \<in> set (decide_slots h w') \<Longrightarrow> (fst slot + 2, 0) \<le> B \<Longrightarrow> B < A' \<Longrightarrow> e = Skip"
    and dA': "d' = (case slot_vertex h w' slot of
       Some l \<Rightarrow> if strong_path (w_dag w') (r_digest a') l then Commit l else Skip | None \<Rightarrow> Skip)"
    by (rule indirect_anchor [OF d']) (rule that; blast)
  have "A' \<le> A" by (rule anchor_not_before [OF agree IH d'(1) A(1,2) A'(1,3)])
  moreover have "A \<le> A'" by (rule anchor_not_before [OF agree' _ d(1) A'(1,2) A(1,3)]) (use IH in metis)
  ultimately have "A' = A" by simp
  then have same: "a' = a" using IH [OF A(2,1)] A'(1) by blast
  obtain v where v: "dag_get (w_dag w) (r_digest a) = Some v" "dag_get (w_dag w') (r_digest a) = Some v"
    using anchor_same_vertex [OF ok ok' agree A(1)] A'(1) same \<open>A' = A\<close> by blast
  have there: "slot_vertex h w' slot = Some l \<and> strong_path (w_dag w') (r_digest a) l"
    if "slot_vertex h w slot = Some l" "strong_path (w_dag w) (r_digest a) l" for l
    using same_anchor_forces [OF ok ok' agree v slot_floor [OF ok' d'(1)] that] .
  have here: "slot_vertex h w slot = Some l \<and> strong_path (w_dag w) (r_digest a) l"
    if "slot_vertex h w' slot = Some l" "strong_path (w_dag w') (r_digest a) l" for l
    using same_anchor_forces [OF ok' ok agree' v(2,1) slot_floor [OF ok d(1)] that] .
  have d: "d = Commit l \<longleftrightarrow> slot_vertex h w slot = Some l \<and> strong_path (w_dag w) (r_digest a) l" for l
    unfolding dA by (auto split: option.splits)
  have d': "d' = Commit l \<longleftrightarrow> slot_vertex h w' slot = Some l \<and> strong_path (w_dag w') (r_digest a) l" for l
    unfolding dA' same by (auto split: option.splits)
  have "d = Commit l \<longleftrightarrow> d' = Commit l" for l unfolding d d' using there here by blast
  then show ?thesis using \<open>d \<noteq> Undecided\<close> \<open>d' \<noteq> Undecided\<close> by (metis decision.exhaust)
qed

lemma decided_same:
  assumes ok: "view_ok vdigest w" and ok': "view_ok vdigest w'" and cons: "view_pair h F w w'"
    and F: "sum (c_seats (w_committee w)) (F \<inter> member_set (w_committee w)) \<le> max_faulty (w_committee w)"
  shows "(slot, d) \<in> set (decide_slots h w) \<Longrightarrow> (slot, d') \<in> set (decide_slots h w') \<Longrightarrow>
    d \<noteq> Undecided \<Longrightarrow> d' \<noteq> Undecided \<Longrightarrow> d = d'"
proof (induction "the (top_round w) - fst slot" arbitrary: slot d d' rule: less_induct)
  case less
  have c': "w_committee w' = w_committee w" using cons agreesD(1) unfolding view_pair_def by blast
  note force = direct_commit_forces [OF ok ok' cons F _ less.prems(2,4)]
    and skip = direct_skip_forces [OF ok ok' cons F _ less.prems(1,2,4)]
    and force' = direct_commit_forces [OF ok' ok view_pair_sym [OF cons] F [folded c'] _ less.prems(1,3)]
    and skip' = direct_skip_forces [OF ok' ok view_pair_sym [OF cons] F [folded c'] _ less.prems(2,1,3)]
  have dd: "direct h w slot \<noteq> Undecided \<Longrightarrow> d = direct h w slot"
    and dd': "direct h w' slot \<noteq> Undecided \<Longrightarrow> d' = direct h w' slot"
    using decide_slots_decision [OF less.prems(1)] decide_slots_decision [OF less.prems(2)]
    by (cases "direct h w slot"; cases "direct h w' slot"; simp)+
  show ?case
  proof (cases "direct h w slot = Undecided \<and> direct h w' slot = Undecided")
    case True
    have top: "fst slot < the (top_round w)" using decided_slot [OF less.prems(1)] unfolding in_open_slots by auto
    have "e = e'" if "fst slot + 2 \<le> fst B" "(B, e) \<in> set (decide_slots h w)" "(B, e') \<in> set (decide_slots h w')"
      "e \<noteq> Undecided" "e' \<noteq> Undecided" for B e e'
      using less.hyps [OF _ that(2-5)] top that(1) by simp
    then show ?thesis using both_indirect [OF ok ok' cons _ less.prems(1) _ less.prems(3,2) _ less.prems(4)] True by blast
  next
    case False
    then show ?thesis using force skip force' skip' dd dd' by (metis decision.exhaust)
  qed
qed

text \<open>
  Property C2. Two validators whose views are consistent never decide a leader slot differently:
  whatever part of the DAG each holds, if both decide a slot they commit the same vertex or both
  skip it. At most \<open>max_faulty\<close> seats are faulty, and references name what they claim.
\<close>

theorem commit_rule_agreement:
  assumes "view_ok vdigest w" "view_ok vdigest w'" "view_pair h F w w'"
    and "sum (c_seats (w_committee w)) (F \<inter> member_set (w_committee w)) \<le> max_faulty (w_committee w)"
    and "(slot, d) \<in> set (decide_slots h w)" "(slot, d') \<in> set (decide_slots h w')"
    and "d \<noteq> Undecided" "d' \<noteq> Undecided"
  shows "d = d'"
  using decided_same [OF assms] .

section \<open>Two views of four validators\<close>

text \<open>
  Validator 2 is faulty. The early view holds all vertices of rounds 0 and 1; the late view lacks
  validator 0's vertex of round 1 and holds three vertices in each of rounds 1, 2 and 3. All but
  validator 2 support the leader of round 0, validator 0. The vertex \<open>x\<close> is validator 2's in round 2,
  whose slot it leads.
\<close>

definition zero_hash :: draw_hash where
  "zero_hash seed r slot = 0"

definition early_vertices :: "vertex list" where
  "early_vertices = map (\<lambda>i. small_vertex 0 i []) [0, 1, 2, 3]
     @ [small_vertex 1 0 [0, 1, 2], small_vertex 1 1 [0, 1, 3], small_vertex 1 2 [1, 2, 3], small_vertex 1 3 [0, 1, 3]]"

definition late_vertices :: "vertex \<Rightarrow> vertex list" where
  "late_vertices x = map (\<lambda>i. small_vertex 0 i []) [0, 1, 2, 3]
     @ [small_vertex 1 1 [0, 1, 3], small_vertex 1 2 [1, 2, 3], small_vertex 1 3 [0, 1, 3]]
     @ [small_vertex 2 1 [1, 2, 3], x, small_vertex 2 3 [1, 2, 3]]
     @ map (\<lambda>i. small_vertex 3 i [1, 2, 3]) [1, 2, 3]"

text \<open>A schedule that has drawn the leaders of the first four rounds.\<close>

definition drawn_schedule :: schedule where
  "drawn_schedule = (schedule_new demo_committee [9] 1 4)\<lparr>sc_drawn := \<lparr>d_slots = 1, d_base = 0,
     d_leaders = [0, 1, 2, 3], d_credit = [0, 0, 0, 0], d_snapshots = [(0, [0, 0, 0, 0])]\<rparr>\<rparr>"

definition view_of :: "vertex list \<Rightarrow> view" where
  "view_of vs = \<lparr>w_committee = demo_committee, w_dag = dag_of small_digest vs,
     w_schedule = drawn_schedule, w_first_proposals = [], w_next_slot = (0, 0)\<rparr>"

text \<open>Parents labelled as round 1 whose digests are those of round 0.\<close>

definition mislabelled :: vertex where
  "mislabelled = (small_vertex 2 2 [])\<lparr>v_strong :=
     map (\<lambda>i. \<lparr>r_round = 1, r_source = i, r_digest = [0, of_nat i]\<rparr>) [1, 2, 3]\<rparr>"

lemma view_of_fields [simp]:
  "w_committee (view_of vs) = demo_committee" "w_dag (view_of vs) = dag_of small_digest vs"
  "w_next_slot (view_of vs) = (0, 0)" "slots_per_round (view_of vs) = 1" "first_refs (view_of vs) r = []"
  by (simp_all add: view_of_def slots_per_round_def drawn_schedule_def first_refs_def)

lemma demo_leader: "r < 4 \<Longrightarrow> slot_leader zero_hash (view_of vs) (r, 0) = r"
  by (auto simp: slot_leader_def view_of_def leader_def drawn_schedule_def next_round_def draw_index_def Let_def
      less_Suc_eq numeral_eq_Suc)

text \<open>Whether a list of vertices passes what the core checks, computed.\<close>

definition vertices_checked :: "vertex list \<Rightarrow> bool" where
  "vertices_checked vs \<longleftrightarrow>
     distinct (map (\<lambda>v. (v_round v, v_source v)) vs) \<and> distinct (map small_digest vs)
     \<and> list_all (\<lambda>v. check_structure v demo_committee = Inr ()
          \<and> list_all (\<lambda>p. r_digest p \<in> set (map small_digest vs)) (v_strong v @ v_weak v)) vs"

lemma dag_of_get:
  assumes "distinct (map (\<lambda>v. (v_round v, v_source v)) vs)" "distinct (map vdigest vs)"
  shows "dag_get (dag_of vdigest vs) d = Some v \<longleftrightarrow> v \<in> set vs \<and> vdigest v = d"
    and "dag_contains (dag_of vdigest vs) d \<longleftrightarrow> d \<in> vdigest ` set vs"
    and "dag_at (dag_of vdigest vs) r s = Some (d, v) \<longleftrightarrow> v \<in> set vs \<and> vdigest v = d \<and> v_round v = r \<and> v_source v = s"
proof -
  show "dag_at (dag_of vdigest vs) r s = Some (d, v) \<longleftrightarrow> v \<in> set vs \<and> vdigest v = d \<and> v_round v = r \<and> v_source v = s" for r s v
    unfolding dag_at_def dag_of_maps(1) [OF assms(1)] by auto
  then show get: "dag_get (dag_of vdigest vs) d = Some v \<longleftrightarrow> v \<in> set vs \<and> vdigest v = d" for v
    unfolding dag_get_iff(1) [OF dag_of_wf [OF assms]] dag_at_def by auto
  show "dag_contains (dag_of vdigest vs) d \<longleftrightarrow> d \<in> vdigest ` set vs"
    unfolding dag_get_iff(2) [OF dag_of_wf [OF assms]] get by auto
qed

lemma view_of_checked:
  assumes "vertices_checked vs"
  shows "view_checked small_digest (view_of vs)"
proof -
  have d: "distinct (map (\<lambda>v. (v_round v, v_source v)) vs)" "distinct (map small_digest vs)"
    using assms by (simp_all add: vertices_checked_def)
  have "dag_closed (dag_of small_digest vs)"
    unfolding dag_closed_def missing_refs_def dag_of_get(2) [OF d] dag_of_maps(1) [OF d(1)]
    using assms by (auto simp: vertices_checked_def list_all_iff filter_empty_conv)
  then show ?thesis
    unfolding view_checked_def view_of_fields dag_of_get(1) [OF d] dag_of_fields
    using assms dag_of_wf [OF d] by (auto simp: vertices_checked_def list_all_iff)
qed

lemma views_of_consistent:
  assumes "distinct (map (\<lambda>v. (v_round v, v_source v)) vs)" "distinct (map small_digest vs)"
    "distinct (map (\<lambda>v. (v_round v, v_source v)) vs')" "distinct (map small_digest vs')"
    "list_all (\<lambda>v. list_all (\<lambda>v'. (v_round v, v_source v) = (v_round v', v_source v') \<longrightarrow> v = v') vs') vs"
  shows "view_pair h F (view_of vs) (view_of vs')"
proof -
  have "slot_leader h (view_of vs) = slot_leader h (view_of vs')" by (simp add: slot_leader_def view_of_def)
  then show ?thesis
    using assms(5) unfolding view_pair_def agrees_def
    by (auto simp: dag_of_get(3) [OF assms(1,2)] dag_of_get(3) [OF assms(3,4)] list_all_iff) metis+
qed

lemma demo_check:
  assumes "v_epoch v = 0" "v_source v < 4" "v_weak v = []" "v_batches v = []" "v_carried v = []"
    and "distinct (map r_source (v_strong v))"
    and "list_all (\<lambda>p. r_round p = v_round v - 1 \<and> r_source p < 4) (v_strong v)"
    and "length (v_strong v) = (if v_round v = 0 then 0 else 3)"
  shows "check_structure v demo_committee = Inr ()"
proof -
  have members: "r_source ` set (v_strong v) \<subseteq> {..<4}" using assms(7) by (auto simp: list_all_iff)
  then have "sum (c_seats demo_committee) (r_source ` set (v_strong v)) = card (r_source ` set (v_strong v))"
    by (subst card_eq_sum) (rule sum.cong, auto simp: c_seats_demo)
  also have "\<dots> = length (v_strong v)" using distinct_card [OF assms(6)] by simp
  finally have "strong_ok demo_committee v" if "0 < v_round v"
    using that assms(6-8) members by (auto simp: strong_ok_def list_all_iff quorum_def demo_thresholds)
  then show ?thesis
    unfolding check_structure_cases using assms
    by (auto simp: MAX_REFS_def MAX_BATCH_REFS_def MAX_CARRIED_def consecutive_def sorted_carried_def demo_committee_def
        member_set_def)
qed

lemmas demo_vertices = early_vertices_def late_vertices_def mislabelled_def small_vertex_def small_ref_def small_digest_def

lemma demo_vertices_checked:
  "vertices_checked early_vertices" "vertices_checked (late_vertices mislabelled)"
  "vertices_checked (late_vertices (small_vertex 2 2 [1, 2, 3]))"
  unfolding vertices_checked_def by (simp_all add: demo_check demo_vertices)

lemma late_top: "top_round (view_of (late_vertices x)) = Some (max 3 (v_round x))" "top_round (view_of early_vertices) = Some 1"
  by (simp_all add: top_round_def view_of_def dag_of_lists demo_vertices)

lemma demo_open:
  "open_slots (view_of early_vertices) = [(0, 0)]"
  "v_round x \<le> 3 \<Longrightarrow> open_slots (view_of (late_vertices x)) = [(2, 0), (1, 0), (0, 0)]"
  by (simp_all add: open_slots_def late_top max_absorb1) (simp_all add: numeral_eq_Suc less_prod_def)

lemma dag_round_of:
  "dag_round (dag_of vdigest vs) r = map (\<lambda>v. (v_source v, vdigest v, v)) (filter (\<lambda>v. v_round v = r) vs)"
  by (simp add: dag_round_def dag_of_lists filter_map comp_def)

text \<open>Support and blame counted over the vertices of the next round.\<close>

lemma demo_support:
  assumes "r < 4" "list_all (\<lambda>v. v_source v < 4) vs"
  shows "support zero_hash (view_of vs) (r, 0) = length (filter (\<lambda>v. v_round v = Suc r \<and> references_author v r) vs)"
    "blame zero_hash (view_of vs) (r, 0) = length (filter (\<lambda>v. v_round v = Suc r \<and> \<not> references_author v r) vs)"
  using assms(2) unfolding support_def blame_def demo_leader [OF assms(1)] view_of_fields dag_round_of fst_conv
  by (induction vs) (simp_all add: c_seats_demo)

lemma small_vertex_facts:
  "v_round (small_vertex r s ps) = r" "v_source (small_vertex r s ps) = s"
  "small_digest (small_vertex r s ps) = [of_nat r, of_nat s]"
  "references_author (small_vertex r s ps) i \<longleftrightarrow> r \<noteq> 0 \<and> i \<in> set ps"
  by (auto simp: small_vertex_def small_digest_def references_author_def list_ex_iff small_ref_def)

lemma demo_sources: "list_all (\<lambda>v. v_source v < 4) early_vertices"
  "v_source x = 2 \<Longrightarrow> list_all (\<lambda>v. v_source v < 4) (late_vertices x)"
  by (simp_all add: demo_vertices)

lemma early_support: "support zero_hash (view_of early_vertices) (0, 0) = 3"
  by (subst demo_support) (simp_all add: demo_sources, simp add: demo_vertices references_author_def)

text \<open>The vertex \<open>x\<close> names members 1 to 3 as parents, whatever digests it gives for them.\<close>

definition names_parents :: "vertex \<Rightarrow> bool" where
  "names_parents x \<longleftrightarrow> v_round x = 2 \<and> v_source x = 2 \<and> map r_source (v_strong x) = [1, 2, 3]"

lemma late_support:
  assumes "names_parents x"
  shows "support zero_hash (view_of (late_vertices x)) (0, 0) = 2" "blame zero_hash (view_of (late_vertices x)) (0, 0) = 1"
    "support zero_hash (view_of (late_vertices x)) (Suc 0, 0) = 3" "support zero_hash (view_of (late_vertices x)) (2, 0) = 3"
proof -
  have x: "v_round x = 2" "v_source x = 2" "references_author x 1"
    using assms by (auto simp: names_parents_def references_author_def map_eq_Cons_conv)
  show "support zero_hash (view_of (late_vertices x)) (0, 0) = 2" "blame zero_hash (view_of (late_vertices x)) (0, 0) = 1"
    "support zero_hash (view_of (late_vertices x)) (Suc 0, 0) = 3" "support zero_hash (view_of (late_vertices x)) (2, 0) = 3"
    using x by (simp_all add: demo_support demo_sources late_vertices_def small_vertex_facts)
qed

lemma late_vertex_at:
  assumes "names_parents x" "small_digest x = [2, 2]" "vertices_checked (late_vertices x)"
  shows "slot_vertex zero_hash (view_of (late_vertices x)) (2, 0) = Some \<lparr>r_round = 2, r_source = 2, r_digest = [2, 2]\<rparr>"
    "slot_vertex zero_hash (view_of (late_vertices x)) (Suc 0, 0) = Some (small_ref 1 1)"
    "slot_vertex zero_hash (view_of (late_vertices x)) (0, 0) = Some (small_ref 0 0)"
proof -
  have d: "distinct (map (\<lambda>v. (v_round v, v_source v)) (late_vertices x))" "distinct (map small_digest (late_vertices x))"
    using assms(3) by (simp_all add: vertices_checked_def)
  have mem: "x \<in> set (late_vertices x)" "small_vertex 1 1 [0, 1, 3] \<in> set (late_vertices x)"
    "small_vertex 0 0 [] \<in> set (late_vertices x)" by (simp_all add: late_vertices_def)
  show "slot_vertex zero_hash (view_of (late_vertices x)) (2, 0) = Some \<lparr>r_round = 2, r_source = 2, r_digest = [2, 2]\<rparr>"
    unfolding slot_vertex_Some using mem(1) assms(1,2) by (auto simp: demo_leader dag_of_get(3) [OF d] names_parents_def)
  show "slot_vertex zero_hash (view_of (late_vertices x)) (Suc 0, 0) = Some (small_ref 1 1)"
    unfolding slot_vertex_Some using mem(2) by (auto simp: demo_leader dag_of_get(3) [OF d] small_vertex_facts small_ref_def)
  show "slot_vertex zero_hash (view_of (late_vertices x)) (0, 0) = Some (small_ref 0 0)"
    unfolding slot_vertex_Some using mem(3) by (auto simp: demo_leader dag_of_get(3) [OF d] small_vertex_facts small_ref_def)
qed

text \<open>The late view decides round 0 by whether \<open>x\<close> reaches its leader's vertex.\<close>

lemma late_decisions:
  assumes "names_parents x" "small_digest x = [2, 2]" "vertices_checked (late_vertices x)"
  shows "decide_slots zero_hash (view_of (late_vertices x)) =
    [((0, 0), if strong_path (dag_of small_digest (late_vertices x)) [2, 2] (small_ref 0 0) then Commit (small_ref 0 0) else Skip),
     ((1, 0), Commit (small_ref 1 1)), ((2, 0), Commit \<lparr>r_round = 2, r_source = 2, r_digest = [2, 2]\<rparr>)]"
proof -
  have q: "quorum demo_committee = 3" "c_total_seats demo_committee = 4" by (simp_all add: quorum_def demo_thresholds)
  have "v_round x \<le> 3" using assms(1) by (simp add: names_parents_def)
  then show ?thesis
    unfolding decide_slots_def demo_open(2) [OF \<open>v_round x \<le> 3\<close>]
    by (simp add: decide_step_def direct_def late_support [OF assms(1)] late_vertex_at [OF assms] q indirect_def less_eq_prod_def)
qed

lemma demo_consistent:
  "view_pair zero_hash F (view_of early_vertices) (view_of (late_vertices mislabelled))"
  "view_pair zero_hash F (view_of early_vertices) (view_of (late_vertices (small_vertex 2 2 [1, 2, 3])))"
  using demo_vertices_checked by (rule_tac [!] views_of_consistent)
    (simp_all add: vertices_checked_def, simp_all add: demo_vertices)

lemma demo_faulty: "sum (c_seats demo_committee) ({2} \<inter> member_set demo_committee) \<le> max_faulty demo_committee"
  by (simp add: c_seats_demo demo_thresholds)

lemma early_decisions: "((0, 0), Commit (small_ref 0 0)) \<in> set (decide_slots zero_hash (view_of early_vertices))"
proof -
  have d: "distinct (map (\<lambda>v. (v_round v, v_source v)) early_vertices)" "distinct (map small_digest early_vertices)"
    using demo_vertices_checked(1) by (simp_all add: vertices_checked_def)
  have "small_vertex 0 0 [] \<in> set early_vertices" by (simp add: early_vertices_def)
  then have "slot_vertex zero_hash (view_of early_vertices) (0, 0) = Some (small_ref 0 0)"
    unfolding slot_vertex_Some by (auto simp: demo_leader dag_of_get(3) [OF d] small_vertex_facts small_ref_def)
  then show ?thesis
    unfolding decide_slots_def demo_open by (simp add: decide_step_def direct_def early_support quorum_def demo_thresholds)
qed

lemma strong_refs_of:
  assumes "vertices_checked vs" "v \<in> set vs"
  shows "strong_refs (dag_of small_digest vs) (small_digest v) = set (v_strong v)"
    "dag_get (dag_of small_digest vs) (small_digest v) = Some v"
proof -
  show "dag_get (dag_of small_digest vs) (small_digest v) = Some v"
    using assms by (subst dag_of_get) (simp_all add: vertices_checked_def)
  then show "strong_refs (dag_of small_digest vs) (small_digest v) = set (v_strong v)" by (simp add: strong_refs_def)
qed

lemma mislabelled_path: "\<not> strong_path (dag_of small_digest (late_vertices mislabelled)) [2, 2] (small_ref 0 0)"
proof -
  let ?g = "dag_of small_digest (late_vertices mislabelled)"
  note refs = strong_refs_of [OF demo_vertices_checked(2)]
  have x: "mislabelled \<in> set (late_vertices mislabelled)" "small_digest mislabelled = [2, 2]" "v_round mislabelled = 2"
    by (simp_all add: demo_vertices)
  have g: "strong_refs ?g [2, 2] = set (v_strong mislabelled)" "dag_get ?g [2, 2] = Some mislabelled" using refs [OF x(1)] x(2) by simp_all
  have leaves: "strong_refs ?g [0, of_nat i] = {}" if "i \<in> {1, 2, 3}" for i
    using refs(1) [of "small_vertex 0 i []"] that by (auto simp: late_vertices_def small_vertex_def small_digest_def)
  have none: "\<not> path_loop ?g to r {}" for to r by (simp add: path_loop.simps)
  have low: "\<not> path_loop ?g to r D" if "\<And>d. d \<in> D \<Longrightarrow> strong_refs ?g d = {}" for to r D
    by (subst path_loop.simps) (simp add: that none)
  have "\<not> path_loop ?g (small_ref 0 0) 2 {[2, 2]}"
  proof -
    let ?D = "\<Union>d \<in> {[2, 2]}. r_digest ` {s \<in> strong_refs ?g d. r_round s \<noteq> r_round (small_ref 0 0)}"
    have round1: "r_round s = 1" "\<exists>i \<in> {1, 2, 3}. r_digest s = [0, of_nat i]" if "s \<in> strong_refs ?g [2, 2]" for s
      using that unfolding g(1) by (auto simp: mislabelled_def)
    have "strong_refs ?g d = {}" if "d \<in> ?D" for d
    proof -
      obtain t where "t \<in> strong_refs ?g [2, 2]" "d = r_digest t" using \<open>d \<in> ?D\<close> by blast
      then show ?thesis using round1(2) [of t] leaves by metis
    qed
    then have "\<not> path_loop ?g (small_ref 0 0) (2 - 1) ?D" by (rule low)
    moreover have "r_round (small_ref 0 0) = 0" by (simp add: small_ref_def)
    ultimately show ?thesis using round1(1) by (subst path_loop.simps) auto
  qed
  then show ?thesis using g(2) x(3) by (simp add: strong_path_def small_ref_def)
qed

text \<open>
  Property C15. The checks the code makes do not give agreement: with one faulty validator of four,
  whose vertex labels digests of round 0 as parents of round 1, two views that pass every check of the
  code and agree on every vertex decide a slot differently, one committing the leader's vertex and
  the other skipping it.
\<close>

theorem mislabelled_references_fork:
  "view_checked small_digest (view_of early_vertices) \<and> view_checked small_digest (view_of (late_vertices mislabelled))
   \<and> view_pair zero_hash {2} (view_of early_vertices) (view_of (late_vertices mislabelled))
   \<and> sum (c_seats demo_committee) ({2} \<inter> member_set demo_committee) \<le> max_faulty demo_committee
   \<and> ((0, 0), Commit (small_ref 0 0)) \<in> set (decide_slots zero_hash (view_of early_vertices))
   \<and> ((0, 0), Skip) \<in> set (decide_slots zero_hash (view_of (late_vertices mislabelled)))"
proof -
  have "names_parents mislabelled" "small_digest mislabelled = [2, 2]" by (simp_all add: names_parents_def demo_vertices)
  then have "((0, 0), Skip) \<in> set (decide_slots zero_hash (view_of (late_vertices mislabelled)))"
    using late_decisions demo_vertices_checked(2) mislabelled_path by simp
  then show ?thesis
    using view_of_checked demo_vertices_checked(1,2) demo_consistent(1) demo_faulty early_decisions by blast
qed

lemma demo_genuine:
  "dag_genuine (dag_of small_digest early_vertices)"
  "dag_genuine (dag_of small_digest (late_vertices (small_vertex 2 2 [1, 2, 3])))"
proof -
  have gen: "dag_genuine (dag_of small_digest vs)" if "vertices_checked vs"
    "list_all (\<lambda>v. list_all (\<lambda>s. list_all (\<lambda>w. small_digest w = r_digest s \<longrightarrow> v_round w = r_round s \<and> v_source w = r_source s) vs)
       (v_strong v @ v_weak v)) vs" for vs
    using that unfolding dag_genuine_def vertices_checked_def by (auto simp: dag_of_get(1) list_all_iff)
  show "dag_genuine (dag_of small_digest early_vertices)" by (rule gen [OF demo_vertices_checked(1)]) (simp add: demo_vertices)
  show "dag_genuine (dag_of small_digest (late_vertices (small_vertex 2 2 [1, 2, 3])))"
    by (rule gen [OF demo_vertices_checked(3)]) (simp add: demo_vertices)
qed

theorem commit_rule_agreement_witness:
  "((0, 0), Commit (small_ref 0 0)) \<in> set (decide_slots zero_hash (view_of (late_vertices (small_vertex 2 2 [1, 2, 3]))))"
proof -
  let ?w = "view_of early_vertices" and ?w' = "view_of (late_vertices (small_vertex 2 2 [1, 2, 3]))"
  have "names_parents (small_vertex 2 2 [1, 2, 3])" "small_digest (small_vertex 2 2 [1, 2, 3]) = [2, 2]"
    by (simp_all add: names_parents_def demo_vertices)
  then obtain d where d: "((0, 0), d) \<in> set (decide_slots zero_hash ?w')" "d \<noteq> Undecided"
    using late_decisions [OF _ _ demo_vertices_checked(3)] by auto
  have "view_ok small_digest ?w" "view_ok small_digest ?w'"
    unfolding view_ok_def using view_of_checked demo_vertices_checked demo_genuine by simp_all
  then have "Commit (small_ref 0 0) = d"
    using commit_rule_agreement [OF _ _ demo_consistent(2) [of "{2}"] _ early_decisions d(1) _ d(2)] demo_faulty by simp
  then show ?thesis using d(1) by simp
qed

end
