(* ===== verification/Batches.thy ===== *)
theory Batches
  imports Vertex
begin

text \<open>
  Transaction batches and their release in the ordered history
  (\<^verbatim>\<open>crates/tenzro-consensus/src/batch.rs\<close>): the sealed batch payload, and the availability state
  that releases each author's batches in sequence order. The iteration over the hash map of authors
  in \<open>expire_gaps\<close> has an unspecified order, so it is a parameter, and the release is shown not to
  depend on it.
\<close>

section \<open>Batch payloads\<close>

record batch_part =
  p_transactions :: nat
  p_bytes :: bytes

record batch_payload =
  bp_epoch :: nat
  bp_author :: validator_index
  bp_sequence :: nat
  bp_transactions :: nat
  bp_body :: bytes

definition PART_HEADER_BYTES :: nat where "PART_HEADER_BYTES = 4"

definition seal_parts :: "nat \<Rightarrow> validator_index \<Rightarrow> nat \<Rightarrow> batch_part list \<Rightarrow> batch_payload" where
  "seal_parts epoch author sequence ps =
     \<lparr>bp_epoch = epoch, bp_author = author, bp_sequence = sequence,
      bp_transactions = foldl (\<lambda>t p. sat_add 32 t (p_transactions p)) 0 ps,
      bp_body = concat (map (\<lambda>p. to_be 4 (length (p_bytes p) mod 2 ^ 32) @ p_bytes p) ps)\<rparr>"

function parts_loop :: "bytes \<Rightarrow> bytes list \<Rightarrow> bytes list option" where
  "parts_loop rest out =
     (if rest = [] then Some out
      else if length rest < PART_HEADER_BYTES then None
      else let len = from_be (take PART_HEADER_BYTES rest); tail = drop PART_HEADER_BYTES rest
           in if length tail < len then None
              else parts_loop (drop len tail) (out @ [take len tail]))"
  by pat_completeness auto

termination parts_loop
  by (relation "measure (\<lambda>(rest, out). length rest)") (auto simp: PART_HEADER_BYTES_def)

declare parts_loop.simps [simp del]

definition parts :: "batch_payload \<Rightarrow> bytes list option" where
  "parts p = parts_loop (bp_body p) []"

lemma parts_loop_sealed:
  assumes "list_all (\<lambda>p. length (p_bytes p) < 2 ^ 32) ps"
  shows "parts_loop (concat (map (\<lambda>p. to_be 4 (length (p_bytes p) mod 2 ^ 32) @ p_bytes p) ps)) out = Some (out @ map p_bytes ps)"
  using assms
proof (induction ps arbitrary: out)
  case Nil
  then show ?case by (simp add: parts_loop.simps)
next
  case (Cons p ps)
  have "(256::nat) ^ 4 = 2 ^ 32" by simp
  then have len: "from_be (to_be 4 (length (p_bytes p) mod 2 ^ 32)) = length (p_bytes p)"
    using Cons.prems by (subst from_to_be) simp_all
  have "to_be 4 (length (p_bytes p) mod 2 ^ 32) \<noteq> []" using length_to_be by (metis length_0_conv zero_neq_numeral)
  then show ?case
    using Cons len by (subst parts_loop.simps) (simp add: PART_HEADER_BYTES_def Let_def)
qed

text \<open>
  The parts sealed into a batch are read back in order, whatever their bytes, when
  each is shorter than 4 GiB.
\<close>

theorem parts_of_sealed:
  assumes "list_all (\<lambda>p. length (p_bytes p) < 2 ^ 32) ps"
  shows "parts (seal_parts epoch author sequence ps) = Some (map p_bytes ps)"
  using parts_loop_sealed [OF assms] by (simp add: parts_def seal_parts_def)

theorem parts_of_sealed_witness:
  "parts (seal_parts 1 2 3 [\<lparr>p_transactions = 1, p_bytes = [7, 8]\<rparr>, \<lparr>p_transactions = 0, p_bytes = []\<rparr>]) = Some [[7, 8], []]"
  by (subst parts_of_sealed) simp_all

section \<open>Availability\<close>

record ordered_batch =
  ob_batch :: batch_ref
  ob_author :: validator_index
  ob_round :: round

definition MAX_UNRELEASED_PER_AUTHOR :: nat where "MAX_UNRELEASED_PER_AUTHOR = 4096"

type_synonym introduction = "round \<times> nat \<times> batch_ref"

text \<open>
  \<open>early\<close> keeps, per author, a map from sequences to introductions; its first entry is the one of
  the least sequence.
\<close>

record availability =
  a_next :: "(validator_index \<times> nat) list"
  a_early :: "(validator_index \<times> (nat \<times> introduction) list) list"
  a_ready :: "(round \<times> validator_index \<times> nat \<times> batch_ref) list"

definition avail_new :: availability where
  "avail_new = \<lparr>a_next = [], a_early = [], a_ready = []\<rparr>"

definition released_through :: "availability \<Rightarrow> validator_index \<Rightarrow> nat" where
  "released_through a author = (case map_of (a_next a) author of None \<Rightarrow> 0 | Some n \<Rightarrow> n)"

definition early_of :: "availability \<Rightarrow> validator_index \<Rightarrow> (nat \<times> introduction) list" where
  "early_of a author = (case map_of (a_early a) author of None \<Rightarrow> [] | Some m \<Rightarrow> m)"

definition introduce :: "validator_index \<Rightarrow> round \<Rightarrow> nat \<Rightarrow> batch_ref \<Rightarrow> availability \<Rightarrow> availability" where
  "introduce author r position b a =
     (if b_sequence b < released_through a author \<or> b_sequence b = uint_max 64 then a
      else let early = early_of a author in
        a\<lparr>a_early := al_put author
            (if (length early < MAX_UNRELEASED_PER_AUTHOR \<or> map_of early (b_sequence b) \<noteq> None)
                \<and> map_of early (b_sequence b) = None
             then al_put (b_sequence b) (r, position, b) early else early) (a_early a)\<rparr>)"

text \<open>The run of waiting introductions from sequence \<open>n\<close> on, and what is left.\<close>

function take_run ::
  "validator_index \<Rightarrow> nat \<Rightarrow> (nat \<times> introduction) list \<Rightarrow> (round \<times> validator_index \<times> nat \<times> batch_ref) list
     \<Rightarrow> nat \<times> (nat \<times> introduction) list \<times> (round \<times> validator_index \<times> nat \<times> batch_ref) list" where
  "take_run author n early ready =
     (case map_of early n of
        None \<Rightarrow> (n, early, ready)
      | Some (r, position, b) \<Rightarrow> take_run author (Suc n) (al_del n early) (ready @ [(r, author, position, b)]))"
  by pat_completeness auto

termination take_run
proof (relation "measure (\<lambda>(author, n, early, ready). length early)", goal_cases)
  case (2 author n early ready x r y position b)
  then have "n \<in> fst ` set early" by (metis map_of_eq_None_iff option.distinct(1))
  then show ?case using length_al_del(2) [of n early] by simp
qed simp

declare take_run.simps [simp del]

definition avail_advance :: "validator_index \<Rightarrow> availability \<Rightarrow> availability" where
  "avail_advance author a =
     (case map_of (a_early a) author of
        None \<Rightarrow> a\<lparr>a_next := al_put author (released_through a author) (a_next a)\<rparr>
      | Some early \<Rightarrow>
          (case take_run author (released_through a author) early (a_ready a) of (n, early', ready) \<Rightarrow>
             a\<lparr>a_next := al_put author n (a_next a), a_early := al_put author early' (a_early a), a_ready := ready\<rparr>))"

definition on_ordered :: "vertex \<Rightarrow> availability \<Rightarrow> availability" where
  "on_ordered v a =
     avail_advance (v_source v)
       (foldl (\<lambda>a (position, b). introduce (v_source v) (v_round v) position b a) a (enumerate 0 (v_batches v)))"

definition on_carried :: "vertex \<Rightarrow> availability \<Rightarrow> availability" where
  "on_carried v a =
     foldl (\<lambda>a author. avail_advance author a)
       (foldl (\<lambda>a (i, c). introduce (cb_author c) (v_round v) (MAX_BATCH_REFS + i) (cb_batch c) a) a (enumerate 0 (v_carried v)))
       (remdups_adj (map cb_author (v_carried v)))"

text \<open>One author's step of \<open>expire_gaps\<close>; the whole visits the authors with an entry in any order.\<close>

definition expire_author :: "round \<Rightarrow> availability \<Rightarrow> validator_index \<Rightarrow> availability" where
  "expire_author floor a author =
     (let early = early_of a author in
      if early = [] then a
      else let first = Min (fst ` set early); (r, _, _) = the (map_of early first);
               a = a\<lparr>a_next := al_put author (released_through a author) (a_next a)\<rparr>
           in if floor < r \<or> first \<le> released_through a author then a
              else (case take_run author first early (a_ready a) of (n, early', ready) \<Rightarrow>
                a\<lparr>a_next := al_put author n (a_next a), a_early := al_put author early' (a_early a), a_ready := ready\<rparr>))"

definition expire_gaps :: "validator_index list \<Rightarrow> round \<Rightarrow> availability \<Rightarrow> availability" where
  "expire_gaps order floor a = foldl (expire_author floor) a order"

definition release :: "availability \<Rightarrow> ordered_batch list \<times> availability" where
  "release a =
     (map (\<lambda>(r, author, _, b). \<lparr>ob_batch = b, ob_author = author, ob_round = r\<rparr>)
        (sort_key (\<lambda>(r, author, position, _). (r, author, position)) (a_ready a)),
      a\<lparr>a_ready := []\<rparr>)"

record availability_state =
  as_next :: "(validator_index \<times> nat) list"
  as_early :: "(validator_index \<times> (nat \<times> round \<times> nat \<times> batch_ref) list) list"

definition avail_export :: "availability \<Rightarrow> availability_state" where
  "avail_export a =
     \<lparr>as_next = sort_key fst (filter (\<lambda>(_, s). 0 < s) (a_next a)),
      as_early = sort_key fst (map (\<lambda>(author, m). (author, map (\<lambda>(s, r, p, b). (s, r, p, b)) (sort_key fst m)))
        (filter (\<lambda>(_, m). m \<noteq> []) (a_early a)))\<rparr>"

definition avail_import :: "availability_state \<Rightarrow> availability" where
  "avail_import st =
     \<lparr>a_next = as_next st,
      a_early = map (\<lambda>(author, v). (author, map (\<lambda>(s, r, p, b). (s, (r, p, b))) v)) (as_early st),
      a_ready = []\<rparr>"

definition pending_len :: "availability \<Rightarrow> nat" where
  "pending_len a = sum_list (map (\<lambda>(_, m). length m) (a_early a))"

section \<open>Well-formed availability\<close>

text \<open>The author and sequence of a ready entry.\<close>

definition ready_key :: "round \<times> validator_index \<times> nat \<times> batch_ref \<Rightarrow> validator_index \<times> nat" where
  "ready_key = (\<lambda>(r, author, position, b). (author, b_sequence b))"

definition early_ok :: "nat \<Rightarrow> (nat \<times> introduction) list \<Rightarrow> bool" where
  "early_ok n early \<longleftrightarrow> distinct (map fst early) \<and> length early \<le> MAX_UNRELEASED_PER_AUTHOR
     \<and> (\<forall>s r p b. (s, (r, p, b)) \<in> set early \<longrightarrow> n \<le> s \<and> s \<noteq> uint_max 64 \<and> b_sequence b = s)"

definition avail_ok :: "availability \<Rightarrow> bool" where
  "avail_ok a \<longleftrightarrow> distinct (map fst (a_next a)) \<and> distinct (map fst (a_early a))
     \<and> (\<forall>author. early_ok (released_through a author) (early_of a author))
     \<and> distinct (map ready_key (a_ready a))
     \<and> (\<forall>e \<in> set (a_ready a). snd (ready_key e) < released_through a (fst (ready_key e)))"

lemma avail_okD:
  assumes "avail_ok a"
  shows "distinct (map fst (a_next a))" "distinct (map fst (a_early a))" "early_ok (released_through a author) (early_of a author)"
    "distinct (map ready_key (a_ready a))" "e \<in> set (a_ready a) \<Longrightarrow> snd (ready_key e) < released_through a (fst (ready_key e))"
  using assms unfolding avail_ok_def by blast+

lemma early_okD:
  assumes "early_ok n early"
  shows "distinct (map fst early)" "length early \<le> MAX_UNRELEASED_PER_AUTHOR"
    "map_of early s = Some (r, p, b) \<Longrightarrow> n \<le> s \<and> s \<noteq> uint_max 64 \<and> b_sequence b = s"
  using assms by (auto simp: early_ok_def dest: map_of_SomeD)

lemma early_ok_nil [simp]: "early_ok n []"
  by (simp add: early_ok_def)

text \<open>A run takes the consecutive sequences from \<open>n\<close> and leaves the rest.\<close>

definition run_result ::
  "validator_index \<Rightarrow> nat \<Rightarrow> (nat \<times> introduction) list \<Rightarrow> (round \<times> validator_index \<times> nat \<times> batch_ref) list
     \<Rightarrow> nat \<Rightarrow> (nat \<times> introduction) list \<Rightarrow> (round \<times> validator_index \<times> nat \<times> batch_ref) list \<Rightarrow> bool" where
  "run_result author n early ready n' early' ready' \<longleftrightarrow>
     n \<le> n' \<and> (\<exists>new. ready' = ready @ new \<and> map ready_key new = map (Pair author) [n..<n'])
     \<and> distinct (map fst early') \<and> length early' \<le> length early
     \<and> (\<forall>e. e \<in> set early' \<longleftrightarrow> e \<in> set early \<and> (fst e < n \<or> n' \<le> fst e))"

lemma take_run_spec:
  assumes "early_ok n0 early" "n0 \<le> n" "take_run author n early ready = (n', early', ready')"
  shows "run_result author n early ready n' early' ready'"
  using assms
proof (induction author n early ready rule: take_run.induct)
  case (1 author n early ready)
  show ?case
  proof (cases "map_of early n")
    case None
    then have "n' = n" "early' = early" "ready' = ready" using "1.prems"(3) by (simp_all add: take_run.simps [of _ n])
    moreover have "n \<notin> fst ` set early" using None by (simp add: map_of_eq_None_iff)
    ultimately show ?thesis using early_okD(1) [OF "1.prems"(1)] unfolding run_result_def by force
  next
    case (Some i)
    obtain r p b where i: "i = (r, p, b)" by (cases i)
    have ok': "early_ok n0 (al_del n early)"
      using "1.prems"(1) length_al_del(1) [of n early] by (auto simp: early_ok_def set_al_del)
    have step: "take_run author (Suc n) (al_del n early) (ready @ [(r, author, p, b)]) = (n', early', ready')"
      using "1.prems"(3) Some i by (simp add: take_run.simps [of _ n])
    have IH: "run_result author (Suc n) (al_del n early) (ready @ [(r, author, p, b)]) n' early' ready'"
      using "1.IH" [OF Some i [symmetric] refl ok' _ step] "1.prems"(2) by simp
    then obtain new where new: "ready' = (ready @ [(r, author, p, b)]) @ new" "map ready_key new = map (Pair author) [Suc n..<n']"
      unfolding run_result_def by blast
    have n': "Suc n \<le> n'" using IH by (simp add: run_result_def)
    have "b_sequence b = n" using early_okD(3) [OF "1.prems"(1)] Some i by blast
    then have keys: "map ready_key ((r, author, p, b) # new) = map (Pair author) [n..<n']"
      using new(2) n' by (simp add: ready_key_def upt_conv_Cons)
    have "e \<in> set early' \<longleftrightarrow> e \<in> set early \<and> (fst e < n \<or> n' \<le> fst e)" for e
      using IH n' unfolding run_result_def set_al_del by (metis Suc_le_eq less_Suc_eq not_less)
    moreover have "length early' \<le> length early" "distinct (map fst early')"
      using IH length_al_del(1) [of n early] by (auto simp: run_result_def)
    ultimately show ?thesis using n' new(1) keys unfolding run_result_def by fastforce
  qed
qed

text \<open>
  What an operation may do to the state: it keeps it well formed, moves no frontier back, and adds
  ready entries between the old frontier and the new one, each once.
\<close>

definition avail_grows :: "availability \<Rightarrow> availability \<Rightarrow> bool" where
  "avail_grows a a' \<longleftrightarrow> avail_ok a' \<and> (\<forall>author. released_through a author \<le> released_through a' author)
     \<and> (\<exists>new. a_ready a' = a_ready a @ new \<and> (\<forall>e \<in> set new. released_through a (fst (ready_key e)) \<le> snd (ready_key e)))"

lemma avail_grows_refl: "avail_ok a \<Longrightarrow> avail_grows a a"
  by (simp add: avail_grows_def)

lemma avail_grows_trans: "avail_grows a b \<Longrightarrow> avail_grows b c \<Longrightarrow> avail_grows a c"
  unfolding avail_grows_def by (auto intro: order_trans) (meson Un_iff order_trans)+

lemma avail_grows_foldl:
  assumes "\<And>x a. x \<in> set xs \<Longrightarrow> avail_ok a \<Longrightarrow> avail_grows a (f a x)"
  shows "avail_ok a \<Longrightarrow> avail_grows a (foldl f a xs)"
  using assms
proof (induction xs arbitrary: a)
  case (Cons x xs)
  have "avail_grows a (f a x)" using Cons.prems by simp
  moreover from this have "avail_grows (f a x) (foldl f (f a x) xs)" using Cons by (simp add: avail_grows_def)
  ultimately show ?case by (simp add: avail_grows_trans)
qed (simp add: avail_grows_refl)

text \<open>Taking a run of one author, from its frontier or past a gap.\<close>

lemma take_run_grows:
  assumes ok: "avail_ok a" and le: "released_through a author \<le> n"
    and run: "take_run author n (early_of a author) (a_ready a) = (n', early', ready')"
    and least: "\<And>e. e \<in> set (early_of a author) \<Longrightarrow> n \<le> fst e"
  shows "avail_grows a (a\<lparr>a_next := al_put author n' (a_next a), a_early := al_put author early' (a_early a), a_ready := ready'\<rparr>)"
    (is "avail_grows a ?a")
proof -
  note eok = avail_okD(3) [OF ok, of author]
  have res: "run_result author n (early_of a author) (a_ready a) n' early' ready'" using take_run_spec [OF eok le run] .
  then obtain new where new: "ready' = a_ready a @ new" "map ready_key new = map (Pair author) [n..<n']"
    unfolding run_result_def by blast
  have rt: "released_through ?a x = (if x = author then n' else released_through a x)" for x
    by (simp add: released_through_def)
  have early: "early_of ?a x = (if x = author then early' else early_of a x)" for x by (simp add: early_of_def)
  have n': "n \<le> n'" using res by (simp add: run_result_def)
  have "early_ok n' early'"
    using res eok least unfolding early_ok_def run_result_def by (metis (no_types, lifting) fst_conv leD le_trans)
  then have eoks: "early_ok (released_through ?a x) (early_of ?a x)" for x using avail_okD(3) [OF ok] by (simp add: rt early)
  have newkeys: "ready_key ` set new = Pair author ` {n..<n'}" using new(2) by (metis list.set_map set_upt)
  have newkey: "\<exists>m. ready_key e = (author, m) \<and> n \<le> m \<and> m < n'" if "e \<in> set new" for e
  proof -
    have "ready_key e \<in> Pair author ` {n..<n'}" using that newkeys by blast
    then show ?thesis by auto
  qed
  have "distinct (map ready_key new)" unfolding new(2) by (simp add: distinct_map inj_on_def)
  moreover have "ready_key ` set (a_ready a) \<inter> ready_key ` set new = {}"
  proof -
    have "(author, m) \<notin> ready_key ` set (a_ready a)" if "n \<le> m" for m
      using avail_okD(5) [OF ok] le that by (metis fst_conv imageE leD le_trans snd_conv)
    then show ?thesis unfolding newkeys by fastforce
  qed
  ultimately have dis: "distinct (map ready_key ready')" using avail_okD(4) [OF ok] new(1) by simp
  have below: "snd (ready_key e) < released_through ?a (fst (ready_key e))" if "e \<in> set ready'" for e
  proof (cases "e \<in> set new")
    case True
    then obtain m where "ready_key e = (author, m)" "m < n'" using newkey by blast
    then show ?thesis by (simp add: rt)
  next
    case False
    then have "e \<in> set (a_ready a)" using that new(1) by simp
    then show ?thesis using avail_okD(5) [OF ok, of e] le n' by (auto simp: rt)
  qed
  have "avail_ok ?a" using avail_okD(1,2) [OF ok] eoks dis below unfolding avail_ok_def by simp
  moreover have "released_through a (fst (ready_key e)) \<le> snd (ready_key e)" if "e \<in> set new" for e
  proof -
    obtain m where "ready_key e = (author, m)" "n \<le> m" using newkey [OF \<open>e \<in> set new\<close>] by blast
    then show ?thesis using le by simp
  qed
  ultimately show ?thesis unfolding avail_grows_def using new(1) rt le n' by auto
qed

lemma introduce_grows:
  assumes ok: "avail_ok a"
  shows "avail_grows a (introduce author r position b a)"
proof (cases "b_sequence b < released_through a author \<or> b_sequence b = uint_max 64")
  case True
  then show ?thesis using avail_grows_refl [OF ok] by (auto simp: introduce_def)
next
  case False
  let ?early = "early_of a author"
  let ?early' = "if (length ?early < MAX_UNRELEASED_PER_AUTHOR \<or> map_of ?early (b_sequence b) \<noteq> None)
      \<and> map_of ?early (b_sequence b) = None then al_put (b_sequence b) (r, position, b) ?early else ?early"
  let ?a = "a\<lparr>a_early := al_put author ?early' (a_early a)\<rparr>"
  have intro: "introduce author r position b a = ?a" using False by (simp add: introduce_def Let_def)
  note eok = avail_okD(3) [OF ok, of author]
  have "length (al_put k v xs) \<le> Suc (length xs)" for k :: nat and v :: introduction and xs by (simp add: al_put_def)
  then have "early_ok (released_through a author) (al_put (b_sequence b) (r, position, b) ?early)"
    if "length ?early < MAX_UNRELEASED_PER_AUTHOR"
    unfolding early_ok_def set_al_put
  proof (intro conjI allI impI)
    show "distinct (map fst (al_put (b_sequence b) (r, position, b) ?early))" using early_okD(1) [OF eok] by simp
    show "length (al_put (b_sequence b) (r, position, b) ?early) \<le> MAX_UNRELEASED_PER_AUTHOR"
      using that \<open>\<And>k v xs. length (al_put k v xs) \<le> Suc (length xs)\<close> by (meson Suc_leI le_trans)
  next
    fix t q p c
    assume t: "(t, q, p, c) = (b_sequence b, r, position, b) \<or> (t, q, p, c) \<in> set ?early \<and> fst (t, q, p, c) \<noteq> b_sequence b"
    have "released_through a author \<le> t \<and> t \<noteq> uint_max 64 \<and> b_sequence c = t" if "(t, q, p, c) \<in> set ?early"
      using eok that unfolding early_ok_def by blast
    then show "released_through a author \<le> t" "t \<noteq> uint_max 64" "b_sequence c = t" using t False by auto
  qed
  then have "early_ok (released_through a author) ?early'" using eok by (simp split del: if_split) auto
  moreover have "early_of ?a x = (if x = author then ?early' else early_of a x)" "released_through ?a x = released_through a x" for x
    by (simp_all add: early_of_def released_through_def)
  ultimately have "early_ok (released_through ?a x) (early_of ?a x)" for x using avail_okD(3) [OF ok] by simp
  then have "avail_ok ?a" using ok unfolding avail_ok_def by (simp add: released_through_def)
  then show ?thesis unfolding intro avail_grows_def by (simp add: released_through_def)
qed

definition set_next :: "validator_index \<Rightarrow> availability \<Rightarrow> availability" where
  "set_next author a = a\<lparr>a_next := al_put author (released_through a author) (a_next a)\<rparr>"

lemma set_next_ok:
  assumes "avail_ok a"
  shows "avail_ok (set_next author a)" "released_through (set_next author a) = released_through a"
    "early_of (set_next author a) = early_of a" "a_ready (set_next author a) = a_ready a"
proof -
  show rt: "released_through (set_next author a) = released_through a" "early_of (set_next author a) = early_of a"
    "a_ready (set_next author a) = a_ready a"
    by (auto simp: released_through_def early_of_def fun_eq_iff set_next_def)
  show "avail_ok (set_next author a)" using assms unfolding avail_ok_def rt by (simp add: set_next_def)
qed

lemma early_of_map: "map_of (a_early a) author = Some m \<Longrightarrow> early_of a author = m"
  by (simp add: early_of_def)

lemma avail_advance_grows:
  assumes ok: "avail_ok a"
  shows "avail_grows a (avail_advance author a)"
proof (cases "map_of (a_early a) author")
  case None
  then show ?thesis using set_next_ok [OF ok, of author] by (simp add: avail_advance_def avail_grows_def flip: set_next_def)
next
  case (Some early)
  obtain n' early' ready' where run: "take_run author (released_through a author) early (a_ready a) = (n', early', ready')"
    by (metis prod_cases3)
  have "released_through a author \<le> fst e" if "e \<in> set (early_of a author)" for e
    using avail_okD(3) [OF ok, of author] that unfolding early_ok_def by (metis prod.collapse)
  then show ?thesis
    using take_run_grows [OF ok order_refl, of author n' early' ready'] early_of_map [OF Some] Some run
    by (simp add: avail_advance_def)
qed

lemma expire_author_grows:
  assumes ok: "avail_ok a"
  shows "avail_grows a (expire_author floor a author)"
proof (cases "early_of a author = []")
  case True
  then show ?thesis using avail_grows_refl [OF ok] by (simp add: expire_author_def Let_def)
next
  case False
  let ?early = "early_of a author" let ?first = "Min (fst ` set ?early)"
  let ?b = "set_next author a"
  note b = set_next_ok [OF ok, of author]
  have ab: "avail_grows a ?b" using b by (simp add: avail_grows_def)
  obtain r x where first: "the (map_of ?early ?first) = (r, x)" by (metis surj_pair)
  obtain n' early' ready' where run: "take_run author ?first ?early (a_ready a) = (n', early', ready')" by (metis prod_cases3)
  have least: "?first \<le> fst e" if "e \<in> set ?early" for e using that by simp
  show ?thesis
  proof (cases "floor < r \<or> ?first \<le> released_through a author")
    case True
    then have "expire_author floor a author = ?b"
      using False first by (auto simp: expire_author_def Let_def b(2,4) split: prod.splits simp flip: set_next_def)
    then show ?thesis using ab by simp
  next
    case no: False
    have "avail_grows ?b (?b\<lparr>a_next := al_put author n' (a_next ?b), a_early := al_put author early' (a_early ?b), a_ready := ready'\<rparr>)"
      using take_run_grows [OF b(1), where n = ?first] no run least b(2-4) by simp
    moreover have "expire_author floor a author
        = ?b\<lparr>a_next := al_put author n' (a_next ?b), a_early := al_put author early' (a_early ?b), a_ready := ready'\<rparr>"
      using False first no run by (auto simp: expire_author_def Let_def b(2,4) split: prod.splits simp flip: set_next_def)
    ultimately show ?thesis using ab avail_grows_trans by metis
  qed
qed

lemma ops_grow:
  assumes "avail_ok a"
  shows "avail_grows a (on_ordered v a)" "avail_grows a (on_carried v a)" "avail_grows a (expire_gaps order floor a)"
proof -
  have "avail_grows a (foldl (\<lambda>a (position, b). introduce (v_source v) (v_round v) position b a) a (enumerate 0 (v_batches v)))"
    (is "avail_grows a ?b") by (rule avail_grows_foldl [OF _ assms]) (auto intro: introduce_grows)
  moreover from this have "avail_grows ?b (avail_advance (v_source v) ?b)" by (intro avail_advance_grows) (simp add: avail_grows_def)
  ultimately show "avail_grows a (on_ordered v a)" unfolding on_ordered_def by (rule avail_grows_trans)
  have "avail_grows a (foldl (\<lambda>a (i, c). introduce (cb_author c) (v_round v) (MAX_BATCH_REFS + i) (cb_batch c) a) a (enumerate 0 (v_carried v)))"
    (is "avail_grows a ?c") by (rule avail_grows_foldl [OF _ assms]) (auto intro: introduce_grows)
  moreover from this have "avail_grows ?c (foldl (\<lambda>a author. avail_advance author a) ?c (remdups_adj (map cb_author (v_carried v))))"
    by (intro avail_grows_foldl avail_advance_grows) (simp_all add: avail_grows_def)
  ultimately show "avail_grows a (on_carried v a)" unfolding on_carried_def by (rule avail_grows_trans)
  show "avail_grows a (expire_gaps order floor a)"
    unfolding expire_gaps_def by (rule avail_grows_foldl [OF _ assms]) (rule expire_author_grows)
qed

section \<open>Every batch is released once\<close>

datatype avail_op = Ordered vertex | Carried vertex | Expire "validator_index list" round | Release

definition avail_step :: "availability \<times> ordered_batch list list \<Rightarrow> avail_op \<Rightarrow> availability \<times> ordered_batch list list" where
  "avail_step = (\<lambda>(a, log) op. case op of
       Ordered v \<Rightarrow> (on_ordered v a, log)
     | Carried v \<Rightarrow> (on_carried v a, log)
     | Expire order floor \<Rightarrow> (expire_gaps order floor a, log)
     | Release \<Rightarrow> (snd (release a), log @ [fst (release a)]))"

definition batch_key :: "ordered_batch \<Rightarrow> validator_index \<times> nat" where
  "batch_key x = (ob_author x, b_sequence (ob_batch x))"

text \<open>
  No batch is released twice, and a later release holds only later sequences of each author.
\<close>

definition log_ok :: "ordered_batch list list \<Rightarrow> bool" where
  "log_ok log \<longleftrightarrow> distinct (map batch_key (concat log))
     \<and> sorted_wrt (\<lambda>xs ys. \<forall>x \<in> set xs. \<forall>y \<in> set ys. ob_author x = ob_author y \<longrightarrow>
          b_sequence (ob_batch x) < b_sequence (ob_batch y)) log"

definition log_below :: "ordered_batch list list \<Rightarrow> (validator_index \<Rightarrow> nat) \<Rightarrow> bool" where
  "log_below log base \<longleftrightarrow> (\<forall>x \<in> set (concat log). b_sequence (ob_batch x) < base (ob_author x))"

text \<open>\<open>base\<close> is the frontier right after the last release: what is ready lies between it and the frontier.\<close>

definition run_ok :: "availability \<times> ordered_batch list list \<Rightarrow> bool" where
  "run_ok = (\<lambda>(a, log). avail_ok a \<and> log_ok log
     \<and> (\<exists>base. log_below log base \<and> (\<forall>author. base author \<le> released_through a author)
          \<and> (\<forall>e \<in> set (a_ready a). base (fst (ready_key e)) \<le> snd (ready_key e))))"

lemma grows_run_ok:
  assumes "run_ok (a, log)" "avail_grows a a'"
  shows "run_ok (a', log)"
proof -
  obtain base where base: "log_below log base" "\<And>author. base author \<le> released_through a author"
    "\<And>e. e \<in> set (a_ready a) \<Longrightarrow> base (fst (ready_key e)) \<le> snd (ready_key e)" "log_ok log"
    using assms(1) unfolding run_ok_def by auto
  obtain new where new: "a_ready a' = a_ready a @ new"
    "\<And>e. e \<in> set new \<Longrightarrow> released_through a (fst (ready_key e)) \<le> snd (ready_key e)"
    and grows: "avail_ok a'" "\<And>author. released_through a author \<le> released_through a' author"
    using assms(2) unfolding avail_grows_def by blast
  have "base (fst (ready_key e)) \<le> snd (ready_key e)" if "e \<in> set (a_ready a')" for e
  proof (cases "e \<in> set new")
    case True
    then show ?thesis using order_trans [OF base(2) new(2)] by blast
  next
    case False
    then show ?thesis using base(3) [of e] that new(1) by simp
  qed
  moreover have "base author \<le> released_through a' author" for author using base(2) grows(2) order_trans by blast
  ultimately show ?thesis unfolding run_ok_def using base(1,4) grows(1) by auto
qed

lemma release_keys:
  "map batch_key (fst (release a)) = map ready_key (sort_key (\<lambda>(r, author, position, _). (r, author, position)) (a_ready a))"
  by (simp add: release_def batch_key_def ready_key_def case_prod_unfold comp_def)

lemma release_run_ok:
  assumes "run_ok (a, log)"
  shows "run_ok (snd (release a), log @ [fst (release a)])"
proof -
  let ?xs = "fst (release a)" and ?a = "snd (release a)"
  obtain base where base: "log_below log base" "\<And>author. base author \<le> released_through a author"
    "\<And>e. e \<in> set (a_ready a) \<Longrightarrow> base (fst (ready_key e)) \<le> snd (ready_key e)" "log_ok log" and ok: "avail_ok a"
    using assms unfolding run_ok_def by auto
  have keys: "batch_key ` set ?xs = ready_key ` set (a_ready a)" using arg_cong [OF release_keys, of set] by simp
  have "mset (map batch_key ?xs) = mset (map ready_key (a_ready a))" unfolding release_keys by simp
  then have dis: "distinct (map batch_key ?xs)" using avail_okD(4) [OF ok] by (metis mset_eq_imp_distinct_iff)
  have new: "base (ob_author x) \<le> b_sequence (ob_batch x)" "b_sequence (ob_batch x) < released_through a (ob_author x)"
    if "x \<in> set ?xs" for x
  proof -
    obtain e where e: "e \<in> set (a_ready a)" "batch_key x = ready_key e"
      using imageI [OF \<open>x \<in> set ?xs\<close>, of batch_key] unfolding keys by blast
    then have "ready_key e = (ob_author x, b_sequence (ob_batch x))" by (simp add: batch_key_def)
    then show "base (ob_author x) \<le> b_sequence (ob_batch x)" "b_sequence (ob_batch x) < released_through a (ob_author x)"
      using base(3) [OF e(1)] avail_okD(5) [OF ok e(1)] by simp_all
  qed
  have old: "b_sequence (ob_batch x) < base (ob_author x)" if "x \<in> set (concat log)" for x
    using base(1) that unfolding log_below_def by blast
  have "batch_key x \<noteq> batch_key y" if "x \<in> set (concat log)" "y \<in> set ?xs" for x y
    using old [OF that(1)] new(1) [OF that(2)] by (auto simp: batch_key_def)
  then have "batch_key ` set (concat log) \<inter> batch_key ` set ?xs = {}" by blast
  then have "distinct (map batch_key (concat (log @ [?xs])))" using dis base(4) by (simp add: log_ok_def)
  moreover have "b_sequence (ob_batch x) < b_sequence (ob_batch y)"
    if "x \<in> set (concat log)" "y \<in> set ?xs" "ob_author x = ob_author y" for x y
    using old [OF that(1)] new(1) [OF that(2)] that(3) by simp
  ultimately have logok: "log_ok (log @ [?xs])" using base(4) unfolding log_ok_def by (auto simp: sorted_wrt_append)
  have rt: "released_through ?a = released_through a" "early_of ?a = early_of a" "a_ready ?a = []"
    by (simp_all add: release_def released_through_def early_of_def fun_eq_iff)
  have "avail_ok ?a" using ok unfolding avail_ok_def rt by (simp add: release_def)
  moreover have "log_below (log @ [?xs]) (released_through a)"
    unfolding log_below_def using old base(2) new(2) by (auto intro: less_le_trans)
  ultimately show ?thesis unfolding run_ok_def using logok by (auto simp: rt)
qed

lemma avail_step_ok: "run_ok st \<Longrightarrow> run_ok (avail_step st op)"
proof -
  assume ok: "run_ok st"
  obtain a log where st: "st = (a, log)" by (cases st)
  have "avail_ok a" using ok unfolding st run_ok_def by simp
  then show "run_ok (avail_step st op)"
    using grows_run_ok [OF ok [unfolded st]] ops_grow release_run_ok [OF ok [unfolded st]]
    by (cases op) (simp_all add: avail_step_def st)
qed

lemma avail_run_ok: "run_ok st \<Longrightarrow> run_ok (foldl avail_step st ops)"
  by (induction ops arbitrary: st) (simp_all add: avail_step_ok)

lemma avail_new_ok: "run_ok (avail_new, [])"
  by (simp add: run_ok_def avail_ok_def avail_new_def released_through_def early_of_def log_ok_def log_below_def)
    (rule exI [where x = "\<lambda>_. 0"], simp)

text \<open>
  Property C32. However vertices are ordered, batches carried and gaps expired, no batch of an author
  is released twice; a later release holds only later sequences of each author; and an author never
  has more than \<open>MAX_UNRELEASED_PER_AUTHOR\<close> batches waiting.
\<close>

theorem batches_released_once:
  fixes ops :: "avail_op list"
  defines "st \<equiv> foldl avail_step (avail_new, []) ops"
  shows "log_ok (snd st) \<and> length (early_of (fst st) author) \<le> MAX_UNRELEASED_PER_AUTHOR"
proof -
  have "run_ok st" unfolding st_def using avail_run_ok [OF avail_new_ok] .
  then show ?thesis
    using avail_okD(3) early_okD(2) unfolding run_ok_def by (cases st) fastforce
qed

section \<open>The order of authors does not matter\<close>

lemma take_run_ready:
  "take_run author n early ready = (case take_run author n early [] of (n', early', new) \<Rightarrow> (n', early', ready @ new))"
proof (induction "length early" arbitrary: n early ready rule: less_induct)
  case less
  show ?case
  proof (cases "map_of early n")
    case None
    then have "take_run author n early ready = (n, early, ready)" for ready
      by (subst take_run.simps) simp
    then show ?thesis by simp
  next
    case (Some i)
    obtain r p b where i: "i = (r, p, b)" by (cases i)
    then have step: "take_run author n early ready = take_run author (Suc n) (al_del n early) (ready @ [(r, author, p, b)])" for ready
      using Some by (subst take_run.simps) simp
    have "n \<in> fst ` set early" using Some by (metis map_of_eq_None_iff option.distinct(1))
    then have "length (al_del n early) < length early" by (rule length_al_del(2))
    note IH = less.hyps [OF this]
    obtain m e new where base: "take_run author (Suc n) (al_del n early) [] = (m, e, new)" by (metis prod_cases3)
    have "take_run author (Suc n) (al_del n early) xs = (m, e, xs @ new)" for xs
      using IH [of "Suc n" xs] unfolding base by simp
    then show ?thesis unfolding step by simp
  qed
qed

text \<open>What one author's step adds, from that author's part of the state alone.\<close>

definition expire_result ::
  "round \<Rightarrow> validator_index \<Rightarrow> nat \<Rightarrow> (nat \<times> introduction) list
     \<Rightarrow> nat \<times> (nat \<times> introduction) list \<times> (round \<times> validator_index \<times> nat \<times> batch_ref) list" where
  "expire_result floor author n early =
     (if early = [] \<or> floor < fst (the (map_of early (Min (fst ` set early)))) \<or> Min (fst ` set early) \<le> n
      then (n, early, []) else take_run author (Min (fst ` set early)) early [])"

lemma expire_author_result:
  assumes "expire_result floor author (released_through a author) (early_of a author) = (n', early', new)"
  shows "released_through (expire_author floor a author) = (released_through a)(author := n')"
    "early_of (expire_author floor a author) = (early_of a)(author := early')"
    "a_ready (expire_author floor a author) = a_ready a @ new"
proof -
  let ?b = "set_next author a" and ?early = "early_of a author"
  have rt: "released_through ?b = released_through a" "early_of ?b = early_of a" "a_ready ?b = a_ready a"
    by (auto simp: released_through_def early_of_def fun_eq_iff set_next_def)
  consider "?early = []" | "?early \<noteq> []" "floor < fst (the (map_of ?early (Min (fst ` set ?early)))) \<or> Min (fst ` set ?early) \<le> released_through a author"
    | "?early \<noteq> []" "\<not> (floor < fst (the (map_of ?early (Min (fst ` set ?early)))) \<or> Min (fst ` set ?early) \<le> released_through a author)"
    by blast
  then have "released_through (expire_author floor a author) = (released_through a)(author := n')
    \<and> early_of (expire_author floor a author) = (early_of a)(author := early')
    \<and> a_ready (expire_author floor a author) = a_ready a @ new"
  proof cases
    case 1
    then show ?thesis using assms by (auto simp: expire_result_def expire_author_def Let_def)
  next
    case 2
    then have "expire_author floor a author = ?b"
      by (auto simp: expire_author_def Let_def rt split: prod.splits simp flip: set_next_def)
    then show ?thesis using assms 2 rt by (auto simp: expire_result_def)
  next
    case 3
    have run: "take_run author (Min (fst ` set ?early)) ?early [] = (n', early', new)" using assms 3 by (simp add: expire_result_def)
    have run': "take_run author (Min (fst ` set ?early)) ?early (a_ready a) = (n', early', a_ready a @ new)"
      using take_run_ready [of author "Min (fst ` set ?early)" ?early "a_ready a"] run by simp
    have "expire_author floor a author = ?b\<lparr>a_next := al_put author n' (a_next ?b), a_early := al_put author early' (a_early ?b),
        a_ready := a_ready a @ new\<rparr>"
      using 3 run' by (auto simp: expire_author_def Let_def rt split: prod.splits simp flip: set_next_def)
    then show ?thesis by (auto simp: released_through_def early_of_def fun_eq_iff set_next_def)
  qed
  then show "released_through (expire_author floor a author) = (released_through a)(author := n')"
    "early_of (expire_author floor a author) = (early_of a)(author := early')"
    "a_ready (expire_author floor a author) = a_ready a @ new" by blast+
qed

lemma expire_gaps_result:
  fixes a floor
  defines "res \<equiv> \<lambda>x. expire_result floor x (released_through a x) (early_of a x)"
  assumes "distinct order"
  shows "released_through (expire_gaps order floor a) x = (if x \<in> set order then fst (res x) else released_through a x)
    \<and> early_of (expire_gaps order floor a) x = (if x \<in> set order then fst (snd (res x)) else early_of a x)
    \<and> a_ready (expire_gaps order floor a) = a_ready a @ concat (map (\<lambda>x. snd (snd (res x))) order)"
  using assms(2)
proof (induction order arbitrary: x rule: rev_induct)
  case Nil
  then show ?case by (simp add: expire_gaps_def)
next
  case (snoc y order)
  let ?a = "expire_gaps order floor a"
  have y: "y \<notin> set order" "distinct order" using snoc.prems by auto
  obtain n' early' new where r: "res y = (n', early', new)" by (metis prod_cases3)
  have "expire_result floor y (released_through ?a y) (early_of ?a y) = (n', early', new)"
    using snoc.IH [OF y(2), of y] y(1) r unfolding res_def by simp
  note step = expire_author_result [OF this]
  have "expire_gaps (order @ [y]) floor a = expire_author floor ?a y" by (simp add: expire_gaps_def)
  then show ?case using step snoc.IH [OF y(2), of x] r y(1) by (auto simp: fun_upd_def)
qed

lemma expire_result_author:
  assumes "avail_ok a" "e \<in> set (snd (snd (expire_result floor author (released_through a author) (early_of a author))))"
  shows "fst (snd e) = author"
proof -
  let ?early = "early_of a author"
  obtain n' early' new where run: "take_run author (Min (fst ` set ?early)) ?early [] = (n', early', new)" by (metis prod_cases3)
  let ?none = "?early = [] \<or> floor < fst (the (map_of ?early (Min (fst ` set ?early)))) \<or> Min (fst ` set ?early) \<le> released_through a author"
  have cond: "\<not> ?none"
  proof
    assume ?none
    then have "snd (snd (expire_result floor author (released_through a author) ?early)) = []" unfolding expire_result_def if_P [OF \<open>?none\<close>] by simp
    then show False using assms(2) by simp
  qed
  have "e \<in> set new" using assms(2) run unfolding expire_result_def if_not_P [OF cond] by simp
  moreover have "released_through a author \<le> Min (fst ` set ?early)" using cond by linarith
  ultimately have e: "e \<in> set new" "released_through a author \<le> Min (fst ` set ?early)" by blast+
  have "map ready_key new = map (Pair author) [Min (fst ` set ?early)..<n']"
    using take_run_spec [OF avail_okD(3) [OF assms(1)] e(2) run] by (simp add: run_result_def)
  then have "ready_key ` set new = Pair author ` set [Min (fst ` set ?early)..<n']" by (metis list.set_map)
  then have "fst (ready_key e) = author" using e(1) by (metis fst_conv imageE image_eqI)
  then show ?thesis by (simp add: ready_key_def case_prod_unfold)
qed

text \<open>A stable sort by a key that tells the blocks apart does not depend on the order of the blocks.\<close>

lemma sort_blocks:
  fixes key :: "'a \<Rightarrow> 'b :: linorder"
  assumes "mset order' = mset order" "distinct order"
    and "\<And>x y e e'. x \<in> set order \<Longrightarrow> y \<in> set order \<Longrightarrow> e \<in> set (f x) \<Longrightarrow> e' \<in> set (f y) \<Longrightarrow> key e = key e' \<Longrightarrow> x = y"
  shows "sort_key key (xs @ concat (map f order')) = sort_key key (xs @ concat (map f order))"
proof (rule properties_for_sort_key)
  have set: "set order' = set order" using assms(1) by (metis set_mset_mset)
  have dis: "distinct order'" using assms(1,2) by (metis mset_eq_imp_distinct_iff)
  have ms: "mset (concat (map f zs)) = (\<Sum>z \<in># mset zs. mset (f z))" for zs by (induction zs) simp_all
  show "mset (sort_key key (xs @ concat (map f order))) = mset (xs @ concat (map f order'))"
    using assms(1) by (simp add: ms)
  show "sorted (map key (sort_key key (xs @ concat (map f order))))" by simp
  fix k
  have none: "filter (\<lambda>x. key k = key x) (concat (map f zs)) = []" if "\<And>z e. z \<in> set zs \<Longrightarrow> e \<in> set (f z) \<Longrightarrow> key k \<noteq> key e" for zs
    using that by (auto simp: filter_empty_conv)
  have one: "filter (\<lambda>x. key k = key x) (concat (map f zs)) = filter (\<lambda>x. key k = key x) (f z)"
    if "distinct zs" "z \<in> set zs" "set zs = set order" "e \<in> set (f z)" "key k = key e" for zs z e
  proof -
    obtain ys ws where zs: "zs = ys @ z # ws" using \<open>z \<in> set zs\<close> by (meson split_list)
    have other: "key k \<noteq> key e'" if "y \<in> set ys \<union> set ws" "e' \<in> set (f y)" for y e'
    proof -
      have "y \<in> set zs" "z \<in> set zs" "y \<noteq> z" using that(1) \<open>distinct zs\<close> unfolding zs by auto
      then have "key e' \<noteq> key e"
        using assms(3) [of y z e' e] that(2) \<open>e \<in> set (f z)\<close> unfolding \<open>set zs = set order\<close> by blast
      then show ?thesis using \<open>key k = key e\<close> by simp
    qed
    have "filter (\<lambda>x. key k = key x) (concat (map f ys)) = []" "filter (\<lambda>x. key k = key x) (concat (map f ws)) = []"
      using other by (auto intro: none)
    then show ?thesis by (simp add: zs)
  qed
  have "filter (\<lambda>x. key k = key x) (concat (map f order')) = filter (\<lambda>x. key k = key x) (concat (map f order))"
  proof (cases "\<exists>z \<in> set order. \<exists>e \<in> set (f z). key k = key e")
    case True
    then show ?thesis using one [OF assms(2)] one [OF dis] set by metis
  next
    case False
    then show ?thesis using none [of order] none [of order'] set by auto
  qed
  then show "filter (\<lambda>x. key k = key x) (sort_key key (xs @ concat (map f order)))
      = filter (\<lambda>x. key k = key x) (xs @ concat (map f order'))"
    using sort_key_stable [of key "key k"] by (simp add: eq_commute [of "key k"])
qed

text \<open>
  Whatever order the hash map of authors is visited in, expiring the gaps releases the
  same batches in the same order and leaves the same frontier and the same waiting introductions.
\<close>

theorem expire_order_irrelevant:
  assumes "avail_ok a" "distinct order" "mset order' = mset order"
  shows "fst (release (expire_gaps order' floor a)) = fst (release (expire_gaps order floor a))
    \<and> released_through (expire_gaps order' floor a) = released_through (expire_gaps order floor a)
    \<and> early_of (expire_gaps order' floor a) = early_of (expire_gaps order floor a)"
proof -
  have order': "set order' = set order" "distinct order'"
    using assms(2,3) by (metis set_mset_mset, metis mset_eq_imp_distinct_iff)
  note r = expire_gaps_result [OF assms(2), of floor a] and r' = expire_gaps_result [OF order'(2), of floor a]
  let ?f = "\<lambda>x. snd (snd (expire_result floor x (released_through a x) (early_of a x)))"
  have "x = y" if "e \<in> set (?f x)" "e' \<in> set (?f y)"
    "(case e of (r, author, position, _) \<Rightarrow> (r, author, position)) = (case e' of (r, author, position, _) \<Rightarrow> (r, author, position))" for x y e e'
    using expire_result_author [OF assms(1) that(1)] expire_result_author [OF assms(1) that(2)] that(3)
    by (simp add: case_prod_unfold)
  then have "sort_key (\<lambda>(r, author, position, _). (r, author, position)) (a_ready a @ concat (map ?f order'))
      = sort_key (\<lambda>(r, author, position, _). (r, author, position)) (a_ready a @ concat (map ?f order))"
    by (rule sort_blocks [OF assms(3,2)])
  moreover have "a_ready (expire_gaps order' floor a) = a_ready a @ concat (map ?f order')"
    "a_ready (expire_gaps order floor a) = a_ready a @ concat (map ?f order)" using r r' by blast+
  ultimately have "fst (release (expire_gaps order' floor a)) = fst (release (expire_gaps order floor a))"
    by (simp add: release_def)
  then show ?thesis using r r' order'(1) by (simp add: fun_eq_iff)
qed

text \<open>Two authors with a gap each.\<close>

definition demo_batch :: "nat \<Rightarrow> batch_ref" where
  "demo_batch s = \<lparr>b_sequence = s, b_digest = [of_nat s], b_bytes = 1, b_transactions = 1\<rparr>"

definition batch_vertex :: "round \<Rightarrow> validator_index \<Rightarrow> nat list \<Rightarrow> vertex" where
  "batch_vertex r source seqs = \<lparr>v_epoch = 0, v_round = r, v_source = source, v_strong = [], v_weak = [],
     v_batches = map demo_batch seqs, v_carried = [], v_timestamp_ms = 0\<rparr>"

definition gap_state :: availability where
  "gap_state = on_ordered (batch_vertex 2 1 [5]) (on_ordered (batch_vertex 3 0 [4]) avail_new)"

lemma gap_state_ok: "avail_ok gap_state"
proof -
  have "avail_ok avail_new" using avail_new_ok by (simp add: run_ok_def)
  then show ?thesis unfolding gap_state_def using ops_grow(1) unfolding avail_grows_def by blast
qed

theorem expire_order_irrelevant_witness:
  "fst (release (expire_gaps [1, 0] 3 gap_state)) = fst (release (expire_gaps [0, 1] 3 gap_state))"
  using expire_order_irrelevant [OF gap_state_ok, of "[0, 1]" "[1, 0]" 3] by simp

text \<open>
  Within one release the batches of an author need not come in sequence order, although
  the documentation of the release promises it: a batch introduced in an earlier round than the one
  that fills its gap comes first.
\<close>

theorem release_out_of_sequence:
  "snd (foldl avail_step (avail_new, []) [Ordered (batch_vertex 3 0 [1]), Ordered (batch_vertex 7 0 [0]), Release]) =
     [[\<lparr>ob_batch = demo_batch 1, ob_author = 0, ob_round = 3\<rparr>, \<lparr>ob_batch = demo_batch 0, ob_author = 0, ob_round = 7\<rparr>]]"
proof -
  have max: "n \<noteq> uint_max 64" if "n < 2" for n using that by (auto simp: uint_max_def)
  have 1: "on_ordered (batch_vertex 3 0 [1]) avail_new =
      \<lparr>a_next = [(0, 0)], a_early = [(0, [(1, (3, 0, demo_batch 1))])], a_ready = []\<rparr>"
    using max [of 1] by (simp add: on_ordered_def batch_vertex_def introduce_def avail_new_def released_through_def early_of_def
        avail_advance_def take_run.simps al_put_def MAX_UNRELEASED_PER_AUTHOR_def demo_batch_def)
  have 2: "on_ordered (batch_vertex 7 0 [0]) \<lparr>a_next = [(0, 0)], a_early = [(0, [(1, (3, 0, demo_batch 1))])], a_ready = []\<rparr> =
      \<lparr>a_next = [(0, 2)], a_early = [(0, [])], a_ready = [(7, 0, 0, demo_batch 0), (3, 0, 0, demo_batch 1)]\<rparr>"
    using max [of 0] by (simp add: on_ordered_def batch_vertex_def introduce_def released_through_def early_of_def
        avail_advance_def take_run.simps al_put_def al_del_def MAX_UNRELEASED_PER_AUTHOR_def demo_batch_def)
  show ?thesis by (simp add: avail_step_def 1 [unfolded One_nat_def] 2 [unfolded One_nat_def] release_def less_eq_prod_def)
qed

section \<open>The exported frontier\<close>

lemma map_of_sort:
  fixes xs :: "('k :: linorder \<times> 'v) list"
  assumes "distinct (map fst xs)"
  shows "map_of (sort_key fst xs) = map_of xs"
proof -
  have "mset (map fst (sort_key fst xs)) = mset (map fst xs)" by simp
  then have "distinct (map fst (sort_key fst xs))" using assms by (metis mset_eq_imp_distinct_iff)
  then show ?thesis using assms by (subst map_of_inject_set) simp_all
qed

lemma map_of_filter_distinct:
  assumes "distinct (map fst xs)"
  shows "map_of (filter P xs) k = (case map_of xs k of None \<Rightarrow> None | Some v \<Rightarrow> if P (k, v) then Some v else None)"
  using assms by (induction xs) (auto simp: map_of_eq_None_iff split: option.splits dest: map_of_SomeD)

lemma export_next:
  assumes "avail_ok a"
  shows "released_through (avail_import (avail_export a)) = released_through a"
proof
  fix author
  have d: "distinct (map fst (a_next a))" using avail_okD(1) [OF assms] .
  then have "distinct (map fst (filter (\<lambda>(_, s). 0 < s) (a_next a)))" by (rule distinct_map_filter)
  then show "released_through (avail_import (avail_export a)) author = released_through a author"
    by (simp add: released_through_def avail_import_def avail_export_def map_of_sort map_of_filter_distinct [OF d] split: option.splits)
qed

lemma export_early:
  assumes "avail_ok a"
  shows "map_of (early_of (avail_import (avail_export a)) author) = map_of (early_of a author)"
proof -
  have d: "distinct (map fst (a_early a))" using avail_okD(2) [OF assms] .
  define g :: "(nat \<times> introduction) list \<Rightarrow> (nat \<times> introduction) list" where "g = sort_key fst"
  let ?xs = "filter (\<lambda>(_, m). m \<noteq> []) (a_early a)"
  have dx: "distinct (map fst (map (\<lambda>(x, m). (x, g m)) ?xs))"
    using distinct_map_filter [OF d] by (simp add: case_prod_unfold comp_def)
  have id: "(\<lambda>(s, r, p, b). (s, r, p, b)) = (\<lambda>x. x)" by auto
  have "a_early (avail_import (avail_export a)) = sort_key fst (map (\<lambda>(x, m). (x, g m)) ?xs)"
    by (simp add: avail_import_def avail_export_def g_def id case_prod_unfold)
  then have "map_of (a_early (avail_import (avail_export a))) author = map_option g (map_of ?xs author)"
    using map_of_sort [OF dx] by (simp add: map_of_map)
  also have "map_of ?xs author = (case map_of (a_early a) author of None \<Rightarrow> None | Some m \<Rightarrow> if m \<noteq> [] then Some m else None)"
    using map_of_filter_distinct [OF d, of "\<lambda>(_, m). m \<noteq> []" author] by (auto split: option.splits)
  finally have "early_of (avail_import (avail_export a)) author = g (early_of a author)"
    by (simp add: early_of_def g_def split: option.splits)
  then show ?thesis using early_okD(1) [OF avail_okD(3) [OF assms]] by (simp add: g_def map_of_sort)
qed

text \<open>
  A resuming validator that imports the exported frontier has the same released
  sequences and the same waiting introductions, with nothing ready.
\<close>

theorem availability_round_trip:
  assumes "avail_ok a"
  shows "released_through (avail_import (avail_export a)) = released_through a
    \<and> map_of (early_of (avail_import (avail_export a)) author) = map_of (early_of a author)
    \<and> a_ready (avail_import (avail_export a)) = []"
  using export_next [OF assms] export_early [OF assms] by (simp add: avail_import_def)

theorem availability_round_trip_witness:
  "released_through (avail_import (avail_export gap_state)) = released_through gap_state"
  using availability_round_trip [OF gap_state_ok] by blast

end
