(* ===== verification/Merkle.thy ===== *)
theory Merkle
  imports Tz_Prelude
begin

text \<open>
  The binary Merkle tree of the chain commitments (\<^verbatim>\<open>crates/tenzro-types/src/merkle.rs\<close>): roots,
  inclusion paths and their verification. BLAKE3 is the parameter \<open>blake3\<close>; what is used of it is the
  length of its output and, for soundness and binding, that the strings hashed do not collide.
\<close>

section \<open>Roots and paths\<close>

type_synonym node = bytes

definition empty_root :: "(bytes \<Rightarrow> bytes) \<Rightarrow> node" where
  "empty_root blake3 = blake3 (ascii_bytes ''tenzro/consensus/merkle/empty'')"

definition hash_leaf :: "(bytes \<Rightarrow> bytes) \<Rightarrow> node \<Rightarrow> node" where
  "hash_leaf blake3 leaf = blake3 (0 # leaf)"

definition hash_pair :: "(bytes \<Rightarrow> bytes) \<Rightarrow> node \<Rightarrow> node \<Rightarrow> node" where
  "hash_pair blake3 left right = blake3 (1 # left @ right)"

fun next_level :: "(bytes \<Rightarrow> bytes) \<Rightarrow> node list \<Rightarrow> node list" where
  "next_level blake3 (a # b # rest) = hash_pair blake3 a b # next_level blake3 rest"
| "next_level blake3 [a] = [a]"
| "next_level blake3 [] = []"

lemma length_next_level: "length (next_level blake3 level) = (length level + 1) div 2"
  by (induction blake3 level rule: next_level.induct) auto

function root_loop :: "(bytes \<Rightarrow> bytes) \<Rightarrow> node list \<Rightarrow> node list" where
  "root_loop blake3 level = (if 1 < length level then root_loop blake3 (next_level blake3 level) else level)"
  by pat_completeness auto

termination root_loop
  by (relation "measure (\<lambda>(blake3, level). length level)") (auto simp: length_next_level)

declare root_loop.simps [simp del]

definition merkle_root :: "(bytes \<Rightarrow> bytes) \<Rightarrow> node list \<Rightarrow> node" where
  "merkle_root blake3 leaves =
     (if leaves = [] then empty_root blake3
      else hd (root_loop blake3 (map (hash_leaf blake3) leaves)))"

record path_step =
  ps_sibling :: node
  ps_left :: bool

function path_up :: "(bytes \<Rightarrow> bytes) \<Rightarrow> node list \<Rightarrow> nat \<Rightarrow> path_step list \<Rightarrow> path_step list" where
  "path_up blake3 level i path =
     (if 1 < length level
      then path_up blake3 (next_level blake3 level) (i div 2)
        (if i mod 2 = 1 then path @ [\<lparr>ps_sibling = level ! (i - 1), ps_left = True\<rparr>]
         else if i + 1 < length level then path @ [\<lparr>ps_sibling = level ! (i + 1), ps_left = False\<rparr>]
         else path)
      else path)"
  by pat_completeness auto

termination path_up
  by (relation "measure (\<lambda>(blake3, level, i, path). length level)") (auto simp: length_next_level)

declare path_up.simps [simp del]

definition merkle_path :: "(bytes \<Rightarrow> bytes) \<Rightarrow> node list \<Rightarrow> nat \<Rightarrow> path_step list option" where
  "merkle_path blake3 leaves index =
     (if length leaves \<le> index then None
      else Some (path_up blake3 (map (hash_leaf blake3) leaves) index []))"

definition path_apply :: "(bytes \<Rightarrow> bytes) \<Rightarrow> node \<Rightarrow> path_step \<Rightarrow> node" where
  "path_apply blake3 acc step =
     (if ps_left step then hash_pair blake3 (ps_sibling step) acc else hash_pair blake3 acc (ps_sibling step))"

definition root_from_path :: "(bytes \<Rightarrow> bytes) \<Rightarrow> node \<Rightarrow> path_step list \<Rightarrow> node" where
  "root_from_path blake3 leaf path = foldl (path_apply blake3) (hash_leaf blake3 leaf) path"

section \<open>Every leaf proves into the root\<close>

lemma nth_next_level:
  "i < length level \<Longrightarrow> next_level blake3 level ! (i div 2) =
     (if i mod 2 = 1 then hash_pair blake3 (level ! (i - 1)) (level ! i)
      else if i + 1 < length level then hash_pair blake3 (level ! i) (level ! (i + 1)) else level ! i)"
proof (induction blake3 level arbitrary: i rule: next_level.induct)
  case (1 blake3 a b rest)
  consider "i = 0" | "i = 1" | j where "i = j + 2" by (metis One_nat_def Suc_1 add.commute less_2_cases_iff less_eqE not_le)
  then show ?case
  proof cases
    case 3
    then have "j < length rest" using "1.prems" by simp
    note IH = "1.IH" [OF this]
    have j: "i div 2 = Suc (j div 2)" "i mod 2 = j mod 2" using 3 by simp_all
    show ?thesis
    proof (cases "j mod 2 = 1")
      case True
      then obtain k where "j = Suc k" by (cases j) auto
      then show ?thesis using IH j 3 True by simp
    next
      case False
      then show ?thesis using IH j 3 by simp
    qed
  qed simp_all
qed simp_all

lemma path_up_reaches:
  assumes "i < length level"
  shows "\<exists>steps. path_up blake3 level i path = path @ steps
    \<and> foldl (path_apply blake3) (level ! i) steps = hd (root_loop blake3 level)"
  using assms
proof (induction blake3 level i path rule: path_up.induct)
  case (1 blake3 level i path)
  show ?case
  proof (cases "1 < length level")
    case False
    then have "i = 0" "level \<noteq> []" using "1.prems" by auto
    then show ?thesis using False by (simp add: path_up.simps [of _ level] root_loop.simps [of _ level] hd_conv_nth)
  next
    case True
    let ?step = "if i mod 2 = 1 then [\<lparr>ps_sibling = level ! (i - 1), ps_left = True\<rparr>]
      else if i + 1 < length level then [\<lparr>ps_sibling = level ! (i + 1), ps_left = False\<rparr>] else []"
    have "i div 2 < length (next_level blake3 level)" using "1.prems" by (simp add: length_next_level)
    then obtain steps where steps:
      "path_up blake3 (next_level blake3 level) (i div 2) (path @ ?step) = (path @ ?step) @ steps"
      "foldl (path_apply blake3) (next_level blake3 level ! (i div 2)) steps = hd (root_loop blake3 (next_level blake3 level))"
      using "1.IH" [OF True] by (auto split: if_splits)
    have "foldl (path_apply blake3) (level ! i) ?step = next_level blake3 level ! (i div 2)"
      using nth_next_level [OF "1.prems"] by (simp add: path_apply_def)
    then have "foldl (path_apply blake3) (level ! i) (?step @ steps) = hd (root_loop blake3 level)"
      using steps(2) True by (simp add: root_loop.simps [of _ level])
    moreover have "path_up blake3 level i path = path @ ?step @ steps"
      using steps(1) True by (auto simp: path_up.simps [of _ level])
    ultimately show ?thesis by blast
  qed
qed

text \<open>
  Every leaf of a list has an inclusion path, and the path leads from the leaf to the
  root of the list.
\<close>

theorem merkle_path_complete:
  assumes "i < length leaves"
  shows "\<exists>path. merkle_path blake3 leaves i = Some path \<and> root_from_path blake3 (leaves ! i) path = merkle_root blake3 leaves"
proof -
  obtain steps where "path_up blake3 (map (hash_leaf blake3) leaves) i [] = [] @ steps"
    "foldl (path_apply blake3) (map (hash_leaf blake3) leaves ! i) steps = hd (root_loop blake3 (map (hash_leaf blake3) leaves))"
    using path_up_reaches [of i "map (hash_leaf blake3) leaves" blake3 "[]"] assms by auto
  then show ?thesis using assms by (auto simp: merkle_path_def root_from_path_def merkle_root_def)
qed

section \<open>The root binds the leaves\<close>

text \<open>The tree a root is computed from: its hash, its leaves in order and the strings hashed in it.\<close>

datatype mtree = Tip node | Fork mtree mtree

primrec tree_hash :: "(bytes \<Rightarrow> bytes) \<Rightarrow> mtree \<Rightarrow> node" where
  "tree_hash blake3 (Tip l) = hash_leaf blake3 l"
| "tree_hash blake3 (Fork l r) = hash_pair blake3 (tree_hash blake3 l) (tree_hash blake3 r)"

primrec tree_leaves :: "mtree \<Rightarrow> node list" where
  "tree_leaves (Tip l) = [l]"
| "tree_leaves (Fork l r) = tree_leaves l @ tree_leaves r"

primrec tree_strings :: "(bytes \<Rightarrow> bytes) \<Rightarrow> mtree \<Rightarrow> bytes set" where
  "tree_strings blake3 (Tip l) = {0 # l}"
| "tree_strings blake3 (Fork l r) =
     insert (1 # tree_hash blake3 l @ tree_hash blake3 r) (tree_strings blake3 l \<union> tree_strings blake3 r)"

fun next_trees :: "mtree list \<Rightarrow> mtree list" where
  "next_trees (a # b # rest) = Fork a b # next_trees rest"
| "next_trees [a] = [a]"
| "next_trees [] = []"

lemma length_next_trees: "length (next_trees ts) = (length ts + 1) div 2"
  by (induction ts rule: next_trees.induct) auto

function tree_loop :: "mtree list \<Rightarrow> mtree list" where
  "tree_loop ts = (if 1 < length ts then tree_loop (next_trees ts) else ts)"
  by pat_completeness auto

termination tree_loop
  by (relation "measure length") (auto simp: length_next_trees)

declare tree_loop.simps [simp del]

definition tree_of :: "node list \<Rightarrow> mtree" where
  "tree_of leaves = hd (tree_loop (map Tip leaves))"

lemma next_trees_facts:
  "map (tree_hash blake3) (next_trees ts) = next_level blake3 (map (tree_hash blake3) ts)"
  "concat (map tree_leaves (next_trees ts)) = concat (map tree_leaves ts)"
  by (induction ts rule: next_trees.induct) auto

lemma tree_loop_facts:
  "map (tree_hash blake3) (tree_loop ts) = root_loop blake3 (map (tree_hash blake3) ts)
   \<and> concat (map tree_leaves (tree_loop ts)) = concat (map tree_leaves ts) \<and> (ts \<noteq> [] \<longrightarrow> length (tree_loop ts) = 1)"
proof (induction ts rule: tree_loop.induct)
  case (1 ts)
  show ?case
  proof (cases "1 < length ts")
    case True
    have "next_trees ts \<noteq> []" using True length_next_trees [of ts] by fastforce
    then show ?thesis
      using "1.IH" [OF True] True next_trees_facts(1) [of blake3 ts] next_trees_facts(2) [of ts]
      by (simp add: tree_loop.simps [of ts] root_loop.simps [of _ "map (tree_hash blake3) ts"])
  next
    case False
    then have "tree_loop ts = ts" "root_loop blake3 (map (tree_hash blake3) ts) = map (tree_hash blake3) ts"
      by (simp_all add: tree_loop.simps [of ts] root_loop.simps [of _ "map (tree_hash blake3) ts"])
    then show ?thesis using False by (cases ts) simp_all
  qed
qed

lemma tree_of_facts:
  assumes "leaves \<noteq> []"
  shows "tree_hash blake3 (tree_of leaves) = merkle_root blake3 leaves" "tree_leaves (tree_of leaves) = leaves"
proof -
  have "length (tree_loop (map Tip leaves)) = 1" using tree_loop_facts assms by (metis map_is_Nil_conv)
  then obtain t where t: "tree_loop (map Tip leaves) = [t]" by (auto simp: length_Suc_conv)
  have "[tree_hash blake3 t] = root_loop blake3 (map (hash_leaf blake3) leaves)"
    using tree_loop_facts [of blake3 "map Tip leaves"] t by (simp add: comp_def)
  then show "tree_hash blake3 (tree_of leaves) = merkle_root blake3 leaves"
    using assms by (simp add: tree_of_def t merkle_root_def flip: \<open>[tree_hash blake3 t] = _\<close>)
  show "tree_leaves (tree_of leaves) = leaves"
    using tree_loop_facts [of blake3 "map Tip leaves"] t by (simp add: tree_of_def comp_def)
qed

text \<open>The strings hashed to compute a root.\<close>

definition root_strings :: "(bytes \<Rightarrow> bytes) \<Rightarrow> node list \<Rightarrow> bytes set" where
  "root_strings blake3 leaves =
     (if leaves = [] then {ascii_bytes ''tenzro/consensus/merkle/empty''} else tree_strings blake3 (tree_of leaves))"

definition hash32 :: "(bytes \<Rightarrow> bytes) \<Rightarrow> bool" where
  "hash32 blake3 \<longleftrightarrow> (\<forall>x. length (blake3 x) = 32)"

lemma length_tree_hash: "hash32 blake3 \<Longrightarrow> length (tree_hash blake3 t) = 32"
  by (cases t) (simp_all add: hash32_def hash_leaf_def hash_pair_def)

lemma empty_string: "hd (ascii_bytes ''tenzro/consensus/merkle/empty'') \<notin> {0, 1}" "ascii_bytes ''tenzro/consensus/merkle/empty'' \<noteq> []"
  by (simp_all add: ascii_bytes_def)

lemma tree_strings_hd: "x \<in> tree_strings blake3 t \<Longrightarrow> x \<noteq> [] \<and> hd x \<in> {0, 1}"
  by (induction t) auto

text \<open>The string whose hash is the hash of the tree.\<close>

primrec tree_top :: "(bytes \<Rightarrow> bytes) \<Rightarrow> mtree \<Rightarrow> bytes" where
  "tree_top blake3 (Tip l) = 0 # l"
| "tree_top blake3 (Fork l r) = 1 # tree_hash blake3 l @ tree_hash blake3 r"

lemma tree_top: "tree_hash blake3 t = blake3 (tree_top blake3 t)" "tree_top blake3 t \<in> tree_strings blake3 t"
  by (cases t; simp add: hash_leaf_def hash_pair_def)+

text \<open>Trees with one hash are one tree, when the strings hashed in both do not collide.\<close>

lemma tree_hash_inj:
  assumes "hash32 blake3"
  shows "inj_on blake3 (tree_strings blake3 t \<union> tree_strings blake3 u) \<Longrightarrow> tree_hash blake3 t = tree_hash blake3 u \<Longrightarrow> t = u"
proof (induction t arbitrary: u)
  case (Tip l)
  then have "tree_top blake3 (Tip l) = tree_top blake3 u" using tree_top by (metis UnI1 UnI2 inj_onD)
  then show ?case by (cases u) simp_all
next
  case (Fork l r)
  have top: "tree_top blake3 (Fork l r) = tree_top blake3 u" using Fork.prems tree_top by (metis UnI1 UnI2 inj_onD)
  then obtain l' r' where u: "u = Fork l' r'" by (cases u) simp_all
  then have "tree_hash blake3 l = tree_hash blake3 l'" "tree_hash blake3 r = tree_hash blake3 r'"
    using top length_tree_hash [OF assms] by simp_all
  moreover have "inj_on blake3 (tree_strings blake3 l \<union> tree_strings blake3 l')"
    "inj_on blake3 (tree_strings blake3 r \<union> tree_strings blake3 r')"
    by (rule inj_on_subset [OF Fork.prems(1)], auto simp: u)+
  ultimately show ?case using Fork.IH u by simp
qed

lemma merkle_top:
  obtains x where "x \<in> root_strings blake3 zs" "merkle_root blake3 zs = blake3 x" "zs \<noteq> [] \<longleftrightarrow> hd x \<in> {0, 1}"
proof (cases "zs = []")
  case True
  then show ?thesis using that empty_string(1) by (simp add: root_strings_def merkle_root_def empty_root_def)
next
  case False
  then show ?thesis
    using that [of "tree_top blake3 (tree_of zs)"] tree_top [of blake3 "tree_of zs"] tree_of_facts(1) [OF False, of blake3]
      tree_strings_hd [OF tree_top(2)] by (simp add: root_strings_def)
qed

text \<open>
  Property C34. Two lists of leaves with one root are one list, whatever their lengths, unless two of
  the strings hashed for the roots collide: leaves and inner nodes are told apart by the first byte.
\<close>

theorem merkle_root_binds:
  assumes "hash32 blake3" "inj_on blake3 (root_strings blake3 xs \<union> root_strings blake3 ys)"
    and "merkle_root blake3 xs = merkle_root blake3 ys"
  shows "xs = ys"
proof -
  obtain x where x: "x \<in> root_strings blake3 xs" "merkle_root blake3 xs = blake3 x" "xs \<noteq> [] \<longleftrightarrow> hd x \<in> {0, 1}" by (rule merkle_top)
  obtain y where y: "y \<in> root_strings blake3 ys" "merkle_root blake3 ys = blake3 y" "ys \<noteq> [] \<longleftrightarrow> hd y \<in> {0, 1}" by (rule merkle_top)
  have "x = y" using x(1,2) y(1,2) assms(2,3) by (metis UnI1 UnI2 inj_onD)
  then have empty: "xs = [] \<longleftrightarrow> ys = []" using x(3) y(3) by blast
  show ?thesis
  proof (cases "xs = []")
    case False
    then have "tree_of xs = tree_of ys"
      using tree_hash_inj [OF assms(1)] assms(2,3) tree_of_facts(1) empty by (simp add: root_strings_def)
    then show ?thesis using tree_of_facts(2) False empty by metis
  qed (use empty in simp)
qed

text \<open>The strings hashed to follow a path from a leaf.\<close>

primrec path_strings :: "(bytes \<Rightarrow> bytes) \<Rightarrow> node \<Rightarrow> path_step list \<Rightarrow> bytes set" where
  "path_strings blake3 acc [] = {}"
| "path_strings blake3 acc (step # path) =
     insert (if ps_left step then 1 # ps_sibling step @ acc else 1 # acc @ ps_sibling step)
       (path_strings blake3 (path_apply blake3 acc step) path)"

lemma path_strings_snoc:
  "path_strings blake3 acc (path @ [step]) =
     insert (if ps_left step then 1 # ps_sibling step @ foldl (path_apply blake3) acc path
             else 1 # foldl (path_apply blake3) acc path @ ps_sibling step) (path_strings blake3 acc path)"
  by (induction path arbitrary: acc) (auto simp: insert_commute)

lemma path_in_tree:
  assumes h: "hash32 blake3" and siblings: "list_all (\<lambda>s. length (ps_sibling s) = 32) path"
  shows "inj_on blake3 (tree_strings blake3 t \<union> insert (0 # leaf) (path_strings blake3 (hash_leaf blake3 leaf) path)) \<Longrightarrow>
    root_from_path blake3 leaf path = tree_hash blake3 t \<Longrightarrow> leaf \<in> set (tree_leaves t)"
  using siblings
proof (induction path arbitrary: t rule: rev_induct)
  case Nil
  then have "0 # leaf = tree_top blake3 t"
    using tree_top [of blake3 t] by (auto simp: root_from_path_def hash_leaf_def intro!: inj_onD [OF Nil.prems(1)])
  then show ?case by (cases t) simp_all
next
  case (snoc step path)
  let ?acc = "foldl (path_apply blake3) (hash_leaf blake3 leaf) path"
  let ?string = "if ps_left step then 1 # ps_sibling step @ ?acc else 1 # ?acc @ ps_sibling step"
  have "blake3 ?string = blake3 (tree_top blake3 t)"
    using snoc.prems(2) tree_top(1) [of blake3 t] by (simp add: root_from_path_def path_apply_def hash_pair_def split: if_splits)
  then have "?string = tree_top blake3 t"
    using tree_top(2) by (rule_tac inj_onD [OF snoc.prems(1)]) (auto simp: path_strings_snoc)
  then obtain l r where t: "t = Fork l r" and string: "?string = 1 # tree_hash blake3 l @ tree_hash blake3 r"
    by (cases t) (auto split: if_splits)
  have len: "length ?acc = 32" using h by (cases path rule: rev_cases) (simp_all add: hash32_def hash_leaf_def hash_pair_def path_apply_def)
  have "root_from_path blake3 leaf path \<in> {tree_hash blake3 l, tree_hash blake3 r}"
    using string snoc.prems(3) len length_tree_hash [OF h] by (auto simp: root_from_path_def split: if_splits)
  moreover have "inj_on blake3 (tree_strings blake3 u \<union> insert (0 # leaf) (path_strings blake3 (hash_leaf blake3 leaf) path))"
    if "u \<in> {l, r}" for u
    by (rule inj_on_subset [OF snoc.prems(1)]) (use that in \<open>auto simp: t path_strings_snoc\<close>)
  ultimately have "leaf \<in> set (tree_leaves l) \<or> leaf \<in> set (tree_leaves r)" using snoc.IH snoc.prems(3) by auto
  then show ?case by (auto simp: t)
qed

text \<open>
  A path that leads from a leaf to the root of a non-empty list proves that the leaf is
  in the list, unless two of the strings hashed collide.
\<close>

theorem merkle_path_sound:
  assumes "hash32 blake3" "leaves \<noteq> []" "list_all (\<lambda>s. length (ps_sibling s) = 32) path"
    and "inj_on blake3 (root_strings blake3 leaves \<union> insert (0 # leaf) (path_strings blake3 (hash_leaf blake3 leaf) path))"
    and "root_from_path blake3 leaf path = merkle_root blake3 leaves"
  shows "leaf \<in> set leaves"
  using path_in_tree [OF assms(1,3), of "tree_of leaves" leaf] assms(2,4,5) tree_of_facts [OF assms(2)]
  by (simp add: root_strings_def)

text \<open>A hash of 32 bytes that keeps the first bytes of what it hashes.\<close>

definition prefix_hash :: "bytes \<Rightarrow> bytes" where
  "prefix_hash x = take 32 (x @ replicate 32 0)"

lemma prefix_hash32: "hash32 prefix_hash"
  by (simp add: hash32_def prefix_hash_def min_def)

definition two_leaves :: "node list" where
  "two_leaves = [replicate 32 5, replicate 32 6]"

lemma two_leaves_strings:
  "root_strings prefix_hash two_leaves = {0 # replicate 32 5, 0 # replicate 32 6,
     1 # prefix_hash (0 # replicate 32 5) @ prefix_hash (0 # replicate 32 6)}"
  by (simp add: root_strings_def two_leaves_def tree_of_def tree_loop.simps hash_leaf_def insert_commute)

lemma two_leaves_inj: "inj_on prefix_hash (root_strings prefix_hash two_leaves)"
  unfolding two_leaves_strings by (simp add: prefix_hash_def inj_on_def numeral_eq_Suc)

theorem merkle_path_complete_witness:
  "\<exists>path. merkle_path prefix_hash two_leaves 1 = Some path
     \<and> root_from_path prefix_hash (two_leaves ! 1) path = merkle_root prefix_hash two_leaves"
  using merkle_path_complete [of 1 two_leaves] by (simp add: two_leaves_def)

theorem merkle_root_binds_witness:
  "merkle_root prefix_hash two_leaves \<noteq> merkle_root prefix_hash [replicate 32 5]"
proof -
  have "root_strings prefix_hash [replicate 32 5] = {0 # replicate 32 5}"
    by (simp add: root_strings_def tree_of_def tree_loop.simps)
  then have "root_strings prefix_hash two_leaves \<union> root_strings prefix_hash [replicate 32 5] = root_strings prefix_hash two_leaves"
    unfolding two_leaves_strings by blast
  then show ?thesis
    using merkle_root_binds [OF prefix_hash32, of two_leaves "[replicate 32 5]"] two_leaves_inj by (auto simp: two_leaves_def)
qed

theorem merkle_path_sound_witness: "replicate 32 6 \<in> set two_leaves"
proof (rule merkle_path_sound [OF prefix_hash32])
  let ?path = "[\<lparr>ps_sibling = prefix_hash (0 # replicate 32 5), ps_left = True\<rparr>]"
  show "two_leaves \<noteq> []" by (simp add: two_leaves_def)
  show "list_all (\<lambda>s. length (ps_sibling s) = 32) ?path" by (simp add: prefix_hash_def)
  show "root_from_path prefix_hash (replicate 32 6) ?path = merkle_root prefix_hash two_leaves"
    by (simp add: root_from_path_def path_apply_def merkle_root_def two_leaves_def root_loop.simps hash_leaf_def)
  have "insert (0 # replicate 32 6) (path_strings prefix_hash (hash_leaf prefix_hash (replicate 32 6)) ?path)
      \<subseteq> root_strings prefix_hash two_leaves"
    unfolding two_leaves_strings by (simp add: hash_leaf_def)
  then show "inj_on prefix_hash (root_strings prefix_hash two_leaves \<union>
      insert (0 # replicate 32 6) (path_strings prefix_hash (hash_leaf prefix_hash (replicate 32 6)) ?path))"
    unfolding Un_absorb2 [OF \<open>insert _ _ \<subseteq> _\<close>] by (intro two_leaves_inj)
qed

end
