(* ===== verification/Checkpoint_Votes.thy ===== *)
theory Checkpoint_Votes
  imports Finality Vertex
begin

text \<open>
  Votes on checkpoints (\<^verbatim>\<open>crates/tenzro-consensus/src/checkpoint.rs\<close>): the persisted high-water
  mark that keeps a validator from signing two checkpoints for one index, the collector that turns
  votes into certificates, and the evidence two conflicting certificates give.
\<close>

section \<open>The persisted high-water mark\<close>

definition SIGNED_VOTE_WINDOW :: nat where "SIGNED_VOTE_WINDOW = 1024"

record high_water_mark =
  hw_epoch :: nat
  hw_index :: nat
  hw_digest :: digest

record signed =
  sg_epoch :: nat
  sg_digest :: digest
  sg_prev :: digest

datatype record_kind = Mark | Behind | Again

definition check_high_water ::
  "high_water_mark option \<Rightarrow> signed option \<Rightarrow> signed option \<Rightarrow> nat \<Rightarrow> nat \<Rightarrow> digest \<Rightarrow> (consensus_error, record_kind) result" where
  "check_high_water mark at next epoch index d =
     (case mark of
        None \<Rightarrow> Inr Mark
      | Some m \<Rightarrow>
          if (hw_epoch m, hw_index m) = (epoch, index)
          then (if hw_digest m = d then Inr Again
                else Inl (VoteRefused (''already signed a different checkpoint '' @ dec index @ '' in epoch '' @ dec epoch)))
          else if (epoch, index) < (hw_epoch m, hw_index m)
          then (if SIGNED_VOTE_WINDOW \<le> sat_sub (hw_index m) index
                then Inl (VoteRefused (''already signed checkpoint '' @ dec (hw_index m) @ '' of epoch '' @ dec (hw_epoch m)
                       @ '', refusing '' @ dec index @ '' of epoch '' @ dec epoch @ '' beyond the window kept''))
                else (case at of
                    Some a \<Rightarrow>
                      if sg_epoch a = epoch \<and> sg_digest a = d then Inr Again
                      else Inl (VoteRefused (''already signed a different checkpoint '' @ dec index @ '' in epoch '' @ dec epoch))
                  | None \<Rightarrow>
                      if (case next of None \<Rightarrow> False | Some n \<Rightarrow> sg_prev n = d) then Inr Behind
                      else Inl (VoteRefused (''already signed checkpoint '' @ dec (hw_index m) @ '' of epoch '' @ dec (hw_epoch m)
                             @ '', and checkpoint '' @ dec index @ '' of epoch '' @ dec epoch @ '' is not the one it follows''))))
          else Inr Mark)"

text \<open>
  The part of the store the mark uses. A call meets no fault of the storage, a read that fails, or a
  batch of writes that fails as a whole.
\<close>

record high_water =
  hs_mark :: "high_water_mark option"
  hs_signed :: "nat \<rightharpoonup> signed"

datatype storage_fault = NoFault | ReadFails string | WriteFails string

definition record_vote ::
  "storage_fault \<Rightarrow> high_water \<Rightarrow> nat \<Rightarrow> nat \<Rightarrow> digest \<Rightarrow> digest \<Rightarrow> (consensus_error, unit) result \<times> high_water" where
  "record_vote fault hs epoch index d prev =
     (case fault of
        ReadFails e \<Rightarrow> (Inl (Storage e), hs)
      | _ \<Rightarrow>
         (let mark = hs_mark hs;
              behind = (case mark of None \<Rightarrow> False | Some m \<Rightarrow> (epoch, index) < (hw_epoch m, hw_index m));
              (at, next) = (if behind then (hs_signed hs index, hs_signed hs (index + 1)) else (None, None))
          in case check_high_water mark at next epoch index d of
               Inl e \<Rightarrow> (Inl e, hs)
             | Inr Again \<Rightarrow> (Inr (), hs)
             | Inr kind \<Rightarrow>
                 (case fault of
                    WriteFails e \<Rightarrow> (Inl (Storage e), hs)
                  | _ \<Rightarrow>
                     (let signed' = (hs_signed hs)(index \<mapsto> \<lparr>sg_epoch = epoch, sg_digest = d, sg_prev = prev\<rparr>)
                      in if kind = Mark
                         then (Inr (), \<lparr>hs_mark = Some \<lparr>hw_epoch = epoch, hw_index = index, hw_digest = d\<rparr>,
                                 hs_signed = (case checked_sub index SIGNED_VOTE_WINDOW of
                                    None \<Rightarrow> signed' | Some old \<Rightarrow> signed'(old := None))\<rparr>)
                         else (Inr (), hs\<lparr>hs_signed := signed'\<rparr>)))))"

definition hs_empty :: high_water where
  "hs_empty = \<lparr>hs_mark = None, hs_signed = Map.empty\<rparr>"

section \<open>Signing\<close>

record checkpoint_vote =
  cv_checkpoint :: checkpoint
  cv_signer :: validator_index
  cv_signature :: vote_signature

text \<open>The signer of a session key is hardware: its public key and what it answers are parameters.\<close>

record validator_signer =
  vs_public_key :: validator_public_key
  vs_sign :: "bytes \<Rightarrow> bytes \<Rightarrow> (consensus_error, composite_signature) result"

definition sign_checkpoint ::
  "codecs \<Rightarrow> validator_signer \<Rightarrow> session_certificate \<Rightarrow> storage_fault \<Rightarrow> high_water \<Rightarrow> validator_index \<Rightarrow> checkpoint
    \<Rightarrow> (consensus_error, checkpoint_vote) result \<times> high_water" where
  "sign_checkpoint pr session cert fault hs me cp =
     (if sc_session_key cert \<noteq> vs_public_key session \<or> sc_epoch cert \<noteq> cp_epoch cp
      then (Inl (VoteRefused ''the session certificate is not for this key and this checkpoint's epoch''), hs)
      else let d = checkpoint_digest pr cp in
        case record_vote fault hs (cp_epoch cp) (cp_index cp) d (cp_prev cp) of
          (Inl e, hs') \<Rightarrow> (Inl e, hs')
        | (Inr _, hs') \<Rightarrow>
            (case vs_sign session CHECKPOINT_VOTE_DOMAIN d of
               Inl e \<Rightarrow> (Inl e, hs')
             | Inr sig \<Rightarrow> (Inr \<lparr>cv_checkpoint = cp, cv_signer = me,
                   cv_signature = \<lparr>vs_session = cert, vs_signature = sig\<rparr>\<rparr>, hs')))"

definition vote_verify :: "codecs \<Rightarrow> checkpoint_vote \<Rightarrow> validator_public_key \<Rightarrow> bool" where
  "vote_verify pr v key = vote_signature_verify pr (cv_signature v) key (cv_checkpoint v)"

section \<open>A validator signs one checkpoint per index\<close>

text \<open>
  What the store knows of the history \<open>H\<close> of indices and digests recorded, when the epoch of an
  index is \<open>f\<close> of it: the latest one is the mark, and those within the window are kept.
\<close>

definition in_window :: "high_water_mark \<Rightarrow> nat \<Rightarrow> bool" where
  "in_window m i \<longleftrightarrow> i \<le> hw_index m \<and> hw_index m - i < SIGNED_VOTE_WINDOW"

definition hw_inv :: "(nat \<Rightarrow> nat) \<Rightarrow> (nat \<times> digest) set \<Rightarrow> high_water \<Rightarrow> bool" where
  "hw_inv f H hs \<longleftrightarrow>
     (\<forall>i d d'. (i, d) \<in> H \<longrightarrow> (i, d') \<in> H \<longrightarrow> d = d')
     \<and> (case hs_mark hs of
          None \<Rightarrow> H = {} \<and> hs_signed hs = Map.empty
        | Some m \<Rightarrow>
            hw_epoch m = f (hw_index m) \<and> (hw_index m, hw_digest m) \<in> H \<and> (\<forall>i d. (i, d) \<in> H \<longrightarrow> i \<le> hw_index m)
            \<and> (\<forall>i d. (i, d) \<in> H \<longrightarrow> in_window m i \<longrightarrow>
                 (\<exists>g. hs_signed hs i = Some g \<and> sg_epoch g = f i \<and> sg_digest g = d))
            \<and> (\<forall>i g. hs_signed hs i = Some g \<longrightarrow> (i, sg_digest g) \<in> H))"

lemma hw_inv_empty: "hw_inv f {} hs_empty"
  by (simp add: hw_inv_def hs_empty_def)

lemma mono_lex_less:
  assumes "mono f"
  shows "(f i, i) < (f j, j) \<longleftrightarrow> i < (j::nat)"
  using monoD [OF assms, of i j] monoD [OF assms, of j i] by (cases "i < j") (auto simp: less_prod_def)

lemma hw_invI:
  assumes "hs_mark hs = Some m" "hw_epoch m = f (hw_index m)" "(hw_index m, hw_digest m) \<in> H"
    and "\<And>i d. (i, d) \<in> H \<Longrightarrow> i \<le> hw_index m"
    and "\<And>i d d'. (i, d) \<in> H \<Longrightarrow> (i, d') \<in> H \<Longrightarrow> d = d'"
    and "\<And>i d. (i, d) \<in> H \<Longrightarrow> in_window m i \<Longrightarrow> \<exists>g. hs_signed hs i = Some g \<and> sg_epoch g = f i \<and> sg_digest g = d"
    and "\<And>i g. hs_signed hs i = Some g \<Longrightarrow> (i, sg_digest g) \<in> H"
  shows "hw_inv f H hs"
  unfolding hw_inv_def assms(1) option.case using assms(2-) by (intro conjI allI impI)

lemma hw_inv_mark:
  assumes inv: "hw_inv f H hs" and new: "\<And>m. hs_mark hs = Some m \<Longrightarrow> hw_index m < i"
    and hs': "hs' = \<lparr>hs_mark = Some \<lparr>hw_epoch = f i, hw_index = i, hw_digest = d\<rparr>,
       hs_signed = (case checked_sub i SIGNED_VOTE_WINDOW of
          None \<Rightarrow> (hs_signed hs)(i \<mapsto> \<lparr>sg_epoch = f i, sg_digest = d, sg_prev = p\<rparr>)
        | Some old \<Rightarrow> ((hs_signed hs)(i \<mapsto> \<lparr>sg_epoch = f i, sg_digest = d, sg_prev = p\<rparr>))(old := None))\<rparr>"
  shows "hw_inv f (insert (i, d) H) hs'"
proof -
  have below: "j < i" if "(j, e) \<in> H" for j e
    using inv new that unfolding hw_inv_def by (cases "hs_mark hs") force+
  have fun_H: "e = e'" if "(j, e) \<in> insert (i, d) H" "(j, e') \<in> insert (i, d) H" for j e e'
    using that below inv unfolding hw_inv_def by blast
  have kept: "\<exists>g. hs_signed hs' j = Some g \<and> sg_epoch g = f j \<and> sg_digest g = e"
    if "(j, e) \<in> insert (i, d) H" "j \<le> i" "i - j < SIGNED_VOTE_WINDOW" for j e
  proof (cases "(j, e) = (i, d)")
    case True
    then show ?thesis by (auto simp: hs' checked_sub_def SIGNED_VOTE_WINDOW_def)
  next
    case False
    then have "(j, e) \<in> H" and "j < i" using that(1) below by auto
    then obtain m where m: "hs_mark hs = Some m" using inv by (cases "hs_mark hs") (auto simp: hw_inv_def)
    have "in_window m j" using inv m new [OF m] \<open>(j, e) \<in> H\<close> that(3) by (auto simp: hw_inv_def in_window_def)
    then obtain g where "hs_signed hs j = Some g" "sg_epoch g = f j" "sg_digest g = e"
      using inv m \<open>(j, e) \<in> H\<close> unfolding hw_inv_def by (simp, blast)
    then show ?thesis using \<open>j < i\<close> that(3) by (auto simp: hs' checked_sub_def)
  qed
  have origin: "(j, sg_digest g) \<in> insert (i, d) H" if "hs_signed hs' j = Some g" for j g
  proof (cases "j = i")
    case True
    then show ?thesis using that by (auto simp: hs' split: option.splits if_splits)
  next
    case False
    then have "hs_signed hs j = Some g" using that by (auto simp: hs' split: option.splits if_splits)
    then show ?thesis using inv by (cases "hs_mark hs") (auto simp: hw_inv_def)
  qed
  have mark: "hs_mark hs' = Some \<lparr>hw_epoch = f i, hw_index = i, hw_digest = d\<rparr>" by (simp add: hs')
  show ?thesis
    unfolding hw_inv_def mark in_window_def
    using fun_H kept origin below by (simp add: less_imp_le)
qed

lemma hw_inv_behind:
  assumes inv: "hw_inv f H hs" and m: "hs_mark hs = Some m" and i: "in_window m i" "hs_signed hs i = None"
  shows "hw_inv f (insert (i, d) H) (hs\<lparr>hs_signed := (hs_signed hs)(i \<mapsto> \<lparr>sg_epoch = f i, sg_digest = d, sg_prev = p\<rparr>)\<rparr>)"
proof -
  let ?hs = "hs\<lparr>hs_signed := (hs_signed hs)(i \<mapsto> \<lparr>sg_epoch = f i, sg_digest = d, sg_prev = p\<rparr>)\<rparr>"
  have one: "e = e'" if "(j, e) \<in> H" "(j, e') \<in> H" for j e e' using inv that unfolding hw_inv_def by blast
  have kept: "\<exists>g. hs_signed hs j = Some g \<and> sg_epoch g = f j \<and> sg_digest g = e" if "(j, e) \<in> H" "in_window m j" for j e
    using inv m that unfolding hw_inv_def by simp
  have origin: "(j, sg_digest g) \<in> H" if "hs_signed hs j = Some g" for j g
    using inv m that unfolding hw_inv_def by simp
  have mark: "hw_epoch m = f (hw_index m)" "(hw_index m, hw_digest m) \<in> H" "\<forall>j e. (j, e) \<in> H \<longrightarrow> j \<le> hw_index m"
    using inv m unfolding hw_inv_def by simp_all
  have new: "(i, e) \<notin> H" for e using kept [of i e] i by auto
  have win: "i \<le> hw_index m" using i(1) by (simp add: in_window_def)
  show ?thesis
  proof (rule hw_invI [where m = m])
    show "hs_mark ?hs = Some m" using m by simp
    show "hw_epoch m = f (hw_index m)" "(hw_index m, hw_digest m) \<in> insert (i, d) H" using mark by simp_all
    fix j e assume je: "(j, e) \<in> insert (i, d) H"
    then show "j \<le> hw_index m" using mark(3) win by blast
    show "e = e'" if "(j, e') \<in> insert (i, d) H" for e' using je that one new by blast
    show "\<exists>g. hs_signed ?hs j = Some g \<and> sg_epoch g = f j \<and> sg_digest g = e" if "in_window m j"
      using that je new kept [of j e] by (cases "j = i") auto
  next
    fix j g assume "hs_signed ?hs j = Some g"
    then show "(j, sg_digest g) \<in> insert (i, d) H" using origin [of j g] by (cases "j = i") auto
  qed
qed

lemma hw_inv_insert_old: "hw_inv f H hs \<Longrightarrow> (i, d) \<in> H \<Longrightarrow> hw_inv f (insert (i, d) H) hs"
  by (simp add: insert_absorb)

lemma record_vote_inv:
  assumes f: "mono f" and inv: "hw_inv f H hs" and r: "record_vote fault hs (f i) i d p = (r, hs')"
  shows "(\<exists>e. r = Inl e) \<and> hs' = hs \<or> r = Inr () \<and> hw_inv f (insert (i, d) H) hs'"
proof (cases "hs_mark hs")
  case None
  have "hw_inv f (insert (i, d) H) hs'" if "r = Inr ()"
    using r None that
    by (intro hw_inv_mark [OF inv, where p = p]) (auto simp: record_vote_def check_high_water_def Let_def split: storage_fault.splits)
  then show ?thesis using r None by (auto simp: record_vote_def check_high_water_def Let_def split: storage_fault.splits)
next
  case (Some m)
  have e: "hw_epoch m = f (hw_index m)" and top: "(hw_index m, hw_digest m) \<in> H"
    and stored: "\<And>j g. hs_signed hs j = Some g \<Longrightarrow> (j, sg_digest g) \<in> H"
    using inv Some by (simp_all add: hw_inv_def)
  have order: "(f i, i) < (hw_epoch m, hw_index m) \<longleftrightarrow> i < hw_index m" using mono_lex_less [OF f, of i "hw_index m"] e by simp
  consider "i = hw_index m" | "i < hw_index m" | "hw_index m < i" by linarith
  then show ?thesis
  proof cases
    case 1
    then have "r = Inr () \<Longrightarrow> hs' = hs \<and> d = hw_digest m" "r \<noteq> Inr () \<Longrightarrow> (\<exists>e. r = Inl e) \<and> hs' = hs"
      using r Some e order
      by (auto simp: record_vote_def check_high_water_def Let_def split: storage_fault.splits if_splits)
    then show ?thesis using hw_inv_insert_old [OF inv top] 1 by auto
  next
    case 3
    then have "hw_inv f (insert (i, d) H) hs'" if "r = Inr ()"
      using r Some e order that
      by (intro hw_inv_mark [OF inv, where p = p]) (auto simp: record_vote_def check_high_water_def Let_def split: storage_fault.splits)
    then show ?thesis
      using r Some e order 3 by (auto simp: record_vote_def check_high_water_def Let_def split: storage_fault.splits)
  next
    case 2
    then have ne: "(hw_epoch m, hw_index m) \<noteq> (f i, i)" by simp
    note rec = r [unfolded record_vote_def check_high_water_def Let_def, simplified Some option.simps ne order 2 if_True prod.case if_False]
    have win: "in_window m i" if "\<not> SIGNED_VOTE_WINDOW \<le> sat_sub (hw_index m) i" using that 2 by (simp add: in_window_def)
    show ?thesis
    proof (cases "hs_signed hs i")
      case None
      then show ?thesis
        using rec 2 win hw_inv_behind [OF inv Some _ None, of d p]
        by (auto split: storage_fault.splits if_splits option.splits)
    next
      case (Some g)
      then show ?thesis
        using rec 2 hw_inv_insert_old [OF inv stored [OF Some]]
        by (auto split: storage_fault.splits if_splits)
    qed
  qed
qed

definition sign_step ::
  "codecs \<Rightarrow> validator_index \<Rightarrow> high_water \<times> checkpoint_vote list \<Rightarrow> validator_signer \<times> session_certificate \<times> storage_fault \<times> checkpoint
    \<Rightarrow> high_water \<times> checkpoint_vote list" where
  "sign_step pr me st req =
     (case st of (hs, votes) \<Rightarrow> case req of (session, cert, fault, cp) \<Rightarrow>
        case sign_checkpoint pr session cert fault hs me cp of
          (Inl _, hs') \<Rightarrow> (hs', votes)
        | (Inr v, hs') \<Rightarrow> (hs', votes @ [v]))"

lemma sign_checkpoint_inv:
  assumes "mono f" "hw_inv f H hs" "cp_epoch cp = f (cp_index cp)"
    and "sign_checkpoint pr session cert fault hs me cp = (r, hs')"
  shows "hw_inv f H hs' \<and> (\<exists>e. r = Inl e) \<or>
    hw_inv f (insert (cp_index cp, checkpoint_digest pr cp) H) hs' \<and> (\<forall>v. r = Inr v \<longrightarrow> cv_checkpoint v = cp)"
proof -
  obtain r' hs1 where rec: "record_vote fault hs (f (cp_index cp)) (cp_index cp) (checkpoint_digest pr cp) (cp_prev cp) = (r', hs1)"
    by (metis surj_pair)
  show ?thesis
    using record_vote_inv [OF assms(1,2) rec] assms(2,4) rec
    by (auto simp: sign_checkpoint_def Let_def assms(3) split: if_splits sum.splits)
qed

lemma sign_run_inv:
  assumes f: "mono f" and reqs: "\<forall>(s, c, fault, cp) \<in> set reqs. cp_epoch cp = f (cp_index cp)"
    and inv: "hw_inv f H hs" "\<forall>v \<in> set votes. (cp_index (cv_checkpoint v), checkpoint_digest pr (cv_checkpoint v)) \<in> H"
  shows "\<exists>H'. hw_inv f H' (fst (foldl (sign_step pr me) (hs, votes) reqs))
    \<and> (\<forall>v \<in> set (snd (foldl (sign_step pr me) (hs, votes) reqs)).
         (cp_index (cv_checkpoint v), checkpoint_digest pr (cv_checkpoint v)) \<in> H')"
  using reqs inv
proof (induction reqs arbitrary: H hs votes)
  case (Cons req reqs)
  obtain session cert fault cp where req: "req = (session, cert, fault, cp)" by (cases req) auto
  obtain r hs' where sc: "sign_checkpoint pr session cert fault hs me cp = (r, hs')" by (metis surj_pair)
  have e: "cp_epoch cp = f (cp_index cp)" using Cons.prems(1) req by auto
  have rest: "\<forall>(s, c, fault, cp) \<in> set reqs. cp_epoch cp = f (cp_index cp)" using Cons.prems(1) by auto
  have step: "sign_step pr me (hs, votes) req = (hs', case r of Inl _ \<Rightarrow> votes | Inr v \<Rightarrow> votes @ [v])"
    using sc by (simp add: sign_step_def req split: sum.splits)
  let ?k = "(cp_index cp, checkpoint_digest pr cp)"
  obtain H' where "hw_inv f H' hs'"
    "\<forall>v \<in> set (case r of Inl _ \<Rightarrow> votes | Inr v \<Rightarrow> votes @ [v]). (cp_index (cv_checkpoint v), checkpoint_digest pr (cv_checkpoint v)) \<in> H'"
  proof (cases r)
    case (Inl e)
    then show ?thesis
      using sign_checkpoint_inv [OF f Cons.prems(2) e sc] Cons.prems(3) that [of H] that [of "insert ?k H"] by auto
  next
    case (Inr v)
    then show ?thesis
      using sign_checkpoint_inv [OF f Cons.prems(2) e sc] Cons.prems(3) that [of "insert ?k H"] by auto
  qed
  then show ?case using Cons.IH [OF rest] by (simp add: step)
qed auto

lemma signed_once:
  assumes "mono f" and "\<forall>(s, c, fault, cp) \<in> set reqs. cp_epoch cp = f (cp_index cp)"
    and "v \<in> set (snd (foldl (sign_step pr me) (hs_empty, []) reqs))" "v' \<in> set (snd (foldl (sign_step pr me) (hs_empty, []) reqs))"
    and "cp_index (cv_checkpoint v) = cp_index (cv_checkpoint v')"
  shows "checkpoint_digest pr (cv_checkpoint v) = checkpoint_digest pr (cv_checkpoint v')"
proof -
  obtain H where "hw_inv f H (fst (foldl (sign_step pr me) (hs_empty, []) reqs))"
    and votes: "\<forall>v \<in> set (snd (foldl (sign_step pr me) (hs_empty, []) reqs)).
         (cp_index (cv_checkpoint v), checkpoint_digest pr (cv_checkpoint v)) \<in> H"
    using sign_run_inv [OF assms(1,2) hw_inv_empty, where votes = "[]" and pr = pr and me = me] by auto
  then have "\<forall>i d d'. (i, d) \<in> H \<longrightarrow> (i, d') \<in> H \<longrightarrow> d = d'" unfolding hw_inv_def by blast
  then show ?thesis using votes assms(3-5) by metis
qed

text \<open>
  Property C37. Over any sequence of requests to sign, across failures of the storage and restarts,
  a validator releases no two votes for one index with different checkpoint digests, when the epoch
  of a checkpoint is a monotone function of its index.
\<close>

theorem votes_never_conflict:
  assumes "mono f" and "\<forall>(s, c, fault, cp) \<in> set reqs. cp_epoch cp = f (cp_index cp)"
    and "v \<in> set (snd (foldl (sign_step pr me) (hs_empty, []) reqs))" "v' \<in> set (snd (foldl (sign_step pr me) (hs_empty, []) reqs))"
    and "cp_index (cv_checkpoint v) = cp_index (cv_checkpoint v')"
  shows "checkpoint_digest pr (cv_checkpoint v) = checkpoint_digest pr (cv_checkpoint v')"
  using assms by (rule signed_once)

definition demo_signer :: validator_signer where
  "demo_signer = \<lparr>vs_public_key = demo_key, vs_sign = (\<lambda>_ _. Inr demo_sig)\<rparr>"

definition demo_vote :: "digest option \<Rightarrow> checkpoint_vote" where
  "demo_vote n = \<lparr>cv_checkpoint = demo_checkpoint 0 n, cv_signer = 0,
     cv_signature = \<lparr>vs_session = demo_session 0, vs_signature = demo_sig\<rparr>\<rparr>"

text \<open>Primitives under which a checkpoint that ends its epoch has another digest than one that does not.\<close>

definition fork_codecs :: codecs where
  "fork_codecs = demo_codecs\<lparr>pr_blake3 := (\<lambda>b. if last b = 9 then [9] else demo_hash),
     pr_checkpoint_bytes := (\<lambda>cp. if cp_next_committee_root cp = None then [9] else [8])\<rparr>"

lemma demo_like_fork: "demo_like fork_codecs"
  by (simp add: demo_like_def fork_codecs_def demo_codecs_def fingerprint_def session_digest_def primitives.truncate_def
      demo_key_def ascii_bytes_def last_append)

lemma fork_digests: "checkpoint_digest fork_codecs (demo_checkpoint 0 (Some demo_hash)) \<noteq> checkpoint_digest fork_codecs (demo_checkpoint 0 None)"
  by (simp add: checkpoint_digest_def digest_under_def CHECKPOINT_DIGEST_SCHEMES_def scheme_from_def fork_codecs_def
      demo_checkpoint_def demo_hash_def demo_codecs_def numeral_eq_Suc)

lemma demo_signing_run:
  "snd (foldl (sign_step fork_codecs 0) (hs_empty, [])
     [(demo_signer, demo_session 0, NoFault, demo_checkpoint 0 None),
      (demo_signer, demo_session 0, NoFault, demo_checkpoint 0 (Some demo_hash)),
      (demo_signer, demo_session 0, NoFault, demo_checkpoint 0 None)]) = [demo_vote None, demo_vote None]"
proof -
  have fields: "cp_epoch (demo_checkpoint 0 n) = 0" "cp_index (demo_checkpoint 0 n) = 0" "vs_public_key demo_signer = demo_key"
    "sc_epoch (demo_session 0) = 0" "vs_sign demo_signer b b' = Inr demo_sig" for n b b'
    by (simp_all add: demo_checkpoint_def demo_session_def demo_signer_def)
  show ?thesis
    using fork_digests
    by (simp add: sign_step_def sign_checkpoint_def fields Let_def record_vote_def check_high_water_def hs_empty_def demo_vote_def)
qed

theorem votes_never_conflict_witness:
  "let votes = snd (foldl (sign_step fork_codecs 0) (hs_empty, [])
     [(demo_signer, demo_session 0, NoFault, demo_checkpoint 0 None),
      (demo_signer, demo_session 0, NoFault, demo_checkpoint 0 (Some demo_hash)),
      (demo_signer, demo_session 0, NoFault, demo_checkpoint 0 None)]) in
   length votes = 2 \<and> checkpoint_digest fork_codecs (cv_checkpoint (votes ! 0)) = checkpoint_digest fork_codecs (cv_checkpoint (votes ! 1))"
proof -
  let ?reqs = "[(demo_signer, demo_session 0, NoFault, demo_checkpoint 0 None),
      (demo_signer, demo_session 0, NoFault, demo_checkpoint 0 (Some demo_hash)),
      (demo_signer, demo_session 0, NoFault, demo_checkpoint 0 None)]"
  let ?votes = "snd (foldl (sign_step fork_codecs 0) (hs_empty, []) ?reqs)"
  have in_run: "?votes ! 0 \<in> set ?votes" "?votes ! 1 \<in> set ?votes" unfolding demo_signing_run by simp_all
  have "\<forall>(s, c, fault, cp) \<in> set ?reqs. cp_epoch cp = cp_index cp" by (simp add: demo_checkpoint_def)
  moreover have "cp_index (cv_checkpoint (?votes ! 0)) = cp_index (cv_checkpoint (?votes ! 1))"
    unfolding demo_signing_run by simp
  ultimately have "checkpoint_digest fork_codecs (cv_checkpoint (?votes ! 0)) = checkpoint_digest fork_codecs (cv_checkpoint (?votes ! 1))"
    using votes_never_conflict [of "\<lambda>i. i" ?reqs, OF _ _ in_run] by (simp add: mono_def)
  moreover have "length ?votes = 2" unfolding demo_signing_run by simp
  ultimately show ?thesis unfolding Let_def by (rule conjI [rotated])
qed

text \<open>
  The epoch decides before the index does: at a later epoch the mark moves to an index already signed,
  whatever its digest.
\<close>

lemma later_epoch_signs_index_again:
  "fst (record_vote NoFault (snd (record_vote NoFault hs_empty 0 5 d p)) 1 5 d' p') = Inr ()"
  by (simp add: record_vote_def check_high_water_def hs_empty_def Let_def less_prod_def)

end
