(* ===== verification/Vote_Collector.thy ===== *)
theory Vote_Collector
  imports Checkpoint_Votes
begin

text \<open>
  Counting checkpoint votes (\<^verbatim>\<open>crates/tenzro-consensus/src/checkpoint.rs\<close>): the evidence two
  conflicting certificates give against everyone who signed both, and the collector that turns votes
  into certificates and catches equivocations.
\<close>

section \<open>Evidence\<close>

record checkpoint_equivocation =
  ce_public_key :: validator_public_key
  ce_first :: checkpoint
  ce_first_signature :: vote_signature
  ce_second :: checkpoint
  ce_second_signature :: vote_signature

definition equivocation_is_valid :: "codecs \<Rightarrow> checkpoint_equivocation \<Rightarrow> nat \<Rightarrow> bool" where
  "equivocation_is_valid pr e chain =
     (let a = ce_first e; b = ce_second e in
      if cp_chain_id a \<noteq> chain \<or> cp_chain_id b \<noteq> chain \<or> cp_genesis_hash a \<noteq> cp_genesis_hash b
         \<or> cp_epoch a \<noteq> cp_epoch b \<or> cp_index a \<noteq> cp_index b
      then False
      else checkpoint_digest pr a \<noteq> checkpoint_digest pr b
        \<and> vote_signature_verify pr (ce_first_signature e) (ce_public_key e) a
        \<and> vote_signature_verify pr (ce_second_signature e) (ce_public_key e) b)"

definition vote_signature_at :: "certificate \<Rightarrow> nat \<Rightarrow> session_book \<Rightarrow> vote_signature option" where
  "vote_signature_at ct i book =
     (if i < length (ct_sessions ct)
      then case book_get book (ct_sessions ct ! i) of
          None \<Rightarrow> None
        | Some (_, session) \<Rightarrow>
            if i < length (ct_signatures ct)
            then Some \<lparr>vs_session = session, vs_signature = ct_signatures ct ! i\<rparr> else None
      else None)"

definition signer_positions :: "certificate \<Rightarrow> validator_index \<rightharpoonup> nat" where
  "signer_positions ct = map_of (rev (map (\<lambda>(i, s). (s, i)) (enumerate 0 (ct_signers ct))))"

definition convict ::
  "certificate \<Rightarrow> certificate \<Rightarrow> certificate_context \<Rightarrow> nat \<times> validator_index \<Rightarrow> (validator_index \<times> checkpoint_equivocation) option" where
  "convict a b cx = (\<lambda>(i, s).
     Option.bind (signer_positions b s) (\<lambda>j.
     Option.bind (c_member (cx_committee cx) s) (\<lambda>mem.
     Option.bind (vote_signature_at a i (cx_sessions cx)) (\<lambda>first.
     Option.bind (vote_signature_at b j (cx_sessions cx)) (\<lambda>second.
       Some (s, \<lparr>ce_public_key = m_public_key mem, ce_first = ct_checkpoint a, ce_first_signature = first,
                 ce_second = ct_checkpoint b, ce_second_signature = second\<rparr>))))))"

definition from_conflicting_certificates ::
  "codecs \<Rightarrow> certificate \<Rightarrow> certificate \<Rightarrow> certificate_context \<Rightarrow> (validator_index \<times> checkpoint_equivocation) list" where
  "from_conflicting_certificates pr a b cx =
     (if certificate_verify pr a cx \<noteq> Inr () \<or> certificate_verify pr b cx \<noteq> Inr ()
         \<or> cp_index (ct_checkpoint a) \<noteq> cp_index (ct_checkpoint b)
         \<or> checkpoint_digest pr (ct_checkpoint a) = checkpoint_digest pr (ct_checkpoint b)
      then []
      else List.map_filter (convict a b cx) (enumerate 0 (ct_signers a)))"

lemma signer_positions_Some: "signer_positions ct s = Some j \<Longrightarrow> j < length (ct_signers ct) \<and> ct_signers ct ! j = s"
  unfolding signer_positions_def by (auto dest!: map_of_SomeD simp: in_set_enumerate_eq)

lemma signer_positions_None: "signer_positions ct s = None \<longleftrightarrow> s \<notin> set (ct_signers ct)"
proof -
  have "snd ` set (enumerate 0 (ct_signers ct)) = set (ct_signers ct)" by (metis list.set_map map_snd_enumerate)
  then show ?thesis by (simp add: signer_positions_def map_of_eq_None_iff image_image case_prod_beta)
qed

lemma set_map_filter: "set (List.map_filter f xs) = {y. \<exists>x \<in> set xs. f x = Some y}"
  by (induction xs) (auto simp: List.map_filter_simps split: option.splits)

lemma convict_signer:
  assumes a: "certificate_verify pr a (context_for pr c chain genesis certs) = Inr ()"
    and b: "certificate_verify pr b (context_for pr c chain genesis certs) = Inr ()"
    and i: "i < length (ct_signers a)" and s: "ct_signers a ! i \<in> set (ct_signers b)"
  obtains e where "convict a b (context_for pr c chain genesis certs) (i, ct_signers a ! i) = Some (ct_signers a ! i, e)"
    "ce_public_key e = m_public_key (c_members c ! (ct_signers a ! i))" "ce_first e = ct_checkpoint a" "ce_second e = ct_checkpoint b"
    "vote_signature_verify pr (ce_first_signature e) (ce_public_key e) (ct_checkpoint a)"
    "vote_signature_verify pr (ce_second_signature e) (ce_public_key e) (ct_checkpoint b)"
proof -
  let ?cx = "context_for pr c chain genesis certs" and ?s = "ct_signers a ! i"
  obtain j where j: "signer_positions b ?s = Some j" "j < length (ct_signers b)" "ct_signers b ! j = ?s"
    using s signer_positions_None [of b ?s] signer_positions_Some [of b ?s] by (cases "signer_positions b ?s") auto
  obtain s1 where s1: "book_get (cx_sessions ?cx) (ct_sessions a ! i) = Some (?s, s1)" "i < length (ct_sessions a)" "i < length (ct_signatures a)"
    "vote_signature_verify pr \<lparr>vs_session = s1, vs_signature = ct_signatures a ! i\<rparr> (m_public_key (c_members c ! ?s)) (ct_checkpoint a)"
    by (rule certificate_vote_signature [OF a i])
  obtain s2 where s2: "book_get (cx_sessions ?cx) (ct_sessions b ! j) = Some (?s, s2)" "j < length (ct_sessions b)" "j < length (ct_signatures b)"
    "vote_signature_verify pr \<lparr>vs_session = s2, vs_signature = ct_signatures b ! j\<rparr> (m_public_key (c_members c ! ?s)) (ct_checkpoint b)"
    using certificate_vote_signature [OF b j(2)] j(3) by metis
  have "?s \<in> member_set c" using certificate_verify_signers(1) [OF a] i by (auto simp: context_for_def)
  then have "c_member (cx_committee ?cx) ?s = Some (c_members c ! ?s)" by (simp add: context_for_def member_set_def c_member_def)
  then show thesis
    using that [of "\<lparr>ce_public_key = m_public_key (c_members c ! ?s), ce_first = ct_checkpoint a,
        ce_first_signature = \<lparr>vs_session = s1, vs_signature = ct_signatures a ! i\<rparr>, ce_second = ct_checkpoint b,
        ce_second_signature = \<lparr>vs_session = s2, vs_signature = ct_signatures b ! j\<rparr>\<rparr>"] j s1 s2
    by (simp add: convict_def vote_signature_at_def)
qed

text \<open>
  Property C38. Two certificates that verify for one index with different digests convict validators of
  more seats than may be faulty: each piece of evidence is valid on its own and against the hardware
  key of the member it names.
\<close>

theorem conflict_convicts:
  assumes wf: "wf_committee c"
    and a: "certificate_verify pr a (context_for pr c chain genesis certs) = Inr ()"
    and b: "certificate_verify pr b (context_for pr c chain genesis certs) = Inr ()"
    and conflict: "cp_index (ct_checkpoint a) = cp_index (ct_checkpoint b)"
      "checkpoint_digest pr (ct_checkpoint a) \<noteq> checkpoint_digest pr (ct_checkpoint b)"
  shows "let evidence = from_conflicting_certificates pr a b (context_for pr c chain genesis certs) in
    max_faulty c < sum (c_seats c) (fst ` set evidence)
    \<and> (\<forall>(s, e) \<in> set evidence. ce_public_key e = m_public_key (c_members c ! s) \<and> equivocation_is_valid pr e chain)"
proof -
  let ?cx = "context_for pr c chain genesis certs"
  let ?ev = "from_conflicting_certificates pr a b ?cx"
  have ev: "set ?ev = {y. \<exists>x \<in> set (enumerate 0 (ct_signers a)). convict a b ?cx x = Some y}"
    using a b conflict by (simp add: from_conflicting_certificates_def set_map_filter)
  have sound: "s \<in> set (ct_signers a) \<inter> set (ct_signers b) \<and> ce_public_key e = m_public_key (c_members c ! s) \<and> equivocation_is_valid pr e chain"
    if in_ev: "(s, e) \<in> set ?ev" for s e
  proof -
    obtain i where i: "i < length (ct_signers a)" and con: "convict a b ?cx (i, ct_signers a ! i) = Some (s, e)"
      using in_ev ev by (auto simp: in_set_enumerate_eq)
    have "signer_positions b (ct_signers a ! i) \<noteq> None" using con by (auto simp: convict_def bind_eq_Some_conv)
    then have both: "ct_signers a ! i \<in> set (ct_signers b)" by (simp add: signer_positions_None)
    have s: "s = ct_signers a ! i" using con by (auto simp: convict_def bind_eq_Some_conv)
    have "s \<in> set (ct_signers a)" "s \<in> set (ct_signers b)" unfolding s using i both by simp_all
    moreover have "ce_public_key e = m_public_key (c_members c ! s) \<and> equivocation_is_valid pr e chain"
      by (rule convict_signer [OF a b i both])
        (use con conflict certificate_verify_signers(3-5) [OF a] certificate_verify_signers(3-5) [OF b] in
          \<open>simp add: equivocation_is_valid_def context_for_def\<close>)
    ultimately show ?thesis by simp
  qed
  have complete: "s \<in> fst ` set ?ev" if common: "s \<in> set (ct_signers a) \<inter> set (ct_signers b)" for s
  proof -
    obtain i where i: "i < length (ct_signers a)" "ct_signers a ! i = s" using common by (auto simp: in_set_conv_nth)
    then have "(i, ct_signers a ! i) \<in> set (enumerate 0 (ct_signers a))" by (auto simp: in_set_enumerate_eq)
    moreover have "ct_signers a ! i \<in> set (ct_signers b)" using common i by simp
    then obtain e where "convict a b ?cx (i, ct_signers a ! i) = Some (s, e)"
      using convict_signer [OF a b i(1)] i(2) by metis
    ultimately have "(s, e) \<in> set ?ev" unfolding ev by blast
    then show ?thesis by force
  qed
  have "fst ` set ?ev = set (ct_signers a) \<inter> set (ct_signers b)" using sound complete by fastforce
  moreover have "max_faulty c < sum (c_seats c) (set (ct_signers a) \<inter> set (ct_signers b))"
    using certificate_verify_signers(1,2) [OF a] certificate_verify_signers(1,2) [OF b]
    by (intro cq.quorums_overlap [OF wf]) (simp_all add: context_for_def quorum_def)
  ultimately show ?thesis unfolding Let_def using sound by auto
qed


theorem conflict_convicts_witness:
  "let evidence = from_conflicting_certificates fork_codecs (demo_certificate 0 (Some demo_hash)) (demo_certificate 0 None)
       (context_for fork_codecs (solo_committee 0) 7 demo_hash [demo_session 0]) in
    max_faulty (solo_committee 0) < sum (c_seats (solo_committee 0)) (fst ` set evidence)
    \<and> list_all (\<lambda>(s, e). ce_public_key e = m_public_key (c_members (solo_committee 0) ! s) \<and> equivocation_is_valid fork_codecs e 7) evidence"
proof -
  have same: "cp_index (demo_checkpoint 0 n) = cp_index (demo_checkpoint 0 n')" for n n' by (simp add: demo_checkpoint_def)
  show ?thesis
    using conflict_convicts [OF wf_solo demo_certificate_verifies [OF demo_like_fork, of 0 "Some demo_hash"]
        demo_certificate_verifies [OF demo_like_fork, of 0 None]] same fork_digests
    unfolding Let_def list_all_iff by (simp add: demo_certificate_def)
qed

section \<open>The collector\<close>

datatype vote_outcome =
    Counted
  | Duplicate
  | Certified certificate
  | Equivocation checkpoint_vote checkpoint_vote

record index_votes =
  iv_by_signer :: "validator_index \<rightharpoonup> checkpoint_vote"
  iv_by_digest :: "digest \<rightharpoonup> seat_set"
  iv_certified :: bool

record vote_collector =
  vc_indices :: "nat \<rightharpoonup> index_votes"
  vc_floor :: nat

definition iv_default :: index_votes where
  "iv_default = \<lparr>iv_by_signer = Map.empty, iv_by_digest = Map.empty, iv_certified = False\<rparr>"

definition collector_new :: vote_collector where
  "collector_new = \<lparr>vc_indices = Map.empty, vc_floor = 0\<rparr>"

definition index_entry :: "vote_collector \<Rightarrow> nat \<Rightarrow> index_votes" where
  "index_entry vc i = (case vc_indices vc i of None \<Rightarrow> iv_default | Some e \<Rightarrow> e)"

definition form_certificate :: "codecs \<Rightarrow> index_votes \<Rightarrow> seat_set \<Rightarrow> validator_index \<Rightarrow> certificate" where
  "form_certificate pr e seats signer =
     (let signers = sort (ss_iter seats); vote = \<lambda>s. the (iv_by_signer e s) in
      \<lparr>ct_checkpoint = cv_checkpoint (vote signer), ct_signers = signers,
       ct_sessions = map (\<lambda>s. session_digest pr (vs_session (cv_signature (vote s)))) signers,
       ct_signatures = map (\<lambda>s. vs_signature (cv_signature (vote s))) signers\<rparr>)"

definition add_entry :: "codecs \<Rightarrow> committee \<Rightarrow> index_votes \<Rightarrow> checkpoint_vote \<Rightarrow> vote_outcome \<times> index_votes" where
  "add_entry pr c e vote =
     (let d = checkpoint_digest pr (cv_checkpoint vote) in
      case iv_by_signer e (cv_signer vote) of
        Some prev \<Rightarrow>
          (if checkpoint_digest pr (cv_checkpoint prev) = d then (Duplicate, e) else (Equivocation prev vote, e))
      | None \<Rightarrow>
         (let signer = cv_signer vote;
              e = e\<lparr>iv_by_signer := (iv_by_signer e)(signer \<mapsto> vote)\<rparr> in
          if iv_certified e then (Duplicate, e)
          else let seats = (case iv_by_digest e d of None \<Rightarrow> ss_new | Some s \<Rightarrow> s);
                   seats = snd (ss_insert seats signer (c_seats c signer));
                   e = e\<lparr>iv_by_digest := (iv_by_digest e)(d \<mapsto> seats)\<rparr> in
            if ss_weight seats < quorum c then (Counted, e)
            else (Certified (form_certificate pr e seats signer), e\<lparr>iv_certified := True\<rparr>)))"

definition collector_add :: "codecs \<Rightarrow> committee \<Rightarrow> vote_collector \<Rightarrow> checkpoint_vote \<Rightarrow> vote_outcome \<times> vote_collector" where
  "collector_add pr c vc vote =
     (if cp_index (cv_checkpoint vote) < vc_floor vc then (Duplicate, vc)
      else let i = cp_index (cv_checkpoint vote); (out, e) = add_entry pr c (index_entry vc i) vote
        in (out, vc\<lparr>vc_indices := (vc_indices vc)(i \<mapsto> e)\<rparr>))"

definition collector_prune_below :: "vote_collector \<Rightarrow> nat \<Rightarrow> vote_collector" where
  "collector_prune_below vc i =
     (if vc_floor vc < i then vc\<lparr>vc_floor := i, vc_indices := (vc_indices vc) |` {i..}\<rparr> else vc)"

section \<open>Certificates the collector forms\<close>

text \<open>What the caller of the collector has checked of a vote: its signature, and its session admitted to the book.\<close>

definition vote_ok :: "codecs \<Rightarrow> certificate_context \<Rightarrow> checkpoint_vote \<Rightarrow> bool" where
  "vote_ok pr cx v \<longleftrightarrow>
     (let cp = cv_checkpoint v; session = vs_session (cv_signature v) in
      cp_chain_id cp = cx_chain_id cx \<and> cp_genesis_hash cp = cx_genesis_hash cx \<and> cp_epoch cp = c_epoch (cx_committee cx)
      \<and> cp_epoch cp = sb_epoch (cx_sessions cx) \<and> well_formed cp \<and> cv_signer v \<in> member_set (cx_committee cx)
      \<and> book_get (cx_sessions cx) (session_digest pr session) = Some (cv_signer v, session)
      \<and> key_verify (prims pr) (sc_session_key session) CHECKPOINT_VOTE_DOMAIN (checkpoint_digest pr cp) (vs_signature (cv_signature v)))"

definition voters_for :: "codecs \<Rightarrow> index_votes \<Rightarrow> digest \<Rightarrow> validator_index set" where
  "voters_for pr e d = {s. \<exists>v. iv_by_signer e s = Some v \<and> checkpoint_digest pr (cv_checkpoint v) = d}"

definition entry_inv :: "codecs \<Rightarrow> committee \<Rightarrow> (checkpoint_vote \<Rightarrow> bool) \<Rightarrow> nat \<Rightarrow> index_votes \<Rightarrow> bool" where
  "entry_inv pr c ok i e \<longleftrightarrow>
     (\<forall>s v. iv_by_signer e s = Some v \<longrightarrow> cv_signer v = s \<and> ok v \<and> cp_index (cv_checkpoint v) = i)
     \<and> (\<forall>d ss. iv_by_digest e d = Some ss \<longrightarrow>
          ss_elems ss \<subseteq> voters_for pr e d \<and> ss_weight ss = sum (c_seats c) (ss_elems ss))
     \<and> (\<not> iv_certified e \<longrightarrow>
          (\<forall>d. case iv_by_digest e d of None \<Rightarrow> voters_for pr e d = {}
              | Some ss \<Rightarrow> voters_for pr e d = ss_elems ss \<and> ss_weight ss < quorum c))"

lemma finite_ss_elems [simp]: "finite (ss_elems ss)"
  by (metis List.finite_set ss_iter_spec)

lemma entry_inv_default: "entry_inv pr c ok i iv_default"
  by (simp add: entry_inv_def iv_default_def voters_for_def)

lemma list_all_zip_maps:
  "list_all P (zip (zip xs (map f xs)) (map g xs)) \<longleftrightarrow> list_all (\<lambda>x. P ((x, f x), g x)) xs"
  by (induction xs) auto

text \<open>A certificate formed from votes for one digest that satisfy \<open>ok\<close>, by members who hold a quorum.\<close>

definition formed :: "codecs \<Rightarrow> committee \<Rightarrow> (checkpoint_vote \<Rightarrow> bool) \<Rightarrow> nat \<Rightarrow> certificate \<Rightarrow> bool" where
  "formed pr c ok i ct \<longleftrightarrow>
     (\<exists>vote. sorted_wrt (<) (ct_signers ct) \<and> quorum c \<le> sum (c_seats c) (set (ct_signers ct))
        \<and> (\<forall>s \<in> set (ct_signers ct). cv_signer (vote s) = s \<and> ok (vote s) \<and> cp_index (cv_checkpoint (vote s)) = i
             \<and> checkpoint_digest pr (cv_checkpoint (vote s)) = checkpoint_digest pr (ct_checkpoint ct))
        \<and> (\<exists>s \<in> set (ct_signers ct). ct_checkpoint ct = cv_checkpoint (vote s))
        \<and> ct_sessions ct = map (\<lambda>s. session_digest pr (vs_session (cv_signature (vote s)))) (ct_signers ct)
        \<and> ct_signatures ct = map (\<lambda>s. vs_signature (cv_signature (vote s))) (ct_signers ct))"

lemma form_certificate_formed:
  assumes signed: "\<And>s. s \<in> ss_elems seats \<Longrightarrow> \<exists>v. iv_by_signer e s = Some v \<and> cv_signer v = s \<and> ok v
        \<and> cp_index (cv_checkpoint v) = i \<and> checkpoint_digest pr (cv_checkpoint v) = d"
    and weight: "ss_weight seats = sum (c_seats c) (ss_elems seats)" "quorum c \<le> ss_weight seats"
    and last: "signer \<in> ss_elems seats"
  shows "formed pr c ok i (form_certificate pr e seats signer)"
proof -
  let ?ct = "form_certificate pr e seats signer" and ?vote = "\<lambda>s. the (iv_by_signer e s)"
  have iter: "sort (ss_iter seats) = ss_iter seats" "sorted_wrt (<) (ss_iter seats)" "set (ss_iter seats) = ss_elems seats"
    using ss_iter_spec [of seats] by (simp_all add: sorted_sort_id strict_sorted_iff)
  have vote: "cv_signer (?vote s) = s \<and> ok (?vote s) \<and> cp_index (cv_checkpoint (?vote s)) = i
      \<and> checkpoint_digest pr (cv_checkpoint (?vote s)) = d" if "s \<in> ss_elems seats" for s
    using signed [OF that] by auto
  have cp: "ct_checkpoint ?ct = cv_checkpoint (?vote signer)" and signers: "ct_signers ?ct = ss_iter seats"
    by (simp_all add: form_certificate_def Let_def iter)
  have "checkpoint_digest pr (ct_checkpoint ?ct) = d" using vote [OF last] by (simp add: cp)
  then show ?thesis
    unfolding formed_def using vote last weight iter(2)
    by (intro exI [of _ ?vote]) (auto simp: signers iter cp form_certificate_def Let_def)
qed

lemma formed_verifies:
  assumes "formed pr (cx_committee cx) (vote_ok pr cx) i ct"
  shows "certificate_verify pr ct cx = Inr ()" and "cp_index (ct_checkpoint ct) = i"
proof -
  obtain vote where signers: "sorted_wrt (<) (ct_signers ct)" "quorum (cx_committee cx) \<le> sum (c_seats (cx_committee cx)) (set (ct_signers ct))"
    and vote: "\<And>s. s \<in> set (ct_signers ct) \<Longrightarrow> cv_signer (vote s) = s \<and> vote_ok pr cx (vote s) \<and> cp_index (cv_checkpoint (vote s)) = i
      \<and> checkpoint_digest pr (cv_checkpoint (vote s)) = checkpoint_digest pr (ct_checkpoint ct)"
    and cp: "\<exists>s \<in> set (ct_signers ct). ct_checkpoint ct = cv_checkpoint (vote s)"
    and lists: "ct_sessions ct = map (\<lambda>s. session_digest pr (vs_session (cv_signature (vote s)))) (ct_signers ct)"
      "ct_signatures ct = map (\<lambda>s. vs_signature (cv_signature (vote s))) (ct_signers ct)"
    using assms unfolding formed_def by blast
  have "list_all (\<lambda>((s, session), sig). \<exists>cert. book_get (cx_sessions cx) session = Some (s, cert)
      \<and> key_verify (prims pr) (sc_session_key cert) CHECKPOINT_VOTE_DOMAIN (checkpoint_digest pr (ct_checkpoint ct)) sig)
      (zip (zip (ct_signers ct) (ct_sessions ct)) (ct_signatures ct))"
    unfolding lists list_all_zip_maps using vote by (fastforce simp: list_all_iff vote_ok_def Let_def)
  moreover have "set (ct_signers ct) \<subseteq> member_set (cx_committee cx)"
  proof
    fix s assume "s \<in> set (ct_signers ct)"
    from vote [OF this] show "s \<in> member_set (cx_committee cx)" by (auto simp: vote_ok_def Let_def)
  qed
  moreover obtain s0 where s0: "s0 \<in> set (ct_signers ct)" "cv_checkpoint (vote s0) = ct_checkpoint ct" using cp by force
  note ok = vote [OF s0(1), unfolded vote_ok_def Let_def s0(2)]
  moreover have "length (ct_sessions ct) = length (ct_signers ct)" "length (ct_signatures ct) = length (ct_signers ct)"
    by (simp_all add: lists)
  ultimately show "certificate_verify pr ct cx = Inr ()"
    using signers unfolding certificate_verify_Inr Let_def by blast
  show "cp_index (ct_checkpoint ct) = i" using ok by simp
qed

text \<open>What recording a first vote of a signer does to the voters for each digest.\<close>

lemma voters_for_record:
  assumes "iv_by_signer e s = None" "iv_by_signer e' = (iv_by_signer e)(s \<mapsto> v)"
  shows "voters_for pr e' d = (if d = checkpoint_digest pr (cv_checkpoint v) then insert s (voters_for pr e d) else voters_for pr e d)"
  using assms by (auto simp: voters_for_def)

lemma entry_invI:
  assumes "\<And>s v. iv_by_signer e s = Some v \<Longrightarrow> cv_signer v = s \<and> ok v \<and> cp_index (cv_checkpoint v) = i"
    and "\<And>d ss. iv_by_digest e d = Some ss \<Longrightarrow>
          ss_elems ss \<subseteq> voters_for pr e d \<and> ss_weight ss = sum (c_seats c) (ss_elems ss)"
    and "\<And>d. \<not> iv_certified e \<Longrightarrow> case iv_by_digest e d of None \<Rightarrow> voters_for pr e d = {}
              | Some ss \<Rightarrow> voters_for pr e d = ss_elems ss \<and> ss_weight ss < quorum c"
  shows "entry_inv pr c ok i e"
  unfolding entry_inv_def using assms by blast

lemma entry_inv_open:
  assumes "entry_inv pr c ok i e" "\<not> iv_certified e"
  shows "case iv_by_digest e d of None \<Rightarrow> voters_for pr e d = {}
      | Some ss \<Rightarrow> voters_for pr e d = ss_elems ss \<and> ss_weight ss < quorum c"
  using assms unfolding entry_inv_def by blast

lemma entry_inv_seats:
  assumes inv: "entry_inv pr c ok i e" and new: "iv_by_signer e (cv_signer v) = None" "\<not> iv_certified e"
    and d: "d = checkpoint_digest pr (cv_checkpoint v)"
  defines "seats \<equiv> snd (ss_insert (case iv_by_digest e d of None \<Rightarrow> ss_new | Some s \<Rightarrow> s) (cv_signer v)
      (c_seats c (cv_signer v)))"
  shows "ss_elems seats = insert (cv_signer v) (voters_for pr e d)"
    and "ss_weight seats = sum (c_seats c) (ss_elems seats)"
proof -
  let ?old = "case iv_by_digest e d of None \<Rightarrow> ss_new | Some s \<Rightarrow> s"
  have old: "ss_elems ?old = voters_for pr e d \<and> ss_weight ?old = sum (c_seats c) (ss_elems ?old)"
  proof (cases "iv_by_digest e d")
    case None
    then have "voters_for pr e d = {}" using entry_inv_open [OF inv new(2), of d] by simp
    then show ?thesis using None seatset.elems_empty seatset.weight_empty by simp
  next
    case (Some ss)
    then have "voters_for pr e d = ss_elems ss" using entry_inv_open [OF inv new(2), of d] by simp
    moreover have "ss_weight ss = sum (c_seats c) (ss_elems ss)" using inv Some unfolding entry_inv_def by blast
    ultimately show ?thesis using Some by simp
  qed
  have "cv_signer v \<notin> voters_for pr e d" using new(1) by (simp add: voters_for_def)
  then show "ss_elems seats = insert (cv_signer v) (voters_for pr e d)"
    and "ss_weight seats = sum (c_seats c) (ss_elems seats)"
    using old finite_ss_elems [of ?old] unfolding seats_def by (simp_all add: seatset.ins_elems seatset.ins_weight add.commute)
qed

text \<open>The entry after a vote was counted, before it may become a certificate.\<close>

lemma entry_inv_counted:
  assumes inv: "entry_inv pr c ok i e" and new: "iv_by_signer e (cv_signer v) = None" "\<not> iv_certified e"
    and v: "ok v" "cp_index (cv_checkpoint v) = i" and d: "d = checkpoint_digest pr (cv_checkpoint v)"
    and seats: "ss_elems seats = insert (cv_signer v) (voters_for pr e d)"
      "ss_weight seats = sum (c_seats c) (ss_elems seats)"
    and e': "iv_by_signer e' = (iv_by_signer e)(cv_signer v \<mapsto> v)" "iv_by_digest e' = (iv_by_digest e)(d \<mapsto> seats)"
    and short: "iv_certified e' \<or> ss_weight seats < quorum c"
  shows "entry_inv pr c ok i e'"
proof -
  note vf = voters_for_record [OF new(1) e'(1), of pr]
  have "cv_signer w = s \<and> ok w \<and> cp_index (cv_checkpoint w) = i" if "iv_by_signer e' s = Some w" for s w
    using that inv v unfolding e'(1) entry_inv_def by (auto split: if_splits)
  moreover have "ss_elems ss \<subseteq> voters_for pr e' d' \<and> ss_weight ss = sum (c_seats c) (ss_elems ss)"
    if "iv_by_digest e' d' = Some ss" for d' ss
  proof (cases "d' = d")
    case True
    then show ?thesis using that seats unfolding e'(2) vf by (simp add: d)
  next
    case False
    then have "iv_by_digest e d' = Some ss" using that unfolding e'(2) by simp
    then show ?thesis using inv False unfolding vf entry_inv_def by (simp add: d)
  qed
  moreover have "case iv_by_digest e' d' of None \<Rightarrow> voters_for pr e' d' = {}
      | Some ss \<Rightarrow> voters_for pr e' d' = ss_elems ss \<and> ss_weight ss < quorum c" if "\<not> iv_certified e'" for d'
  proof (cases "d' = d")
    case True
    then show ?thesis using seats short that unfolding e'(2) vf by (simp add: d)
  next
    case False
    have "case iv_by_digest e d' of None \<Rightarrow> voters_for pr e d' = {}
      | Some ss \<Rightarrow> voters_for pr e d' = ss_elems ss \<and> ss_weight ss < quorum c"
      by (rule entry_inv_open [OF inv new(2)])
    then show ?thesis using False unfolding e'(2) vf by (simp add: d)
  qed
  ultimately show ?thesis unfolding entry_inv_def by blast
qed

lemma entry_inv_late:
  assumes inv: "entry_inv pr c ok i e" and new: "iv_by_signer e (cv_signer v) = None" "iv_certified e"
    and v: "ok v" "cp_index (cv_checkpoint v) = i"
  shows "entry_inv pr c ok i (e\<lparr>iv_by_signer := (iv_by_signer e)(cv_signer v \<mapsto> v)\<rparr>)" (is "entry_inv pr c ok i ?e")
proof (rule entry_invI)
  have grow: "voters_for pr e d \<subseteq> voters_for pr ?e d" for d using new(1) by (auto simp: voters_for_def)
  fix d ss assume "iv_by_digest ?e d = Some ss"
  then have "iv_by_digest e d = Some ss" by simp
  then show "ss_elems ss \<subseteq> voters_for pr ?e d \<and> ss_weight ss = sum (c_seats c) (ss_elems ss)"
    using inv grow [of d] unfolding entry_inv_def by blast
next
  fix s w assume w: "iv_by_signer ?e s = Some w"
  show "cv_signer w = s \<and> ok w \<and> cp_index (cv_checkpoint w) = i"
  proof (cases "s = cv_signer v")
    case True
    then show ?thesis using w v by simp
  next
    case False
    then have "iv_by_signer e s = Some w" using w by simp
    then show ?thesis using inv unfolding entry_inv_def by blast
  qed
qed (use new(2) in simp)

text \<open>The three ways a vote is taken: a signer seen before, an index certified before, and a vote that counts.\<close>

lemma add_entry_cases:
  assumes inv: "entry_inv pr c ok i e" and v: "ok v" "cp_index (cv_checkpoint v) = i"
    and add: "add_entry pr c e v = (out, e')"
  obtains (seen) "e' = e" "iv_by_signer e (cv_signer v) \<noteq> None" "\<And>ct. out \<noteq> Certified ct"
  | (late) "iv_by_signer e' = (iv_by_signer e)(cv_signer v \<mapsto> v)" "iv_by_signer e (cv_signer v) = None" "iv_certified e" "iv_certified e'"
      "out = Duplicate" "entry_inv pr c ok i e'"
  | (counted) "iv_by_signer e' = (iv_by_signer e)(cv_signer v \<mapsto> v)" "iv_by_signer e (cv_signer v) = None" "\<not> iv_certified e"
      "\<not> iv_certified e'" "out = Counted" "entry_inv pr c ok i e'"
  | (certified) ct where "iv_by_signer e' = (iv_by_signer e)(cv_signer v \<mapsto> v)" "iv_by_signer e (cv_signer v) = None" "\<not> iv_certified e"
      "iv_certified e'" "out = Certified ct" "entry_inv pr c ok i e'" "formed pr c ok i ct"
proof (cases "iv_by_signer e (cv_signer v)")
  case (Some prev)
  then show ?thesis using add seen by (auto simp: add_entry_def Let_def split: if_splits)
next
  case new: None
  show ?thesis
  proof (cases "iv_certified e")
    case True
    then have "out = Duplicate" "e' = e\<lparr>iv_by_signer := (iv_by_signer e)(cv_signer v \<mapsto> v)\<rparr>"
      using add new by (simp_all add: add_entry_def Let_def)
    then show ?thesis using late new True entry_inv_late [OF inv new True v] by simp
  next
    case False
    let ?d = "checkpoint_digest pr (cv_checkpoint v)"
    define seats where "seats = snd (ss_insert (case iv_by_digest e ?d of None \<Rightarrow> ss_new | Some s \<Rightarrow> s) (cv_signer v) (c_seats c (cv_signer v)))"
    define e1 where "e1 = e\<lparr>iv_by_signer := (iv_by_signer e)(cv_signer v \<mapsto> v), iv_by_digest := (iv_by_digest e)(?d \<mapsto> seats)\<rparr>"
    note sp = entry_inv_seats [OF inv new False refl, folded seats_def]
    note counts = entry_inv_counted [OF inv new False v refl sp]
    have "add_entry pr c e v = (if ss_weight seats < quorum c then (Counted, e1)
        else (Certified (form_certificate pr e1 seats (cv_signer v)), e1\<lparr>iv_certified := True\<rparr>))"
      using new False by (simp add: add_entry_def Let_def seats_def e1_def)
    note res = trans [OF add [symmetric] this]
    show ?thesis
    proof (cases "ss_weight seats < quorum c")
      case True
      then show ?thesis using counted res new False counts [of e1] by (simp add: e1_def)
    next
      case enough: False
      have voters: "voters_for pr e1 ?d = ss_elems seats"
        using voters_for_record [OF new, of e1 v pr ?d] sp(1) by (simp add: e1_def)
      have inv1: "entry_inv pr c ok i (e1\<lparr>iv_certified := True\<rparr>)" using counts [of "e1\<lparr>iv_certified := True\<rparr>"] by (simp add: e1_def)
      have "\<exists>w. iv_by_signer e1 s = Some w \<and> cv_signer w = s \<and> ok w \<and> cp_index (cv_checkpoint w) = i \<and> checkpoint_digest pr (cv_checkpoint w) = ?d"
        if "s \<in> ss_elems seats" for s
        using that inv1 unfolding voters [symmetric] by (auto simp: entry_inv_def voters_for_def)
      then have "formed pr c ok i (form_certificate pr e1 seats (cv_signer v))"
        using sp enough by (intro form_certificate_formed [where d = ?d]) auto
      then show ?thesis using certified res enough new False inv1 by (simp add: e1_def)
    qed
  qed
qed

section \<open>Runs of the collector\<close>

abbreviation checked_entry :: "codecs \<Rightarrow> certificate_context \<Rightarrow> nat \<Rightarrow> index_votes \<Rightarrow> bool" where
  "checked_entry pr cx \<equiv> entry_inv pr (cx_committee cx) (vote_ok pr cx)"

datatype vc_op = AddVote checkpoint_vote | PruneBelow nat

definition vc_step :: "codecs \<Rightarrow> committee \<Rightarrow> vote_collector \<times> vote_outcome list \<Rightarrow> vc_op \<Rightarrow> vote_collector \<times> vote_outcome list" where
  "vc_step pr c st op =
     (case op of
        AddVote v \<Rightarrow> (let (out, vc) = collector_add pr c (fst st) v in (vc, snd st @ [out]))
      | PruneBelow i \<Rightarrow> (collector_prune_below (fst st) i, snd st))"

definition vc_run :: "codecs \<Rightarrow> committee \<Rightarrow> vc_op list \<Rightarrow> vote_collector \<times> vote_outcome list" where
  "vc_run pr c ops = foldl (vc_step pr c) (collector_new, []) ops"

definition certificates_of :: "vote_outcome list \<Rightarrow> certificate list" where
  "certificates_of outs = List.map_filter (\<lambda>out. case out of Certified ct \<Rightarrow> Some ct | _ \<Rightarrow> None) outs"

abbreviation ct_index :: "certificate \<Rightarrow> nat" where "ct_index ct \<equiv> cp_index (ct_checkpoint ct)"

abbreviation cv_index :: "checkpoint_vote \<Rightarrow> nat" where "cv_index v \<equiv> cp_index (cv_checkpoint v)"

lemma certificates_of_simps [simp]:
  "certificates_of [] = []"
  "certificates_of (outs @ [out]) = certificates_of outs @ (case out of Certified ct \<Rightarrow> [ct] | _ \<Rightarrow> [])"
  by (simp_all add: certificates_of_def List.map_filter_def split: vote_outcome.splits)

definition entries_ok :: "codecs \<Rightarrow> certificate_context \<Rightarrow> vc_op list \<Rightarrow> certificate list \<Rightarrow> vote_collector \<Rightarrow> bool" where
  "entries_ok pr cx ops certs vc \<longleftrightarrow>
     (\<forall>i e. vc_indices vc i = Some e \<longrightarrow> checked_entry pr cx i e \<and> (iv_certified e \<longrightarrow> i \<in> ct_index ` set certs)
        \<and> (\<forall>s w. iv_by_signer e s = Some w \<longrightarrow> AddVote w \<in> set ops))"

definition certs_ok :: "codecs \<Rightarrow> certificate_context \<Rightarrow> certificate list \<Rightarrow> vote_collector \<Rightarrow> bool" where
  "certs_ok pr cx certs vc \<longleftrightarrow>
     distinct (map ct_index certs)
     \<and> (\<forall>ct \<in> set certs. certificate_verify pr ct cx = Inr ()
          \<and> (vc_floor vc \<le> ct_index ct \<longrightarrow> (\<exists>e. vc_indices vc (ct_index ct) = Some e \<and> iv_certified e)))"

definition votes_kept :: "vc_op list \<Rightarrow> vote_collector \<Rightarrow> bool" where
  "votes_kept ops vc \<longleftrightarrow>
     (vc_floor vc = 0 \<or> PruneBelow (vc_floor vc) \<in> set ops)
     \<and> (\<forall>v. AddVote v \<in> set ops \<longrightarrow> vc_floor vc \<le> cv_index v \<longrightarrow>
          (\<exists>e. vc_indices vc (cv_index v) = Some e \<and> iv_by_signer e (cv_signer v) \<noteq> None))"

definition vc_inv :: "codecs \<Rightarrow> certificate_context \<Rightarrow> vc_op list \<Rightarrow> vote_collector \<times> vote_outcome list \<Rightarrow> bool" where
  "vc_inv pr cx ops st \<longleftrightarrow>
     entries_ok pr cx ops (certificates_of (snd st)) (fst st) \<and> certs_ok pr cx (certificates_of (snd st)) (fst st)
     \<and> votes_kept ops (fst st)"

lemma index_entry_inv:
  "entries_ok pr cx ops certs vc \<Longrightarrow> checked_entry pr cx i (index_entry vc i)
     \<and> (iv_certified (index_entry vc i) \<longrightarrow> i \<in> ct_index ` set certs)
     \<and> (\<forall>s w. iv_by_signer (index_entry vc i) s = Some w \<longrightarrow> AddVote w \<in> set ops)"
  by (cases "vc_indices vc i")
    (simp_all add: entries_ok_def index_entry_def entry_inv_default, simp_all add: iv_default_def)

lemma vc_inv_prune:
  assumes "vc_inv pr cx ops (vc, outs)"
  shows "vc_inv pr cx (ops @ [PruneBelow i]) (collector_prune_below vc i, outs)"
proof (cases "vc_floor vc < i")
  case True
  then have vc: "collector_prune_below vc i = vc\<lparr>vc_floor := i, vc_indices := (vc_indices vc) |` {i..}\<rparr>"
    by (simp add: collector_prune_below_def)
  have "entries_ok pr cx (ops @ [PruneBelow i]) (certificates_of outs) (collector_prune_below vc i)"
    using assms by (auto simp: vc vc_inv_def entries_ok_def restrict_map_def split: if_splits)
  moreover have "certs_ok pr cx (certificates_of outs) (collector_prune_below vc i)"
    using assms True by (auto simp: vc vc_inv_def certs_ok_def)
  moreover have "votes_kept (ops @ [PruneBelow i]) (collector_prune_below vc i)"
    using assms True by (auto simp: vc vc_inv_def votes_kept_def)
  ultimately show ?thesis by (simp add: vc_inv_def)
next
  case False
  then have vc: "collector_prune_below vc i = vc" by (simp add: collector_prune_below_def)
  show ?thesis using assms unfolding vc by (auto simp: vc_inv_def entries_ok_def votes_kept_def)
qed

lemma vc_inv_update:
  assumes inv: "vc_inv pr cx ops (vc, outs)" and i: "vc_floor vc \<le> i" "cv_index v = i"
    and e: "checked_entry pr cx i e'" "\<And>s w. iv_by_signer e' s = Some w \<Longrightarrow> AddVote w \<in> set ops \<or> w = v"
      "iv_by_signer e' (cv_signer v) \<noteq> None" "\<And>s. iv_by_signer (index_entry vc i) s \<noteq> None \<Longrightarrow> iv_by_signer e' s \<noteq> None"
      "iv_certified (index_entry vc i) \<Longrightarrow> iv_certified e'"
    and certs: "certificates_of (outs @ [out]) = certificates_of outs @ new"
      "new = [] \<and> (iv_certified e' \<longrightarrow> iv_certified (index_entry vc i))
       \<or> (\<exists>ct. new = [ct] \<and> certificate_verify pr ct cx = Inr () \<and> ct_index ct = i \<and> iv_certified e' \<and> \<not> iv_certified (index_entry vc i))"
  shows "vc_inv pr cx (ops @ [AddVote v]) (vc\<lparr>vc_indices := (vc_indices vc)(i \<mapsto> e')\<rparr>, outs @ [out])"
proof -
  let ?vc = "vc\<lparr>vc_indices := (vc_indices vc)(i \<mapsto> e')\<rparr>" and ?certs = "certificates_of outs"
  have old: "entries_ok pr cx ops ?certs vc" "certs_ok pr cx ?certs vc" "votes_kept ops vc" using inv by (simp_all add: vc_inv_def)
  have known: "iv_certified (index_entry vc i)" if "i \<in> ct_index ` set ?certs"
    using that old(2) i(1) by (auto simp: certs_ok_def index_entry_def)
  have cert: "iv_certified e' \<Longrightarrow> i \<in> ct_index ` set (?certs @ new)"
    using certs(2) index_entry_inv [OF old(1), of i] by (auto simp: image_Un)
  have "entries_ok pr cx (ops @ [AddVote v]) (?certs @ new) ?vc"
    unfolding entries_ok_def
  proof (intro allI impI)
    fix j f assume f: "vc_indices ?vc j = Some f"
    show "checked_entry pr cx j f \<and> (iv_certified f \<longrightarrow> j \<in> ct_index ` set (?certs @ new))
        \<and> (\<forall>s w. iv_by_signer f s = Some w \<longrightarrow> AddVote w \<in> set (ops @ [AddVote v]))"
    proof (cases "j = i")
      case True
      then have "f = e'" using f by simp
      then show ?thesis using True e(1,2) cert by auto
    next
      case False
      then have "vc_indices vc j = Some f" using f by simp
      then show ?thesis using old(1) by (auto simp: entries_ok_def)
    qed
  qed
  moreover have "certs_ok pr cx (?certs @ new) ?vc"
  proof -
    have fresh: "\<forall>ct \<in> set ?certs. ct_index ct \<noteq> i" if "\<not> iv_certified (index_entry vc i)"
      using known that by blast
    have "distinct (map ct_index (?certs @ new))"
      using certs(2) fresh old(2) by (auto simp: certs_ok_def)
    moreover have "certificate_verify pr ct cx = Inr ()
        \<and> (vc_floor ?vc \<le> ct_index ct \<longrightarrow> (\<exists>f. vc_indices ?vc (ct_index ct) = Some f \<and> iv_certified f))"
      if ct: "ct \<in> set (?certs @ new)" for ct
    proof (cases "ct \<in> set ?certs")
      case True
      then show ?thesis using old(2) known e(5) by (cases "ct_index ct = i") (auto simp: certs_ok_def)
    next
      case False
      then show ?thesis using ct certs(2) by auto
    qed
    ultimately show ?thesis unfolding certs_ok_def by blast
  qed
  moreover have "votes_kept (ops @ [AddVote v]) ?vc"
  proof -
    have "\<exists>f. vc_indices ?vc (cv_index w) = Some f \<and> iv_by_signer f (cv_signer w) \<noteq> None"
      if w: "AddVote w \<in> set ops" "vc_floor vc \<le> cv_index w" for w
    proof -
      obtain f where "vc_indices vc (cv_index w) = Some f" "iv_by_signer f (cv_signer w) \<noteq> None"
        using old(3) w unfolding votes_kept_def by blast
      then show ?thesis using e(4) [of "cv_signer w"] by (cases "cv_index w = i") (auto simp: index_entry_def)
    qed
    then show ?thesis using old(3) e(3) i unfolding votes_kept_def by auto
  qed
  ultimately show ?thesis unfolding vc_inv_def fst_conv snd_conv certs(1) by simp
qed

lemma vc_inv_add:
  assumes inv: "vc_inv pr cx ops (vc, outs)" and v: "vote_ok pr cx v"
    and add: "collector_add pr (cx_committee cx) vc v = (out, vc')"
  shows "vc_inv pr cx (ops @ [AddVote v]) (vc', outs @ [out])"
proof (cases "cv_index v < vc_floor vc")
  case True
  then have "out = Duplicate" "vc' = vc" using add by (simp_all add: collector_add_def)
  then show ?thesis using inv True by (auto simp: vc_inv_def entries_ok_def votes_kept_def)
next
  case False
  let ?i = "cv_index v"
  let ?e = "index_entry vc ?i"
  obtain e' where add': "add_entry pr (cx_committee cx) ?e v = (out, e')" and vc': "vc' = vc\<lparr>vc_indices := (vc_indices vc)(?i \<mapsto> e')\<rparr>"
    using add False by (auto simp: collector_add_def Let_def split: prod.splits)
  have floor: "vc_floor vc \<le> ?i" using False by simp
  have e: "checked_entry pr cx ?i ?e" "\<And>s w. iv_by_signer ?e s = Some w \<Longrightarrow> AddVote w \<in> set ops"
    using index_entry_inv [of pr cx ops "certificates_of outs" vc ?i] inv by (simp_all add: vc_inv_def)
  note upd = vc_inv_update [OF inv floor refl]
  from e(1) v refl add' show ?thesis
  proof (cases rule: add_entry_cases)
    case seen
    then show ?thesis unfolding vc' using e by (intro upd [where new = "[]"]) (auto split: vote_outcome.splits)
  next
    case late
    then show ?thesis unfolding vc' using e by (intro upd [where new = "[]"]) (auto split: if_splits)
  next
    case counted
    then show ?thesis unfolding vc' using e by (intro upd [where new = "[]"]) (auto split: if_splits)
  next
    case (certified ct)
    then show ?thesis unfolding vc' using e formed_verifies [OF certified(7)]
      by (intro upd [where new = "[ct]"]) (auto split: if_splits)
  qed
qed

lemma vc_run_inv:
  assumes "list_all (\<lambda>op. case op of AddVote v \<Rightarrow> vote_ok pr cx v | PruneBelow _ \<Rightarrow> True) ops"
  shows "vc_inv pr cx ops (vc_run pr (cx_committee cx) ops)"
  using assms
proof (induction ops rule: rev_induct)
  case Nil
  then show ?case by (simp add: vc_run_def collector_new_def vc_inv_def entries_ok_def certs_ok_def votes_kept_def)
next
  case (snoc op ops)
  obtain vc outs where run: "vc_run pr (cx_committee cx) ops = (vc, outs)" by (metis surj_pair)
  have step: "vc_run pr (cx_committee cx) (ops @ [op]) = vc_step pr (cx_committee cx) (vc, outs) op"
    using run by (simp add: vc_run_def)
  have inv: "vc_inv pr cx ops (vc, outs)" using snoc run by simp
  show ?case
  proof (cases op)
    case (AddVote v)
    obtain out vc' where add: "collector_add pr (cx_committee cx) vc v = (out, vc')" by (metis surj_pair)
    have "vote_ok pr cx v" using snoc.prems AddVote by simp
    from vc_inv_add [OF inv this add] show ?thesis unfolding step by (simp add: vc_step_def AddVote add)
  next
    case (PruneBelow i)
    then show ?thesis using vc_inv_prune [OF inv, of i] unfolding step by (simp add: vc_step_def)
  qed
qed

abbreviation op_ok :: "codecs \<Rightarrow> certificate_context \<Rightarrow> vc_op \<Rightarrow> bool" where
  "op_ok pr cx op \<equiv> (case op of AddVote v \<Rightarrow> vote_ok pr cx v | PruneBelow _ \<Rightarrow> True)"

text \<open>
  Property C39. Over any run of checked votes and prunings the collector forms at most one certificate
  for an index, and every certificate it forms verifies.
\<close>

theorem collector_certifies:
  assumes "list_all (op_ok pr cx) ops"
  shows "let certs = certificates_of (snd (vc_run pr (cx_committee cx) ops)) in
    distinct (map ct_index certs) \<and> list_all (\<lambda>ct. certificate_verify pr ct cx = Inr ()) certs"
  using vc_run_inv [OF assms] by (simp add: vc_inv_def certs_ok_def Let_def list_all_iff)

text \<open>
  Property C40. A certificate is formed as soon as the votes suffice: when members of a quorum of seats
  have voted for an index that was not pruned, and all their votes for it name one digest, the run has
  formed a certificate for that index.
\<close>

theorem collector_progress:
  assumes ok: "list_all (op_ok pr cx) ops" and wf: "wf_committee (cx_committee cx)"
    and voted: "\<forall>s \<in> Q. \<exists>v. AddVote v \<in> set ops \<and> cv_signer v = s \<and> cv_index v = i"
    and agree: "\<forall>v. AddVote v \<in> set ops \<and> cv_signer v \<in> Q \<and> cv_index v = i \<longrightarrow> checkpoint_digest pr (cv_checkpoint v) = d"
    and kept: "\<forall>j. PruneBelow j \<in> set ops \<longrightarrow> j \<le> i"
    and quorum: "quorum (cx_committee cx) \<le> sum (c_seats (cx_committee cx)) Q"
  shows "i \<in> ct_index ` set (certificates_of (snd (vc_run pr (cx_committee cx) ops)))"
proof -
  let ?c = "cx_committee cx"
  obtain vc outs where run: "vc_run pr ?c ops = (vc, outs)" by (metis surj_pair)
  have inv: "entries_ok pr cx ops (certificates_of outs) vc" "votes_kept ops vc"
    using vc_run_inv [OF ok] by (simp_all add: run vc_inv_def)
  have floor: "vc_floor vc \<le> i" using inv(2) kept by (auto simp: votes_kept_def)
  have "0 < quorum ?c" using cq.faults_bound [OF wf] by (simp add: quorum_def)
  then obtain s0 where "s0 \<in> Q" using quorum by (metis all_not_in_conv not_less sum.empty)
  then obtain e where e: "vc_indices vc i = Some e" using voted inv(2) floor unfolding votes_kept_def by blast
  have entry: "checked_entry pr cx i e" "\<And>s w. iv_by_signer e s = Some w \<Longrightarrow> AddVote w \<in> set ops"
    "iv_certified e \<Longrightarrow> i \<in> ct_index ` set (certificates_of outs)"
    using inv(1) e unfolding entries_ok_def by blast+
  have "Q \<subseteq> voters_for pr e d"
  proof
    fix s assume s: "s \<in> Q"
    then obtain v where v: "AddVote v \<in> set ops" "cv_signer v = s" "cv_index v = i" using voted by blast
    then obtain w where w: "iv_by_signer e s = Some w" using inv(2) floor e unfolding votes_kept_def by fastforce
    then have "AddVote w \<in> set ops" "cv_signer w = s" "cv_index w = i"
      using entry(1,2) unfolding entry_inv_def by blast+
    then have "checkpoint_digest pr (cv_checkpoint w) = d" using agree s by blast
    then show "s \<in> voters_for pr e d" using w by (simp add: voters_for_def)
  qed
  have "iv_certified e"
  proof (rule ccontr)
    assume open_entry: "\<not> iv_certified e"
    obtain ss where ss: "iv_by_digest e d = Some ss" "voters_for pr e d = ss_elems ss" "ss_weight ss < quorum ?c"
      using entry_inv_open [OF entry(1) open_entry, of d] \<open>Q \<subseteq> voters_for pr e d\<close> \<open>s0 \<in> Q\<close>
      by (cases "iv_by_digest e d") auto
    then have "sum (c_seats ?c) Q \<le> ss_weight ss"
      using entry(1) \<open>Q \<subseteq> voters_for pr e d\<close> sum_mono2 [of "ss_elems ss" Q "c_seats ?c"] unfolding entry_inv_def by auto
    then show False using quorum ss(3) by simp
  qed
  then show ?thesis using entry(3) by (simp add: run)
qed

lemma demo_vote_ok: "vote_ok demo_codecs (context_for demo_codecs (solo_committee 0) 7 demo_hash [demo_session 0]) (demo_vote None)"
  using demo_key_verify [OF demo_like_codecs demo_domains(2)] demo_like_codecs
  by (simp add: vote_ok_def Let_def context_for_def admit_each_def demo_admit demo_vote_def demo_checkpoint_def well_formed_def
      sat_add_def uint_max_def checkpoint_state_height_def state_root_height_def STATE_ROOT_LAG_def demo_like_def)

lemma demo_context_committee: "cx_committee (context_for pr c chain genesis certs) = c"
  by (simp add: context_for_def)

theorem collector_certifies_witness:
  "let certs = certificates_of (snd (vc_run demo_codecs (solo_committee 0) [AddVote (demo_vote None), PruneBelow 3])) in
    distinct (map ct_index certs) \<and> list_all (\<lambda>ct. certificate_verify demo_codecs ct
      (context_for demo_codecs (solo_committee 0) 7 demo_hash [demo_session 0]) = Inr ()) certs"
  using collector_certifies [of demo_codecs "context_for demo_codecs (solo_committee 0) 7 demo_hash [demo_session 0]"
      "[AddVote (demo_vote None), PruneBelow 3]"] demo_vote_ok
  by (simp add: demo_context_committee)

theorem collector_progress_witness:
  "0 \<in> ct_index ` set (certificates_of (snd (vc_run demo_codecs (solo_committee 0) [AddVote (demo_vote None)])))"
proof -
  let ?cx = "context_for demo_codecs (solo_committee 0) 7 demo_hash [demo_session 0]"
  have v: "cv_signer (demo_vote None) = 0" "cv_index (demo_vote None) = 0" by (simp_all add: demo_vote_def demo_checkpoint_def)
  have "\<forall>s \<in> {0}. \<exists>v. AddVote v \<in> set [AddVote (demo_vote None)] \<and> cv_signer v = s \<and> cv_index v = 0" using v by simp
  then show ?thesis
    using collector_progress [of demo_codecs ?cx "[AddVote (demo_vote None)]" "{0}" 0 "checkpoint_digest demo_codecs (cv_checkpoint (demo_vote None))"]
      demo_vote_ok by (simp add: demo_context_committee)
qed

end
