(* ===== verification/Block_Ordering.thy ===== *)
theory Block_Ordering
  imports Commit_Rule Batches Merkle Vote_Collector Reliable_Broadcast
begin

text \<open>
  Ordering (\<^verbatim>\<open>crates/tenzro-consensus/src/core.rs\<close>): a committed leader releases the batches of its
  causal history as blocks, decides checkpoints, advances the leader schedule and collects garbage;
  the segments wait for their payloads and the checkpoints for their execution. The record
  \<open>core\<close> extends the view of the commit rule by the fields of \<open>Core\<close> these handlers use.
\<close>

section \<open>Blocks of a commit\<close>

fun chunk_step :: "nat \<Rightarrow> ordered_batch list list \<times> nat \<Rightarrow> ordered_batch \<Rightarrow> ordered_batch list list \<times> nat" where
  "chunk_step max_txs (out, in_chunk) b =
     (let n = b_transactions (ob_batch b);
          (out, in_chunk) = (if 0 < in_chunk \<and> max_txs < in_chunk + n then (out @ [[]], 0) else (out, in_chunk))
      in (butlast out @ [last out @ [b]], in_chunk + n))"

definition block_chunks :: "ordered_batch list \<Rightarrow> nat \<Rightarrow> ordered_batch list list" where
  "block_chunks batches max_txs = fst (foldl (chunk_step max_txs) ([[]], 0) batches)"

definition leaders_settled :: "round \<Rightarrow> round \<Rightarrow> round \<Rightarrow> bool" where
  "leaders_settled r next_undecided lookahead \<longleftrightarrow> r \<le> sat_add 64 next_undecided lookahead"

definition history_depth :: "round \<Rightarrow> round" where
  "history_depth gc_depth = sat_mul 64 gc_depth 4"

abbreviation txs_of :: "ordered_batch list \<Rightarrow> nat" where
  "txs_of bs \<equiv> sum_list (map (\<lambda>b. b_transactions (ob_batch b)) bs)"

text \<open>Two neighbouring chunks could not be one: the first holds transactions and the next batch overflows it.\<close>

definition tight :: "nat \<Rightarrow> ordered_batch list list \<Rightarrow> bool" where
  "tight max_txs cs \<longleftrightarrow>
     (\<forall>i. Suc i < length cs \<longrightarrow> cs ! Suc i \<noteq> [] \<and> max_txs < txs_of (cs ! i) + b_transactions (ob_batch (hd (cs ! Suc i))))"

definition chunks_inv :: "nat \<Rightarrow> ordered_batch list \<Rightarrow> ordered_batch list list \<times> nat \<Rightarrow> bool" where
  "chunks_inv max_txs taken st \<longleftrightarrow>
     fst st \<noteq> [] \<and> concat (fst st) = taken \<and> snd st = txs_of (last (fst st))
     \<and> ((\<forall>b \<in> set taken. b_transactions (ob_batch b) \<le> max_txs) \<longrightarrow> (\<forall>c \<in> set (fst st). txs_of c \<le> max_txs))
     \<and> tight max_txs (fst st)"

lemma tight_snoc:
  "tight max_txs (cs @ [c]) \<longleftrightarrow>
     tight max_txs cs \<and> (cs \<noteq> [] \<longrightarrow> c \<noteq> [] \<and> max_txs < txs_of (last cs) + b_transactions (ob_batch (hd c)))"
proof (cases "cs = []")
  case False
  then obtain n where n: "length cs = Suc n" by (cases cs) auto
  have "(\<forall>i. Suc i < Suc (Suc n) \<longrightarrow> P i) \<longleftrightarrow> (\<forall>i. Suc i < Suc n \<longrightarrow> P i) \<and> P n" for P
    by (auto simp: less_Suc_eq)
  then show ?thesis using False n by (auto simp: tight_def nth_append last_conv_nth)
qed (simp add: tight_def)

lemma chunk_step_inv:
  assumes "chunks_inv max_txs bs st"
  shows "chunks_inv max_txs (bs @ [b]) (chunk_step max_txs st b)"
proof -
  obtain out k where st: "st = (out, k)" by (cases st)
  obtain cs c where out: "out = cs @ [c]" using assms by (cases out rule: rev_cases) (auto simp: chunks_inv_def st)
  have k: "k = txs_of c" and bs: "bs = concat cs @ c" and t: "tight max_txs (cs @ [c])"
    and small: "(\<forall>b \<in> set bs. b_transactions (ob_batch b) \<le> max_txs) \<Longrightarrow> (\<forall>c' \<in> set (cs @ [c]). txs_of c' \<le> max_txs)"
    using assms by (auto simp: chunks_inv_def st out)
  show ?thesis
  proof (cases "0 < k \<and> max_txs < k + b_transactions (ob_batch b)")
    case True
    then have "chunk_step max_txs st b = (cs @ [c] @ [[b]], b_transactions (ob_batch b))" by (simp add: st out butlast_append)
    then show ?thesis
      using True k bs t small tight_snoc [of max_txs "cs @ [c]" "[b]"] by (auto simp: chunks_inv_def)
  next
    case False
    then have step: "chunk_step max_txs st b = (cs @ [c @ [b]], k + b_transactions (ob_batch b))" by (auto simp: st out)
    have "tight max_txs (cs @ [c @ [b]])"
      using t unfolding tight_snoc by (cases c) auto
    moreover have "txs_of (c @ [b]) \<le> max_txs" if fits: "\<forall>b \<in> set (bs @ [b]). b_transactions (ob_batch b) \<le> max_txs"
    proof -
      have "k + b_transactions (ob_batch b) \<le> max_txs" using False fits by (cases "k = 0") auto
      then show ?thesis by (simp add: k)
    qed
    ultimately show ?thesis using k bs small unfolding step chunks_inv_def by auto
  qed
qed

text \<open>
  Property C13. The blocks of a commit hold its batches whole and in order; when no batch alone exceeds
  the limit no block does; and two neighbouring blocks could not have been one.
\<close>

theorem block_chunks_spec:
  "concat (block_chunks bs max_txs) = bs
   \<and> (list_all (\<lambda>b. b_transactions (ob_batch b) \<le> max_txs) bs \<longrightarrow> list_all (\<lambda>c. txs_of c \<le> max_txs) (block_chunks bs max_txs))
   \<and> tight max_txs (block_chunks bs max_txs)"
proof -
  have "chunks_inv max_txs (bs' @ bs) (foldl (chunk_step max_txs) st bs)" if "chunks_inv max_txs bs' st" for bs' st
    using that
  proof (induction bs arbitrary: bs' st)
    case (Cons b bs)
    from Cons.IH [OF chunk_step_inv [OF Cons.prems, of b]] show ?case by simp
  qed simp
  from this [of "[]" "([[]], 0)"] show ?thesis
    by (simp add: block_chunks_def chunks_inv_def tight_def list_all_iff)
qed

definition sized_batch :: "nat \<Rightarrow> ordered_batch" where
  "sized_batch n = \<lparr>ob_batch = \<lparr>b_sequence = 0, b_digest = [], b_bytes = 0, b_transactions = n\<rparr>, ob_author = 0, ob_round = 1\<rparr>"

theorem block_chunks_spec_witness:
  "concat (block_chunks [sized_batch 6, sized_batch 3, sized_batch 4] 10) = [sized_batch 6, sized_batch 3, sized_batch 4]
   \<and> list_all (\<lambda>c. txs_of c \<le> 10) (block_chunks [sized_batch 6, sized_batch 3, sized_batch 4] 10)"
  using block_chunks_spec [of "[sized_batch 6, sized_batch 3, sized_batch 4]" 10] by (simp add: sized_batch_def)

section \<open>The state of the core\<close>

text \<open>B-tree maps that are walked in key order are association lists sorted by key.\<close>

definition bt_put :: "'k::linorder \<Rightarrow> 'v \<Rightarrow> ('k \<times> 'v) list \<Rightarrow> ('k \<times> 'v) list" where
  "bt_put k v xs = insort_key fst (k, v) (filter (\<lambda>p. fst p \<noteq> k) xs)"

definition bt_keep_last :: "nat \<Rightarrow> (nat \<times> 'v) list \<Rightarrow> (nat \<times> 'v) list" where
  "bt_keep_last n xs = drop (length xs - n) xs"

record core_config =
  cfg_chain_id :: nat
  cfg_genesis_hash :: digest
  cfg_leader_timeout_ms :: nat
  cfg_min_round_interval_ms :: nat
  cfg_leader_slots :: nat
  cfg_checkpoint_interval_ms :: nat
  cfg_gc_depth :: round
  cfg_max_weak_refs :: nat
  cfg_max_rounds_ahead :: round
  cfg_epoch_checkpoints :: nat
  cfg_handover_confirmations :: nat
  cfg_fetch_retry_ms :: nat
  cfg_idle_round_interval_ms :: nat

record epoch_start =
  es_first_height :: nat
  es_first_checkpoint :: nat
  es_prev_checkpoint :: digest
  es_timestamp_ms :: nat
  es_base_blocks :: "(nat \<times> digest \<times> digest) list"
  es_leader_lookahead_rounds :: round

record pending_checkpoint =
  pc_index :: nat
  pc_first_height :: nat
  pc_last_height :: nat
  pc_anchor_round :: round
  pc_timestamp_ms :: nat
  pc_ends_epoch :: bool
  pc_ordering_root :: "digest option"

record waiting_segment =
  wg_height :: nat
  wg_anchor :: vertex_ref
  wg_timestamp_ms :: nat
  wg_batches :: "ordered_batch list"
  wg_vertices :: nat

datatype waiting = WaitSegment waiting_segment | WaitEpochEnds nat

record segment =
  sm_epoch :: nat
  sm_height :: nat
  sm_anchor :: vertex_ref
  sm_timestamp_ms :: nat
  sm_batches :: "(ordered_batch \<times> batch_payload) list"
  sm_vertices :: nat

datatype core_event =
    EvOrdered segment
  | EvEpochEnds nat
  | EvSign checkpoint
  | EvCertified certificate
  | EvEquivocation checkpoint_equivocation
  | EvUnordered batch_payload
  | EvEpochComplete certificate
  | EvVerifierDisagreement nat

record wanted =
  wt_asked_ms :: nat
  wt_attempts :: nat
  wt_holder :: "validator_index option"
  wt_round :: round

record ordering_state =
  os_epoch :: nat
  os_index :: nat
  os_anchor_round :: round
  os_next_slot :: slot
  os_floor :: round
  os_ordered :: "(digest \<times> round) list"
  os_next_height :: nat
  os_last_timestamp_ms :: nat
  os_last_state_height :: nat
  os_last_checkpoint_height :: nat
  os_last_checkpoint_ts :: nat
  os_epoch_ends_ms :: nat
  os_epoch_closed :: bool
  os_handover_index :: nat
  os_seed_tail :: "digest list"
  os_schedule :: schedule_state
  os_availability :: availability_state

text \<open>
  The hash of a leader draw, the hash of an epoch or checkpoint seed, and the byte encodings and hash
  functions of the checkpoints are parameters.
\<close>

record core_params =
  pm_draw :: draw_hash
  pm_seed :: "digest \<Rightarrow> digest"
  pm_epoch_seed :: "nat \<Rightarrow> digest \<Rightarrow> digest"
  pm_codecs :: codecs
  pm_ordering_bytes :: "ordering_state \<Rightarrow> bytes"

record core = view +
  co_cfg :: core_config
  co_me :: validator_index
  co_rbc :: reliable_broadcast
  co_availability :: availability
  co_bodies :: "(digest \<times> vertex) list"
  co_leaders_committed :: nat
  co_leaders_skipped :: nat
  co_skipped_slots :: "(round \<times> validator_index) list"
  co_last_committed :: "round option"
  co_ordered :: "(digest \<times> round) list"
  co_next_height :: nat
  co_last_timestamp_ms :: nat
  co_payloads :: "(digest \<times> batch_payload) list"
  co_payload_round :: "digest \<rightharpoonup> round"
  co_own_unintroduced :: "batch_ref list"
  co_own_introduced :: "(digest \<times> round) list"
  co_carry_pool :: "((validator_index \<times> nat) \<times> batch_ref) list"
  co_unechoed :: "((round \<times> validator_index) \<times> vertex) list"
  co_waiting :: "waiting list"
  co_last_state_height :: nat
  co_epoch_ends_ms :: nat
  co_epoch_closed :: bool
  co_wanted_vertices :: "(digest \<times> wanted) list"
  co_wanted_batches :: "(digest \<times> wanted) list"
  co_last_checkpoint_height :: nat
  co_last_checkpoint_ts :: nat
  co_next_checkpoint_index :: nat
  co_decided :: "pending_checkpoint list"
  co_seed_chain :: "digest list"
  co_executed :: "nat \<rightharpoonup> digest \<times> digest \<times> digest list"
  co_prev_checkpoint :: digest
  co_next_committee_root :: "digest option"
  co_halted :: bool
  co_handover_index :: nat
  co_events :: "core_event list"
  co_executed_through :: nat
  co_ordering_states :: "(nat \<times> ordering_state) list"
  co_history :: "digest \<rightharpoonup> vertex"
  co_history_rounds :: "round \<rightharpoonup> digest list"
  co_uncertified_payloads :: "(nat \<times> digest list) list"

definition MAX_TRANSACTIONS_PER_BLOCK :: nat where "MAX_TRANSACTIONS_PER_BLOCK = 1000"
definition MAX_AHEAD_PER_AUTHOR :: nat where "MAX_AHEAD_PER_AUTHOR = 1024"
definition SKIPPED_SLOTS_KEPT :: nat where "SKIPPED_SLOTS_KEPT = 256"
definition UNCERTIFIED_SEGMENTS_KEPT :: nat where "UNCERTIFIED_SEGMENTS_KEPT = 4096"
definition ORDERING_STATES_KEPT :: nat where "ORDERING_STATES_KEPT = 32"

section \<open>A commit\<close>

definition core_new :: "core_params \<Rightarrow> core_config \<Rightarrow> committee \<Rightarrow> validator_index \<Rightarrow> epoch_start \<Rightarrow> core" where
  "core_new pm cfg c me start =
     \<lparr>w_committee = c, w_dag = with_vouching (map m_seats (c_members c)) (validity c),
      w_schedule = schedule_new c (pm_epoch_seed pm (c_epoch c) (es_prev_checkpoint start)) (cfg_leader_slots cfg)
        (es_leader_lookahead_rounds start),
      w_first_proposals = [], w_next_slot = (0, 0),
      co_cfg = cfg, co_me = me, co_rbc = rbc_new me, co_availability = avail_new, co_bodies = [],
      co_leaders_committed = 0, co_leaders_skipped = 0, co_skipped_slots = [], co_last_committed = None, co_ordered = [],
      co_next_height = es_first_height start, co_last_timestamp_ms = es_timestamp_ms start,
      co_payloads = [], co_payload_round = Map.empty, co_own_unintroduced = [], co_own_introduced = [],
      co_carry_pool = [], co_unechoed = [], co_waiting = [],
      co_last_state_height = sat_sub (es_first_height start) 1,
      co_epoch_ends_ms = sat_add 64 (es_timestamp_ms start)
        (sat_mul 64 (cfg_checkpoint_interval_ms cfg) (cfg_epoch_checkpoints cfg)),
      co_epoch_closed = False, co_wanted_vertices = [], co_wanted_batches = [],
      co_last_checkpoint_height = sat_sub (es_first_height start) 1, co_last_checkpoint_ts = es_timestamp_ms start,
      co_next_checkpoint_index = es_first_checkpoint start, co_decided = [], co_seed_chain = [es_prev_checkpoint start],
      co_executed = foldl (\<lambda>m (h, block, state). m(h \<mapsto> (block, state, []))) Map.empty (es_base_blocks start),
      co_prev_checkpoint = es_prev_checkpoint start, co_next_committee_root = None, co_halted = False,
      co_handover_index = uint_max 64, co_events = [], co_executed_through = 0, co_ordering_states = [],
      co_history = Map.empty, co_history_rounds = Map.empty, co_uncertified_payloads = []\<rparr>"

text \<open>
  The first part of \<open>commit\<close>: the vertices of the anchor's causal history not ordered before, the
  availability after them, and the batches it releases. A vertex that is not in the DAG is a panic,
  the value \<open>None\<close>.
\<close>

definition history_vertices :: "dag \<Rightarrow> vertex_ref list \<Rightarrow> vertex list option" where
  "history_vertices g refs = those (map (\<lambda>r. dag_get g (r_digest r)) refs)"

definition order_history ::
  "core \<Rightarrow> vertex_ref \<Rightarrow> (vertex_ref list \<times> ordered_batch list \<times> core) option" where
  "order_history c anchor =
     (let c = c\<lparr>w_schedule := record_outcome (r_source anchor) True (w_schedule c),
              co_leaders_committed := co_leaders_committed c + 1, co_last_committed := Some (r_round anchor)\<rparr>;
          history = causal_history (w_dag c) (r_digest anchor) (\<lambda>d. map_of (co_ordered c) d \<noteq> None)
      in case history_vertices (w_dag c) history of
           None \<Rightarrow> None
         | Some vs \<Rightarrow>
            (case dag_get (w_dag c) (r_digest anchor) of
               None \<Rightarrow> None
             | Some av \<Rightarrow>
                 let a = foldl (\<lambda>a v. on_ordered v a) (co_availability c) vs;
                     a = on_carried av a;
                     a = expire_gaps (map fst (a_early a)) (g_floor (w_dag c)) a;
                     (released, a) = release a
                 in Some (history, released,
                      c\<lparr>co_ordered := foldl (\<lambda>m r. al_put (r_digest r) (r_round r) m) (co_ordered c) history,
                        co_availability := a\<rparr>)))"

text \<open>What the released batches change in the pools of batches: nothing of it is ordered state.\<close>

definition settle_batch :: "bool \<Rightarrow> round \<Rightarrow> core \<Rightarrow> ordered_batch \<Rightarrow> core" where
  "settle_batch already_executed anchor_round c b =
     (let d = b_digest (ob_batch b);
          c = (if ob_author b = co_me c then c\<lparr>co_own_introduced := al_del d (co_own_introduced c)\<rparr> else c)
      in if \<not> already_executed \<and> map_of (co_payloads c) d = None
         then let w = (case map_of (co_wanted_batches c) d of
                 None \<Rightarrow> \<lparr>wt_asked_ms = 0, wt_attempts = 0, wt_holder = Some (ob_author b), wt_round = anchor_round\<rparr>
               | Some w \<Rightarrow> w)
              in c\<lparr>co_wanted_batches := al_put d (w\<lparr>wt_round := max (wt_round w) anchor_round\<rparr>) (co_wanted_batches c)\<rparr>
         else c)"

definition own_skipped :: "core \<Rightarrow> (nat \<times> digest) list" where
  "own_skipped c =
     (let next_own = released_through (co_availability c) (co_me c) in
      sort (List.map_filter (\<lambda>(d, _). case map_of (co_payloads c) d of
            None \<Rightarrow> None
          | Some p \<Rightarrow> if bp_sequence p < next_own then Some (bp_sequence p, d) else None) (co_own_introduced c)))"

definition return_batch :: "core \<Rightarrow> nat \<times> digest \<Rightarrow> core" where
  "return_batch c sd =
     (let d = snd sd; c = c\<lparr>co_own_introduced := al_del d (co_own_introduced c)\<rparr> in
      case map_of (co_payloads c) d of None \<Rightarrow> c | Some p \<Rightarrow> c\<lparr>co_events := co_events c @ [EvUnordered p]\<rparr>)"

definition settle_released :: "vertex_ref \<Rightarrow> ordered_batch list \<Rightarrow> core \<Rightarrow> core" where
  "settle_released anchor released c =
     (let through = released_through (co_availability c);
          c = c\<lparr>co_carry_pool := filter (\<lambda>((a, s), _). through a \<le> s) (co_carry_pool c),
               co_own_unintroduced := filter (\<lambda>b. through (co_me c) \<le> b_sequence b) (co_own_unintroduced c)\<rparr>;
          already_executed = co_next_height c \<le> co_executed_through c;
          c = foldl (settle_batch already_executed (r_round anchor)) c released
      in foldl return_batch c (own_skipped c))"

text \<open>The block time: the median of the anchor's parents, never before the last one.\<close>

definition commit_time :: "core \<Rightarrow> vertex \<Rightarrow> nat" where
  "commit_time c av =
     (let stamps = sort (List.map_filter (\<lambda>p. map_option v_timestamp_ms (dag_get (w_dag c) (r_digest p))) (v_strong av));
          median = (if stamps = [] then co_last_timestamp_ms c else stamps ! (length stamps div 2))
      in max median (co_last_timestamp_ms c))"

definition push_block :: "vertex_ref \<Rightarrow> nat \<Rightarrow> nat \<Rightarrow> core \<Rightarrow> ordered_batch list \<Rightarrow> core" where
  "push_block anchor timestamp vertices c batches =
     c\<lparr>co_next_height := co_next_height c + 1,
       co_waiting := co_waiting c @ [WaitSegment \<lparr>wg_height = co_next_height c, wg_anchor = anchor,
         wg_timestamp_ms = timestamp, wg_batches = batches, wg_vertices = vertices\<rparr>]\<rparr>"

definition push_blocks :: "vertex_ref \<Rightarrow> nat \<Rightarrow> nat \<Rightarrow> ordered_batch list \<Rightarrow> core \<Rightarrow> core" where
  "push_blocks anchor timestamp vertices released c =
     (if list_ex (\<lambda>b. 0 < b_transactions (ob_batch b)) released
      then foldl (push_block anchor timestamp vertices) c (block_chunks released MAX_TRANSACTIONS_PER_BLOCK)
      else c)"

section \<open>Checkpoints of the core\<close>

definition seed_digest :: "core_params \<Rightarrow> digest \<Rightarrow> nat \<Rightarrow> nat \<Rightarrow> digest \<Rightarrow> digest" where
  "seed_digest pm prev_seed index last_height anchor_digest =
     pr_blake3 (pm_codecs pm) (ascii_bytes ''tenzro/consensus/checkpoint/ordering'' @ prev_seed @ to_be 8 index
       @ to_be 8 last_height @ anchor_digest)"

definition decide_checkpoint :: "core_params \<Rightarrow> vertex_ref \<Rightarrow> nat \<Rightarrow> nat \<Rightarrow> bool \<Rightarrow> core \<Rightarrow> core" where
  "decide_checkpoint pm anchor last_height timestamp ends_epoch c =
     (let index = co_next_checkpoint_index c; first_height = co_last_checkpoint_height c + 1;
          pc = \<lparr>pc_index = index, pc_first_height = first_height, pc_last_height = last_height,
                pc_anchor_round = r_round anchor, pc_timestamp_ms = timestamp, pc_ends_epoch = ends_epoch,
                pc_ordering_root = None\<rparr>;
          seeds = co_seed_chain c @ [seed_digest pm (last (co_seed_chain c)) index last_height (r_digest anchor)];
          seed_from = seeds ! sat_sub (length seeds) 3
      in c\<lparr>co_next_checkpoint_index := index + 1,
           co_last_state_height := checkpoint_state_height first_height last_height,
           co_last_checkpoint_height := last_height, co_last_checkpoint_ts := timestamp, co_seed_chain := seeds,
           w_schedule := advance (pm_seed pm) (w_committee c) (r_round anchor) seed_from (w_schedule c),
           co_halted := (index = co_handover_index c \<or> co_halted c),
           co_decided := co_decided c @ [pc]\<rparr>)"

definition commit_checkpoint :: "core_params \<Rightarrow> vertex_ref \<Rightarrow> nat \<Rightarrow> core \<Rightarrow> core" where
  "commit_checkpoint pm anchor timestamp c =
     (let last_height = sat_sub (co_next_height c) 1;
          due = sat_add 64 (co_last_checkpoint_ts c) (cfg_checkpoint_interval_ms (co_cfg c)) \<le> timestamp
      in if \<not> co_epoch_closed c \<and> co_epoch_ends_ms c \<le> timestamp
         then decide_checkpoint pm anchor last_height timestamp True
                (c\<lparr>co_epoch_closed := True,
                   co_handover_index := co_next_checkpoint_index c + cfg_handover_confirmations (co_cfg c),
                   co_waiting := co_waiting c @ [WaitEpochEnds last_height]\<rparr>)
         else if due \<and> (co_epoch_closed c \<or> co_last_checkpoint_height c < last_height
                        \<or> co_last_state_height c < co_last_checkpoint_height c)
         then decide_checkpoint pm anchor last_height timestamp False c
         else c)"

definition ordering_state_of :: "core \<Rightarrow> nat \<Rightarrow> ordering_state" where
  "ordering_state_of c index =
     \<lparr>os_epoch = c_epoch (w_committee c), os_index = index,
      os_anchor_round = (case co_last_committed c of None \<Rightarrow> 0 | Some r \<Rightarrow> r), os_next_slot = w_next_slot c,
      os_floor = g_floor (w_dag c), os_ordered = sort (co_ordered c), os_next_height = co_next_height c,
      os_last_timestamp_ms = co_last_timestamp_ms c, os_last_state_height = co_last_state_height c,
      os_last_checkpoint_height = co_last_checkpoint_height c, os_last_checkpoint_ts = co_last_checkpoint_ts c,
      os_epoch_ends_ms = co_epoch_ends_ms c, os_epoch_closed = co_epoch_closed c, os_handover_index = co_handover_index c,
      os_seed_tail = drop (sat_sub (length (co_seed_chain c)) 3) (co_seed_chain c),
      os_schedule = schedule_export (w_schedule c), os_availability = avail_export (co_availability c)\<rparr>"

definition ordering_digest :: "core_params \<Rightarrow> ordering_state \<Rightarrow> digest" where
  "ordering_digest pm st = pr_blake3 (pm_codecs pm) (ascii_bytes ''tenzro/consensus/ordering-state'' @ pm_ordering_bytes pm st)"

text \<open>Building the first decided checkpoint, when its blocks are executed and its roots are known.\<close>

definition pending_ready :: "core \<Rightarrow> pending_checkpoint \<Rightarrow> bool" where
  "pending_ready c pc \<longleftrightarrow>
     pc_ordering_root pc \<noteq> None
     \<and> list_all (\<lambda>h. co_executed c h \<noteq> None) [pc_first_height pc..<pc_last_height pc + 1]
     \<and> co_executed c (checkpoint_state_height (pc_first_height pc) (pc_last_height pc)) \<noteq> None
     \<and> (pc_ends_epoch pc \<longrightarrow> co_next_committee_root c \<noteq> None)"

definition checkpoint_of :: "core_params \<Rightarrow> core \<Rightarrow> pending_checkpoint \<Rightarrow> checkpoint" where
  "checkpoint_of pm c pc =
     (let hs = [pc_first_height pc..<pc_last_height pc + 1]; ex = \<lambda>h. the (co_executed c h);
          state_height = checkpoint_state_height (pc_first_height pc) (pc_last_height pc);
          blake = pr_blake3 (pm_codecs pm)
      in \<lparr>cp_chain_id = cfg_chain_id (co_cfg c), cp_genesis_hash = cfg_genesis_hash (co_cfg c),
          cp_epoch = c_epoch (w_committee c), cp_index = pc_index pc, cp_prev = co_prev_checkpoint c,
          cp_first_height = pc_first_height pc, cp_last_height = pc_last_height pc,
          cp_blocks_root = merkle_root blake (map (fst \<circ> ex) hs), cp_state_height = state_height,
          cp_state_root = fst (snd (ex state_height)),
          cp_statement_root = merkle_root blake (concat (map (snd \<circ> snd \<circ> ex) hs)),
          cp_next_committee_root = (if pc_ends_epoch pc then co_next_committee_root c else None),
          cp_anchor_round = pc_anchor_round pc, cp_timestamp_ms = pc_timestamp_ms pc,
          cp_ordering_root = the (pc_ordering_root pc)\<rparr>)"

function build_checkpoints :: "core_params \<Rightarrow> core \<Rightarrow> core" where
  "build_checkpoints pm c =
     (case co_decided c of
        [] \<Rightarrow> c
      | pc # rest \<Rightarrow>
          if \<not> pending_ready c pc then c
          else let cp = checkpoint_of pm c pc in
            build_checkpoints pm
              (c\<lparr>co_decided := rest, co_prev_checkpoint := checkpoint_digest (pm_codecs pm) cp,
                 co_executed := co_executed c |` {state_root_height (pc_last_height pc)..},
                 co_events := co_events c @ [EvSign cp]\<rparr>))"
  by pat_completeness auto

termination build_checkpoints
  by (relation "measure (\<lambda>(pm, c). length (co_decided c))") auto

declare build_checkpoints.simps [simp del]

definition seal_decided :: "core_params \<Rightarrow> core \<Rightarrow> core" where
  "seal_decided pm c =
     build_checkpoints pm
       (if co_decided c \<noteq> [] \<and> pc_ordering_root (last (co_decided c)) = None
        then let pc = last (co_decided c); st = ordering_state_of c (pc_index pc) in
          c\<lparr>co_decided := butlast (co_decided c) @ [pc\<lparr>pc_ordering_root := Some (ordering_digest pm st)\<rparr>],
            co_ordering_states := bt_keep_last ORDERING_STATES_KEPT (bt_put (pc_index pc) st (co_ordering_states c))\<rparr>
        else c)"

definition on_executed :: "core_params \<Rightarrow> nat \<Rightarrow> digest \<Rightarrow> digest \<Rightarrow> digest list \<Rightarrow> core \<Rightarrow> core" where
  "on_executed pm height block_hash post_state_root statements c =
     build_checkpoints pm (c\<lparr>co_executed := (co_executed c)(height \<mapsto> (block_hash, post_state_root, statements))\<rparr>)"

definition set_next_committee_root :: "core_params \<Rightarrow> digest \<Rightarrow> core \<Rightarrow> core" where
  "set_next_committee_root pm root c = build_checkpoints pm (c\<lparr>co_next_committee_root := Some root\<rparr>)"

section \<open>Garbage\<close>

definition in_segments :: "core \<Rightarrow> digest set" where
  "in_segments c = (\<Union>w \<in> set (co_waiting c). case w of
       WaitSegment s \<Rightarrow> (b_digest \<circ> ob_batch) ` set (wg_batches s) | WaitEpochEnds _ \<Rightarrow> {})"

definition payload_kept :: "core \<Rightarrow> round \<Rightarrow> digest \<Rightarrow> batch_payload \<Rightarrow> bool" where
  "payload_kept c floor d p \<longleftrightarrow>
     (let base = released_through (co_availability c) (bp_author p) in
      (case co_payload_round c d of None \<Rightarrow> False | Some r \<Rightarrow> floor \<le> r)
      \<or> d \<in> in_segments c
      \<or> d \<in> (\<Union>p \<in> set (co_uncertified_payloads c). set (snd p))
      \<or> base \<le> bp_sequence p \<and> (bp_author p = co_me c \<or> bp_sequence p < base + MAX_AHEAD_PER_AUTHOR))"

definition keep_history :: "round \<Rightarrow> (digest \<times> vertex) list \<Rightarrow> core \<Rightarrow> core" where
  "keep_history floor pruned c =
     (let from_round = sat_sub floor (history_depth (cfg_gc_depth (co_cfg c)));
          rounds = foldl (\<lambda>m (d, v). m(v_round v \<mapsto> (case m (v_round v) of None \<Rightarrow> [] | Some ds \<Rightarrow> ds) @ [d]))
            (co_history_rounds c) pruned;
          dropped = {d. \<exists>r ds. r < from_round \<and> rounds r = Some ds \<and> d \<in> set ds}
      in c\<lparr>co_history := (foldl (\<lambda>m (d, v). m(d \<mapsto> v)) (co_history c) pruned) |` (- dropped),
           co_history_rounds := rounds |` {from_round..}\<rparr>)"

definition filter_map :: "('k \<Rightarrow> 'v \<Rightarrow> bool) \<Rightarrow> ('k \<rightharpoonup> 'v) \<Rightarrow> ('k \<rightharpoonup> 'v)" where
  "filter_map P m = (\<lambda>k. case m k of None \<Rightarrow> None | Some v \<Rightarrow> if P k v then Some v else None)"

definition collect_garbage :: "round \<Rightarrow> core \<Rightarrow> core" where
  "collect_garbage committed_round c =
     (case checked_sub committed_round (cfg_gc_depth (co_cfg c)) of
        None \<Rightarrow> c
      | Some floor \<Rightarrow>
          if floor \<le> g_floor (w_dag c) then c
          else let (pruned, g) = dag_prune_below floor (w_dag c);
                   c = keep_history floor pruned (c\<lparr>w_dag := g\<rparr>);
                   c = c\<lparr>co_rbc := rbc_prune_below floor (co_rbc c),
                         w_first_proposals := filter (\<lambda>p. floor \<le> fst p) (w_first_proposals c),
                         co_ordered := filter (\<lambda>p. floor \<le> snd p) (co_ordered c),
                         co_bodies := filter (\<lambda>(_, v). floor \<le> v_round v) (co_bodies c),
                         co_unechoed := filter (\<lambda>((r, _), _). floor \<le> r) (co_unechoed c)\<rparr>;
                   gone = \<lambda>d. case map_of (co_payloads c) d of None \<Rightarrow> False | Some p \<Rightarrow> \<not> payload_kept c floor d p;
                   payloads = filter (\<lambda>(d, p). payload_kept c floor d p) (co_payloads c)
               in c\<lparr>co_payloads := payloads,
                    co_payload_round := filter_map (\<lambda>d _. \<not> gone d) (co_payload_round c),
                    co_carry_pool := filter (\<lambda>(_, b). map_of payloads (b_digest b) \<noteq> None) (co_carry_pool c),
                    co_wanted_vertices := filter (\<lambda>(d, _). is_expected (w_dag c) d) (co_wanted_vertices c),
                    co_wanted_batches := filter (\<lambda>(d, w). floor \<le> wt_round w \<or> d \<in> in_segments c) (co_wanted_batches c)\<rparr>)"

definition commit :: "core_params \<Rightarrow> vertex_ref \<Rightarrow> core \<Rightarrow> core option" where
  "commit pm anchor c =
     (case order_history c anchor of
        None \<Rightarrow> None
      | Some (history, released, c) \<Rightarrow>
          let c = settle_released anchor released c;
              timestamp = commit_time c (the (dag_get (w_dag c) (r_digest anchor)));
              c = push_blocks anchor timestamp (length history) released (c\<lparr>co_last_timestamp_ms := timestamp\<rparr>)
          in Some (seal_decided pm (collect_garbage (r_round anchor) (commit_checkpoint pm anchor timestamp c))))"

section \<open>Deciding and releasing\<close>

definition slot_after :: "nat \<Rightarrow> slot \<Rightarrow> slot" where
  "slot_after slots slot = (if snd slot + 1 = slots then (fst slot + 1, 0) else (fst slot, snd slot + 1))"

definition skip_slot :: "core_params \<Rightarrow> slot \<Rightarrow> core \<Rightarrow> core" where
  "skip_slot pm slot c =
     (let (l, s) = leader (pm_draw pm) (w_schedule c) (fst slot) (snd slot);
          kept = (if length (co_skipped_slots c) = SKIPPED_SLOTS_KEPT then tl (co_skipped_slots c) else co_skipped_slots c)
      in c\<lparr>w_schedule := record_outcome l False s, co_leaders_skipped := co_leaders_skipped c + 1,
           co_skipped_slots := kept @ [(fst slot, l)]\<rparr>)"

text \<open>
  One pass over the decided slots: \<open>None\<close> when a commit panics, otherwise the core and whether the
  slots are to be decided again.
\<close>

fun commit_pass :: "core_params \<Rightarrow> (slot \<times> decision) list \<Rightarrow> core \<Rightarrow> (bool \<times> core) option" where
  "commit_pass pm [] c = Some (False, c)"
| "commit_pass pm ((slot, d) # rest) c =
     (case d of
        Undecided \<Rightarrow> Some (False, c)
      | Skip \<Rightarrow> commit_pass pm rest (skip_slot pm slot (c\<lparr>w_next_slot := slot_after (slots_per_round c) slot\<rparr>))
      | Commit anchor \<Rightarrow>
          (case commit pm anchor (c\<lparr>w_next_slot := slot_after (slots_per_round c) slot\<rparr>) of
             None \<Rightarrow> None
           | Some c' \<Rightarrow>
               if co_next_checkpoint_index c' \<noteq> co_next_checkpoint_index c \<or> co_halted c'
               then Some (True, c') else commit_pass pm rest c'))"

text \<open>Deciding asks for the leader of every open slot, which draws the schedule up to the highest.\<close>

definition draw_open :: "draw_hash \<Rightarrow> core \<Rightarrow> core" where
  "draw_open h c = c\<lparr>w_schedule := foldl (\<lambda>s slot. snd (leader h s (fst slot) (snd slot))) (w_schedule c) (open_slots c)\<rparr>"

text \<open>
  The loop over the passes. Each pass that asks for another one decides at least one slot, so the
  number of open slots bounds the passes.
\<close>

primrec try_commit_fuel :: "nat \<Rightarrow> core_params \<Rightarrow> core \<Rightarrow> core option" where
  "try_commit_fuel 0 pm c = None"
| "try_commit_fuel (Suc n) pm c =
     (if co_halted c then Some c
      else case commit_pass pm (decide_slots (pm_draw pm) c) (draw_open (pm_draw pm) c) of
          None \<Rightarrow> None
        | Some (again, c') \<Rightarrow> if again then try_commit_fuel n pm c' else Some c')"

definition try_commit :: "core_params \<Rightarrow> core \<Rightarrow> core option" where
  "try_commit pm c = try_commit_fuel (Suc (length (open_slots c))) pm c"

definition segment_waits :: "core \<Rightarrow> waiting_segment \<Rightarrow> bool" where
  "segment_waits c seg \<longleftrightarrow>
     \<not> wg_height seg \<le> co_executed_through c \<and> list_ex (\<lambda>b. map_of (co_payloads c) (b_digest (ob_batch b)) = None) (wg_batches seg)"

definition release_segment :: "core \<Rightarrow> waiting_segment \<Rightarrow> core" where
  "release_segment c seg =
     (let already = wg_height seg \<le> co_executed_through c;
          batches = (if already then [] else map (\<lambda>b. (b, the (map_of (co_payloads c) (b_digest (ob_batch b))))) (wg_batches seg));
          c = (if \<not> already \<and> wg_batches seg \<noteq> []
               then c\<lparr>co_uncertified_payloads := bt_keep_last UNCERTIFIED_SEGMENTS_KEPT
                       (bt_put (wg_height seg) (map (b_digest \<circ> ob_batch) (wg_batches seg)) (co_uncertified_payloads c))\<rparr>
               else c)
      in c\<lparr>co_events := co_events c @ [EvOrdered \<lparr>sm_epoch = c_epoch (w_committee c), sm_height = wg_height seg,
             sm_anchor = wg_anchor seg, sm_timestamp_ms = wg_timestamp_ms seg, sm_batches = batches,
             sm_vertices = wg_vertices seg\<rparr>]\<rparr>)"

function release_segments :: "core \<Rightarrow> core" where
  "release_segments c =
     (case co_waiting c of
        [] \<Rightarrow> c
      | WaitEpochEnds last_height # rest \<Rightarrow>
          release_segments (c\<lparr>co_waiting := rest, co_events := co_events c @ [EvEpochEnds last_height]\<rparr>)
      | WaitSegment seg # rest \<Rightarrow>
          if segment_waits c seg then c
          else release_segments (release_segment (c\<lparr>co_waiting := rest\<rparr>) seg))"
  by pat_completeness auto

termination release_segments
  by (relation "measure (\<lambda>c. length (co_waiting c))") (auto simp: release_segment_def Let_def)

declare release_segments.simps [simp del]

section \<open>The passes end\<close>

lemma slot_after_greater: "slot < slot_after n slot"
  by (cases slot) (simp add: slot_after_def less_prod_def)

text \<open>What a step leaves of the slots to decide: the slots per round stay, the highest round only falls.\<close>

definition slots_shrink :: "core \<Rightarrow> core \<Rightarrow> bool" where
  "slots_shrink c c' \<longleftrightarrow>
     slots_per_round c' = slots_per_round c \<and> set (g_rounds (w_dag c')) \<subseteq> set (g_rounds (w_dag c))
     \<and> set (w_first_proposals c') \<subseteq> set (w_first_proposals c)"

lemma slots_shrink_trans: "slots_shrink c c' \<Longrightarrow> slots_shrink c' c'' \<Longrightarrow> slots_shrink c c''"
  by (auto simp: slots_shrink_def)

lemma open_slots_grid:
  "open_slots c = (case top_round c of None \<Rightarrow> []
     | Some t \<Rightarrow> filter (\<lambda>s. w_next_slot c \<le> s) (List.product (rev [fst (w_next_slot c)..<t]) (rev [0..<slots_per_round c])))"
  by (auto simp: open_slots_def product_concat_map not_less split: option.splits)

lemma open_slots_set:
  "s \<in> set (open_slots c) \<longleftrightarrow>
     (\<exists>t. top_round c = Some t \<and> fst (w_next_slot c) \<le> fst s \<and> fst s < t \<and> snd s < slots_per_round c \<and> w_next_slot c \<le> s)"
  by (cases "top_round c"; cases s) (auto simp: open_slots_grid)

lemma distinct_open_slots: "distinct (open_slots c)"
  by (cases "top_round c") (simp_all add: open_slots_grid distinct_product)

lemma top_round_shrinks:
  assumes "slots_shrink c c'" "top_round c' = Some t'"
  shows "\<exists>t. top_round c = Some t \<and> t' \<le> t"
proof -
  define rs where "rs = (\<lambda>c :: core. map (fst \<circ> fst) (g_rounds (w_dag c)) @ map fst (w_first_proposals c))"
  have top: "top_round c = (if rs c = [] then None else Some (Max (set (rs c))))" for c :: core
    by (simp add: top_round_def rs_def Let_def)
  have "(fst \<circ> fst) ` set (g_rounds (w_dag c')) \<subseteq> (fst \<circ> fst) ` set (g_rounds (w_dag c))"
    "fst ` set (w_first_proposals c') \<subseteq> fst ` set (w_first_proposals c)"
    using assms(1) unfolding slots_shrink_def by (simp_all add: image_mono)
  then have sub: "set (rs c') \<subseteq> set (rs c)" unfolding rs_def by auto
  have t': "rs c' \<noteq> []" "t' = Max (set (rs c'))" using assms(2) unfolding top by (simp_all split: if_splits)
  then have "rs c \<noteq> []" using sub by auto
  then show ?thesis using Max_mono [OF sub] t' unfolding top by simp
qed

lemma open_slots_fewer:
  assumes "slots_shrink c c'" "slot \<in> set (open_slots c)" "slot < w_next_slot c'"
  shows "length (open_slots c') < length (open_slots c)"
proof -
  have "set (open_slots c') \<subseteq> set (open_slots c) - {slot}"
  proof
    fix s assume s: "s \<in> set (open_slots c')"
    then obtain t' where "top_round c' = Some t'" "fst s < t'" "snd s < slots_per_round c'" "w_next_slot c' \<le> s"
      by (auto simp: open_slots_set)
    moreover obtain t where "top_round c = Some t" "t' \<le> t" using top_round_shrinks [OF assms(1) \<open>top_round c' = Some t'\<close>] by auto
    moreover have "w_next_slot c < s" using assms(2,3) \<open>w_next_slot c' \<le> s\<close> by (auto simp: open_slots_set)
    then have "fst (w_next_slot c) \<le> fst s" by (auto simp: less_prod_def)
    ultimately show "s \<in> set (open_slots c) - {slot}"
      using assms(1,3) \<open>w_next_slot c < s\<close> by (auto simp: open_slots_set slots_shrink_def)
  qed
  then have "set (open_slots c') \<subset> set (open_slots c)" using assms(2) by blast
  then have "card (set (open_slots c')) < card (set (open_slots c))" by (intro psubset_card_mono) simp_all
  then show ?thesis using distinct_open_slots [of c] distinct_open_slots [of c'] by (simp add: distinct_card)
qed

end
