(* ===== verification/Schedule_Agreement.thy ===== *)
theory Schedule_Agreement
  imports Leader_Schedule
begin

text \<open>
  The exported schedule is the same wherever it is computed
  (\<^verbatim>\<open>crates/tenzro-consensus/src/schedule.rs\<close>): a validator draws leaders as far as it needs them, so two
  validators hold different draws, but their exports, which a checkpoint's ordering root commits to,
  stay equal under the same outcomes and the same checkpoints. The reason is that credit snapshots are
  taken at fixed rounds only.
\<close>

section \<open>Snapshots at fixed rounds\<close>

definition snaps_full :: "drawn \<Rightarrow> bool" where
  "snaps_full d \<longleftrightarrow>
     (\<forall>r. d_base d < r \<longrightarrow> r < next_round d \<longrightarrow> r mod SNAPSHOT_EVERY = 0 \<longrightarrow> r \<in> fst ` set (d_snapshots d))
     \<and> (\<forall>s \<in> set (d_snapshots d). fst s = d_base d \<or> fst s mod SNAPSHOT_EVERY = 0)"

lemma snaps_fullD:
  assumes "snaps_full d"
  shows "d_base d < r \<Longrightarrow> r < next_round d \<Longrightarrow> r mod SNAPSHOT_EVERY = 0 \<Longrightarrow> r \<in> fst ` set (d_snapshots d)"
    "s \<in> set (d_snapshots d) \<Longrightarrow> fst s = d_base d \<or> fst s mod SNAPSHOT_EVERY = 0"
  using assms unfolding snaps_full_def by simp_all

lemma draw_snaps_full:
  assumes c: "consistent h n es d" and full: "snaps_full d"
  shows "snaps_full (draw h (entry_for es (next_round d)) d)"
proof -
  let ?d = "draw h (entry_for es (next_round d)) d"
  note dc = draw_consistent [OF c]
  have nr: "next_round ?d = Suc (next_round d)" using dc(2,4) by (simp add: next_round_rounds)
  have snaps: "d_snapshots ?d = (if next_round d mod SNAPSHOT_EVERY = 0 \<and> fst (last (d_snapshots d)) < next_round d
      then d_snapshots d @ [(next_round d, d_credit d)] else d_snapshots d)"
    using consistentD(4) [OF c] by (auto simp: draw_def Let_def split: prod.split)
  have last: "last (d_snapshots d) \<in> set (d_snapshots d)" using consistentD(4) [OF c] by simp
  then have "fst (last (d_snapshots d)) \<le> next_round d" using consistentD(10) [OF c last] by (simp add: next_round_rounds)
  then have at_next: "next_round d mod SNAPSHOT_EVERY = 0 \<Longrightarrow> next_round d \<in> fst ` set (d_snapshots ?d)"
    using last unfolding snaps by (auto simp: image_iff intro: bexI [of _ "last (d_snapshots d)"])
  have sub: "fst ` set (d_snapshots d) \<subseteq> fst ` set (d_snapshots ?d)" unfolding snaps by auto
  show ?thesis
    unfolding snaps_full_def nr dc(4)
  proof (intro conjI allI impI ballI)
    fix r assume r: "d_base d < r" "r < Suc (next_round d)" "r mod SNAPSHOT_EVERY = 0"
    show "r \<in> fst ` set (d_snapshots ?d)"
    proof (cases "r = next_round d")
      case False
      then show ?thesis using snaps_fullD(1) [OF full r(1) _ r(3)] r(2) sub by auto
    qed (use at_next r(3) in simp)
  next
    fix s assume "s \<in> set (d_snapshots ?d)"
    then have "s \<in> set (d_snapshots d) \<or> s = (next_round d, d_credit d) \<and> next_round d mod SNAPSHOT_EVERY = 0"
      unfolding snaps by (simp split: if_splits) blast
    then show "fst s = d_base d \<or> fst s mod SNAPSHOT_EVERY = 0" using snaps_fullD(2) [OF full, of s] by auto
  qed
qed

lemma draw_while_snaps_full:
  "consistent h n es d \<Longrightarrow> snaps_full d \<Longrightarrow> snaps_full (draw_while fuel h es r d)"
  by (induction fuel arbitrary: d) (simp_all add: draw_consistent(1) draw_snaps_full)

lemma truncate_snaps:
  assumes c: "consistent h n es d"
  shows "d_snapshots (drawn_truncate r es d) = filter (\<lambda>s. fst s \<le> max r (d_base d)) (d_snapshots d)"
proof (cases "next_round d \<le> r")
  case True
  then have "fst s \<le> max r (d_base d)" if "s \<in> set (d_snapshots d)" for s
    using consistentD(10) [OF c that] by (simp add: next_round_rounds)
  then have "filter (\<lambda>s. fst s \<le> max r (d_base d)) (d_snapshots d) = d_snapshots d" by (simp add: filter_id_conv)
  then show ?thesis using True by (simp add: drawn_truncate_def)
qed (simp add: drawn_truncate_def Let_def split: prod.split)

lemma truncate_snaps_full:
  assumes c: "consistent h n es d" and full: "snaps_full d"
  shows "snaps_full (drawn_truncate r es d)"
proof -
  let ?d = "drawn_truncate r es d"
  note t = drawn_truncate_consistent [OF c, of r]
  have shrink: "next_round ?d \<le> next_round d"
  proof (cases "next_round d \<le> r")
    case False
    have "d_base d + drawn_rounds ?d \<le> max r (d_base d)" using t(5) .
    then show ?thesis using False t(3) by (simp add: next_round_rounds)
  qed (simp add: drawn_truncate_def)
  have below: "next_round ?d \<le> max r (d_base d)" using t(3,5) by (simp add: next_round_rounds)
  show ?thesis
    unfolding snaps_full_def t(3) truncate_snaps [OF c]
  proof (intro conjI allI impI ballI)
    fix q assume q: "d_base d < q" "q < next_round ?d" "q mod SNAPSHOT_EVERY = 0"
    then obtain s where "s \<in> set (d_snapshots d)" "q = fst s" using snaps_fullD(1) [OF full q(1) _ q(3)] shrink by auto
    moreover have "q \<le> max r (d_base d)" using q(2) below by linarith
    ultimately show "q \<in> fst ` set (filter (\<lambda>s. fst s \<le> max r (d_base d)) (d_snapshots d))" by auto
  next
    fix s assume "s \<in> set (filter (\<lambda>s. fst s \<le> max r (d_base d)) (d_snapshots d))"
    then show "fst s = d_base d \<or> fst s mod SNAPSHOT_EVERY = 0" using snaps_fullD(2) [OF full] by simp
  qed
qed

lemma rposition_last:
  "rposition P xs = Some i \<Longrightarrow> j < length xs \<Longrightarrow> P (xs ! j) \<Longrightarrow> j \<le> i"
proof (induction xs arbitrary: i j)
  case (Cons x xs)
  show ?case
  proof (cases j)
    case (Suc k)
    then have k: "k < length xs" "P (xs ! k)" using Cons.prems by simp_all
    then have "rposition P xs \<noteq> None" by (auto simp: rposition_None)
    then obtain m where "rposition P xs = Some m" by auto
    then show ?thesis using Cons.IH [OF _ k] Cons.prems(1) Suc by simp
  qed simp
qed simp

text \<open>Pruning keeps the snapshots from the latest one at or below the round, whose round is the new base.\<close>

lemma prune_base:
  assumes c: "consistent h n es d"
  shows "d_base (drawn_prune_below r d) \<in> fst ` set (d_snapshots d)"
    and "s \<in> set (d_snapshots d) \<Longrightarrow> fst s \<le> r \<Longrightarrow> fst s \<le> d_base (drawn_prune_below r d)"
    and "s \<in> set (d_snapshots (drawn_prune_below r d)) \<longleftrightarrow>
      s \<in> set (d_snapshots d) \<and> d_base (drawn_prune_below r d) \<le> fst s"
proof -
  let ?snaps = "d_snapshots d"
  define keep where "keep = unwrap_or (rposition (\<lambda>s. fst s \<le> r) ?snaps) 0"
  have keep: "keep < length ?snaps"
    using consistentD(4) [OF c] rposition_Some [of "\<lambda>s. fst s \<le> r" ?snaps]
    by (auto simp: keep_def unwrap_or_def split: option.splits)
  have base: "d_base (drawn_prune_below r d) = fst (?snaps ! keep)"
    and snaps: "d_snapshots (drawn_prune_below r d) = drop keep ?snaps"
    using keep by (simp_all add: drawn_prune_below_def Let_def keep_def [symmetric] hd_drop_conv_nth)
  have order: "fst (?snaps ! i) < fst (?snaps ! j)" if "i < j" "j < length ?snaps" for i j
    using consistentD(7) [OF c] that by (simp add: sorted_wrt_map sorted_wrt_iff_nth_less)
  show "d_base (drawn_prune_below r d) \<in> fst ` set ?snaps" unfolding base using keep by simp
  show "fst s \<le> d_base (drawn_prune_below r d)" if s: "s \<in> set ?snaps" "fst s \<le> r"
  proof -
    obtain j where j: "j < length ?snaps" "s = ?snaps ! j" using s(1) by (metis in_set_conv_nth)
    have "rposition (\<lambda>s. fst s \<le> r) ?snaps \<noteq> None" using s by (auto simp: rposition_None)
    then have "j \<le> keep" using rposition_last [OF _ j(1)] j(2) s(2) by (auto simp: keep_def unwrap_or_def)
    then show ?thesis unfolding base j(2) using order [of j keep] keep by (cases "j = keep") auto
  qed
  show "s \<in> set (d_snapshots (drawn_prune_below r d)) \<longleftrightarrow>
      s \<in> set ?snaps \<and> d_base (drawn_prune_below r d) \<le> fst s"
  proof
    assume "s \<in> set (d_snapshots (drawn_prune_below r d))"
    then obtain i where "i < length (drop keep ?snaps)" "s = drop keep ?snaps ! i" unfolding snaps by (metis in_set_conv_nth)
    then have i: "keep + i < length ?snaps" "s = ?snaps ! (keep + i)" by simp_all
    then show "s \<in> set ?snaps \<and> d_base (drawn_prune_below r d) \<le> fst s"
      unfolding base using order [of keep "keep + i"] by (cases i) auto
  next
    assume s: "s \<in> set ?snaps \<and> d_base (drawn_prune_below r d) \<le> fst s"
    then obtain j where j: "j < length ?snaps" "s = ?snaps ! j" by (metis in_set_conv_nth)
    then have "keep \<le> j" using order [of j keep] keep s unfolding base by force
    then have "drop keep ?snaps ! (j - keep) = s" "j - keep < length (drop keep ?snaps)" using j by simp_all
    then show "s \<in> set (d_snapshots (drawn_prune_below r d))" unfolding snaps by (metis nth_mem)
  qed
qed

lemma prune_snaps_full:
  assumes c: "consistent h n es d" and full: "snaps_full d"
  shows "snaps_full (drawn_prune_below r d)"
proof -
  let ?d = "drawn_prune_below r d"
  note p = drawn_prune_consistent [OF c, of r] 
  note b = prune_base(1) [OF c, of r] prune_base(2) [OF c, of _ r] prune_base(3) [OF c, of _ r]
  have nr: "next_round ?d = next_round d" using p(6) by (simp add: next_round_rounds)
  show ?thesis
    unfolding snaps_full_def nr
  proof (intro conjI allI impI ballI)
    fix q assume q: "d_base ?d < q" "q < next_round d" "q mod SNAPSHOT_EVERY = 0"
    then obtain s where "s \<in> set (d_snapshots d)" "q = fst s" using snaps_fullD(1) [OF full _ q(2,3)] p(3) by force
    then show "q \<in> fst ` set (d_snapshots ?d)" using b(3) [of s] q(1) by force
  next
    fix s assume "s \<in> set (d_snapshots ?d)"
    then have s: "s \<in> set (d_snapshots d)" "d_base ?d \<le> fst s" using b(3) by blast+
    then show "fst s = d_base ?d \<or> fst s mod SNAPSHOT_EVERY = 0"
      using snaps_fullD(2) [OF full s(1)] p(3) by linarith
  qed
qed

section \<open>Schedules that export alike\<close>

definition schedule_full :: "(digest \<Rightarrow> round \<Rightarrow> nat \<Rightarrow> nat) \<Rightarrow> nat \<Rightarrow> schedule \<Rightarrow> bool" where
  "schedule_full h n s \<longleftrightarrow> schedule_ok h n s \<and> snaps_full (sc_drawn s)"

lemma schedule_fullD:
  assumes "schedule_full h n s"
  shows "schedule_ok h n s" "consistent h n (sc_entries s) (sc_drawn s)" "snaps_full (sc_drawn s)"
  using assms by (simp_all add: schedule_full_def schedule_ok_def)

lemma schedule_new_full:
  assumes "wf_committee c"
  shows "schedule_full h (c_size c) (schedule_new c seed slots look)"
  using schedule_new_ok [OF assms]
  by (simp add: schedule_full_def snaps_full_def schedule_new_def drawn_new_def next_round_def)

text \<open>Two exports are equal exactly when the entries, the outcomes and the oldest snapshots are.\<close>

lemma export_eq_iff:
  assumes "schedule_full h n s" "schedule_full h n s'"
  shows "schedule_export s = schedule_export s' \<longleftrightarrow>
    sc_entries s = sc_entries s' \<and> sc_outcomes s = sc_outcomes s' \<and> sc_lookahead s = sc_lookahead s'
    \<and> d_slots (sc_drawn s) = d_slots (sc_drawn s') \<and> d_base (sc_drawn s) = d_base (sc_drawn s')
    \<and> base_credit (sc_drawn s) = base_credit (sc_drawn s')"
proof -
  let ?raw = "\<lambda>e. (e_from e, e_seed e, e_weights e)"
  have hd: "hd (d_snapshots (sc_drawn t)) = (d_base (sc_drawn t), base_credit (sc_drawn t))" if "schedule_full h n t" for t
    using consistentD(5) [OF schedule_fullD(2) [OF that]] by (simp add: base_credit_def prod_eq_iff)
  let ?mk = "\<lambda>(start, seed, weights). entry_new start seed weights"
  have raw: "map ?mk (map ?raw (sc_entries t)) = sc_entries t"
    if "schedule_full h n t" for t
    using consistentD(3) [OF schedule_fullD(2) [OF that]]
    by (simp add: comp_def) (intro map_idI, auto simp: wf_entries_def list_all_iff wf_entry_def entry_new_def)
  have "map ?raw (sc_entries s) = map ?raw (sc_entries s') \<longleftrightarrow> sc_entries s = sc_entries s'"
  proof
    assume "map ?raw (sc_entries s) = map ?raw (sc_entries s')"
    from arg_cong [OF this, of "map ?mk"] show "sc_entries s = sc_entries s'"
      unfolding raw [OF assms(1)] raw [OF assms(2)] .
  qed simp
  then show ?thesis by (auto simp: schedule_export_def hd [OF assms(1)] hd [OF assms(2)] simp del: map_eq_conv)
qed

text \<open>Asking for a leader draws more rounds and leaves the export alone.\<close>

lemma draw_export:
  assumes "schedule_full h n s"
  defines "s' \<equiv> s\<lparr>sc_drawn := draw h (entry_for (sc_entries s) (next_round (sc_drawn s))) (sc_drawn s)\<rparr>"
  shows "schedule_full h n s'" "schedule_export s' = schedule_export s"
proof -
  note c = schedule_fullD [OF assms(1)] and dc = draw_consistent [OF schedule_fullD(2) [OF assms(1)]]
  show full: "schedule_full h n s'"
    using c dc draw_snaps_full [OF c(2,3)] by (simp add: schedule_full_def schedule_ok_def s'_def)
  show "schedule_export s' = schedule_export s"
    unfolding export_eq_iff [OF full assms(1)] using dc by (simp add: s'_def)
qed

lemma leader_export:
  assumes full: "schedule_full h n s" and run: "leader h s r k = (l, s')"
  shows "schedule_full h n s'" "schedule_export s' = schedule_export s"
    "d_base (sc_drawn s) \<le> r \<Longrightarrow> r < next_round (sc_drawn s')" "next_round (sc_drawn s) \<le> next_round (sc_drawn s')"
    "sc_outcomes s' = sc_outcomes s"
proof -
  let ?d = "sc_drawn s"
  note c = schedule_fullD [OF full]
  have "schedule_full h n s' \<and> schedule_export s' = schedule_export s
    \<and> (d_base ?d \<le> r \<longrightarrow> r < next_round (sc_drawn s')) \<and> next_round ?d \<le> next_round (sc_drawn s')"
  proof (cases "r < d_base ?d")
    case True
    have "s' = s \<or> d_leaders ?d = [] \<and> s' = s\<lparr>sc_drawn := draw h (entry_for (sc_entries s) (next_round ?d)) ?d\<rparr>"
      using run True by (auto simp: leader_def Let_def next_round_def split: if_splits)
    then show ?thesis
      using full draw_export [OF full] True draw_consistent(2,4) [OF c(2)] by (auto simp: next_round_rounds)
  next
    case False
    define d' where "d' = draw_while (Suc r - next_round ?d) h (sc_entries s) r ?d"
    have s': "s' = s\<lparr>sc_drawn := d'\<rparr>" using run False by (simp add: leader_def Let_def d'_def)
    have d': "consistent h n (sc_entries s) d'" "drawn_rounds d' = max (drawn_rounds ?d) (Suc r - d_base ?d)"
      "d_slots d' = d_slots ?d" "d_base d' = d_base ?d" "base_credit d' = base_credit ?d" "snaps_full d'"
      using draw_while_consistent [OF c(2) order_refl, of r] draw_while_snaps_full [OF c(2,3)]
      unfolding d'_def Let_def by blast+
    have full': "schedule_full h n s'" using c d' by (simp add: s' schedule_full_def schedule_ok_def)
    moreover have "schedule_export s' = schedule_export s"
      unfolding export_eq_iff [OF full' full] using d' by (simp add: s')
    ultimately show ?thesis using d'(2,4) False by (auto simp: s' next_round_rounds)
  qed
  then show "schedule_full h n s'" "schedule_export s' = schedule_export s"
    "d_base ?d \<le> r \<Longrightarrow> r < next_round (sc_drawn s')" "next_round ?d \<le> next_round (sc_drawn s')" by blast+
  show "sc_outcomes s' = sc_outcomes s" using run by (auto simp: leader_def Let_def split: if_splits)
qed

lemma leader_alike:
  assumes full: "schedule_full h n s" "schedule_full h n s'" and eq: "schedule_export s = schedule_export s'"
  shows "fst (leader h s r k) = fst (leader h s' r k)"
proof -
  note same = eq [unfolded export_eq_iff [OF full]]
  have val: "fst (leader h t r k) = ref_leaders h (sc_entries t) (d_slots (sc_drawn t)) (d_base (sc_drawn t))
      (base_credit (sc_drawn t)) (r - d_base (sc_drawn t)) ! min k (d_slots (sc_drawn t) - 1)" if t: "schedule_full h n t" for t
  proof (cases "r < d_base (sc_drawn t)")
    case False
    then show ?thesis
      using leader_ok(1) [OF schedule_fullD(1) [OF t], of r k "fst (leader h t r k)" "snd (leader h t r k)"]
      by (simp add: spec_leaders_def Let_def)
  next
    case True
    let ?d = "sc_drawn t"
    define d where "d = (if d_leaders ?d = [] then draw h (entry_for (sc_entries t) (d_base ?d)) ?d else ?d)"
    note c = schedule_fullD(2) [OF t]
    have "consistent h n (sc_entries t) d \<and> 0 < drawn_rounds d \<and> d_slots d = d_slots ?d \<and> d_base d = d_base ?d
        \<and> base_credit d = base_credit ?d"
    proof (cases "d_leaders ?d = []")
      case True
      then have "next_round ?d = d_base ?d" by (simp add: next_round_def)
      then show ?thesis using draw_consistent [OF c] True by (simp add: d_def)
    next
      case False
      have "drawn_rounds ?d \<noteq> 0" using consistentD(8) [OF c] False by (cases "drawn_rounds ?d") auto
      then show ?thesis using c False by (simp add: d_def)
    qed
    then have d: "consistent h n (sc_entries t) d" "0 < drawn_rounds d" "d_slots d = d_slots ?d" "d_base d = d_base ?d"
      "base_credit d = base_credit ?d" by blast+
    have "d_leaders d ! (0 * d_slots ?d + min k (d_slots ?d - 1)) =
        ref_leaders h (sc_entries t) (d_slots ?d) (d_base ?d) (base_credit ?d) 0 ! min k (d_slots ?d - 1)"
      unfolding consistentD(8) [OF d(1)] d(3-5)
      using d(2) consistentD(1) [OF c] consistent_ref(2) [OF c] by (intro nth_concat_const) auto
    then show ?thesis using True by (simp add: leader_def Let_def d_def)
  qed
  show ?thesis unfolding val [OF full(1)] val [OF full(2)] using same by simp
qed

lemma record_outcome_export:
  assumes "schedule_full h n s"
  shows "schedule_full h n (record_outcome l ok s)"
    "schedule_export (record_outcome l ok s) =
       (schedule_export s)\<lparr>ss_outcomes := drop (length (sc_outcomes s @ [(l, ok)]) - BEHAVIOUR_WINDOW) (sc_outcomes s @ [(l, ok)])\<rparr>"
  using assms by (simp_all add: schedule_full_def schedule_ok_def record_outcome_def schedule_export_def Let_def split: prod.split)

section \<open>A checkpoint\<close>

lemma advance_full:
  assumes "schedule_full h n s" "length (c_members c) = n"
  shows "schedule_full h n (advance sh c anchor cp s)"
proof -
  note s = schedule_fullD [OF assms(1)]
  note t = drawn_truncate_consistent(1) [OF s(2)]
  have "snaps_full (sc_drawn (advance sh c anchor cp s))"
    using prune_snaps_full [OF t truncate_snaps_full [OF s(2,3)]] by (simp add: advance_def Let_def)
  then show ?thesis using advance_ok(1) [OF s(1) assms(2)] by (simp add: schedule_full_def)
qed

text \<open>The new base of one schedule is not above that of another, once both are drawn past the anchor.\<close>

lemma advance_base_le:
  assumes full: "schedule_full h n s" "schedule_full h n s'" and base: "d_base (sc_drawn s) = d_base (sc_drawn s')"
    and look: "sc_lookahead s = sc_lookahead s'" and drawn: "anchor < next_round (sc_drawn s')"
  shows "d_base (sc_drawn (advance sh c anchor cp s)) \<le> d_base (sc_drawn (advance sh c anchor cp s'))"
proof -
  let ?from = "anchor + sc_lookahead s + 1"
  let ?t = "drawn_truncate ?from (sc_entries s) (sc_drawn s)" and ?t' = "drawn_truncate ?from (sc_entries s') (sc_drawn s')"
  note f = schedule_fullD [OF full(1)] and f' = schedule_fullD [OF full(2)]
  note t = drawn_truncate_consistent [OF f(2), of ?from] and t' = drawn_truncate_consistent [OF f'(2), of ?from]
  have eq: "d_base (sc_drawn (advance sh c anchor cp s)) = d_base (drawn_prune_below anchor ?t)"
    "d_base (sc_drawn (advance sh c anchor cp s')) = d_base (drawn_prune_below anchor ?t')"
    using look by (simp_all add: advance_def Let_def)
  let ?b = "d_base (drawn_prune_below anchor ?t)"
  have "?b \<le> d_base (drawn_prune_below anchor ?t')"
  proof (cases "d_base (sc_drawn s) < ?b")
    case True
    have le: "?b \<le> anchor" using drawn_prune_consistent(4) [OF t(1), of anchor] t(3) True by linarith
    obtain x where x: "x \<in> set (d_snapshots (sc_drawn s))" "?b = fst x"
      using prune_base(1) [OF t(1), of anchor] unfolding truncate_snaps [OF f(2)] by auto
    have "?b mod SNAPSHOT_EVERY = 0" using snaps_fullD(2) [OF f(3) x(1)] True x(2) by auto
    then obtain y where y: "y \<in> set (d_snapshots (sc_drawn s'))" "?b = fst y"
      using snaps_fullD(1) [OF f'(3), of ?b] True le drawn base by auto
    then have "y \<in> set (d_snapshots ?t')" unfolding truncate_snaps [OF f'(2)] using le by simp
    then show ?thesis using prune_base(2) [OF t'(1), of y anchor] y(2) le by simp
  next
    case False
    then show ?thesis using drawn_prune_consistent(3) [OF t'(1), of anchor] t'(3) base by linarith
  qed
  then show ?thesis unfolding eq .
qed

lemma advance_export:
  assumes full: "schedule_full h n s" "schedule_full h n s'" and eq: "schedule_export s = schedule_export s'"
    and n: "length (c_members c) = n"
    and drawn: "anchor < next_round (sc_drawn s)" "anchor < next_round (sc_drawn s')"
  shows "schedule_export (advance sh c anchor cp s) = schedule_export (advance sh c anchor cp s')"
proof -
  note same = eq [unfolded export_eq_iff [OF full]]
  let ?from = "anchor + sc_lookahead s + 1" and ?a = "advance sh c anchor cp s" and ?a' = "advance sh c anchor cp s'"
  let ?t = "drawn_truncate ?from (sc_entries s) (sc_drawn s)" and ?t' = "drawn_truncate ?from (sc_entries s') (sc_drawn s')"
  note f = schedule_fullD [OF full(1)] and f' = schedule_fullD [OF full(2)]
  note t = drawn_truncate_consistent [OF f(2), of ?from] and t' = drawn_truncate_consistent [OF f'(2), of ?from]
  note p = drawn_prune_consistent [OF t(1), of anchor] and p' = drawn_prune_consistent [OF t'(1), of anchor]
  have base: "d_base (sc_drawn ?a) = d_base (sc_drawn ?a')"
    using same drawn advance_base_le [OF full, of anchor sh c cp] advance_base_le [OF full(2,1), of anchor sh c cp]
    by (intro order_antisym) simp_all
  have d: "sc_drawn ?a = drawn_prune_below anchor ?t" "sc_drawn ?a' = drawn_prune_below anchor ?t'"
    using same by (simp_all add: advance_def Let_def)
  have slots: "d_slots (sc_drawn ?a) = d_slots (sc_drawn ?a')" using p(2) p'(2) t(2) t'(2) same by (simp add: d)
  have credit: "base_credit (sc_drawn ?a) = base_credit (sc_drawn ?a')"
    using p(7) p'(7) t(2-4) t'(2-4) same base by (simp add: d)
  have rest: "sc_outcomes ?a = sc_outcomes ?a'" "sc_lookahead ?a = sc_lookahead ?a'" "sc_entries ?a = sc_entries ?a'"
    using same base unfolding d by (simp_all add: advance_def Let_def)
  show ?thesis
    unfolding export_eq_iff [OF advance_full [OF full(1) n] advance_full [OF full(2) n]]
    using base slots credit rest by simp
qed

end
