(* ===== verification/Ordering_Agreement.thy ===== *)
theory Ordering_Agreement
  imports Block_Ordering Schedule_Agreement
begin

text \<open>
  Agreement on the order (\<^verbatim>\<open>crates/tenzro-consensus/src/core.rs\<close>): what the commit rule decides, the
  reliable broadcast delivers and the schedule exports is enough for two validators to cut the same
  blocks, decide the same checkpoints and compute the same ordering roots, whatever else they hold.
\<close>

section \<open>Two DAGs that agree hold the same history\<close>

definition dags_agree :: "dag \<Rightarrow> dag \<Rightarrow> bool" where
  "dags_agree g g' \<longleftrightarrow> (\<forall>d v v'. dag_get g d = Some v \<longrightarrow> dag_get g' d = Some v' \<longrightarrow> v = v')"

lemma dags_agree_sym: "dags_agree g g' \<Longrightarrow> dags_agree g' g"
  unfolding dags_agree_def by metis

lemma history_reaches:
  assumes wf: "dag_wf vdigest g" "dag_wf vdigest g'" and closed: "dag_closed g" "dag_closed g'"
    and floor: "g_floor g = g_floor g'" and agree: "dags_agree g g'"
    and root: "dag_get g root = Some v" "dag_get g' root = Some v'"
  shows "(root, d) \<in> (hist_edge g skip)\<^sup>* \<Longrightarrow>
    (root, d) \<in> (hist_edge g' skip)\<^sup>* \<and> (\<exists>w. dag_get g d = Some w \<and> dag_get g' d = Some w)"
proof (induction rule: rtrancl_induct)
  case base
  show ?case using root agree unfolding dags_agree_def by blast
next
  case (step d e)
  then obtain w where w: "dag_get g d = Some w" "dag_get g' d = Some w" by blast
  have e: "\<not> skip d" "e \<in> set (all_refs g w)" using step.hyps(2) w(1) by (auto simp: hist_edge_def)
  then obtain s where s: "s \<in> set (v_strong w @ v_weak w)" "g_floor g \<le> r_round s" "e = r_digest s"
    by (auto simp: all_refs_def)
  have "(d, e) \<in> hist_edge g' skip" using e w(2) floor by (simp add: hist_edge_def all_refs_def)
  then have "(root, e) \<in> (hist_edge g' skip)\<^sup>*" using step.IH by (meson rtrancl.rtrancl_into_rtrancl)
  moreover obtain x where x: "dag_get g e = Some x" using closed(1) w(1) s unfolding closed_get [OF wf(1)] by blast
  moreover obtain y where y: "dag_get g' e = Some y" using closed(2) w(2) s floor unfolding closed_get [OF wf(2)] by metis
  ultimately show ?case using agree unfolding dags_agree_def by blast
qed

lemma sorted_refs_unique:
  fixes xs ys :: "vertex_ref list"
  assumes "set xs = set ys" "distinct xs" "distinct ys"
    and "sorted (map (\<lambda>r. (r_round r, r_source r, r_digest r)) xs)" "sorted (map (\<lambda>r. (r_round r, r_source r, r_digest r)) ys)"
  shows "xs = ys"
proof -
  have "inj (\<lambda>r :: vertex_ref. (r_round r, r_source r, r_digest r))" by (rule injI) simp
  then have inj: "inj_on (\<lambda>r :: vertex_ref. (r_round r, r_source r, r_digest r)) A" for A by (rule inj_on_subset) simp
  show ?thesis
    using assms inj by (intro map_sorted_distinct_set_unique [where f = "\<lambda>r. (r_round r, r_source r, r_digest r)"])
      (simp_all add: distinct_map)
qed

lemma history_same:
  assumes wf: "dag_wf vdigest g" "dag_wf vdigest g'" and closed: "dag_closed g" "dag_closed g'"
    and floor: "g_floor g = g_floor g'" and agree: "dags_agree g g'"
    and root: "dag_get g root = Some v" "dag_get g' root = Some v'"
  shows "causal_history g root skip = causal_history g' root skip"
    and "history_vertices g (causal_history g root skip) = history_vertices g' (causal_history g' root skip)"
proof -
  note there = history_reaches [OF wf closed floor agree root, of _ skip]
  note here = history_reaches [OF wf(2,1) closed(2,1) floor [symmetric] dags_agree_sym [OF agree] root(2,1), of _ skip]
  have "history_set g root skip = history_set g' root skip"
    using there here by (auto simp: history_set_def)
  moreover have get: "dag_get g d = dag_get g' d" if "d \<in> history_set g root skip" for d
    using there [of d] that by (auto simp: history_set_def)
  then have "dag_ref g d = dag_ref g' d" if "d \<in> history_set g root skip" for d using that by (simp add: dag_ref_def)
  ultimately have "set (causal_history g root skip) = set (causal_history g' root skip)"
    using causal_history_set [of g root skip] causal_history_set [of g' root skip] by simp
  then show same: "causal_history g root skip = causal_history g' root skip"
    using sorted_refs_unique causal_history_set [of g root skip] causal_history_set [of g' root skip] by blast
  have "dag_get g (r_digest r) = dag_get g' (r_digest r)" if "r \<in> set (causal_history g root skip)" for r
    using that causal_history_set [of g root skip] get by (auto simp: dag_ref_def Let_def)
  then have "map (\<lambda>r. dag_get g (r_digest r)) (causal_history g root skip)
      = map (\<lambda>r. dag_get g' (r_digest r)) (causal_history g root skip)" by simp
  then show "history_vertices g (causal_history g root skip) = history_vertices g' (causal_history g' root skip)"
    unfolding history_vertices_def same by (simp only:)
qed

lemma history_vertices_Some: "\<exists>vs. history_vertices g (causal_history g root skip) = Some vs"
proof -
  have held: "dag_get g (r_digest r) \<noteq> None" if "r \<in> set (causal_history g root skip)" for r
    using that causal_history_set [of g root skip] by (auto simp: dag_ref_def Let_def history_set_def)
  then have "\<exists>vs. those (map (\<lambda>r. dag_get g (r_digest r)) rs) = Some vs" if "set rs \<subseteq> set (causal_history g root skip)" for rs
    using that
  proof (induction rs)
    case (Cons r rs)
    then obtain v where "dag_get g (r_digest r) = Some v" using held [of r] by auto
    then show ?case using Cons by auto
  qed simp
  then show ?thesis by (simp add: history_vertices_def)
qed

text \<open>The parents' timestamps of a vertex both hold.\<close>

lemma parents_same:
  assumes wf: "dag_wf vdigest g" "dag_wf vdigest g'" and closed: "dag_closed g" "dag_closed g'"
    and genuine: "dag_genuine g" "dag_genuine g'"
    and floor: "g_floor g = g_floor g'" and agree: "dags_agree g g'"
    and v: "dag_get g d = Some v" "dag_get g' d = Some v" and s: "s \<in> set (v_strong v)"
  shows "dag_get g (r_digest s) = dag_get g' (r_digest s)"
proof (cases "g_floor g \<le> r_round s")
  case True
  have s': "s \<in> set (v_strong v @ v_weak v)" using s by simp
  obtain w where "dag_get g (r_digest s) = Some w" using closed(1) v(1) s' True unfolding closed_get [OF wf(1)] by blast
  moreover obtain w' where "dag_get g' (r_digest s) = Some w'"
    using closed(2) v(2) s' True unfolding closed_get [OF wf(2)] floor by blast
  moreover have "w = w'" using agree calculation unfolding dags_agree_def by blast
  ultimately show ?thesis by simp
next
  case False
  have none: "dag_get h (r_digest s) = None"
    if h: "dag_wf vdigest h" "dag_genuine h" "dag_get h d = Some v" "g_floor h = g_floor g" for h
  proof (rule ccontr)
    assume "dag_get h (r_digest s) \<noteq> None"
    then obtain w where w: "dag_get h (r_digest s) = Some w" by blast
    have "v_round w = r_round s" using h(2,3) w s unfolding dag_genuine_def by simp
    moreover have "g_floor h \<le> v_round w" using dag_wfD(4) [OF h(1), of "(v_round w, v_source w)" "r_digest s" w] w dag_get_iff(1) [OF h(1), of "r_digest s" w] by simp
    ultimately show False using False h(4) by simp
  qed
  show ?thesis using none [OF wf(1) genuine(1) v(1)] none [OF wf(2) genuine(2) v(2)] floor by simp
qed

section \<open>What a validator computes from the commits alone\<close>

text \<open>
  The part of the core every validator computes alike from the committed anchors: of the
  leader schedule it holds the export, since each draws as far as it needs, and it holds neither the
  pools of batches nor the queues, which depend on what a validator received and executed.
\<close>

record ordered_part =
  op_committee :: committee
  op_cfg :: core_config
  op_floor :: round
  op_next_slot :: slot
  op_schedule :: schedule_state
  op_availability :: availability
  op_last_committed :: "round option"
  op_ordered :: "(digest \<times> round) list"
  op_next_height :: nat
  op_last_timestamp_ms :: nat
  op_last_state_height :: nat
  op_epoch_ends_ms :: nat
  op_epoch_closed :: bool
  op_last_checkpoint_height :: nat
  op_last_checkpoint_ts :: nat
  op_next_checkpoint_index :: nat
  op_seed_chain :: "digest list"
  op_handover_index :: nat
  op_halted :: bool

definition ordered_of :: "core \<Rightarrow> ordered_part" where
  "ordered_of c = \<lparr>op_committee = w_committee c, op_cfg = co_cfg c, op_floor = g_floor (w_dag c), op_next_slot = w_next_slot c,
     op_schedule = schedule_export (w_schedule c),
     op_availability = co_availability c, op_last_committed = co_last_committed c, op_ordered = co_ordered c,
     op_next_height = co_next_height c, op_last_timestamp_ms = co_last_timestamp_ms c,
     op_last_state_height = co_last_state_height c, op_epoch_ends_ms = co_epoch_ends_ms c, op_epoch_closed = co_epoch_closed c,
     op_last_checkpoint_height = co_last_checkpoint_height c, op_last_checkpoint_ts = co_last_checkpoint_ts c,
     op_next_checkpoint_index = co_next_checkpoint_index c, op_seed_chain = co_seed_chain c,
     op_handover_index = co_handover_index c, op_halted = co_halted c\<rparr>"

lemma ordered_of_eqD:
  assumes "ordered_of c1 = ordered_of c2"
  shows "w_committee c1 = w_committee c2" "co_cfg c1 = co_cfg c2" "g_floor (w_dag c1) = g_floor (w_dag c2)"
    "w_next_slot c1 = w_next_slot c2" "co_availability c1 = co_availability c2" "co_last_committed c1 = co_last_committed c2"
    "co_ordered c1 = co_ordered c2" "co_next_height c1 = co_next_height c2" "co_last_timestamp_ms c1 = co_last_timestamp_ms c2"
    "co_last_state_height c1 = co_last_state_height c2" "co_epoch_ends_ms c1 = co_epoch_ends_ms c2"
    "co_epoch_closed c1 = co_epoch_closed c2" "co_last_checkpoint_height c1 = co_last_checkpoint_height c2"
    "co_last_checkpoint_ts c1 = co_last_checkpoint_ts c2" "co_next_checkpoint_index c1 = co_next_checkpoint_index c2"
    "co_seed_chain c1 = co_seed_chain c2" "co_handover_index c1 = co_handover_index c2" "co_halted c1 = co_halted c2"
    "schedule_export (w_schedule c1) = schedule_export (w_schedule c2)"
  using assms by (simp_all add: ordered_of_def)

text \<open>The checkpoints a core decided: those it handed out to sign and those that still wait for execution.\<close>

type_synonym checkpoint_entry = "nat \<times> nat \<times> nat \<times> round \<times> nat \<times> bool \<times> digest option"

definition pending_entry :: "pending_checkpoint \<Rightarrow> checkpoint_entry" where
  "pending_entry pc = (pc_index pc, pc_first_height pc, pc_last_height pc, pc_anchor_round pc, pc_timestamp_ms pc,
     pc_ends_epoch pc, pc_ordering_root pc)"

definition sign_entry :: "core_event \<Rightarrow> checkpoint_entry option" where
  "sign_entry ev = (case ev of
       EvSign cp \<Rightarrow> Some (cp_index cp, cp_first_height cp, cp_last_height cp, cp_anchor_round cp, cp_timestamp_ms cp,
         cp_next_committee_root cp \<noteq> None, Some (cp_ordering_root cp))
     | _ \<Rightarrow> None)"

definition ckpt_log :: "core \<Rightarrow> checkpoint_entry list" where
  "ckpt_log c = List.map_filter sign_entry (co_events c) @ map pending_entry (co_decided c)"

lemma map_filter_snoc: "List.map_filter f (xs @ [x]) = List.map_filter f xs @ (case f x of None \<Rightarrow> [] | Some y \<Rightarrow> [y])"
  by (simp add: List.map_filter_def split: option.split)

section \<open>The stages of a commit\<close>

text \<open>Stages that touch only pools, events and execution.\<close>

definition pools_only :: "core \<Rightarrow> core \<Rightarrow> bool" where
  "pools_only c c' \<longleftrightarrow> ordered_of c' = ordered_of c \<and> view.truncate c' = view.truncate c
     \<and> co_waiting c' = co_waiting c \<and> co_decided c' = co_decided c \<and> ckpt_log c' = ckpt_log c"

lemma pools_only_refl [simp]: "pools_only c c"
  by (simp add: pools_only_def)

lemma pools_only_trans: "pools_only c c' \<Longrightarrow> pools_only c' c'' \<Longrightarrow> pools_only c c''"
  by (simp add: pools_only_def)

lemma pools_only_foldl: "(\<And>c x. pools_only c (f c x)) \<Longrightarrow> pools_only c (foldl f c xs)"
  by (induction xs arbitrary: c) (auto intro: pools_only_trans)

lemma pools_only_view:
  assumes "pools_only c c'"
  shows "w_dag c' = w_dag c" "w_first_proposals c' = w_first_proposals c" "w_schedule c' = w_schedule c"
  using assms by (simp_all add: pools_only_def view.truncate_def)

lemma settle_batch_pools: "pools_only c (settle_batch x r c b)"
  by (auto simp: settle_batch_def Let_def pools_only_def ordered_of_def view.truncate_def ckpt_log_def split: option.splits)

lemma return_batch_pools: "pools_only c (return_batch c sd)"
  by (auto simp: return_batch_def Let_def pools_only_def ordered_of_def view.truncate_def ckpt_log_def map_filter_snoc
      sign_entry_def split: option.splits)

lemma settle_released_pools: "pools_only c (settle_released anchor released c)"
proof -
  let ?c = "c\<lparr>co_carry_pool := filter (\<lambda>((a, s), _). released_through (co_availability c) a \<le> s) (co_carry_pool c),
      co_own_unintroduced := filter (\<lambda>b. released_through (co_availability c) (co_me c) \<le> b_sequence b) (co_own_unintroduced c)\<rparr>"
  have "pools_only c ?c" by (simp add: pools_only_def ordered_of_def view.truncate_def ckpt_log_def)
  then show ?thesis
    unfolding settle_released_def Let_def
    by (intro pools_only_trans [OF _ pools_only_foldl] pools_only_trans [OF _ pools_only_foldl [OF settle_batch_pools]]
        return_batch_pools) simp_all
qed

text \<open>Handing a built checkpoint out to sign moves it within the log.\<close>

definition sealed :: "core \<Rightarrow> bool" where
  "sealed c \<longleftrightarrow> list_all (\<lambda>pc. pc_ordering_root pc \<noteq> None) (co_decided c)"

definition log_only :: "core \<Rightarrow> core \<Rightarrow> bool" where
  "log_only c c' \<longleftrightarrow> ordered_of c' = ordered_of c \<and> view.truncate c' = view.truncate c
     \<and> co_waiting c' = co_waiting c \<and> ckpt_log c' = ckpt_log c \<and> (sealed c \<longrightarrow> sealed c')"

lemma build_checkpoints_log: "log_only c (build_checkpoints pm c)"
proof (induction pm c rule: build_checkpoints.induct)
  case (1 pm c)
  show ?case
  proof (cases "co_decided c")
    case Nil
    then show ?thesis by (simp add: build_checkpoints.simps [of pm c] log_only_def)
  next
    case (Cons pc rest)
    show ?thesis
    proof (cases "pending_ready c pc")
      case False
      then show ?thesis using Cons by (simp add: build_checkpoints.simps [of pm c] log_only_def)
    next
      case True
      let ?cp = "checkpoint_of pm c pc"
      let ?c = "c\<lparr>co_decided := rest, co_prev_checkpoint := checkpoint_digest (pm_codecs pm) ?cp,
        co_executed := co_executed c |` {state_root_height (pc_last_height pc)..}, co_events := co_events c @ [EvSign ?cp]\<rparr>"
      have "sign_entry (EvSign ?cp) = Some (pending_entry pc)"
        using True by (auto simp: sign_entry_def pending_entry_def checkpoint_of_def Let_def pending_ready_def)
      then have "log_only c ?c"
        using Cons by (simp add: log_only_def ordered_of_def view.truncate_def ckpt_log_def map_filter_snoc sealed_def)
      moreover have "build_checkpoints pm c = build_checkpoints pm ?c"
        using Cons True by (simp add: build_checkpoints.simps [of pm c] Let_def)
      moreover have "log_only ?c (build_checkpoints pm ?c)" using 1 [OF Cons _ refl] True by simp
      ultimately show ?thesis by (simp add: log_only_def)
    qed
  qed
qed

text \<open>Sealing gives the checkpoint decided last its ordering root.\<close>

definition seal_entry :: "core_params \<Rightarrow> core \<Rightarrow> pending_checkpoint \<Rightarrow> checkpoint_entry" where
  "seal_entry pm c pc = pending_entry (pc\<lparr>pc_ordering_root := Some (ordering_digest pm (ordering_state_of c (pc_index pc)))\<rparr>)"

lemma seal_decided_sealed: "sealed c \<Longrightarrow> log_only c (seal_decided pm c)"
  using build_checkpoints_log [of c pm] last_in_set [of "co_decided c"]
  by (cases "co_decided c = []") (auto simp: seal_decided_def sealed_def list_all_iff dest!: bspec [of _ _ "last (co_decided c)"])

lemma seal_decided_open:
  assumes "co_decided c = ds @ [pc]" "list_all (\<lambda>pc. pc_ordering_root pc \<noteq> None) ds" "pc_ordering_root pc = None"
  shows "ordered_of (seal_decided pm c) = ordered_of c" "view.truncate (seal_decided pm c) = view.truncate c"
    "co_waiting (seal_decided pm c) = co_waiting c" "sealed (seal_decided pm c)"
    "ckpt_log (seal_decided pm c) = List.map_filter sign_entry (co_events c) @ map pending_entry ds @ [seal_entry pm c pc]"
proof -
  let ?st = "ordering_state_of c (pc_index pc)"
  let ?c = "c\<lparr>co_decided := ds @ [pc\<lparr>pc_ordering_root := Some (ordering_digest pm ?st)\<rparr>],
    co_ordering_states := bt_keep_last ORDERING_STATES_KEPT (bt_put (pc_index pc) ?st (co_ordering_states c))\<rparr>"
  have "seal_decided pm c = build_checkpoints pm ?c" using assms(1,3) by (simp add: seal_decided_def Let_def)
  moreover have "ordered_of ?c = ordered_of c" "view.truncate ?c = view.truncate c" "co_waiting ?c = co_waiting c" "sealed ?c"
    "ckpt_log ?c = List.map_filter sign_entry (co_events c) @ map pending_entry ds @ [seal_entry pm c pc]"
    using assms(2) by (simp_all add: ordered_of_def view.truncate_def sealed_def ckpt_log_def seal_entry_def)
  moreover note build_checkpoints_log [of ?c pm]
  ultimately show "ordered_of (seal_decided pm c) = ordered_of c" "view.truncate (seal_decided pm c) = view.truncate c"
    "co_waiting (seal_decided pm c) = co_waiting c" "sealed (seal_decided pm c)"
    "ckpt_log (seal_decided pm c) = List.map_filter sign_entry (co_events c) @ map pending_entry ds @ [seal_entry pm c pc]"
    by (simp_all add: log_only_def)
qed

text \<open>The blocks of a commit, none when it orders no transaction.\<close>

definition commit_blocks :: "ordered_batch list \<Rightarrow> ordered_batch list list" where
  "commit_blocks released =
     (if list_ex (\<lambda>b. 0 < b_transactions (ob_batch b)) released then block_chunks released MAX_TRANSACTIONS_PER_BLOCK else [])"

definition block_segments :: "vertex_ref \<Rightarrow> nat \<Rightarrow> nat \<Rightarrow> nat \<Rightarrow> ordered_batch list list \<Rightarrow> waiting list" where
  "block_segments anchor timestamp vertices height blocks =
     map (\<lambda>(h, bs). WaitSegment \<lparr>wg_height = h, wg_anchor = anchor, wg_timestamp_ms = timestamp, wg_batches = bs, wg_vertices = vertices\<rparr>)
       (enumerate height blocks)"

lemma push_blocks_eq:
  "push_blocks anchor timestamp vertices released c =
     c\<lparr>co_next_height := co_next_height c + length (commit_blocks released),
       co_waiting := co_waiting c @ block_segments anchor timestamp vertices (co_next_height c) (commit_blocks released)\<rparr>"
proof -
  have "foldl (push_block anchor timestamp vertices) c blocks =
     c\<lparr>co_next_height := co_next_height c + length blocks,
       co_waiting := co_waiting c @ block_segments anchor timestamp vertices (co_next_height c) blocks\<rparr>" for blocks and c :: core
    by (induction blocks arbitrary: c) (simp_all add: block_segments_def push_block_def)
  then show ?thesis by (simp add: push_blocks_def commit_blocks_def block_segments_def)
qed

text \<open>The availability after a commit, and what it releases.\<close>

definition avail_committed :: "vertex list \<Rightarrow> vertex \<Rightarrow> round \<Rightarrow> availability \<Rightarrow> ordered_batch list \<times> availability" where
  "avail_committed vs av floor a =
     (let a = on_carried av (foldl (\<lambda>a v. on_ordered v a) a vs) in release (expire_gaps (map fst (a_early a)) floor a))"

abbreviation history_of :: "core \<Rightarrow> vertex_ref \<Rightarrow> vertex_ref list" where
  "history_of c anchor \<equiv> causal_history (w_dag c) (r_digest anchor) (\<lambda>d. map_of (co_ordered c) d \<noteq> None)"

text \<open>The state before a commit looks at checkpoints, with the blocks it appended.\<close>

definition prepared :: "vertex_ref \<Rightarrow> waiting list \<Rightarrow> core \<Rightarrow> core \<Rightarrow> bool" where
  "prepared anchor ws c p \<longleftrightarrow>
     w_dag p = w_dag c \<and> w_first_proposals p = w_first_proposals c \<and> w_committee p = w_committee c
     \<and> co_cfg p = co_cfg c \<and> w_next_slot p = w_next_slot c \<and> co_next_checkpoint_index p = co_next_checkpoint_index c
     \<and> w_schedule p = record_outcome (r_source anchor) True (w_schedule c) \<and> co_waiting p = co_waiting c @ ws
     \<and> co_decided p = co_decided c \<and> ckpt_log p = ckpt_log c"

lemma commit_stages:
  assumes vs: "history_vertices (w_dag c) (history_of c anchor) = Some vs" and av: "dag_get (w_dag c) (r_digest anchor) = Some av"
  defines "R \<equiv> avail_committed vs av (g_floor (w_dag c)) (co_availability c)" and "t \<equiv> commit_time c av"
  obtains p where "commit pm anchor c = Some (seal_decided pm (collect_garbage (r_round anchor) (commit_checkpoint pm anchor t p)))"
    "ordered_of p = (ordered_of c)\<lparr>op_schedule := schedule_export (record_outcome (r_source anchor) True (w_schedule c)),
       op_last_committed := Some (r_round anchor),
       op_ordered := foldl (\<lambda>m r. al_put (r_digest r) (r_round r) m) (co_ordered c) (history_of c anchor),
       op_availability := snd R, op_last_timestamp_ms := t, op_next_height := co_next_height c + length (commit_blocks (fst R))\<rparr>"
    "prepared anchor (block_segments anchor t (length (history_of c anchor)) (co_next_height c) (commit_blocks (fst R))) c p"
proof -
  define c1 where "c1 = c\<lparr>w_schedule := record_outcome (r_source anchor) True (w_schedule c),
    co_leaders_committed := co_leaders_committed c + 1, co_last_committed := Some (r_round anchor),
    co_ordered := foldl (\<lambda>m r. al_put (r_digest r) (r_round r) m) (co_ordered c) (history_of c anchor), co_availability := snd R\<rparr>"
  have oh: "order_history c anchor = Some (history_of c anchor, fst R, c1)"
    using vs av by (simp add: order_history_def R_def avail_committed_def Let_def c1_def case_prod_unfold)
  define c2 where "c2 = settle_released anchor (fst R) c1"
  have pools: "pools_only c1 c2" unfolding c2_def by (rule settle_released_pools)
  note keep = pools_only_view [OF pools] and o = ordered_of_eqD [of c2 c1]
  have ord: "ordered_of c2 = ordered_of c1" using pools by (simp add: pools_only_def)
  have t: "commit_time c2 av = t" using keep(1) o(9) [OF ord] by (simp add: commit_time_def t_def c1_def Let_def)
  define p where "p = push_blocks anchor t (length (history_of c anchor)) (fst R) (c2\<lparr>co_last_timestamp_ms := t\<rparr>)"
  note p = p_def [unfolded push_blocks_eq]
  have av2: "dag_get (w_dag c2) (r_digest anchor) = Some av" using keep(1) av by (simp add: c1_def)
  show thesis
  proof (rule that [of p])
    show "commit pm anchor c = Some (seal_decided pm (collect_garbage (r_round anchor) (commit_checkpoint pm anchor t p)))"
      unfolding commit_def oh by (simp add: Let_def c2_def [symmetric] av2 t p_def)
    show "ordered_of p = (ordered_of c)\<lparr>op_schedule := schedule_export (record_outcome (r_source anchor) True (w_schedule c)),
       op_last_committed := Some (r_round anchor),
       op_ordered := foldl (\<lambda>m r. al_put (r_digest r) (r_round r) m) (co_ordered c) (history_of c anchor),
       op_availability := snd R, op_last_timestamp_ms := t, op_next_height := co_next_height c + length (commit_blocks (fst R))\<rparr>"
      using o [OF ord] by (simp add: p ordered_of_def c1_def)
    have "ckpt_log p = ckpt_log c2" "ckpt_log c1 = ckpt_log c" by (simp_all add: p c1_def ckpt_log_def)
    then have "ckpt_log p = ckpt_log c" using pools by (simp add: pools_only_def)
    then show "prepared anchor (block_segments anchor t (length (history_of c anchor)) (co_next_height c) (commit_blocks (fst R))) c p"
      using keep pools o(1,2,4,8,15) [OF ord] by (simp add: prepared_def p pools_only_def c1_def)
  qed
qed

text \<open>A checkpoint is decided or not, the same way in two cores that order alike.\<close>

definition decides :: "core_params \<Rightarrow> vertex_ref \<Rightarrow> pending_checkpoint \<Rightarrow> waiting list \<Rightarrow> digest \<Rightarrow> core \<Rightarrow> core \<Rightarrow> bool" where
  "decides pm anchor pc ws cp c c' \<longleftrightarrow>
     co_decided c' = co_decided c @ [pc] \<and> pc_ordering_root pc = None \<and> co_waiting c' = co_waiting c @ ws
     \<and> w_schedule c' = advance (pm_seed pm) (w_committee c) (r_round anchor) cp (w_schedule c)
     \<and> co_next_checkpoint_index c' = co_next_checkpoint_index c + 1
     \<and> w_dag c' = w_dag c \<and> w_first_proposals c' = w_first_proposals c \<and> co_events c' = co_events c
     \<and> w_committee c' = w_committee c \<and> co_cfg c' = co_cfg c \<and> w_next_slot c' = w_next_slot c"

definition seed_used :: "core_params \<Rightarrow> vertex_ref \<Rightarrow> core \<Rightarrow> digest" where
  "seed_used pm anchor c =
     (let seeds = co_seed_chain c @ [seed_digest pm (last (co_seed_chain c)) (co_next_checkpoint_index c) (co_next_height c - 1) (r_digest anchor)]
      in seeds ! (length seeds - 3))"

lemma checkpoint_alike:
  assumes o: "ordered_of c1 = ordered_of c2"
    and adv: "\<And>cp. schedule_export (advance (pm_seed pm) (w_committee c1) (r_round anchor) cp (w_schedule c1))
      = schedule_export (advance (pm_seed pm) (w_committee c1) (r_round anchor) cp (w_schedule c2))"
  obtains (none) "commit_checkpoint pm anchor t c1 = c1" "commit_checkpoint pm anchor t c2 = c2"
  | (decided) pc ws cp where "decides pm anchor pc ws cp c1 (commit_checkpoint pm anchor t c1)"
      "decides pm anchor pc ws cp c2 (commit_checkpoint pm anchor t c2)"
      "ordered_of (commit_checkpoint pm anchor t c1) = ordered_of (commit_checkpoint pm anchor t c2)"
proof -
  note eq = ordered_of_eqD [OF o]
  let ?last = "co_next_height c2 - 1" and ?cp = "seed_used pm anchor c2"
  let ?pc = "\<lambda>ends. \<lparr>pc_index = co_next_checkpoint_index c2, pc_first_height = co_last_checkpoint_height c2 + 1, pc_last_height = ?last,
      pc_anchor_round = r_round anchor, pc_timestamp_ms = t, pc_ends_epoch = ends, pc_ordering_root = None\<rparr>"
  let ?closes = "\<not> co_epoch_closed c2 \<and> co_epoch_ends_ms c2 \<le> t"
  let ?due = "sat_add 64 (co_last_checkpoint_ts c2) (cfg_checkpoint_interval_ms (co_cfg c2)) \<le> t
     \<and> (co_epoch_closed c2 \<or> co_last_checkpoint_height c2 < ?last \<or> co_last_state_height c2 < co_last_checkpoint_height c2)"
  note defs = decides_def commit_checkpoint_def decide_checkpoint_def Let_def seed_used_def
  consider ?closes | "\<not> ?closes" ?due | "\<not> ?closes" "\<not> ?due" by blast
  then show thesis
  proof cases
    case 1
    then show thesis
      using adv [of ?cp]
      by (intro decided [where pc = "?pc True" and ws = "[WaitEpochEnds ?last]" and cp = ?cp])
        (simp_all add: defs eq ordered_of_def)
  next
    case 2
    then show thesis
      using adv [of ?cp] by (intro decided [where pc = "?pc False" and ws = "[]" and cp = ?cp]) (simp_all add: defs eq ordered_of_def)
  next
    case 3
    then show thesis by (intro none) (auto simp: commit_checkpoint_def Let_def eq)
  qed
qed

text \<open>Garbage: the DAG and the first proposals below the new floor go, and the ordered digests with them.\<close>

definition gc_floor :: "core \<Rightarrow> round \<Rightarrow> round" where
  "gc_floor c r = (case checked_sub r (cfg_gc_depth (co_cfg c)) of None \<Rightarrow> g_floor (w_dag c) | Some f \<Rightarrow> max f (g_floor (w_dag c)))"

lemma prune_floor: "g_floor (snd (dag_prune_below r g)) = max r (g_floor g)"
  by (simp add: dag_prune_below_def Let_def)

lemma keep_history_view [simp]:
  "w_dag (keep_history f ps c) = w_dag c" "co_cfg (keep_history f ps c) = co_cfg c" "co_waiting (keep_history f ps c) = co_waiting c"
  "co_decided (keep_history f ps c) = co_decided c" "ordered_of (keep_history f ps c) = ordered_of c"
  "w_first_proposals (keep_history f ps c) = w_first_proposals c" "w_schedule (keep_history f ps c) = w_schedule c"
  "co_ordered (keep_history f ps c) = co_ordered c" "co_events (keep_history f ps c) = co_events c"
  by (simp_all add: keep_history_def Let_def ordered_of_def)

lemma collect_garbage_stage:
  assumes "gc_floor c r \<noteq> g_floor (w_dag c)"
  shows "w_dag (collect_garbage r c) = snd (dag_prune_below (gc_floor c r) (w_dag c))"
    and "w_first_proposals (collect_garbage r c) = filter (\<lambda>p. gc_floor c r \<le> fst p) (w_first_proposals c)"
    and "ordered_of (collect_garbage r c) =
      (ordered_of c)\<lparr>op_floor := gc_floor c r, op_ordered := filter (\<lambda>p. gc_floor c r \<le> snd p) (co_ordered c)\<rparr>"
    and "w_schedule (collect_garbage r c) = w_schedule c" "co_waiting (collect_garbage r c) = co_waiting c"
      "co_decided (collect_garbage r c) = co_decided c" "co_events (collect_garbage r c) = co_events c"
proof -
  obtain f where f: "checked_sub r (cfg_gc_depth (co_cfg c)) = Some f" "g_floor (w_dag c) < f" "gc_floor c r = f"
    using assms by (auto simp: gc_floor_def max_def split: option.splits if_splits)
  obtain ps g where g: "dag_prune_below f (w_dag c) = (ps, g)" by fastforce
  have floor: "g_floor g = f" using prune_floor [of f "w_dag c"] g f(2) by simp
  note cg = collect_garbage_def [of r c] f(1) g Let_def
  show dag: "w_dag (collect_garbage r c) = snd (dag_prune_below (gc_floor c r) (w_dag c))"
    using f(2,3) by (simp add: cg)
  show "w_first_proposals (collect_garbage r c) = filter (\<lambda>p. gc_floor c r \<le> fst p) (w_first_proposals c)"
    "w_schedule (collect_garbage r c) = w_schedule c" "co_waiting (collect_garbage r c) = co_waiting c"
    "co_decided (collect_garbage r c) = co_decided c" "co_events (collect_garbage r c) = co_events c"
    using f(2,3) by (simp_all add: cg)
  have "ordered_of (c\<lparr>w_dag := g\<rparr>) = (ordered_of c)\<lparr>op_floor := f\<rparr>" using floor by (simp add: ordered_of_def)
  then have kept: "ordered_of (keep_history f ps (c\<lparr>w_dag := g\<rparr>)) = (ordered_of c)\<lparr>op_floor := f\<rparr>" by simp
  show "ordered_of (collect_garbage r c) =
      (ordered_of c)\<lparr>op_floor := gc_floor c r, op_ordered := filter (\<lambda>p. gc_floor c r \<le> snd p) (co_ordered c)\<rparr>"
    using f(2,3) kept by (simp add: cg) (simp add: ordered_of_def keep_history_def Let_def)
qed

lemma collect_garbage_none: "gc_floor c r = g_floor (w_dag c) \<Longrightarrow> collect_garbage r c = c"
  by (auto simp: gc_floor_def collect_garbage_def split: option.splits)

lemma gc_floor_alike:
  assumes "ordered_of c1 = ordered_of c2"
  shows "gc_floor c1 r = gc_floor c2 r"
  unfolding gc_floor_def ordered_of_eqD(2,3) [OF assms] ..

lemma collect_garbage_alike:
  assumes "ordered_of c1 = ordered_of c2"
  shows "ordered_of (collect_garbage r c1) = ordered_of (collect_garbage r c2)"
proof (cases "gc_floor c1 r = g_floor (w_dag c1)")
  case True
  then have "gc_floor c2 r = g_floor (w_dag c2)" unfolding gc_floor_alike [OF assms] ordered_of_eqD(3) [OF assms] .
  then show ?thesis using True assms by (simp add: collect_garbage_none)
next
  case False
  then have "gc_floor c2 r \<noteq> g_floor (w_dag c2)" unfolding gc_floor_alike [OF assms] ordered_of_eqD(3) [OF assms] .
  then show ?thesis
    using collect_garbage_stage(3) [OF False] collect_garbage_stage(3) [of c2 r]
    by (simp add: gc_floor_alike [OF assms] ordered_of_eqD(7) [OF assms] assms)
qed

text \<open>What one commit does to the view, with the floor it leaves.\<close>

definition view_cut :: "round \<Rightarrow> core \<Rightarrow> core \<Rightarrow> bool" where
  "view_cut f c c' \<longleftrightarrow>
     (f = g_floor (w_dag c) \<and> w_dag c' = w_dag c \<and> w_first_proposals c' = w_first_proposals c
      \<or> g_floor (w_dag c) < f \<and> w_dag c' = snd (dag_prune_below f (w_dag c))
         \<and> w_first_proposals c' = filter (\<lambda>p. f \<le> fst p) (w_first_proposals c))
     \<and> w_committee c' = w_committee c \<and> co_cfg c' = co_cfg c \<and> w_next_slot c' = w_next_slot c"

definition log_grows :: "waiting list \<Rightarrow> checkpoint_entry list \<Rightarrow> core \<Rightarrow> core \<Rightarrow> bool" where
  "log_grows ws ls c c' \<longleftrightarrow> co_waiting c' = co_waiting c @ ws \<and> ckpt_log c' = ckpt_log c @ ls"

definition schedule_moves :: "core_params \<Rightarrow> vertex_ref \<Rightarrow> core \<Rightarrow> core \<Rightarrow> bool" where
  "schedule_moves pm anchor c c' \<longleftrightarrow>
     (let s = record_outcome (r_source anchor) True (w_schedule c) in
      co_next_checkpoint_index c' = co_next_checkpoint_index c \<and> w_schedule c' = s
      \<or> co_next_checkpoint_index c' = co_next_checkpoint_index c + 1
         \<and> (\<exists>cp. w_schedule c' = advance (pm_seed pm) (w_committee c) (r_round anchor) cp s))"

definition commits :: "core_params \<Rightarrow> vertex_ref \<Rightarrow> waiting list \<Rightarrow> checkpoint_entry list \<Rightarrow> core \<Rightarrow> core \<Rightarrow> bool" where
  "commits pm anchor ws ls c c' \<longleftrightarrow>
     commit pm anchor c = Some c' \<and> log_grows ws ls c c' \<and> view_cut (gc_floor c (r_round anchor)) c c'
     \<and> schedule_moves pm anchor c c' \<and> sealed c'"

text \<open>The last two stages: garbage and sealing.\<close>

lemma view_truncate_eq:
  assumes "view.truncate c' = view.truncate c"
  shows "w_dag c' = w_dag c" "w_first_proposals c' = w_first_proposals c" "w_schedule c' = w_schedule c"
    "w_committee c' = w_committee c" "w_next_slot c' = w_next_slot c"
  using assms by (simp_all add: view.truncate_def)

lemma garbage_stage:
  "view_cut (gc_floor c r) c (collect_garbage r c)" "w_schedule (collect_garbage r c) = w_schedule c"
  "co_waiting (collect_garbage r c) = co_waiting c" "co_decided (collect_garbage r c) = co_decided c"
  "co_events (collect_garbage r c) = co_events c"
  "co_next_checkpoint_index (collect_garbage r c) = co_next_checkpoint_index c"
proof -
  have "view_cut (gc_floor c r) c (collect_garbage r c) \<and> w_schedule (collect_garbage r c) = w_schedule c
    \<and> co_waiting (collect_garbage r c) = co_waiting c \<and> co_decided (collect_garbage r c) = co_decided c
    \<and> co_events (collect_garbage r c) = co_events c \<and> co_next_checkpoint_index (collect_garbage r c) = co_next_checkpoint_index c"
  proof (cases "gc_floor c r = g_floor (w_dag c)")
    case True
    then show ?thesis by (simp add: collect_garbage_none view_cut_def)
  next
    case False
    note g = collect_garbage_stage [OF False]
    have "g_floor (w_dag c) < gc_floor c r" using False by (auto simp: gc_floor_def max_def split: option.splits if_splits)
    moreover have "w_committee (collect_garbage r c) = w_committee c" "co_cfg (collect_garbage r c) = co_cfg c"
      "w_next_slot (collect_garbage r c) = w_next_slot c"
      "co_next_checkpoint_index (collect_garbage r c) = co_next_checkpoint_index c"
      using g(3) by (simp_all add: ordered_of_def)
    ultimately show ?thesis using g by (simp add: view_cut_def)
  qed
  then show "view_cut (gc_floor c r) c (collect_garbage r c)" "w_schedule (collect_garbage r c) = w_schedule c"
    "co_waiting (collect_garbage r c) = co_waiting c" "co_decided (collect_garbage r c) = co_decided c"
    "co_events (collect_garbage r c) = co_events c"
    "co_next_checkpoint_index (collect_garbage r c) = co_next_checkpoint_index c" by blast+
qed

lemma view_cut_cong:
  assumes "view_cut f c c'" "view.truncate c'' = view.truncate c'" "ordered_of c'' = ordered_of c'"
    and "w_dag p = w_dag c" "w_first_proposals p = w_first_proposals c" "w_committee p = w_committee c" "co_cfg p = co_cfg c"
      "w_next_slot p = w_next_slot c"
  shows "view_cut f p c''"
  using assms(1,4-) view_truncate_eq [OF assms(2)] ordered_of_eqD(2) [OF assms(3)] by (simp add: view_cut_def)

lemma last_stages_none:
  fixes r :: round and pm :: core_params
  assumes "sealed q"
  defines "c' \<equiv> seal_decided pm (collect_garbage r q)"
  shows "view_cut (gc_floor q r) q c'" "sealed c'" "log_grows [] [] q c'" "w_schedule c' = w_schedule q"
    "ordered_of c' = ordered_of (collect_garbage r q)" "co_next_checkpoint_index c' = co_next_checkpoint_index q"
proof -
  note g = garbage_stage [where c = q and r = r]
  have "sealed (collect_garbage r q)" using assms(1) g(4) by (simp add: sealed_def)
  then have s: "log_only (collect_garbage r q) c'" "sealed c'"
    using seal_decided_sealed [of "collect_garbage r q" pm] by (simp_all add: c'_def log_only_def)
  then show ord: "ordered_of c' = ordered_of (collect_garbage r q)" and "sealed c'" by (simp_all add: log_only_def)
  have tr: "view.truncate c' = view.truncate (collect_garbage r q)" using s(1) by (simp add: log_only_def)
  show "view_cut (gc_floor q r) q c'" by (rule view_cut_cong [OF g(1) tr ord]) simp_all
  have "ckpt_log (collect_garbage r q) = ckpt_log q" using g(4,5) by (simp add: ckpt_log_def)
  then show "log_grows [] [] q c'" using s(1) g(3) by (simp add: log_only_def log_grows_def)
  show "w_schedule c' = w_schedule q" using view_truncate_eq(3) [OF tr] g(2) by simp
  show "co_next_checkpoint_index c' = co_next_checkpoint_index q" using ordered_of_eqD(15) [OF ord] g(6) by simp
qed

lemma last_stages_decided:
  fixes r :: round
  assumes d: "decides pm anchor pc ws cp p q" and "sealed p"
  defines "c' \<equiv> seal_decided pm (collect_garbage r q)"
  shows "view_cut (gc_floor p r) p c'" "sealed c'" "log_grows ws [seal_entry pm (collect_garbage r q) pc] p c'"
    "w_schedule c' = advance (pm_seed pm) (w_committee p) (r_round anchor) cp (w_schedule p)"
    "ordered_of c' = ordered_of (collect_garbage r q)" "co_next_checkpoint_index c' = co_next_checkpoint_index p + 1"
proof -
  note g = garbage_stage [where c = q and r = r]
  have dq: "co_decided q = co_decided p @ [pc]" "pc_ordering_root pc = None" "co_waiting q = co_waiting p @ ws"
    "w_schedule q = advance (pm_seed pm) (w_committee p) (r_round anchor) cp (w_schedule p)"
    "co_next_checkpoint_index q = co_next_checkpoint_index p + 1" "w_dag p = w_dag q" "w_first_proposals p = w_first_proposals q"
    "co_events q = co_events p" "w_committee p = w_committee q" "co_cfg p = co_cfg q" "w_next_slot p = w_next_slot q"
    using d by (simp_all add: decides_def)
  have "co_decided (collect_garbage r q) = co_decided p @ [pc]" using g(4) dq(1) by simp
  note s = seal_decided_open [OF this _ dq(2), of pm, folded c'_def]
  have all: "list_all (\<lambda>pc. pc_ordering_root pc \<noteq> None) (co_decided p)" using assms(2) by (simp add: sealed_def)
  show ord: "ordered_of c' = ordered_of (collect_garbage r q)" and "sealed c'" using s(1,4) [OF all] .
  have "gc_floor q r = gc_floor p r" unfolding gc_floor_def dq(6,10) ..
  then show "view_cut (gc_floor p r) p c'"
    using view_cut_cong [OF g(1) s(2) [OF all] ord, of p] dq(6,7,9-11) by simp
  show "log_grows ws [seal_entry pm (collect_garbage r q) pc] p c'"
    using s(3,5) [OF all] g(3,5) dq(3,8) by (simp add: log_grows_def ckpt_log_def)
  show "w_schedule c' = advance (pm_seed pm) (w_committee p) (r_round anchor) cp (w_schedule p)"
    using view_truncate_eq(3) [OF s(2) [OF all]] g(2) dq(4) by simp
  show "co_next_checkpoint_index c' = co_next_checkpoint_index p + 1" using ordered_of_eqD(15) [OF ord] g(6) dq(5) by simp
qed

text \<open>A commit in one core, without and with a checkpoint.\<close>

lemma prepared_cut:
  assumes "prepared anchor ws c p"
  shows "view_cut f p c' \<Longrightarrow> view_cut f c c'" "gc_floor p r = gc_floor c r"
    "log_grows ws' ls p c' \<Longrightarrow> log_grows (ws @ ws') ls c c'" "sealed c \<Longrightarrow> sealed p"
proof -
  have p: "w_dag p = w_dag c" "w_first_proposals p = w_first_proposals c" "w_committee p = w_committee c" "co_cfg p = co_cfg c"
    "w_next_slot p = w_next_slot c" "co_waiting p = co_waiting c @ ws" "co_decided p = co_decided c" "ckpt_log p = ckpt_log c"
    using assms by (simp_all add: prepared_def)
  show "view_cut f p c' \<Longrightarrow> view_cut f c c'" "log_grows ws' ls p c' \<Longrightarrow> log_grows (ws @ ws') ls c c'" "sealed c \<Longrightarrow> sealed p"
    by (simp_all add: view_cut_def log_grows_def sealed_def p)
  show "gc_floor p r = gc_floor c r" unfolding gc_floor_def p(1,4) ..
qed

lemma commits_none:
  assumes prep: "prepared anchor ws c p" and "sealed c"
    and run: "commit pm anchor c = Some (seal_decided pm (collect_garbage (r_round anchor) p))"
  shows "commits pm anchor ws [] c (seal_decided pm (collect_garbage (r_round anchor) p))"
proof -
  note cut = prepared_cut [OF prep]
  note l = last_stages_none [OF cut(4) [OF assms(2)], where pm = pm and r = "r_round anchor"]
  have "schedule_moves pm anchor c (seal_decided pm (collect_garbage (r_round anchor) p))"
    using l(4,6) prep by (simp add: schedule_moves_def prepared_def Let_def)
  then show ?thesis using run l(1,2) cut(1) [OF l(1)] cut(3) [OF l(3)] by (simp add: commits_def cut(2))
qed

lemma commits_decided:
  assumes prep: "prepared anchor ws c p" and "sealed c" and d: "decides pm anchor pc ws' cp p q"
    and run: "commit pm anchor c = Some (seal_decided pm (collect_garbage (r_round anchor) q))"
  shows "commits pm anchor (ws @ ws') [seal_entry pm (collect_garbage (r_round anchor) q) pc] c
    (seal_decided pm (collect_garbage (r_round anchor) q))"
proof -
  note cut = prepared_cut [OF prep]
  note l = last_stages_decided [OF d cut(4) [OF assms(2)], where r = "r_round anchor"]
  have "schedule_moves pm anchor c (seal_decided pm (collect_garbage (r_round anchor) q))"
    using l(4,6) prep by (auto simp: schedule_moves_def prepared_def Let_def)
  then show ?thesis using run l(1,2) cut(1) [OF l(1)] cut(3) [OF l(3)] by (simp add: commits_def cut(2))
qed

text \<open>
  One anchor committed by two cores that order alike: both return, and append the same blocks and the
  same sealed checkpoint.
\<close>

lemma commit_alike:
  assumes o: "ordered_of c1 = ordered_of c2" and sealed: "sealed c1" "sealed c2"
    and vs: "history_vertices (w_dag c1) (history_of c1 anchor) = Some vs" "history_of c1 anchor = history_of c2 anchor"
      "history_vertices (w_dag c2) (history_of c2 anchor) = Some vs"
    and av: "dag_get (w_dag c1) (r_digest anchor) = Some av" "dag_get (w_dag c2) (r_digest anchor) = Some av"
    and time: "commit_time c1 av = commit_time c2 av"
    and adv: "\<And>cp. schedule_export (advance (pm_seed pm) (w_committee c1) (r_round anchor) cp (record_outcome (r_source anchor) True (w_schedule c1)))
      = schedule_export (advance (pm_seed pm) (w_committee c1) (r_round anchor) cp (record_outcome (r_source anchor) True (w_schedule c2)))"
    and out: "schedule_export (record_outcome (r_source anchor) True (w_schedule c1))
      = schedule_export (record_outcome (r_source anchor) True (w_schedule c2))"
  obtains c1' c2' ws ls where "commits pm anchor ws ls c1 c1'" "commits pm anchor ws ls c2 c2'" "ordered_of c1' = ordered_of c2'"
proof -
  let ?t = "commit_time c1 av" and ?R = "avail_committed vs av (g_floor (w_dag c1)) (co_availability c1)" and ?r = "r_round anchor"
  let ?ws = "block_segments anchor ?t (length (history_of c1 anchor)) (co_next_height c1) (commit_blocks (fst ?R))"
  let ?ord = "\<lambda>c. (ordered_of c1)\<lparr>op_schedule := schedule_export (record_outcome (r_source anchor) True (w_schedule c)),
       op_last_committed := Some ?r,
       op_ordered := foldl (\<lambda>m r. al_put (r_digest r) (r_round r) m) (co_ordered c1) (history_of c1 anchor),
       op_availability := snd ?R, op_last_timestamp_ms := ?t, op_next_height := co_next_height c1 + length (commit_blocks (fst ?R))\<rparr>"
  let ?q = "commit_checkpoint pm anchor ?t"
  note eq = ordered_of_eqD [OF o]
  obtain p1 where p1: "commit pm anchor c1 = Some (seal_decided pm (collect_garbage ?r (?q p1)))" "ordered_of p1 = ?ord c1"
    "prepared anchor ?ws c1 p1" by (rule commit_stages [OF vs(1) av(1)])
  obtain p2 where p2: "commit pm anchor c2 = Some (seal_decided pm (collect_garbage ?r (?q p2)))" "ordered_of p2 = ?ord c2"
    "prepared anchor ?ws c2 p2"
    by (rule commit_stages [OF vs(3) av(2), of pm, folded time o vs(2), folded eq(3,5,7,8)])
  have op: "ordered_of p1 = ordered_of p2" using p1(2) p2(2) out by simp
  have adv': "schedule_export (advance (pm_seed pm) (w_committee p1) ?r cp (w_schedule p1))
      = schedule_export (advance (pm_seed pm) (w_committee p1) ?r cp (w_schedule p2))" for cp
    using adv [of cp] p1(3) p2(3) by (simp add: prepared_def)
  from op adv' show thesis
  proof (cases rule: checkpoint_alike [where pm = pm and anchor = anchor and t = ?t])
    case none
    show thesis
      using that [OF commits_none [OF p1(3) sealed(1)] commits_none [OF p2(3) sealed(2)]] p1(1) p2(1) none
        last_stages_none(5) [OF prepared_cut(4) [OF p1(3) sealed(1)]] last_stages_none(5) [OF prepared_cut(4) [OF p2(3) sealed(2)]]
        collect_garbage_alike [OF op] by simp
  next
    case (decided pc ws cp)
    let ?g1 = "collect_garbage ?r (?q p1)" and ?g2 = "collect_garbage ?r (?q p2)"
    have g: "ordered_of ?g1 = ordered_of ?g2" by (rule collect_garbage_alike [OF decided(3)])
    have "ordering_state_of ?g1 i = ordering_state_of ?g2 i" for i
      by (simp add: ordering_state_of_def ordered_of_eqD [OF g])
    then have entry: "seal_entry pm ?g1 pc = seal_entry pm ?g2 pc" by (simp add: seal_entry_def)
    show thesis
      using that [OF commits_decided [OF p1(3) sealed(1) decided(1) p1(1)]
          commits_decided [OF p2(3) sealed(2) decided(2) p2(1), folded entry]]
        last_stages_decided(5) [OF decided(1) prepared_cut(4) [OF p1(3) sealed(1)], of ?r]
        last_stages_decided(5) [OF decided(2) prepared_cut(4) [OF p2(3) sealed(2)], of ?r] g by simp
  qed
qed

end
