(* ===== verification/Lockstep.thy ===== *)
theory Lockstep
  imports Main "HOL-Library.Sublist"
begin

text \<open>
  Replicas that act on decisions in order. Each replica decides a list of entries, acts on them up to
  the first one that stops it, and decides again when an entry asks for it. The interface of the two
  locales is what the loop relies on: one entry takes two replicas that are alike to two that are
  alike and appends the same to both logs. The client's results are that the loop returns and that of
  the logs of two replicas one is a prefix of the other.
\<close>

section \<open>One pass\<close>

locale lockstep =
  fixes act :: "'e \<Rightarrow> 'c \<Rightarrow> (bool \<times> 'c) option"
    and stops :: "'e \<Rightarrow> bool"
    and run :: "'e list \<Rightarrow> 'c \<Rightarrow> (bool \<times> 'c) option"
    and key :: "'e \<Rightarrow> 'k"
    and ok :: "'c \<Rightarrow> bool"
    and ready :: "'e list \<Rightarrow> 'c \<Rightarrow> bool"
    and alike :: "'c \<Rightarrow> 'c \<Rightarrow> bool"
    and grows :: "'l list \<Rightarrow> 'c \<Rightarrow> 'c \<Rightarrow> bool"
    and kept :: "'c \<Rightarrow> 'c \<Rightarrow> bool"
    and past :: "'e \<Rightarrow> 'c \<Rightarrow> bool"
  assumes run_Nil: "run [] c = Some (False, c)"
    and run_Cons: "run (e # es) c = (if stops e then Some (False, c)
      else case act e c of None \<Rightarrow> None | Some (again, c') \<Rightarrow> if again then Some (True, c') else run es c')"
    and act_ok: "ok c \<Longrightarrow> ready (e # es) c \<Longrightarrow> \<not> stops e \<Longrightarrow>
      \<exists>again c' l. act e c = Some (again, c') \<and> ok c' \<and> grows [l] c c' \<and> kept c c' \<and> past e c' \<and> (again \<or> ready es c')"
    and act_alike: "alike c1 c2 \<Longrightarrow> ready (e # es1) c1 \<Longrightarrow> ready (e # es2) c2 \<Longrightarrow> \<not> stops e \<Longrightarrow>
      \<exists>again c1' c2' l. act e c1 = Some (again, c1') \<and> act e c2 = Some (again, c2') \<and> alike c1' c2'
        \<and> grows [l] c1 c1' \<and> grows [l] c2 c2' \<and> (again \<or> ready es1 c1' \<and> ready es2 c2')"
    and alike_ok: "alike c1 c2 \<Longrightarrow> ok c1"
    and alike_sym: "alike c1 c2 \<Longrightarrow> alike c2 c1"
    and grows_refl: "grows [] c c"
    and grows_trans: "grows xs c c' \<Longrightarrow> grows ys c' c'' \<Longrightarrow> grows (xs @ ys) c c''"
    and kept_refl: "kept c c"
    and kept_trans: "kept c c' \<Longrightarrow> kept c' c'' \<Longrightarrow> kept c c''"
begin

lemma run_single:
  assumes "ok c" "ready es c"
  shows "\<exists>again c' xs. run es c = Some (again, c') \<and> ok c' \<and> grows xs c c' \<and> kept c c' \<and> (again \<longrightarrow> (\<exists>e \<in> set es. past e c'))"
  using assms
proof (induction es arbitrary: c)
  case Nil
  then show ?case using run_Nil grows_refl kept_refl by blast
next
  case (Cons e es)
  show ?case
  proof (cases "stops e")
    case True
    then show ?thesis using Cons.prems(1) run_Cons grows_refl kept_refl by fastforce
  next
    case False
    then obtain again c' l where step: "act e c = Some (again, c')" "ok c'" "grows [l] c c'" "kept c c'" "past e c'" "again \<or> ready es c'"
      using act_ok Cons.prems by blast
    show ?thesis
    proof (cases again)
      case True
      then have "run (e # es) c = Some (True, c')" using run_Cons step(1) False by simp
      then show ?thesis using step True by (metis list.set_intros(1))
    next
      case again: False
      then have "run (e # es) c = run es c'" using run_Cons step(1) False by simp
      moreover obtain b c'' xs where "run es c' = Some (b, c'')" "ok c''" "grows xs c' c''" "kept c' c''"
        "b \<longrightarrow> (\<exists>e \<in> set es. past e c'')" using Cons.IH [OF step(2)] step(6) again by blast
      moreover have "grows ([l] @ xs) c c''" "kept c c''" using grows_trans [OF step(3)] kept_trans [OF step(4)] calculation by blast+
      ultimately show ?thesis by (metis list.set_intros(2))
    qed
  qed
qed

text \<open>
  How two passes end: both ask to decide again and are alike, or one stops with what it appended a
  prefix of what the other appended.
\<close>

definition outcome :: "'c \<Rightarrow> 'c \<Rightarrow> bool \<times> 'c \<Rightarrow> bool \<times> 'c \<Rightarrow> bool" where
  "outcome c1 c2 r1 r2 \<longleftrightarrow> (\<exists>xs ys. grows xs c1 (snd r1) \<and> grows ys c2 (snd r2)
     \<and> (fst r1 \<and> fst r2 \<and> alike (snd r1) (snd r2) \<and> xs = ys \<or> \<not> fst r1 \<and> prefix xs ys \<or> \<not> fst r2 \<and> prefix ys xs))"

lemma outcome_sym: "outcome c1 c2 r1 r2 \<Longrightarrow> outcome c2 c1 r2 r1"
  unfolding outcome_def using alike_sym by blast

lemma outcome_stop:
  assumes "ok c2" "ready es c2"
  shows "\<exists>r2. run es c2 = Some r2 \<and> outcome c1 c2 (False, c1) r2"
proof -
  obtain again c' xs where run: "run es c2 = Some (again, c')" "grows xs c2 c'" using run_single [OF assms] by blast
  have "outcome c1 c2 (False, c1) (again, c')"
    unfolding outcome_def using run(2) grows_refl by (intro exI [of _ "[]"] exI [of _ xs]) simp
  then show ?thesis using run(1) by blast
qed

lemma outcome_step:
  assumes "grows zs c1 c1'" "grows zs c2 c2'" "outcome c1' c2' r1 r2"
  shows "outcome c1 c2 r1 r2"
proof -
  obtain xs ys where o: "grows xs c1' (snd r1)" "grows ys c2' (snd r2)"
    "fst r1 \<and> fst r2 \<and> alike (snd r1) (snd r2) \<and> xs = ys \<or> \<not> fst r1 \<and> prefix xs ys \<or> \<not> fst r2 \<and> prefix ys xs"
    using assms(3) unfolding outcome_def by blast
  show ?thesis
    unfolding outcome_def using grows_trans [OF assms(1) o(1)] grows_trans [OF assms(2) o(2)] o(3)
    by (intro exI [of _ "zs @ xs"] exI [of _ "zs @ ys"]) simp
qed

lemma run_pair:
  assumes "alike c1 c2" "ready es1 c1" "ready es2 c2"
    and "prefix (map key es1) (map key es2) \<or> prefix (map key es2) (map key es1)"
    and "\<And>e e'. e \<in> set es1 \<Longrightarrow> e' \<in> set es2 \<Longrightarrow> key e = key e' \<Longrightarrow> \<not> stops e \<Longrightarrow> \<not> stops e' \<Longrightarrow> e = e'"
  shows "\<exists>r1 r2. run es1 c1 = Some r1 \<and> run es2 c2 = Some r2 \<and> outcome c1 c2 r1 r2"
  using assms
proof (induction es1 arbitrary: c1 c2 es2)
  case Nil
  then show ?case using outcome_stop [OF alike_ok [OF alike_sym [OF Nil(1)]] Nil(3)] run_Nil by auto
next
  case (Cons e es1)
  have ok: "ok c1" "ok c2" using alike_ok alike_sym Cons.prems(1) by blast+
  consider (stop1) "stops e" | (stop2) "es2 = [] \<or> (\<exists>e' rest. es2 = e' # rest \<and> stops e')"
    | (both) e' rest where "\<not> stops e" "es2 = e' # rest" "\<not> stops e'" by (cases es2) auto
  then show ?case
  proof cases
    case stop1
    then have "run (e # es1) c1 = Some (False, c1)" using run_Cons by simp
    then show ?thesis using outcome_stop [OF ok(2) Cons.prems(3)] by blast
  next
    case stop2
    then have "run es2 c2 = Some (False, c2)" using run_Nil run_Cons by auto
    then show ?thesis using outcome_stop [OF ok(1) Cons.prems(2)] outcome_sym by blast
  next
    case both
    have "key e = key e'" and tails: "prefix (map key es1) (map key rest) \<or> prefix (map key rest) (map key es1)"
      using Cons.prems(4) both(2) by auto
    then have e': "e' = e" using Cons.prems(5) [of e e'] both by simp
    obtain again c1' c2' l where step: "act e c1 = Some (again, c1')" "act e c2 = Some (again, c2')" "alike c1' c2'"
      "grows [l] c1 c1'" "grows [l] c2 c2'" "again \<or> ready es1 c1' \<and> ready rest c2'"
      using act_alike [OF Cons.prems(1,2) Cons.prems(3) [unfolded both(2) e'] both(1)] by blast
    show ?thesis
    proof (cases again)
      case True
      then have "run (e # es1) c1 = Some (True, c1')" "run es2 c2 = Some (True, c2')"
        using run_Cons step(1,2) both e' by simp_all
      moreover have "outcome c1 c2 (True, c1') (True, c2')" unfolding outcome_def using step(3-5) by auto
      ultimately show ?thesis by blast
    next
      case False
      have same: "a = b" if "a \<in> set es1" "b \<in> set rest" "key a = key b" "\<not> stops a" "\<not> stops b" for a b
        using Cons.prems(5) [of a b] that both(2) by simp
      obtain r1 r2 where "run es1 c1' = Some r1" "run rest c2' = Some r2" "outcome c1' c2' r1 r2"
        using Cons.IH [OF step(3) _ _ tails] step(6) False same by blast
      moreover have "run (e # es1) c1 = run es1 c1'" "run es2 c2 = run rest c2'"
        using run_Cons step(1,2) both e' False by simp_all
      ultimately show ?thesis using outcome_step [OF step(4,5)] by auto
    qed
  qed
qed

end

section \<open>The loop\<close>

locale lockstep_loop = lockstep act stops run key ok ready alike grows kept past
  for act :: "'e \<Rightarrow> 'c \<Rightarrow> (bool \<times> 'c) option"
    and stops :: "'e \<Rightarrow> bool"
    and run :: "'e list \<Rightarrow> 'c \<Rightarrow> (bool \<times> 'c) option"
    and key :: "'e \<Rightarrow> 'k"
    and ok :: "'c \<Rightarrow> bool"
    and ready :: "'e list \<Rightarrow> 'c \<Rightarrow> bool"
    and alike :: "'c \<Rightarrow> 'c \<Rightarrow> bool"
    and grows :: "'l list \<Rightarrow> 'c \<Rightarrow> 'c \<Rightarrow> bool"
    and kept :: "'c \<Rightarrow> 'c \<Rightarrow> bool"
    and past :: "'e \<Rightarrow> 'c \<Rightarrow> bool" +
  fixes loop :: "nat \<Rightarrow> 'c \<Rightarrow> 'c option"
    and halted :: "'c \<Rightarrow> bool"
    and decide :: "'c \<Rightarrow> 'e list"
    and prepare :: "'c \<Rightarrow> 'c"
    and left :: "'c \<Rightarrow> nat"
  assumes loop_0: "loop 0 c = None"
    and loop_Suc: "loop (Suc n) c = (if halted c then Some c else case run (decide c) (prepare c) of
      None \<Rightarrow> None | Some (again, c') \<Rightarrow> if again then loop n c' else Some c')"
    and prepare_ok: "ok c \<Longrightarrow> ok (prepare c) \<and> ready (decide c) (prepare c) \<and> grows [] c (prepare c) \<and> kept c (prepare c)"
    and prepare_alike: "alike c1 c2 \<Longrightarrow> alike (prepare c1) (prepare c2)"
    and decide_keys: "alike c1 c2 \<Longrightarrow>
      prefix (map key (decide c1)) (map key (decide c2)) \<or> prefix (map key (decide c2)) (map key (decide c1))"
    and decide_same: "alike c1 c2 \<Longrightarrow> e \<in> set (decide c1) \<Longrightarrow> e' \<in> set (decide c2) \<Longrightarrow> key e = key e' \<Longrightarrow>
      \<not> stops e \<Longrightarrow> \<not> stops e' \<Longrightarrow> e = e'"
    and halted_alike: "alike c1 c2 \<Longrightarrow> halted c1 = halted c2"
    and left_less: "kept c c' \<Longrightarrow> e \<in> set (decide c) \<Longrightarrow> past e c' \<Longrightarrow> left c' < left c"
begin

lemma pass_step:
  assumes "ok c"
  shows "\<exists>again c' xs. run (decide c) (prepare c) = Some (again, c') \<and> ok c' \<and> grows xs c c' \<and> (again \<longrightarrow> left c' < left c)"
proof -
  note p = prepare_ok [OF assms]
  obtain again c' xs where r: "run (decide c) (prepare c) = Some (again, c')" "ok c'" "grows xs (prepare c) c'"
    "kept (prepare c) c'" "again \<longrightarrow> (\<exists>e \<in> set (decide c). past e c')" using run_single p by blast
  have "grows ([] @ xs) c c'" "kept c c'" using grows_trans kept_trans p r(3,4) by blast+
  then show ?thesis using r left_less by auto
qed

lemma loop_returns: "ok c \<Longrightarrow> left c < n \<Longrightarrow> \<exists>c' xs. loop n c = Some c' \<and> ok c' \<and> grows xs c c'"
proof (induction n arbitrary: c)
  case (Suc n)
  obtain again c' xs where r: "run (decide c) (prepare c) = Some (again, c')" "ok c'" "grows xs c c'" "again \<longrightarrow> left c' < left c"
    using pass_step [OF Suc.prems(1)] by blast
  consider (halt) "halted c" | (stop) "\<not> halted c" "\<not> again" | (more) "\<not> halted c" again by blast
  then show ?case
  proof cases
    case halt
    then show ?thesis using Suc.prems(1) loop_Suc grows_refl by auto
  next
    case stop
    then show ?thesis using r loop_Suc by auto
  next
    case more
    then obtain c'' ys where "loop n c' = Some c''" "ok c''" "grows ys c' c''"
      using Suc.IH [OF r(2)] r(4) Suc.prems(2) by fastforce
    moreover have "loop (Suc n) c = loop n c'" using more r(1) loop_Suc by simp
    ultimately show ?thesis using grows_trans [OF r(3)] by auto
  qed
qed simp

lemma loop_more: "loop n c = Some c' \<Longrightarrow> n \<le> m \<Longrightarrow> loop m c = Some c'"
proof (induction n arbitrary: c m)
  case 0
  then show ?case using loop_0 by simp
next
  case (Suc n)
  then obtain m' where m: "m = Suc m'" by (cases m) auto
  show ?case
    using Suc.prems Suc.IH [of _ m'] unfolding m loop_Suc by (auto split: option.splits if_splits prod.splits)
qed

text \<open>What the loop does after its first pass.\<close>

lemma loop_after:
  assumes "ok c" "\<not> halted c" "left c < Suc n" "run (decide c) (prepare c) = Some r"
  shows "\<exists>c' xs. loop (Suc n) c = Some c' \<and> grows xs (snd r) c' \<and> (\<not> fst r \<longrightarrow> xs = [])"
proof (cases "fst r")
  case False
  then have "loop (Suc n) c = Some (snd r)" using assms(2,4) loop_Suc by (simp add: case_prod_unfold)
  then show ?thesis using grows_refl by blast
next
  case True
  obtain again c' where c': "r = (again, c')" "ok c'" "again \<longrightarrow> left c' < left c" using pass_step [OF assms(1)] assms(4) by auto
  then obtain c'' xs where "loop n c' = Some c''" "grows xs c' c''" using loop_returns [OF c'(2), of n] True assms(3) by fastforce
  then show ?thesis using assms(2,4) loop_Suc True c'(1) by auto
qed

lemma loop_stopped:
  assumes one: "ok c1" "\<not> halted c1" "left c1 < Suc n1" "run (decide c1) (prepare c1) = Some r1"
    and two: "ok c2" "\<not> halted c2" "left c2 < Suc n2" "run (decide c2) (prepare c2) = Some r2"
    and out: "outcome c1 c2 r1 r2" and stop: "\<not> (fst r1 \<and> fst r2)"
  shows "\<exists>e1 e2 xs ys. loop (Suc n1) c1 = Some e1 \<and> loop (Suc n2) c2 = Some e2 \<and> grows xs c1 e1 \<and> grows ys c2 e2
    \<and> (prefix xs ys \<or> prefix ys xs)"
proof -
  obtain e1 xs' where e1: "loop (Suc n1) c1 = Some e1" "grows xs' (snd r1) e1" "\<not> fst r1 \<longrightarrow> xs' = []" using loop_after [OF one] by blast
  obtain e2 ys' where e2: "loop (Suc n2) c2 = Some e2" "grows ys' (snd r2) e2" "\<not> fst r2 \<longrightarrow> ys' = []" using loop_after [OF two] by blast
  obtain xs ys where g: "grows xs c1 (snd r1)" "grows ys c2 (snd r2)" "\<not> fst r1 \<and> prefix xs ys \<or> \<not> fst r2 \<and> prefix ys xs"
    using out stop unfolding outcome_def by blast
  have "prefix (xs @ xs') (ys @ ys') \<or> prefix (ys @ ys') (xs @ xs')" using g(3) e1(3) e2(3) by auto
  then show ?thesis using e1(1) e2(1) grows_trans [OF g(1) e1(2)] grows_trans [OF g(2) e2(2)] by blast
qed

lemma loop_prefix:
  assumes "alike c1 c2" "left c1 < n1" "left c2 < n2"
  shows "\<exists>e1 e2 xs ys. loop n1 c1 = Some e1 \<and> loop n2 c2 = Some e2 \<and> grows xs c1 e1 \<and> grows ys c2 e2 \<and> (prefix xs ys \<or> prefix ys xs)"
  using assms
proof (induction n1 arbitrary: n2 c1 c2)
  case (Suc n1)
  obtain m2 where n2: "n2 = Suc m2" using Suc.prems(3) by (cases n2) auto
  have ok: "ok c1" "ok c2" using alike_ok alike_sym Suc.prems(1) by blast+
  show ?case
  proof (cases "halted c1")
    case True
    then have "loop (Suc n1) c1 = Some c1" "loop n2 c2 = Some c2" using halted_alike [OF Suc.prems(1)] loop_Suc n2 by simp_all
    then show ?thesis using grows_refl by blast
  next
    case False
    then have running: "\<not> halted c1" "\<not> halted c2" using halted_alike [OF Suc.prems(1)] by simp_all
    note p1 = prepare_ok [OF ok(1)] and p2 = prepare_ok [OF ok(2)]
    obtain r1 r2 where r: "run (decide c1) (prepare c1) = Some r1" "run (decide c2) (prepare c2) = Some r2"
      "outcome (prepare c1) (prepare c2) r1 r2"
      using run_pair [OF prepare_alike [OF Suc.prems(1)] _ _ decide_keys [OF Suc.prems(1)] decide_same [OF Suc.prems(1)]] p1 p2 by blast
    have out: "outcome c1 c2 r1 r2" using outcome_step r(3) p1 p2 by blast
    show ?thesis
    proof (cases "fst r1 \<and> fst r2")
      case False
      then show ?thesis using loop_stopped [OF ok(1) running(1) Suc.prems(2) r(1) ok(2) running(2) Suc.prems(3) [unfolded n2] r(2) out] n2 by blast
    next
      case True
      obtain c1' c2' where r12: "r1 = (True, c1')" "r2 = (True, c2')" using True by (metis prod.collapse)
      obtain zs where g: "grows zs c1 c1'" "grows zs c2 c2'" "alike c1' c2'" using out True unfolding outcome_def r12 by auto
      have "left c1' < n1" "left c2' < m2" using pass_step [OF ok(1)] pass_step [OF ok(2)] r(1,2) r12 Suc.prems(2,3) n2 by auto
      from Suc.IH [OF g(3) this] obtain e1 e2 xs ys where e: "loop n1 c1' = Some e1" "loop m2 c2' = Some e2"
        "grows xs c1' e1" "grows ys c2' e2" "prefix xs ys \<or> prefix ys xs" by blast
      have "loop (Suc n1) c1 = Some e1" "loop n2 c2 = Some e2" using e(1,2) r(1,2) running r12 loop_Suc n2 by simp_all
      moreover have "prefix (zs @ xs) (zs @ ys) \<or> prefix (zs @ ys) (zs @ xs)" using e(5) by simp
      ultimately show ?thesis using grows_trans [OF g(1) e(3)] grows_trans [OF g(2) e(4)] by blast
    qed
  qed
qed simp

end

end
