(* ===== verification/Total_Order.thy ===== *)
theory Total_Order
  imports Ordering_Agreement Lockstep
begin

text \<open>
  One order for all (\<^verbatim>\<open>crates/tenzro-consensus/src/core.rs\<close>, \<open>try_commit\<close>): the loop returns, and two
  validators that started alike append blocks and checkpoints of which one list is a prefix of the
  other, whatever part of the DAG each has received.
\<close>

section \<open>Cores that order alike\<close>

definition core_ok :: "(vertex \<Rightarrow> digest) \<Rightarrow> core_params \<Rightarrow> core \<Rightarrow> bool" where
  "core_ok vdigest pm c \<longleftrightarrow>
     view_ok vdigest c \<and> schedule_full (pm_draw pm) (c_size (w_committee c)) (w_schedule c) \<and> sealed c"

lemma core_okD:
  assumes "core_ok vdigest pm c"
  shows "view_ok vdigest c" "schedule_full (pm_draw pm) (c_size (w_committee c)) (w_schedule c)" "sealed c"
  using assms by (simp_all add: core_ok_def)

text \<open>
  What reliable broadcast gives two honest validators, the faulty ones being \<open>F\<close>: one vertex per round
  and author and one per digest among what they delivered, and an honest author's first proposal equal
  to its delivered vertex.
\<close>

definition delivers_alike :: "validator_index set \<Rightarrow> core \<Rightarrow> core \<Rightarrow> bool" where
  "delivers_alike F c c' \<longleftrightarrow>
     (\<forall>r s x y. dag_at (w_dag c) r s = Some x \<longrightarrow> dag_at (w_dag c') r s = Some y \<longrightarrow> x = y)
     \<and> dags_agree (w_dag c) (w_dag c')
     \<and> (\<forall>r s refs d v. s \<notin> F \<longrightarrow> (s, refs) \<in> set (first_refs c r) \<longrightarrow> dag_at (w_dag c') r s = Some (d, v) \<longrightarrow> v_strong v = refs)"

definition order_pair :: "(vertex \<Rightarrow> digest) \<Rightarrow> core_params \<Rightarrow> validator_index set \<Rightarrow> core \<Rightarrow> core \<Rightarrow> bool" where
  "order_pair vdigest pm F c1 c2 \<longleftrightarrow>
     core_ok vdigest pm c1 \<and> core_ok vdigest pm c2 \<and> delivers_alike F c1 c2 \<and> delivers_alike F c2 c1
     \<and> ordered_of c1 = ordered_of c2"

lemma order_pairD:
  assumes "order_pair vdigest pm F c1 c2"
  shows "core_ok vdigest pm c1" "core_ok vdigest pm c2" "delivers_alike F c1 c2" "delivers_alike F c2 c1"
    "ordered_of c1 = ordered_of c2"
  using assms by (simp_all add: order_pair_def)

lemma order_pair_sym: "order_pair vdigest pm F c1 c2 \<Longrightarrow> order_pair vdigest pm F c2 c1"
  by (simp add: order_pair_def)

text \<open>One core alone, when every author may be faulty.\<close>

lemma order_pair_self: "core_ok vdigest pm c \<Longrightarrow> order_pair vdigest pm UNIV c c"
  by (simp add: order_pair_def delivers_alike_def dags_agree_def)

lemma pair_slots:
  assumes "order_pair vdigest pm F c1 c2"
  shows "slots_per_round c1 = slots_per_round c2"
proof -
  have "ss_slots (schedule_export (w_schedule c1)) = ss_slots (schedule_export (w_schedule c2))"
    using ordered_of_eqD(19) [OF order_pairD(5) [OF assms]] by simp
  then show ?thesis by (simp add: slots_per_round_def schedule_export_def split: prod.splits)
qed

lemma agrees_of:
  assumes "delivers_alike F c c'" "w_committee c = w_committee c'" "slots_per_round c = slots_per_round c'"
    and "\<And>slot. slot_leader h c slot = slot_leader h c' slot"
  shows "agrees h F c c'"
  unfolding agrees_def
proof (intro conjI)
  show "\<forall>r s x y. dag_at (w_dag c) r s = Some x \<longrightarrow> dag_at (w_dag c') r s = Some y \<longrightarrow> x = y"
    "\<forall>r s refs d v. s \<notin> F \<longrightarrow> (s, refs) \<in> set (first_refs c r) \<longrightarrow> dag_at (w_dag c') r s = Some (d, v) \<longrightarrow> v_strong v = refs"
    using assms(1) unfolding delivers_alike_def by blast+
qed (simp_all add: assms)

lemma pair_views:
  assumes "order_pair vdigest pm F c1 c2"
  shows "view_pair (pm_draw pm) F c1 c2"
proof -
  note d = order_pairD [OF assms] and eq = ordered_of_eqD [OF order_pairD(5) [OF assms]]
  have full: "schedule_full (pm_draw pm) (c_size (w_committee c1)) (w_schedule c1)"
    "schedule_full (pm_draw pm) (c_size (w_committee c1)) (w_schedule c2)"
    using core_okD(2) [OF d(1)] core_okD(2) [OF d(2)] eq(1) by simp_all
  have "slot_leader (pm_draw pm) c1 slot = slot_leader (pm_draw pm) c2 slot" for slot
    using leader_alike [OF full eq(19)] by (simp add: slot_leader_def case_prod_unfold)
  then show ?thesis
    using agrees_of [OF d(3) eq(1)] agrees_of [OF d(4) eq(1) [symmetric]] pair_slots [OF assms] by (simp add: view_pair_def)
qed

section \<open>Cutting the view\<close>

definition sub_view :: "core \<Rightarrow> core \<Rightarrow> bool" where
  "sub_view c c' \<longleftrightarrow>
     (\<forall>r s x. dag_at (w_dag c') r s = Some x \<longrightarrow> dag_at (w_dag c) r s = Some x)
     \<and> (\<forall>d v. dag_get (w_dag c') d = Some v \<longrightarrow> dag_get (w_dag c) d = Some v)
     \<and> (\<forall>r. set (first_refs c' r) \<subseteq> set (first_refs c r))"

lemma sub_viewD:
  assumes "sub_view c c'"
  shows "dag_at (w_dag c') r s = Some x \<Longrightarrow> dag_at (w_dag c) r s = Some x"
    "dag_get (w_dag c') d = Some v \<Longrightarrow> dag_get (w_dag c) d = Some v"
    "p \<in> set (first_refs c' r) \<Longrightarrow> p \<in> set (first_refs c r)"
  using assms unfolding sub_view_def by blast+

lemma first_refs_filter:
  "w_first_proposals c' = filter (\<lambda>p. f \<le> fst p) (w_first_proposals c) \<Longrightarrow>
    first_refs c' r = (if f \<le> r then first_refs c r else [])"
  by (simp add: first_refs_def map_of_filter_key)

lemma view_cut_sub:
  assumes ok: "view_ok vdigest c" and cut: "view_cut f c c'"
  shows "sub_view c c'"
    and "dag_get (w_dag c) d = Some v \<Longrightarrow> f \<le> v_round v \<Longrightarrow> dag_get (w_dag c') d = Some v"
    and "set (g_rounds (w_dag c')) \<subseteq> set (g_rounds (w_dag c))" "set (w_first_proposals c') \<subseteq> set (w_first_proposals c)"
proof -
  note wf = view_okD(2) [OF ok]
  have "sub_view c c' \<and> (dag_get (w_dag c) d = Some v \<longrightarrow> f \<le> v_round v \<longrightarrow> dag_get (w_dag c') d = Some v)
    \<and> set (g_rounds (w_dag c')) \<subseteq> set (g_rounds (w_dag c)) \<and> set (w_first_proposals c') \<subseteq> set (w_first_proposals c)"
  proof (cases "g_floor (w_dag c) < f")
    case False
    then have "w_dag c' = w_dag c" "w_first_proposals c' = w_first_proposals c" using cut by (auto simp: view_cut_def)
    then show ?thesis by (simp add: sub_view_def first_refs_def)
  next
    case True
    then have dag: "w_dag c' = snd (dag_prune_below f (w_dag c))" and fp: "w_first_proposals c' = filter (\<lambda>p. f \<le> fst p) (w_first_proposals c)"
      using cut by (auto simp: view_cut_def)
    have rounds: "g_rounds (w_dag c') = filter (\<lambda>p. f \<le> fst (fst p)) (g_rounds (w_dag c))"
      using True by (simp add: dag dag_prune_below_def Let_def)
    have "dag_at (w_dag c') r s = Some x \<longrightarrow> dag_at (w_dag c) r s = Some x" for r s x
      using map_of_filter_key [of "\<lambda>k. f \<le> fst k" "g_rounds (w_dag c)" "(r, s)"] by (simp add: dag_at_def rounds split: if_splits)
    moreover note prune_ok(1) [OF wf True]
    moreover have "set (first_refs c' r) \<subseteq> set (first_refs c r)" for r by (auto simp: first_refs_filter [OF fp])
    ultimately show ?thesis using rounds fp unfolding sub_view_def dag by auto
  qed
  then show "sub_view c c'" "dag_get (w_dag c) d = Some v \<Longrightarrow> f \<le> v_round v \<Longrightarrow> dag_get (w_dag c') d = Some v"
    "set (g_rounds (w_dag c')) \<subseteq> set (g_rounds (w_dag c))" "set (w_first_proposals c') \<subseteq> set (w_first_proposals c)" by blast+
qed

lemma view_cut_ok:
  assumes ok: "view_ok vdigest c" and cut: "view_cut f c c'" and floor: "f \<le> fst (w_next_slot c)"
  shows "view_ok vdigest c'"
proof -
  note v = view_okD [OF ok]
  have dag: "dag_wf vdigest (w_dag c') \<and> dag_closed (w_dag c') \<and> dag_genuine (w_dag c')"
  proof (cases "g_floor (w_dag c) < f")
    case True
    then have "w_dag c' = snd (dag_prune_below f (w_dag c))" using cut by (auto simp: view_cut_def)
    then show ?thesis using prune_closed [OF v(2-4)] by simp
  next
    case False
    then show ?thesis using cut v by (auto simp: view_cut_def)
  qed
  have "distinct (map fst (first_refs c' r))" for r
  proof (cases "g_floor (w_dag c) < f")
    case True
    then have "w_first_proposals c' = filter (\<lambda>p. f \<le> fst p) (w_first_proposals c)" using cut by (auto simp: view_cut_def)
    then show ?thesis using v(6) by (simp add: first_refs_filter)
  next
    case False
    then show ?thesis using cut v(6) by (auto simp: view_cut_def first_refs_def)
  qed
  moreover have "g_floor (w_dag c') \<le> fst (w_next_slot c')"
    using cut floor v(7) by (auto simp: view_cut_def prune_floor)
  moreover have "check_structure w (w_committee c') = Inr ()" if "dag_get (w_dag c') d = Some w" for d w
    using sub_viewD(2) [OF view_cut_sub(1) [OF ok cut] that] v(5) cut by (simp add: view_cut_def)
  ultimately show ?thesis using dag v(1) cut by (simp add: view_ok_def view_checked_def view_cut_def)
qed

lemma delivers_alike_sub:
  assumes "delivers_alike F c1 c2" "sub_view c1 c1'" "sub_view c2 c2'"
  shows "delivers_alike F c1' c2'"
  using assms(1) sub_viewD [OF assms(2)] sub_viewD [OF assms(3)] unfolding delivers_alike_def dags_agree_def
  by (intro conjI) (meson+)

section \<open>One slot\<close>

lemma schedule_moves_full:
  assumes full: "schedule_full h (c_size (w_committee c)) (w_schedule c)" and moves: "schedule_moves pm anchor c c'"
  shows "schedule_full h (c_size (w_committee c)) (w_schedule c')" "slots_per_round c' = slots_per_round c"
    "co_next_checkpoint_index c' = co_next_checkpoint_index c \<Longrightarrow>
      next_round (sc_drawn (w_schedule c')) = next_round (sc_drawn (w_schedule c))"
proof -
  let ?s = "record_outcome (r_source anchor) True (w_schedule c)"
  have r: "schedule_full h (c_size (w_committee c)) ?s" using record_outcome_export(1) [OF full] .
  have drawn: "sc_drawn ?s = sc_drawn (w_schedule c)" by (simp add: record_outcome_def Let_def)
  have a: "schedule_full h (c_size (w_committee c)) (advance (pm_seed pm) (w_committee c) (r_round anchor) cp ?s)"
    "d_slots (sc_drawn (advance (pm_seed pm) (w_committee c) (r_round anchor) cp ?s)) = d_slots (sc_drawn ?s)" for cp
  proof -
    show "schedule_full h (c_size (w_committee c)) (advance (pm_seed pm) (w_committee c) (r_round anchor) cp ?s)"
      by (rule advance_full [OF r]) (simp add: c_size_def)
    note t = drawn_truncate_consistent(1,2) [OF schedule_fullD(2) [OF r]]
    show "d_slots (sc_drawn (advance (pm_seed pm) (w_committee c) (r_round anchor) cp ?s)) = d_slots (sc_drawn ?s)"
      using drawn_prune_consistent(2) [OF t(1)] t(2) by (simp add: advance_def Let_def)
  qed
  show "schedule_full h (c_size (w_committee c)) (w_schedule c')" "slots_per_round c' = slots_per_round c"
    "co_next_checkpoint_index c' = co_next_checkpoint_index c \<Longrightarrow>
      next_round (sc_drawn (w_schedule c')) = next_round (sc_drawn (w_schedule c))"
    using moves r a drawn unfolding schedule_moves_def Let_def slots_per_round_def by auto
qed

text \<open>What the commit of an anchor needs of a core: its vertex, and a schedule drawn past it.\<close>

definition committable :: "vertex_ref \<Rightarrow> core \<Rightarrow> bool" where
  "committable anchor c \<longleftrightarrow>
     (\<exists>v. dag_get (w_dag c) (r_digest anchor) = Some v \<and> v_round v = r_round anchor)
     \<and> r_round anchor < next_round (sc_drawn (w_schedule c)) \<and> r_round anchor \<le> fst (w_next_slot c)"

definition slot_done :: "core_params \<Rightarrow> waiting list \<Rightarrow> checkpoint_entry list \<Rightarrow> core \<Rightarrow> core \<Rightarrow> bool" where
  "slot_done pm ws ls c c' \<longleftrightarrow>
     log_grows ws ls c c' \<and> slots_shrink c c' \<and> w_next_slot c' = w_next_slot c \<and> w_committee c' = w_committee c
     \<and> (co_next_checkpoint_index c' = co_next_checkpoint_index c \<longrightarrow>
          next_round (sc_drawn (w_schedule c)) \<le> next_round (sc_drawn (w_schedule c')))
     \<and> (\<forall>d v. dag_get (w_dag c) d = Some v \<longrightarrow> fst (w_next_slot c) \<le> v_round v \<longrightarrow> dag_get (w_dag c') d = Some v)"

lemma gc_floor_le: "gc_floor c r \<le> max r (g_floor (w_dag c))"
  by (auto simp: gc_floor_def checked_sub_def split: option.splits if_splits)

lemma commits_ok:
  assumes ok: "core_ok vdigest pm c" and run: "commits pm anchor ws ls c c'" and r: "r_round anchor \<le> fst (w_next_slot c)"
  shows "core_ok vdigest pm c'" "slot_done pm ws ls c c'" "sub_view c c'"
proof -
  note c = core_okD [OF ok]
  have run': "log_grows ws ls c c'" "view_cut (gc_floor c (r_round anchor)) c c'" "schedule_moves pm anchor c c'" "sealed c'"
    using run by (simp_all add: commits_def)
  have floor: "gc_floor c (r_round anchor) \<le> fst (w_next_slot c)"
    using gc_floor_le [of c "r_round anchor"] r view_okD(7) [OF c(1)] by simp
  note s = schedule_moves_full [OF c(2) run'(3)] and v = view_cut_sub [OF c(1) run'(2)]
  have same: "w_committee c' = w_committee c" "w_next_slot c' = w_next_slot c" using run'(2) by (simp_all add: view_cut_def)
  show "core_ok vdigest pm c'"
    using view_cut_ok [OF c(1) run'(2) floor] s(1) run'(4) same(1) by (simp add: core_ok_def)
  show "slot_done pm ws ls c c'"
    unfolding slot_done_def slots_shrink_def using run'(1) s(2,3) v(2-4) same floor by fastforce
  show "sub_view c c'" using v(1) .
qed

lemma pair_commit:
  assumes pair: "order_pair vdigest pm F c1 c2" and can: "committable anchor c1" "committable anchor c2"
  obtains c1' c2' ws ls where "commit pm anchor c1 = Some c1'" "commit pm anchor c2 = Some c2'"
    "order_pair vdigest pm F c1' c2'" "slot_done pm ws ls c1 c1'" "slot_done pm ws ls c2 c2'"
proof -
  note d = order_pairD [OF pair] and eq = ordered_of_eqD [OF order_pairD(5) [OF pair]]
  note k1 = core_okD [OF d(1)] and k2 = core_okD [OF d(2)]
  note v1 = view_okD [OF k1(1)] and v2 = view_okD [OF k2(1)]
  have agree: "dags_agree (w_dag c1) (w_dag c2)" using d(3) by (simp add: delivers_alike_def)
  obtain av where av: "dag_get (w_dag c1) (r_digest anchor) = Some av" "dag_get (w_dag c2) (r_digest anchor) = Some av"
    using can agree unfolding committable_def dags_agree_def by metis
  note h = history_same [OF v1(2) v2(2) v1(3) v2(3) eq(3) agree av, of "\<lambda>d. map_of (co_ordered c1) d \<noteq> None"]
  have same: "history_of c1 anchor = history_of c2 anchor" using h(1) unfolding eq(7) .
  obtain vs where vs: "history_vertices (w_dag c1) (history_of c1 anchor) = Some vs" using history_vertices_Some by blast
  then have vs2: "history_vertices (w_dag c2) (history_of c2 anchor) = Some vs" using h(2) unfolding eq(7) by simp
  have parents: "dag_get (w_dag c1) (r_digest p) = dag_get (w_dag c2) (r_digest p)" if "p \<in> set (v_strong av)" for p
    using parents_same [OF v1(2) v2(2) v1(3) v2(3) v1(4) v2(4) eq(3) agree av that] .
  have "List.map_filter (\<lambda>p. map_option v_timestamp_ms (dag_get (w_dag c1) (r_digest p))) xs
      = List.map_filter (\<lambda>p. map_option v_timestamp_ms (dag_get (w_dag c2) (r_digest p))) xs" if "set xs \<subseteq> set (v_strong av)" for xs
    using that by (induction xs) (simp_all add: parents List.map_filter_simps split: option.split)
  then have time: "commit_time c1 av = commit_time c2 av" by (simp add: commit_time_def eq(9) Let_def)
  have full: "schedule_full (pm_draw pm) (c_size (w_committee c1)) (record_outcome (r_source anchor) True (w_schedule c1))"
    "schedule_full (pm_draw pm) (c_size (w_committee c1)) (record_outcome (r_source anchor) True (w_schedule c2))"
    using record_outcome_export(1) k1(2) k2(2) eq(1) by simp_all
  have "ss_outcomes (schedule_export (w_schedule c1)) = ss_outcomes (schedule_export (w_schedule c2))" using eq(19) by simp
  then have out: "sc_outcomes (w_schedule c1) = sc_outcomes (w_schedule c2)" by (simp add: schedule_export_def split: prod.splits)
  have recorded: "schedule_export (record_outcome (r_source anchor) True (w_schedule c1))
      = schedule_export (record_outcome (r_source anchor) True (w_schedule c2))"
    unfolding record_outcome_export(2) [OF k1(2)] record_outcome_export(2) [OF k2(2)] eq(19) out ..
  have "sc_drawn (record_outcome l ok s) = sc_drawn s" for l ok s by (simp add: record_outcome_def Let_def)
  then have adv: "schedule_export (advance (pm_seed pm) (w_committee c1) (r_round anchor) cp (record_outcome (r_source anchor) True (w_schedule c1)))
      = schedule_export (advance (pm_seed pm) (w_committee c1) (r_round anchor) cp (record_outcome (r_source anchor) True (w_schedule c2)))" for cp
    using can recorded by (intro advance_export [OF full]) (simp_all add: committable_def c_size_def)
  obtain c1' c2' ws ls where run: "commits pm anchor ws ls c1 c1'" "commits pm anchor ws ls c2 c2'" "ordered_of c1' = ordered_of c2'"
    by (rule commit_alike [OF d(5) k1(3) k2(3) vs same vs2 av time adv recorded])
  have r: "r_round anchor \<le> fst (w_next_slot c1)" "r_round anchor \<le> fst (w_next_slot c2)" using can by (simp_all add: committable_def)
  note o1 = commits_ok [OF d(1) run(1) r(1)] and o2 = commits_ok [OF d(2) run(2) r(2)]
  show thesis
  proof (rule that)
    show "commit pm anchor c1 = Some c1'" "commit pm anchor c2 = Some c2'" using run(1,2) by (simp_all add: commits_def)
    show "order_pair vdigest pm F c1' c2'"
      using o1 o2 run(3) delivers_alike_sub [OF d(3) o1(3) o2(3)] delivers_alike_sub [OF d(4) o2(3) o1(3)]
      by (simp add: order_pair_def)
    show "slot_done pm ws ls c1 c1'" "slot_done pm ws ls c2 c2'" using o1(2) o2(2) .
  qed
qed

lemma pair_skip:
  assumes pair: "order_pair vdigest pm F c1 c2"
  shows "order_pair vdigest pm F (skip_slot pm slot c1) (skip_slot pm slot c2)"
    "slot_done pm [] [] c1 (skip_slot pm slot c1)"
    "co_next_checkpoint_index (skip_slot pm slot c1) = co_next_checkpoint_index c1"
proof -
  note d = order_pairD [OF pair] and eq = ordered_of_eqD [OF order_pairD(5) [OF pair]]
  let ?h = "pm_draw pm" and ?n = "c_size (w_committee c1)"
  have full: "schedule_full ?h ?n (w_schedule c1)" "schedule_full ?h ?n (w_schedule c2)"
    using core_okD(2) [OF d(1)] core_okD(2) [OF d(2)] eq(1) by simp_all
  obtain l1 s1 where l1: "leader ?h (w_schedule c1) (fst slot) (snd slot) = (l1, s1)" by fastforce
  obtain l2 s2 where l2: "leader ?h (w_schedule c2) (fst slot) (snd slot) = (l2, s2)" by fastforce
  note e1 = leader_export [OF full(1) l1] and e2 = leader_export [OF full(2) l2]
  have l: "l1 = l2" using leader_alike [OF full eq(19), of "fst slot" "snd slot"] l1 l2 by simp
  have fields: "w_schedule (skip_slot pm slot c1) = record_outcome l1 False s1" "w_schedule (skip_slot pm slot c2) = record_outcome l1 False s2"
    using l1 l2 l by (simp_all add: skip_slot_def Let_def)
  have sched: "schedule_full ?h ?n (record_outcome l1 False s1)" "schedule_full ?h ?n (record_outcome l1 False s2)"
    using record_outcome_export(1) e1(1) e2(1) by blast+
  have "ss_outcomes (schedule_export s1) = ss_outcomes (schedule_export s2)" using e1(2) e2(2) eq(19) by simp
  then have out: "sc_outcomes s1 = sc_outcomes s2" by (simp add: schedule_export_def split: prod.splits)
  have export: "schedule_export (record_outcome l1 False s1) = schedule_export (record_outcome l1 False s2)"
    unfolding record_outcome_export(2) [OF e1(1)] record_outcome_export(2) [OF e2(1)] out using e1(2) e2(2) eq(19) by simp
  have same: "view_ok vdigest (skip_slot pm slot c) = view_ok vdigest c" "sealed (skip_slot pm slot c) = sealed c"
    "delivers_alike F (skip_slot pm slot c) c' = delivers_alike F c c'" "delivers_alike F c' (skip_slot pm slot c) = delivers_alike F c' c"
    for c c'
    by (simp_all add: skip_slot_def Let_def view_ok_def view_checked_def sealed_def delivers_alike_def first_refs_def split: prod.split)
  have com: "w_committee (skip_slot pm slot c) = w_committee c" for c by (simp add: skip_slot_def Let_def split: prod.split)
  have "ordered_of (skip_slot pm slot c1) = ordered_of (skip_slot pm slot c2)"
    using export eq l1 l2 l by (simp add: ordered_of_def skip_slot_def Let_def)
  then show "order_pair vdigest pm F (skip_slot pm slot c1) (skip_slot pm slot c2)"
    using d sched eq(1) by (simp add: order_pair_def core_ok_def same com fields)
  have "d_slots (sc_drawn s1) = d_slots (sc_drawn (w_schedule c1))" using export_eq_iff [OF e1(1) full(1)] e1(2) by simp
  then show "slot_done pm [] [] c1 (skip_slot pm slot c1)"
    using e1(4) l1
    by (simp add: slot_done_def log_grows_def slots_shrink_def skip_slot_def Let_def slots_per_round_def ckpt_log_def record_outcome_def)
  show "co_next_checkpoint_index (skip_slot pm slot c1) = co_next_checkpoint_index c1"
    by (simp add: skip_slot_def Let_def split: prod.split)
qed

text \<open>Moving past a slot.\<close>

lemma pair_next_slot:
  assumes "order_pair vdigest pm F c1 c2" "w_next_slot c1 \<le> slot"
  shows "order_pair vdigest pm F (c1\<lparr>w_next_slot := slot\<rparr>) (c2\<lparr>w_next_slot := slot\<rparr>)"
proof -
  note d = order_pairD [OF assms(1)] and eq = ordered_of_eqD [OF order_pairD(5) [OF assms(1)]]
  have le: "fst (w_next_slot c1) \<le> fst slot" using assms(2) by (auto simp: less_eq_prod_def)
  have view: "view_ok vdigest (c\<lparr>w_next_slot := slot\<rparr>)" if ok: "view_ok vdigest c" and n: "w_next_slot c = w_next_slot c1" for c
  proof -
    have "g_floor (w_dag c) \<le> fst slot" using view_okD(7) [OF ok] n le by simp
    then show ?thesis using ok by (simp add: view_ok_def view_checked_def first_refs_def)
  qed
  have same: "sealed (c\<lparr>w_next_slot := slot\<rparr>) = sealed c" "w_schedule (c\<lparr>w_next_slot := slot\<rparr>) = w_schedule c"
    "ordered_of (c\<lparr>w_next_slot := slot\<rparr>) = (ordered_of c)\<lparr>op_next_slot := slot\<rparr>"
    "w_committee (c\<lparr>w_next_slot := slot\<rparr>) = w_committee c"
    "delivers_alike F (c\<lparr>w_next_slot := slot\<rparr>) c' = delivers_alike F c c'"
    "delivers_alike F c' (c\<lparr>w_next_slot := slot\<rparr>) = delivers_alike F c' c" for c c' :: core
    by (simp_all add: sealed_def ordered_of_def delivers_alike_def first_refs_def)
  show ?thesis
    using d(3-5) core_okD [OF d(1)] core_okD [OF d(2)] view [of c1] view [of c2] eq(4)
    unfolding order_pair_def core_ok_def same by simp
qed

section \<open>One pass\<close>

text \<open>A decided slot that the core can still act on, and the decided slots a pass starts from.\<close>

definition slot_ready :: "core \<Rightarrow> slot \<times> decision \<Rightarrow> bool" where
  "slot_ready c = (\<lambda>(slot, d).
     w_next_slot c \<le> slot \<and> snd slot < slots_per_round c \<and> fst slot < next_round (sc_drawn (w_schedule c))
     \<and> (\<forall>l. d = Commit l \<longrightarrow> r_round l = fst slot \<and> (\<exists>v. dag_get (w_dag c) (r_digest l) = Some v \<and> v_round v = fst slot)))"

definition pass_ok :: "(slot \<times> decision) list \<Rightarrow> core \<Rightarrow> bool" where
  "pass_ok D c \<longleftrightarrow> sorted_wrt (<) (map fst D) \<and> list_all (slot_ready c) D"

lemma slot_after_le:
  assumes "slot < slot'" "snd slot' < n"
  shows "slot_after n slot \<le> slot'"
  using assms by (cases slot; cases slot') (auto simp: slot_after_def less_prod_def less_eq_prod_def)

lemma slot_ready_commit:
  assumes "slot_ready c (slot, Commit l)"
  shows "committable l (c\<lparr>w_next_slot := slot_after (slots_per_round c) slot\<rparr>)"
  using assms by (auto simp: slot_ready_def committable_def slot_after_def)

text \<open>A step that decides no checkpoint leaves the later slots ready.\<close>

lemma slot_done_ready:
  assumes fin: "slot_done pm ws ls (c\<lparr>w_next_slot := slot_after (slots_per_round c) slot\<rparr>) c'"
    and index: "co_next_checkpoint_index c' = co_next_checkpoint_index c"
    and later: "slot < fst p" and ready: "slot_ready c p"
  shows "slot_ready c' p"
proof -
  obtain slot' d where p: "p = (slot', d)" by fastforce
  let ?c = "c\<lparr>w_next_slot := slot_after (slots_per_round c) slot\<rparr>"
  have slots: "slots_per_round c' = slots_per_round c"
    using fin by (simp add: slot_done_def slots_shrink_def slots_per_round_def)
  have after: "slot_after (slots_per_round c) slot \<le> slot'"
    using later ready slot_after_le [of slot slot'] by (simp add: p slot_ready_def)
  have next_slot: "w_next_slot c' = slot_after (slots_per_round c) slot"
    and drawn: "next_round (sc_drawn (w_schedule c)) \<le> next_round (sc_drawn (w_schedule c'))"
    using fin index by (simp_all add: slot_done_def)
  have kept: "dag_get (w_dag c') e = Some v" if "dag_get (w_dag c) e = Some v" "v_round v = fst slot'" for e v
    using fin that after by (auto simp: slot_done_def less_eq_prod_def)
  show ?thesis
    using ready after drawn kept unfolding p slot_ready_def prod.case slots next_slot by fastforce
qed

lemma log_grows_trans: "log_grows ws ls c c' \<Longrightarrow> log_grows ws' ls' c' c'' \<Longrightarrow> log_grows (ws @ ws') (ls @ ls') c c''"
  by (simp add: log_grows_def)

lemma slot_done_from:
  assumes "slot_done pm ws ls (c\<lparr>w_next_slot := slot\<rparr>) c'"
  shows "log_grows ws ls c c'" "slots_shrink c c'" "w_next_slot c' = slot" "w_committee c' = w_committee c"
  using assms by (simp_all add: slot_done_def log_grows_def slots_shrink_def slots_per_round_def ckpt_log_def)

text \<open>The slots after the first stay ready once it is committed without a checkpoint, or skipped.\<close>

lemma pass_ok_tail:
  assumes "pass_ok ((slot, d) # D) c" "slot_done pm ws ls (c\<lparr>w_next_slot := slot_after (slots_per_round c) slot\<rparr>) c'"
    and "co_next_checkpoint_index c' = co_next_checkpoint_index c"
  shows "pass_ok D c'"
  using assms(1) slot_done_ready [OF assms(2,3)] by (auto simp: pass_ok_def list_all_iff)

text \<open>The action on one decided slot, and whether it asks to decide again.\<close>

definition slot_act :: "core_params \<Rightarrow> slot \<times> decision \<Rightarrow> core \<Rightarrow> (bool \<times> core) option" where
  "slot_act pm = (\<lambda>(slot, d) c.
     let c' = c\<lparr>w_next_slot := slot_after (slots_per_round c) slot\<rparr> in
     case d of
       Undecided \<Rightarrow> None
     | Skip \<Rightarrow> Some (False, skip_slot pm slot c')
     | Commit l \<Rightarrow> map_option (\<lambda>c''. (co_next_checkpoint_index c'' \<noteq> co_next_checkpoint_index c \<or> co_halted c'', c'')) (commit pm l c'))"

lemma commit_pass_Cons:
  "commit_pass pm (p # D) c = (if snd p = Undecided then Some (False, c)
     else case slot_act pm p c of None \<Rightarrow> None | Some (again, c') \<Rightarrow> if again then Some (True, c') else commit_pass pm D c')"
  by (cases p; cases "snd p") (auto simp: slot_act_def Let_def split: option.splits)

lemma slot_act_pair:
  assumes pair: "order_pair vdigest pm F c1 c2" and ready: "slot_ready c1 (slot, d)" "slot_ready c2 (slot, d)" and d: "d \<noteq> Undecided"
  defines "n \<equiv> slot_after (slots_per_round c1) slot"
  obtains again c1' c2' ws ls where "slot_act pm (slot, d) c1 = Some (again, c1')" "slot_act pm (slot, d) c2 = Some (again, c2')"
    "order_pair vdigest pm F c1' c2'" "slot_done pm ws ls (c1\<lparr>w_next_slot := n\<rparr>) c1'" "slot_done pm ws ls (c2\<lparr>w_next_slot := n\<rparr>) c2'"
    "\<not> again \<longrightarrow> co_next_checkpoint_index c1' = co_next_checkpoint_index c1"
proof -
  have slots: "slots_per_round c2 = slots_per_round c1" using pair_slots [OF pair] by simp
  have "w_next_slot c1 \<le> n"
    using ready(1) less_imp_le [OF slot_after_greater [of slot "slots_per_round c1"]] unfolding n_def slot_ready_def prod.case
    by (blast intro: order_trans)
  note next_pair = pair_next_slot [OF pair this]
  show thesis
  proof (cases d)
    case Undecided
    then show thesis using assms(4) by simp
  next
    case Skip
    note k = pair_skip [OF next_pair, of slot] and k2 = pair_skip [OF order_pair_sym [OF next_pair], of slot]
    show thesis by (rule that [of False, OF _ _ k(1,2) k2(2)]) (use k(3) Skip slots in \<open>simp_all add: slot_act_def n_def\<close>)
  next
    case (Commit l)
    have can: "committable l (c1\<lparr>w_next_slot := n\<rparr>)" "committable l (c2\<lparr>w_next_slot := n\<rparr>)"
      using slot_ready_commit [of c1 slot l] slot_ready_commit [of c2 slot l] ready Commit slots by (simp_all add: n_def)
    obtain c1' c2' ws ls where run: "commit pm l (c1\<lparr>w_next_slot := n\<rparr>) = Some c1'" "commit pm l (c2\<lparr>w_next_slot := n\<rparr>) = Some c2'"
      "order_pair vdigest pm F c1' c2'" "slot_done pm ws ls (c1\<lparr>w_next_slot := n\<rparr>) c1'" "slot_done pm ws ls (c2\<lparr>w_next_slot := n\<rparr>) c2'"
      by (rule pair_commit [OF next_pair can])
    note eq = ordered_of_eqD [OF order_pairD(5) [OF pair]] and eq' = ordered_of_eqD [OF order_pairD(5) [OF run(3)]]
    show thesis
      by (rule that [of "co_next_checkpoint_index c1' \<noteq> co_next_checkpoint_index c1 \<or> co_halted c1'", OF _ _ run(3-5)])
        (use run(1,2) Commit slots eq(15) eq'(15,18) in \<open>auto simp: slot_act_def n_def\<close>)
  qed
qed

text \<open>What the loop keeps: the committee, and no slot is added to the open ones.\<close>

definition slots_kept :: "core \<Rightarrow> core \<Rightarrow> bool" where
  "slots_kept c c' \<longleftrightarrow> slots_shrink c c' \<and> w_committee c' = w_committee c"

definition log_appends :: "(waiting list \<times> checkpoint_entry list) list \<Rightarrow> core \<Rightarrow> core \<Rightarrow> bool" where
  "log_appends xs c c' \<longleftrightarrow> log_grows (concat (map fst xs)) (concat (map snd xs)) c c'"

definition fault_pair :: "(vertex \<Rightarrow> digest) \<Rightarrow> core_params \<Rightarrow> validator_index set \<Rightarrow> core \<Rightarrow> core \<Rightarrow> bool" where
  "fault_pair vdigest pm F c1 c2 \<longleftrightarrow> order_pair vdigest pm F c1 c2
     \<and> sum (c_seats (w_committee c1)) (F \<inter> member_set (w_committee c1)) \<le> max_faulty (w_committee c1)"

lemma slot_done_appends:
  assumes "slot_done pm ws ls (c\<lparr>w_next_slot := slot\<rparr>) c'"
  shows "log_appends [(ws, ls)] c c'" "slots_kept c c'"
  using slot_done_from [OF assms] by (simp_all add: log_appends_def slots_kept_def)

lemma pass_acts:
  assumes ok: "core_ok vdigest pm c" and ready: "pass_ok (p # D) c" and go: "snd p \<noteq> Undecided"
  shows "\<exists>again c' l. slot_act pm p c = Some (again, c') \<and> core_ok vdigest pm c' \<and> log_appends [l] c c' \<and> slots_kept c c'
    \<and> fst p < w_next_slot c' \<and> (again \<or> pass_ok D c')"
proof -
  obtain slot d where p: "p = (slot, d)" by fastforce
  have r: "slot_ready c (slot, d)" using ready by (simp add: pass_ok_def p)
  obtain again c' c2' ws ls where s: "slot_act pm (slot, d) c = Some (again, c')" "slot_act pm (slot, d) c = Some (again, c2')"
    "order_pair vdigest pm UNIV c' c2'" "slot_done pm ws ls (c\<lparr>w_next_slot := slot_after (slots_per_round c) slot\<rparr>) c'"
    "slot_done pm ws ls (c\<lparr>w_next_slot := slot_after (slots_per_round c) slot\<rparr>) c2'"
    "\<not> again \<longrightarrow> co_next_checkpoint_index c' = co_next_checkpoint_index c"
    using slot_act_pair [OF order_pair_self [OF ok] r r] go p by (metis snd_conv)
  have "again \<or> pass_ok D c'" using pass_ok_tail [of slot d D c pm ws ls c'] ready s(4,6) by (auto simp: p)
  moreover have "slot < w_next_slot c'" using slot_done_from(3) [OF s(4)] slot_after_greater by simp
  ultimately show ?thesis using s(1) order_pairD(1) [OF s(3)] slot_done_appends [OF s(4)] by (auto simp: p)
qed

lemma pass_acts_alike:
  assumes pair: "fault_pair vdigest pm F c1 c2" and ready: "pass_ok (p # D1) c1" "pass_ok (p # D2) c2" and go: "snd p \<noteq> Undecided"
  shows "\<exists>again c1' c2' l. slot_act pm p c1 = Some (again, c1') \<and> slot_act pm p c2 = Some (again, c2') \<and> fault_pair vdigest pm F c1' c2'
    \<and> log_appends [l] c1 c1' \<and> log_appends [l] c2 c2' \<and> (again \<or> pass_ok D1 c1' \<and> pass_ok D2 c2')"
proof -
  obtain slot d where p: "p = (slot, d)" by fastforce
  let ?n = "slot_after (slots_per_round c1) slot"
  have o: "order_pair vdigest pm F c1 c2" using pair by (simp add: fault_pair_def)
  have r: "slot_ready c1 (slot, d)" "slot_ready c2 (slot, d)" using ready by (simp_all add: pass_ok_def p)
  have "d \<noteq> Undecided" using go by (simp add: p)
  then obtain again c1' c2' ws ls where s: "slot_act pm (slot, d) c1 = Some (again, c1')" "slot_act pm (slot, d) c2 = Some (again, c2')"
    "order_pair vdigest pm F c1' c2'" "slot_done pm ws ls (c1\<lparr>w_next_slot := ?n\<rparr>) c1'" "slot_done pm ws ls (c2\<lparr>w_next_slot := ?n\<rparr>) c2'"
    "\<not> again \<longrightarrow> co_next_checkpoint_index c1' = co_next_checkpoint_index c1"
    by (rule slot_act_pair [OF o r])
  have index: "co_next_checkpoint_index c2' = co_next_checkpoint_index c2" if "co_next_checkpoint_index c1' = co_next_checkpoint_index c1"
    using that ordered_of_eqD(15) [OF order_pairD(5) [OF o]] ordered_of_eqD(15) [OF order_pairD(5) [OF s(3)]] by simp
  have "again \<or> pass_ok D1 c1' \<and> pass_ok D2 c2'"
    using pass_ok_tail [of slot d D1 c1 pm ws ls c1'] pass_ok_tail [of slot d D2 c2 pm ws ls c2'] ready s(4-6) index pair_slots [OF o]
    by (auto simp: p)
  moreover have "fault_pair vdigest pm F c1' c2'" using s(3) pair slot_done_from(4) [OF s(4)] by (simp add: fault_pair_def)
  ultimately show ?thesis using s(1,2) slot_done_appends(1) [OF s(4)] slot_done_appends(1) [OF s(5)] by (auto simp: p)
qed

section \<open>The loop\<close>

lemma foldl_leader:
  assumes "schedule_full h n s"
  defines "s' \<equiv> \<lambda>xs. foldl (\<lambda>s slot. snd (leader h s (fst slot) (snd slot))) s xs"
  shows "schedule_full h n (s' xs) \<and> schedule_export (s' xs) = schedule_export s
    \<and> (\<forall>slot \<in> set xs. fst slot < next_round (sc_drawn (s' xs)))"
proof (induction xs rule: rev_induct)
  case Nil
  then show ?case using assms by simp
next
  case (snoc slot xs)
  let ?t = "s' xs"
  have t: "schedule_full h n ?t" "schedule_export ?t = schedule_export s" "\<forall>slot \<in> set xs. fst slot < next_round (sc_drawn ?t)"
    using snoc by blast+
  obtain l u where l: "leader h ?t (fst slot) (snd slot) = (l, u)" by fastforce
  note e = leader_export [OF t(1) l]
  have u: "s' (xs @ [slot]) = u" using l by (simp add: s'_def)
  have base: "d_base (sc_drawn u) = d_base (sc_drawn ?t)" using e(2) export_eq_iff [OF e(1) t(1)] by simp
  have "fst slot < next_round (sc_drawn u)"
  proof (cases "d_base (sc_drawn ?t) \<le> fst slot")
    case False
    then show ?thesis using base by (simp add: next_round_def)
  qed (rule e(3))
  moreover have "fst q < next_round (sc_drawn u)" if "q \<in> set xs" for q using t(3) that e(4) by force
  ultimately show ?case unfolding u using e(1,2) t(2) by simp
qed

lemma pair_schedule:
  assumes pair: "order_pair vdigest pm F c1 c2"
    and "schedule_full (pm_draw pm) (c_size (w_committee c1)) s1" "schedule_full (pm_draw pm) (c_size (w_committee c2)) s2"
    and "schedule_export s1 = schedule_export (w_schedule c1)" "schedule_export s2 = schedule_export (w_schedule c2)"
  shows "order_pair vdigest pm F (c1\<lparr>w_schedule := s1\<rparr>) (c2\<lparr>w_schedule := s2\<rparr>)"
proof -
  have same: "view_ok vdigest (c\<lparr>w_schedule := s\<rparr>) = view_ok vdigest c" "sealed (c\<lparr>w_schedule := s\<rparr>) = sealed c"
    "ordered_of (c\<lparr>w_schedule := s\<rparr>) = (ordered_of c)\<lparr>op_schedule := schedule_export s\<rparr>"
    "delivers_alike F (c\<lparr>w_schedule := s\<rparr>) c' = delivers_alike F c c'" "delivers_alike F c' (c\<lparr>w_schedule := s\<rparr>) = delivers_alike F c' c"
    for c c' :: core and s
    by (simp_all add: view_ok_def view_checked_def sealed_def ordered_of_def delivers_alike_def first_refs_def)
  note d = order_pairD [OF pair]
  show ?thesis
    using d(3-5) core_okD [OF d(1)] core_okD [OF d(2)] assms(2-5) ordered_of_eqD(19) [OF d(5)]
    unfolding order_pair_def core_ok_def same by simp
qed

lemma draw_open_fields:
  assumes ok: "core_ok vdigest pm c"
  defines "c' \<equiv> draw_open (pm_draw pm) c"
  shows "schedule_full (pm_draw pm) (c_size (w_committee c)) (w_schedule c')"
    "schedule_export (w_schedule c') = schedule_export (w_schedule c)"
    "slot \<in> set (open_slots c) \<Longrightarrow> fst slot < next_round (sc_drawn (w_schedule c'))"
    "slots_per_round c' = slots_per_round c" "log_grows [] [] c c'" "slots_shrink c c'" "core_ok vdigest pm c'"
proof -
  note f = foldl_leader [OF core_okD(2) [OF ok], of "open_slots c"]
  show w: "schedule_full (pm_draw pm) (c_size (w_committee c)) (w_schedule c')"
    "schedule_export (w_schedule c') = schedule_export (w_schedule c)"
    "slot \<in> set (open_slots c) \<Longrightarrow> fst slot < next_round (sc_drawn (w_schedule c'))"
    using f by (simp_all add: c'_def draw_open_def)
  show slots: "slots_per_round c' = slots_per_round c"
    using export_eq_iff [OF w(1) core_okD(2) [OF ok]] w(2) by (simp add: slots_per_round_def)
  show "log_grows [] [] c c'" by (simp add: log_grows_def c'_def draw_open_def ckpt_log_def)
  show "slots_shrink c c'" using slots by (simp add: slots_shrink_def) (simp add: c'_def draw_open_def)
  have upd: "c' = c\<lparr>w_schedule := w_schedule c'\<rparr>" by (simp add: c'_def draw_open_def)
  show "core_ok vdigest pm c'"
    using order_pairD(1) [OF pair_schedule [OF order_pair_self [OF ok] w(1) w(1) w(2) w(2)]] upd by simp
qed

lemma draw_open_pair:
  assumes "order_pair vdigest pm F c1 c2"
  shows "order_pair vdigest pm F (draw_open (pm_draw pm) c1) (draw_open (pm_draw pm) c2)"
proof -
  note f1 = draw_open_fields [OF order_pairD(1) [OF assms]] and f2 = draw_open_fields [OF order_pairD(2) [OF assms]]
  have upd: "draw_open h c = c\<lparr>w_schedule := w_schedule (draw_open h c)\<rparr>" for h c by (simp add: draw_open_def)
  show ?thesis using pair_schedule [OF assms f1(1) f2(1) f1(2) f2(2)] upd by metis
qed

lemma decided_pass_ok:
  assumes ok: "core_ok vdigest pm c"
  shows "pass_ok (decide_slots (pm_draw pm) c) (draw_open (pm_draw pm) c)"
proof -
  let ?h = "pm_draw pm"
  note f = draw_open_fields [OF ok]
  have same: "w_next_slot (draw_open ?h c) = w_next_slot c" "w_dag (draw_open ?h c) = w_dag c" by (simp_all add: draw_open_def)
  have "slot_ready (draw_open ?h c) (slot, d)" if mem: "(slot, d) \<in> set (decide_slots ?h c)" for slot d
  proof -
    note o = decided_slot [OF mem]
    have "w_next_slot c \<le> slot" "snd slot < slots_per_round c" using o unfolding open_slots_set by blast+
    moreover have "r_round l = fst slot \<and> (\<exists>v. dag_get (w_dag c) (r_digest l) = Some v \<and> v_round v = fst slot)" if "d = Commit l" for l
    proof -
      have "slot_vertex ?h c slot = Some l" using decided_vertex mem that by blast
      then have "r_round l = fst slot" unfolding slot_vertex_Some by auto
      then show ?thesis using anchor_vertex [OF core_okD(1) [OF ok]] mem that by metis
    qed
    ultimately show ?thesis using f(3) [OF o] f(4) by (simp add: slot_ready_def same)
  qed
  then show ?thesis using decide_slots_sorted [of ?h c] by (auto simp: pass_ok_def list_all_iff)
qed

text \<open>The slots two cores decide start at the same one; one list is a prefix of the other.\<close>

lemma rev_open_slots:
  "rev (open_slots c) = (case top_round c of None \<Rightarrow> []
     | Some t \<Rightarrow> filter (\<lambda>s. w_next_slot c \<le> s) (List.product [fst (w_next_slot c)..<t] [0..<slots_per_round c]))"
  by (simp add: open_slots_grid rev_filter product_concat_map rev_concat rev_map comp_def split: option.split)

lemma product_prefix: "prefix xs xs' \<Longrightarrow> prefix (List.product xs ys) (List.product xs' ys)"
  by (auto simp: prefix_def product_concat_map)

lemma upt_prefix: "t \<le> t' \<Longrightarrow> prefix [lo..<t] [lo..<t']"
proof (cases "lo \<le> t")
  case True
  assume "t \<le> t'"
  then have "[lo..<t'] = [lo..<t] @ [t..<t']" using True upt_add_eq_append [of lo t "t' - t"] by simp
  then show ?thesis by (simp add: prefix_def)
qed simp

lemma filter_prefix: "prefix xs ys \<Longrightarrow> prefix (filter P xs) (filter P ys)"
  by (auto simp: prefix_def)

lemma open_slots_prefix:
  assumes "w_next_slot c1 = w_next_slot c2" "slots_per_round c1 = slots_per_round c2"
  shows "prefix (rev (open_slots c1)) (rev (open_slots c2)) \<or> prefix (rev (open_slots c2)) (rev (open_slots c1))"
proof (cases "top_round c1"; cases "top_round c2")
  fix t t' assume t: "top_round c1 = Some t" "top_round c2 = Some t'"
  show ?thesis
    unfolding rev_open_slots t option.case assms using filter_prefix [OF product_prefix [OF upt_prefix]] linear [of t t'] by blast
qed (simp_all add: rev_open_slots)

text \<open>The commit loop keeps the contract of the lockstep loop.\<close>

interpretation order: lockstep_loop "slot_act pm" "\<lambda>p. snd p = Undecided" "commit_pass pm" fst "core_ok vdigest pm" pass_ok
    "fault_pair vdigest pm F" log_appends slots_kept "\<lambda>p c. fst p < w_next_slot c"
    "\<lambda>n. try_commit_fuel n pm" co_halted "decide_slots (pm_draw pm)" "draw_open (pm_draw pm)" "\<lambda>c. length (open_slots c)"
  for vdigest pm F
proof unfold_locales
  fix c c' c'' :: core and c1 c2 :: core and p q :: "slot \<times> decision" and D xs ys n
  show "commit_pass pm [] c = Some (False, c)" by simp
  show "commit_pass pm (p # D) c = (if snd p = Undecided then Some (False, c)
     else case slot_act pm p c of None \<Rightarrow> None | Some (again, c') \<Rightarrow> if again then Some (True, c') else commit_pass pm D c')"
    by (rule commit_pass_Cons)
  show "log_appends [] c c" by (simp add: log_appends_def log_grows_def)
  show "log_appends xs c c' \<Longrightarrow> log_appends ys c' c'' \<Longrightarrow> log_appends (xs @ ys) c c''"
    unfolding log_appends_def map_append concat_append by (rule log_grows_trans)
  show "slots_kept c c" by (simp add: slots_kept_def slots_shrink_def)
  show "slots_kept c c' \<Longrightarrow> slots_kept c' c'' \<Longrightarrow> slots_kept c c''" by (auto simp: slots_kept_def intro: slots_shrink_trans)
  show "try_commit_fuel 0 pm c = None" by simp
  show "try_commit_fuel (Suc n) pm c = (if co_halted c then Some c
     else case commit_pass pm (decide_slots (pm_draw pm) c) (draw_open (pm_draw pm) c) of
       None \<Rightarrow> None | Some (again, c') \<Rightarrow> if again then try_commit_fuel n pm c' else Some c')"
    by simp
  show "slots_kept c c' \<Longrightarrow> p \<in> set (decide_slots (pm_draw pm) c) \<Longrightarrow> fst p < w_next_slot c' \<Longrightarrow>
      length (open_slots c') < length (open_slots c)"
    using open_slots_fewer decided_slot by (metis prod.collapse slots_kept_def)
  show "core_ok vdigest pm c \<Longrightarrow> core_ok vdigest pm (draw_open (pm_draw pm) c)
      \<and> pass_ok (decide_slots (pm_draw pm) c) (draw_open (pm_draw pm) c) \<and> log_appends [] c (draw_open (pm_draw pm) c)
      \<and> slots_kept c (draw_open (pm_draw pm) c)"
    using draw_open_fields(5-7) decided_pass_ok by (simp add: log_appends_def slots_kept_def) (simp add: draw_open_def)
  show "core_ok vdigest pm c \<Longrightarrow> pass_ok (p # D) c \<Longrightarrow> snd p \<noteq> Undecided \<Longrightarrow>
      \<exists>again c' l. slot_act pm p c = Some (again, c') \<and> core_ok vdigest pm c' \<and> log_appends [l] c c' \<and> slots_kept c c'
        \<and> fst p < w_next_slot c' \<and> (again \<or> pass_ok D c')"
    by (rule pass_acts)
next
  fix c1 c2 :: core and p q :: "slot \<times> decision" and D1 D2
  assume pair: "fault_pair vdigest pm F c1 c2"
  then have o: "order_pair vdigest pm F c1 c2" by (simp add: fault_pair_def)
  note d = order_pairD [OF o] and eq = ordered_of_eqD [OF order_pairD(5) [OF o]]
  show "core_ok vdigest pm c1" by (rule d(1))
  show "fault_pair vdigest pm F c2 c1" using pair order_pair_sym [OF o] eq(1) by (simp add: fault_pair_def)
  show "fault_pair vdigest pm F (draw_open (pm_draw pm) c1) (draw_open (pm_draw pm) c2)"
    using pair draw_open_pair [OF o] by (simp add: fault_pair_def) (simp add: draw_open_def)
  show "prefix (map fst (decide_slots (pm_draw pm) c1)) (map fst (decide_slots (pm_draw pm) c2))
      \<or> prefix (map fst (decide_slots (pm_draw pm) c2)) (map fst (decide_slots (pm_draw pm) c1))"
    unfolding decide_slots_keys using open_slots_prefix [OF eq(4) pair_slots [OF o]] .
  show "co_halted c1 = co_halted c2" by (rule eq(18))
  show "p = q" if mem: "p \<in> set (decide_slots (pm_draw pm) c1)" "q \<in> set (decide_slots (pm_draw pm) c2)"
    and same: "fst p = fst q" "snd p \<noteq> Undecided" "snd q \<noteq> Undecided"
  proof -
    obtain slot a b where pq: "p = (slot, a)" "q = (slot, b)" using same(1) by (metis prod.collapse)
    have "a = b"
      using decided_same [OF core_okD(1) [OF d(1)] core_okD(1) [OF d(2)] pair_views [OF o], of slot a b] pair mem same
      by (simp add: fault_pair_def pq)
    then show ?thesis by (simp add: pq)
  qed
  show "\<exists>again c1' c2' l. slot_act pm p c1 = Some (again, c1') \<and> slot_act pm p c2 = Some (again, c2') \<and> fault_pair vdigest pm F c1' c2'
    \<and> log_appends [l] c1 c1' \<and> log_appends [l] c2 c2' \<and> (again \<or> pass_ok D1 c1' \<and> pass_ok D2 c2')"
    if "pass_ok (p # D1) c1" "pass_ok (p # D2) c2" "snd p \<noteq> Undecided"
    by (rule pass_acts_alike [OF pair that])
qed


text \<open>What two validators append, in full.\<close>

lemma concat_map_prefix: "prefix xs ys \<Longrightarrow> prefix (concat (map f xs)) (concat (map f ys))"
  by (auto simp: prefix_def)

lemma try_pair:
  assumes "order_pair vdigest pm F c1 c2"
    and "sum (c_seats (w_committee c1)) (F \<inter> member_set (w_committee c1)) \<le> max_faulty (w_committee c1)"
  shows "\<exists>c1' c2' ws1 ls1 ws2 ls2. try_commit pm c1 = Some c1' \<and> try_commit pm c2 = Some c2'
    \<and> co_waiting c1' = co_waiting c1 @ ws1 \<and> co_waiting c2' = co_waiting c2 @ ws2
    \<and> ckpt_log c1' = ckpt_log c1 @ ls1 \<and> ckpt_log c2' = ckpt_log c2 @ ls2
    \<and> (prefix ws1 ws2 \<and> prefix ls1 ls2 \<or> prefix ws2 ws1 \<and> prefix ls2 ls1)"
proof -
  have "fault_pair vdigest pm F c1 c2" using assms by (simp add: fault_pair_def)
  from order.loop_prefix [OF this lessI lessI] obtain c1' c2' xs ys where
    run: "try_commit pm c1 = Some c1'" "try_commit pm c2 = Some c2'" "log_appends xs c1 c1'" "log_appends ys c2 c2'"
    "prefix xs ys \<or> prefix ys xs" unfolding try_commit_def by blast
  have "prefix (concat (map fst xs)) (concat (map fst ys)) \<and> prefix (concat (map snd xs)) (concat (map snd ys))
      \<or> prefix (concat (map fst ys)) (concat (map fst xs)) \<and> prefix (concat (map snd ys)) (concat (map snd xs))"
    using run(5) by (auto intro: concat_map_prefix)
  then show ?thesis using run(1-4) unfolding log_appends_def log_grows_def by blast
qed


section \<open>Two validators of four\<close>

text \<open>One holds the first two rounds, the other four rounds without validator 0's vertex of round 1; validator 2 may be faulty.\<close>

definition demo_params :: core_params where
  "demo_params = \<lparr>pm_draw = zero_hash, pm_seed = (\<lambda>d. d), pm_epoch_seed = (\<lambda>_ d. d), pm_codecs = demo_codecs,
     pm_ordering_bytes = (\<lambda>_. [])\<rparr>"

definition demo_core :: "vertex list \<Rightarrow> core" where
  "demo_core vs = (core_new demo_params
       \<lparr>cfg_chain_id = 1, cfg_genesis_hash = [], cfg_leader_timeout_ms = 400, cfg_min_round_interval_ms = 100,
        cfg_leader_slots = 1, cfg_checkpoint_interval_ms = 500, cfg_gc_depth = 50, cfg_max_weak_refs = 64, cfg_max_rounds_ahead = 100,
        cfg_epoch_checkpoints = 100, cfg_handover_confirmations = 2, cfg_fetch_retry_ms = 200, cfg_idle_round_interval_ms = 1000\<rparr> demo_committee 0
       \<lparr>es_first_height = 1, es_first_checkpoint = 0, es_prev_checkpoint = [], es_timestamp_ms = 0, es_base_blocks = [],
        es_leader_lookahead_rounds = 4\<rparr>)\<lparr>w_dag := dag_of small_digest vs\<rparr>"

lemma demo_core_fields [simp]:
  "w_committee (demo_core vs) = demo_committee" "w_dag (demo_core vs) = dag_of small_digest vs" "w_next_slot (demo_core vs) = (0, 0)"
  "first_refs (demo_core vs) r = []" "sealed (demo_core vs)" "co_waiting (demo_core vs) = []" "ckpt_log (demo_core vs) = []"
  by (simp_all add: demo_core_def core_new_def first_refs_def sealed_def ckpt_log_def List.map_filter_def)

lemma demo_core_ok:
  assumes "vertices_checked vs" "dag_genuine (dag_of small_digest vs)"
  shows "core_ok small_digest demo_params (demo_core vs)"
proof -
  have "view_ok small_digest (demo_core vs)"
    using view_of_checked [OF assms(1)] assms(2) by (simp add: view_ok_def view_checked_def)
  moreover have "schedule_full h (c_size demo_committee) (w_schedule (demo_core vs))" for h
    using schedule_new_full [OF wf_demo_committee] by (simp add: demo_core_def core_new_def)
  ultimately show ?thesis by (simp add: core_ok_def)
qed

lemma demo_delivers:
  assumes "vertices_checked vs" "vertices_checked vs'"
    and "list_all (\<lambda>v. list_all (\<lambda>v'. (v_round v, v_source v) = (v_round v', v_source v') \<longrightarrow> v = v') vs') vs"
    and "list_all (\<lambda>v. list_all (\<lambda>v'. small_digest v = small_digest v' \<longrightarrow> v = v') vs') vs"
  shows "delivers_alike F (demo_core vs) (demo_core vs')" "delivers_alike F (demo_core vs') (demo_core vs)"
proof -
  have d: "distinct (map (\<lambda>v. (v_round v, v_source v)) vs)" "distinct (map small_digest vs)"
    and d': "distinct (map (\<lambda>v. (v_round v, v_source v)) vs')" "distinct (map small_digest vs')"
    using assms(1,2) by (simp_all add: vertices_checked_def)
  have agree: "dags_agree (dag_of small_digest vs) (dag_of small_digest vs')"
    using assms(4) unfolding dags_agree_def dag_of_get(1) [OF d] dag_of_get(1) [OF d'] list_all_iff by metis
  have at: "dag_at (dag_of small_digest vs) r s = Some x \<Longrightarrow> dag_at (dag_of small_digest vs') r s = Some y \<Longrightarrow> x = y" for r s x y
  proof -
    assume "dag_at (dag_of small_digest vs) r s = Some x" "dag_at (dag_of small_digest vs') r s = Some y"
    then have xy: "snd x \<in> set vs" "small_digest (snd x) = fst x" "snd y \<in> set vs'" "small_digest (snd y) = fst y"
      "(v_round (snd x), v_source (snd x)) = (v_round (snd y), v_source (snd y))"
      using dag_of_get(3) [OF d, of r s "fst x" "snd x"] dag_of_get(3) [OF d', of r s "fst y" "snd y"] by simp_all
    have "snd x = snd y" using assms(3) xy(1,3,5) unfolding list_all_iff by blast
    then show "x = y" using xy(2,4) by (simp add: prod_eq_iff)
  qed
  show "delivers_alike F (demo_core vs) (demo_core vs')" "delivers_alike F (demo_core vs') (demo_core vs)"
    unfolding delivers_alike_def demo_core_fields using agree dags_agree_sym [OF agree] at by (simp_all only: list.set) blast+
qed

definition late_demo :: "vertex list" where "late_demo = late_vertices (small_vertex 2 2 [1, 2, 3])"

lemma demo_pair: "order_pair small_digest demo_params {2} (demo_core early_vertices) (demo_core late_demo)"
proof -
  have "ordered_of (demo_core early_vertices) = ordered_of (demo_core late_demo)"
    by (simp add: ordered_of_def demo_core_def dag_of_fields)
  moreover have "delivers_alike {2} (demo_core early_vertices) (demo_core late_demo)" "delivers_alike {2} (demo_core late_demo) (demo_core early_vertices)"
    using demo_delivers [of early_vertices late_demo] demo_vertices_checked by (simp_all add: late_demo_def) (simp_all add: demo_vertices)
  ultimately show ?thesis
    using demo_core_ok demo_vertices_checked demo_genuine by (simp add: order_pair_def late_demo_def)
qed



end
