(* ===== verification/Wire.thy ===== *)
theory Wire
  imports Block_Ordering
begin

text \<open>
  The messages validators exchange and the frames they travel in
  (\<^verbatim>\<open>crates/tenzro-consensus/src/wire.rs\<close>): a frame is bounded in bytes and items, a list message too
  large for one frame is split into several of its kind, and a receiver refuses what exceeds the
  bounds. The sizes and bytes of the serialisation library are parameters.
\<close>

section \<open>Messages and frames\<close>

definition MAX_FRAME_BYTES :: nat where "MAX_FRAME_BYTES = 8 * 2 ^ 20"
definition MAX_FRAME_ITEMS :: nat where "MAX_FRAME_ITEMS = 65536"
definition MAX_FETCH :: nat where "MAX_FETCH = 1024"
definition FRAME_BUDGET :: nat where "FRAME_BUDGET = MAX_FRAME_BYTES - 16"
definition LIST_MESSAGE_OVERHEAD :: nat where "LIST_MESSAGE_OVERHEAD = 12"

record frontier =
  fr_round :: "round option"
  fr_highest :: "vertex_ref list"
  fr_next_checkpoint :: nat

datatype message =
    MsgPropose vertex
  | MsgSignals "signal list"
  | MsgBatch batch_payload
  | MsgFetchVertices "digest list"
  | MsgVertices "vertex list"
  | MsgFetchBatches "digest list"
  | MsgBatches "batch_payload list"
  | MsgVote checkpoint_vote
  | MsgCertificate certificate
  | MsgFrontier frontier
  | MsgFetchOrdering nat
  | MsgOrdering ordering_state

record frame =
  fm_epoch :: nat
  fm_items :: "message list"

text \<open>What the serialisation library computes: sizes, bytes, and values from bytes.\<close>

record wire_codec =
  wc_message :: "message \<Rightarrow> nat"
  wc_signal :: "signal \<Rightarrow> nat"
  wc_vertex :: "vertex \<Rightarrow> nat"
  wc_batch :: "batch_payload \<Rightarrow> nat"
  wc_encode :: "frame \<Rightarrow> bytes"
  wc_decode :: "bytes \<Rightarrow> (string, frame) result"

section \<open>Packing\<close>

record packer =
  pk_epoch :: nat
  pk_frames :: "bytes list"
  pk_current :: "message list"
  pk_used :: nat
  pk_left_out :: nat

definition pk_flush :: "wire_codec \<Rightarrow> packer \<Rightarrow> packer" where
  "pk_flush wc p =
     (if pk_current p = [] then p
      else p\<lparr>pk_current := [], pk_used := 0,
             pk_frames := pk_frames p @ [wc_encode wc \<lparr>fm_epoch = pk_epoch p, fm_items = pk_current p\<rparr>]\<rparr>)"

definition pk_push :: "wire_codec \<Rightarrow> message \<Rightarrow> nat \<Rightarrow> packer \<Rightarrow> packer" where
  "pk_push wc msg sz p =
     (let p = (if pk_current p \<noteq> [] \<and> (FRAME_BUDGET < pk_used p + sz \<or> MAX_FRAME_ITEMS \<le> length (pk_current p))
               then pk_flush wc p else p)
      in p\<lparr>pk_used := pk_used p + sz, pk_current := pk_current p @ [msg]\<rparr>)"

definition split_step ::
  "wire_codec \<Rightarrow> ('a \<Rightarrow> nat) \<Rightarrow> ('a list \<Rightarrow> message) \<Rightarrow> packer \<times> 'a list \<times> nat \<Rightarrow> 'a \<Rightarrow> packer \<times> 'a list \<times> nat" where
  "split_step wc sz wrap = (\<lambda>(p, chunk, chunk_size) e.
     let room = FRAME_BUDGET - LIST_MESSAGE_OVERHEAD in
     if room < sz e then (p\<lparr>pk_left_out := pk_left_out p + 1\<rparr>, chunk, chunk_size)
     else let (p, chunk, chunk_size) =
            (if room < chunk_size + sz e
             then (pk_push wc (wrap chunk) (chunk_size + LIST_MESSAGE_OVERHEAD) p, [], 0)
             else (p, chunk, chunk_size))
       in (p, chunk @ [e], chunk_size + sz e))"

definition pk_split :: "wire_codec \<Rightarrow> ('a \<Rightarrow> nat) \<Rightarrow> ('a list \<Rightarrow> message) \<Rightarrow> 'a list \<Rightarrow> packer \<Rightarrow> packer" where
  "pk_split wc sz wrap es p =
     (case foldl (split_step wc sz wrap) (p, [], 0) es of (p, chunk, chunk_size) \<Rightarrow>
        if chunk = [] then p else pk_push wc (wrap chunk) (chunk_size + LIST_MESSAGE_OVERHEAD) p)"

definition pack_message :: "wire_codec \<Rightarrow> packer \<Rightarrow> message \<Rightarrow> packer" where
  "pack_message wc p msg =
     (if wc_message wc msg \<le> FRAME_BUDGET then pk_push wc msg (wc_message wc msg) p
      else case msg of
          MsgSignals v \<Rightarrow> pk_split wc (wc_signal wc) MsgSignals v p
        | MsgVertices v \<Rightarrow> pk_split wc (wc_vertex wc) MsgVertices v p
        | MsgBatches v \<Rightarrow> pk_split wc (wc_batch wc) MsgBatches v p
        | _ \<Rightarrow> p\<lparr>pk_left_out := pk_left_out p + 1\<rparr>)"

definition encode_bounded :: "wire_codec \<Rightarrow> nat \<Rightarrow> message list \<Rightarrow> bytes list \<times> nat" where
  "encode_bounded wc epoch items =
     (let p = pk_flush wc (foldl (pack_message wc)
            \<lparr>pk_epoch = epoch, pk_frames = [], pk_current = [], pk_used = 0, pk_left_out = 0\<rparr> items)
      in (pk_frames p, pk_left_out p))"

definition item_ok :: "message \<Rightarrow> (consensus_error, unit) result" where
  "item_ok msg =
     (case msg of
        MsgFetchVertices d \<Rightarrow> if MAX_FETCH < length d then Inl (Malformed ''fetch asks for too much'') else Inr ()
      | MsgFetchBatches d \<Rightarrow> if MAX_FETCH < length d then Inl (Malformed ''fetch asks for too much'') else Inr ()
      | MsgFrontier f \<Rightarrow>
          if MAX_FETCH < length (fr_highest f) then Inl (Malformed ''frontier names too many vertices'') else Inr ()
      | _ \<Rightarrow> Inr ())"

fun items_ok :: "message list \<Rightarrow> (consensus_error, unit) result" where
  "items_ok [] = Inr ()"
| "items_ok (msg # ms) = (case item_ok msg of Inl e \<Rightarrow> Inl e | Inr _ \<Rightarrow> items_ok ms)"

definition frame_decode :: "wire_codec \<Rightarrow> bytes \<Rightarrow> (consensus_error, frame) result" where
  "frame_decode wc bs =
     (if MAX_FRAME_BYTES < length bs then Inl (Malformed ''frame too large'')
      else case wc_decode wc bs of
          Inl e \<Rightarrow> Inl (Malformed e)
        | Inr f \<Rightarrow>
            if MAX_FRAME_ITEMS < length (fm_items f) then Inl (Malformed ''frame has too many items'')
            else case items_ok (fm_items f) of Inl e \<Rightarrow> Inl e | Inr _ \<Rightarrow> Inr f)"

section \<open>What a receiver unpacks\<close>

text \<open>A list message as messages of one element each, and which of them fit a frame.\<close>

fun pieces :: "message \<Rightarrow> message list" where
  "pieces (MsgSignals v) = map (\<lambda>e. MsgSignals [e]) v"
| "pieces (MsgVertices v) = map (\<lambda>e. MsgVertices [e]) v"
| "pieces (MsgBatches v) = map (\<lambda>e. MsgBatches [e]) v"
| "pieces msg = [msg]"

abbreviation fits :: "wire_codec \<Rightarrow> message \<Rightarrow> bool" where
  "fits wc msg \<equiv> wc_message wc msg \<le> FRAME_BUDGET"

text \<open>
  The fixed-width encoding: a list message takes its tag and length beside its elements, and a frame
  its epoch and item count beside its messages.
\<close>

definition fixint_sizes :: "wire_codec \<Rightarrow> bool" where
  "fixint_sizes wc \<longleftrightarrow>
     (\<forall>v. wc_message wc (MsgSignals v) = LIST_MESSAGE_OVERHEAD + sum_list (map (wc_signal wc) v))
     \<and> (\<forall>v. wc_message wc (MsgVertices v) = LIST_MESSAGE_OVERHEAD + sum_list (map (wc_vertex wc) v))
     \<and> (\<forall>v. wc_message wc (MsgBatches v) = LIST_MESSAGE_OVERHEAD + sum_list (map (wc_batch wc) v))
     \<and> (\<forall>f. length (wc_encode wc f) = 16 + sum_list (map (wc_message wc) (fm_items f)))"

definition packed :: "wire_codec \<Rightarrow> nat \<Rightarrow> message list \<Rightarrow> nat \<Rightarrow> packer \<Rightarrow> bool" where
  "packed wc epoch sent left p \<longleftrightarrow>
     (\<exists>fs. pk_frames p = map (wc_encode wc) fs
       \<and> list_all (\<lambda>f. fm_epoch f = epoch \<and> fm_items f \<noteq> [] \<and> length (fm_items f) \<le> MAX_FRAME_ITEMS
            \<and> sum_list (map (wc_message wc) (fm_items f)) \<le> FRAME_BUDGET) fs
       \<and> concat (map pieces (concat (map fm_items fs) @ pk_current p)) = sent)
     \<and> pk_epoch p = epoch \<and> pk_used p = sum_list (map (wc_message wc) (pk_current p)) \<and> pk_used p \<le> FRAME_BUDGET
     \<and> length (pk_current p) \<le> MAX_FRAME_ITEMS \<and> pk_left_out p = left"

lemma packed_flush:
  assumes "packed wc epoch sent left p"
  shows "packed wc epoch sent left (pk_flush wc p) \<and> pk_current (pk_flush wc p) = []"
proof (cases "pk_current p = []")
  case False
  obtain fs where fs: "pk_frames p = map (wc_encode wc) fs"
    "list_all (\<lambda>f. fm_epoch f = epoch \<and> fm_items f \<noteq> [] \<and> length (fm_items f) \<le> MAX_FRAME_ITEMS
       \<and> sum_list (map (wc_message wc) (fm_items f)) \<le> FRAME_BUDGET) fs"
    "concat (map pieces (concat (map fm_items fs) @ pk_current p)) = sent"
    using assms unfolding packed_def by blast
  let ?f = "\<lparr>fm_epoch = pk_epoch p, fm_items = pk_current p\<rparr>"
  show ?thesis
    unfolding packed_def pk_flush_def using assms fs False
    by (auto simp: packed_def intro!: exI [of _ "fs @ [?f]"])
qed (use assms in \<open>simp add: pk_flush_def\<close>)

lemma packed_push:
  assumes p: "packed wc epoch sent left p" and sz: "sz = wc_message wc msg" "fits wc msg"
  shows "packed wc epoch (sent @ pieces msg) left (pk_push wc msg sz p)"
proof -
  let ?p = "if pk_current p \<noteq> [] \<and> (FRAME_BUDGET < pk_used p + sz \<or> MAX_FRAME_ITEMS \<le> length (pk_current p))
    then pk_flush wc p else p"
  have q: "packed wc epoch sent left ?p" using packed_flush [OF p] p by simp
  have "pk_used ?p + sz \<le> FRAME_BUDGET \<and> length (pk_current ?p) < MAX_FRAME_ITEMS"
    using packed_flush [OF p] p sz q by (auto simp: packed_def MAX_FRAME_ITEMS_def pk_flush_def)
  then show ?thesis
    using q unfolding packed_def pk_push_def Let_def by (auto simp: sz(1))
qed

lemma packed_left: "packed wc epoch sent left p \<Longrightarrow> packed wc epoch sent (Suc left) (p\<lparr>pk_left_out := pk_left_out p + 1\<rparr>)"
  by (simp add: packed_def)

text \<open>One step of a split keeps what it took: the packed part, and the chunk it still holds.\<close>

lemma packed_split:
  assumes sz: "\<And>v. wc_message wc (wrap v) = LIST_MESSAGE_OVERHEAD + sum_list (map sz v)"
    and piece: "\<And>v. pieces (wrap v) = map (\<lambda>e. wrap [e]) v"
    and p: "packed wc epoch sent left p"
  shows "packed wc epoch (sent @ filter (fits wc) (pieces (wrap es))) (left + length (filter (\<lambda>m. \<not> fits wc m) (pieces (wrap es))))
    (pk_split wc sz wrap es p)"
proof -
  let ?room = "FRAME_BUDGET - LIST_MESSAGE_OVERHEAD"
  have room: "LIST_MESSAGE_OVERHEAD \<le> FRAME_BUDGET"
    by (simp add: LIST_MESSAGE_OVERHEAD_def FRAME_BUDGET_def MAX_FRAME_BYTES_def)
  have one: "fits wc (wrap [e]) \<longleftrightarrow> sz e \<le> ?room" "FRAME_BUDGET < wc_message wc (wrap [e]) \<longleftrightarrow> ?room < sz e" for e
    using room by (auto simp: sz)
  define inv where "inv = (\<lambda>es (p, chunk, n). \<exists>sent'. packed wc epoch sent' (left + length (filter (\<lambda>e. ?room < sz e) es)) p
      \<and> n = sum_list (map sz chunk) \<and> n \<le> ?room
      \<and> sent' @ map (\<lambda>e. wrap [e]) chunk = sent @ map (\<lambda>e. wrap [e]) (filter (\<lambda>e. sz e \<le> ?room) es))"
  have push: "packed wc epoch (sent' @ map (\<lambda>e. wrap [e]) chunk) left' (pk_push wc (wrap chunk) (n + LIST_MESSAGE_OVERHEAD) q)"
    if "packed wc epoch sent' left' q" "n = sum_list (map sz chunk)" "n \<le> ?room" for sent' left' q chunk n
    using packed_push [OF that(1), of "n + LIST_MESSAGE_OVERHEAD" "wrap chunk"] that(2,3) room by (simp add: sz piece)
  have step: "inv (es @ [e]) (split_step wc sz wrap st e)" if i: "inv es st" for es e st
  proof -
    obtain q chunk n where st: "st = (q, chunk, n)" by (cases st) auto
    obtain sent' where s: "packed wc epoch sent' (left + length (filter (\<lambda>e. ?room < sz e) es)) q" "n = sum_list (map sz chunk)" "n \<le> ?room"
      "sent' @ map (\<lambda>e. wrap [e]) chunk = sent @ map (\<lambda>e. wrap [e]) (filter (\<lambda>e. sz e \<le> ?room) es)"
      using i unfolding inv_def st by auto
    consider "?room < sz e" | "sz e \<le> ?room" "?room < n + sz e" | "n + sz e \<le> ?room" by linarith
    then show ?thesis
    proof cases
      case 1
      then show ?thesis using s packed_left [OF s(1)] unfolding inv_def st split_step_def by (auto simp: Let_def)
    next
      case 2
      then have "packed wc epoch (sent' @ map (\<lambda>e. wrap [e]) chunk) (left + length (filter (\<lambda>e. ?room < sz e) (es @ [e])))
          (pk_push wc (wrap chunk) (n + LIST_MESSAGE_OVERHEAD) q)"
        using push [OF s(1-3)] by simp
      then show ?thesis using 2 s(4) unfolding inv_def st split_step_def by (auto simp: Let_def)
    next
      case 3
      then show ?thesis using s unfolding inv_def st split_step_def by (auto simp: Let_def intro!: exI [of _ sent'])
    qed
  qed
  have "inv es (foldl (split_step wc sz wrap) (p, [], 0) es)"
    by (induction es rule: rev_induct) (use p step in \<open>auto simp: inv_def\<close>)
  then obtain q chunk n sent' where fold: "foldl (split_step wc sz wrap) (p, [], 0) es = (q, chunk, n)"
    and s: "packed wc epoch sent' (left + length (filter (\<lambda>e. ?room < sz e) es)) q" "n = sum_list (map sz chunk)" "n \<le> ?room"
      "sent' @ map (\<lambda>e. wrap [e]) chunk = sent @ map (\<lambda>e. wrap [e]) (filter (\<lambda>e. sz e \<le> ?room) es)"
    unfolding inv_def by (cases "foldl (split_step wc sz wrap) (p, [], 0) es") auto
  have sp: "filter (fits wc) (pieces (wrap es)) = map (\<lambda>e. wrap [e]) (filter (\<lambda>e. sz e \<le> ?room) es)"
    "length (filter (\<lambda>m. \<not> fits wc m) (pieces (wrap es))) = length (filter (\<lambda>e. ?room < sz e) es)"
    by (simp_all add: piece filter_map o_def one not_le)
  show ?thesis
    using push [OF s(1-3)] s(1,4) unfolding pk_split_def fold sp by auto
qed

lemma elem_le_sum: "e \<in> set v \<Longrightarrow> sz e \<le> sum_list (map sz v)" for sz :: "'a \<Rightarrow> nat"
  by (simp add: member_le_sum_list)

lemma packed_message:
  assumes wc: "fixint_sizes wc" and p: "packed wc epoch sent left p"
  shows "packed wc epoch (sent @ filter (fits wc) (pieces msg)) (left + length (filter (\<lambda>m. \<not> fits wc m) (pieces msg)))
    (pack_message wc p msg)"
proof (cases "fits wc msg")
  case True
  have "wc_message wc m \<le> wc_message wc msg" if "m \<in> set (pieces msg)" for m
    using that wc by (cases msg) (auto simp: fixint_sizes_def intro: elem_le_sum)
  then have "fits wc m" if "m \<in> set (pieces msg)" for m using True that le_trans by blast
  then have "filter (fits wc) (pieces msg) = pieces msg" "filter (\<lambda>m. \<not> fits wc m) (pieces msg) = []"
    by (simp_all add: filter_empty_conv filter_id_conv)
  then show ?thesis using True packed_push [OF p refl True] by (simp add: pack_message_def)
next
  case False
  have alone: "packed wc epoch (sent @ filter (fits wc) (pieces msg)) (left + length (filter (\<lambda>m. \<not> fits wc m) (pieces msg)))
      (p\<lparr>pk_left_out := pk_left_out p + 1\<rparr>)" if "pieces msg = [msg]"
    using that False packed_left [OF p] by simp
  have sizes: "\<And>v. wc_message wc (MsgSignals v) = LIST_MESSAGE_OVERHEAD + sum_list (map (wc_signal wc) v)"
    "\<And>v. wc_message wc (MsgVertices v) = LIST_MESSAGE_OVERHEAD + sum_list (map (wc_vertex wc) v)"
    "\<And>v. wc_message wc (MsgBatches v) = LIST_MESSAGE_OVERHEAD + sum_list (map (wc_batch wc) v)"
    using wc by (simp_all add: fixint_sizes_def)
  note split = packed_split [OF sizes(1) _ p] packed_split [OF sizes(2) _ p] packed_split [OF sizes(3) _ p]
  show ?thesis
    using False alone split by (cases msg) (simp_all add: pack_message_def)
qed

text \<open>
  Property C33. The frames of a list of messages are within the bounds a receiver accepts, and what
  they carry, element by element and in order, is what was sent less the elements too large for a
  frame alone; these are counted. A frame the receiver decodes to itself and whose requests are
  bounded is accepted.
\<close>

theorem frames_carry_all:
  assumes "fixint_sizes wc"
  shows "\<exists>fs. fst (encode_bounded wc epoch items) = map (wc_encode wc) fs
    \<and> list_all (\<lambda>f. fm_epoch f = epoch \<and> fm_items f \<noteq> [] \<and> length (wc_encode wc f) \<le> MAX_FRAME_BYTES
         \<and> (wc_decode wc (wc_encode wc f) = Inr f \<and> items_ok (fm_items f) = Inr () \<longrightarrow> frame_decode wc (wc_encode wc f) = Inr f)) fs
    \<and> concat (map pieces (concat (map fm_items fs))) = filter (fits wc) (concat (map pieces items))
    \<and> snd (encode_bounded wc epoch items) = length (filter (\<lambda>m. \<not> fits wc m) (concat (map pieces items)))"
proof -
  let ?p0 = "\<lparr>pk_epoch = epoch, pk_frames = [], pk_current = [], pk_used = 0, pk_left_out = 0\<rparr>"
  let ?p = "foldl (pack_message wc) ?p0 items"
  have "packed wc epoch (filter (fits wc) (concat (map pieces items))) (length (filter (\<lambda>m. \<not> fits wc m) (concat (map pieces items)))) ?p"
  proof (induction items rule: rev_induct)
    case (snoc msg items)
    then show ?case using packed_message [OF assms snoc.IH, of msg] by simp
  qed (simp add: packed_def)
  from packed_flush [OF this] obtain fs where fs: "pk_frames (pk_flush wc ?p) = map (wc_encode wc) fs"
    "list_all (\<lambda>f. fm_epoch f = epoch \<and> fm_items f \<noteq> [] \<and> length (fm_items f) \<le> MAX_FRAME_ITEMS
       \<and> sum_list (map (wc_message wc) (fm_items f)) \<le> FRAME_BUDGET) fs"
    "concat (map pieces (concat (map fm_items fs))) = filter (fits wc) (concat (map pieces items))"
    and left: "pk_left_out (pk_flush wc ?p) = length (filter (\<lambda>m. \<not> fits wc m) (concat (map pieces items)))"
    unfolding packed_def by auto
  have "length (wc_encode wc f) \<le> MAX_FRAME_BYTES" if "f \<in> set fs" for f
    using that fs(2) assms by (auto simp: list_all_iff fixint_sizes_def FRAME_BUDGET_def MAX_FRAME_BYTES_def)
  then show ?thesis
    unfolding encode_bounded_def Let_def fst_conv snd_conv fs(1) left
    using fs(2,3) by (intro exI [of _ fs]) (auto simp: list_all_iff frame_decode_def dest: leD)
qed

fun demo_size :: "message \<Rightarrow> nat" where
  "demo_size (MsgSignals v) = 12 + 45 * length v"
| "demo_size (MsgVertices v) = 12 + 5000000 * length v"
| "demo_size (MsgBatches v) = 12 + 9000000 * length v"
| "demo_size _ = 40"

definition demo_wire :: wire_codec where
  "demo_wire = \<lparr>wc_message = demo_size, wc_signal = (\<lambda>_. 45), wc_vertex = (\<lambda>_. 5000000), wc_batch = (\<lambda>_. 9000000),
      wc_encode = (\<lambda>f. replicate (16 + sum_list (map demo_size (fm_items f))) 0),
      wc_decode = (\<lambda>_. Inl [])\<rparr>"

definition demo_sent :: "message list" where
  "demo_sent = (let v = \<lparr>v_epoch = 4, v_round = 0, v_source = 1, v_strong = [], v_weak = [], v_batches = [],
       v_carried = [], v_timestamp_ms = 0\<rparr> in
     [MsgFetchOrdering 5, MsgVertices [v, v],
      MsgBatches [\<lparr>bp_epoch = 4, bp_author = 1, bp_sequence = 99, bp_transactions = 1, bp_body = []\<rparr>]])"

text \<open>Two vertices that do not fit one frame travel in two, and a batch larger than a frame is left out.\<close>

theorem frames_carry_all_witness:
  "\<exists>fs. fst (encode_bounded demo_wire 4 demo_sent) = map (wc_encode demo_wire) fs
    \<and> concat (map pieces (concat (map fm_items fs))) = butlast (concat (map pieces demo_sent))
    \<and> snd (encode_bounded demo_wire 4 demo_sent) = 1"
proof -
  have "fixint_sizes demo_wire"
    by (simp add: fixint_sizes_def demo_wire_def LIST_MESSAGE_OVERHEAD_def sum_list_triv)
  moreover have "filter (fits demo_wire) (concat (map pieces demo_sent)) = butlast (concat (map pieces demo_sent))"
    "length (filter (\<lambda>m. \<not> fits demo_wire m) (concat (map pieces demo_sent))) = 1"
    by (simp_all add: demo_wire_def demo_sent_def Let_def FRAME_BUDGET_def MAX_FRAME_BYTES_def)
  ultimately show ?thesis using frames_carry_all [of demo_wire 4 demo_sent] by auto
qed

end
