(* ===== verification/Node_State.thy ===== *)
theory Node_State
  imports Wire
begin

text \<open>
  The whole state of a validator in one epoch (\<^verbatim>\<open>crates/tenzro-consensus/src/core.rs\<close>): the fields the
  ordering uses are the record \<open>core\<close>; the record \<open>node\<close> holds them beside the fields of rounds,
  fetches, certification and recovery. Counters and timings kept for diagnostics only are left out.
  A hash map is an association list; where the source iterates over one and the order shows in what is
  sent, the list is first put in an order the parameters choose.
\<close>

record verifiers =
  vf_primary :: "bytes \<Rightarrow> bytes \<Rightarrow> bytes \<Rightarrow> bool"
  vf_second :: "bytes \<Rightarrow> bytes \<Rightarrow> bytes \<Rightarrow> bool"

text \<open>
  The digests of vertices and batches and the second signature library are parameters, as are the
  orders of the hash maps.
\<close>

record node_params =
  np_core :: core_params
  np_vdigest :: "vertex \<Rightarrow> digest"
  np_bdigest :: "batch_payload \<Rightarrow> digest"
  np_libcrux :: "bytes \<Rightarrow> bytes \<Rightarrow> bytes \<Rightarrow> bytes \<Rightarrow> bool"
  np_held_order :: "((round \<times> validator_index) \<times> vertex) list \<Rightarrow> ((round \<times> validator_index) \<times> vertex) list"
  np_wanted_order :: "(digest \<times> wanted) list \<Rightarrow> (digest \<times> wanted) list"
  np_peer_order :: "validator_index list \<Rightarrow> validator_index list"

definition orders_ok :: "node_params \<Rightarrow> bool" where
  "orders_ok np \<longleftrightarrow>
     (\<forall>xs. mset (np_held_order np xs) = mset xs) \<and> (\<forall>xs. mset (np_wanted_order np xs) = mset xs)
     \<and> (\<forall>xs. mset (np_peer_order np xs) = mset xs)"

abbreviation np_codecs :: "node_params \<Rightarrow> codecs" where "np_codecs np \<equiv> pm_codecs (np_core np)"

definition verifiers_default :: "node_params \<Rightarrow> verifiers" where
  "verifiers_default np =
     \<lparr>vf_primary = verify_ml_dsa_for (prims (np_codecs np)) default_scheme,
      vf_second = (\<lambda>key rep sig. np_libcrux np key (ascii_bytes (scheme_label default_scheme)) rep sig)\<rparr>"

datatype target = All | One validator_index

record resumed =
  re_certificate :: certificate
  re_state :: ordering_state

datatype journal_record =
    RecOwn vertex
  | RecSignal signal
  | RecDelivered vertex
  | RecBatch batch_payload
  | RecResumed resumed

record resuming =
  rs_certificate :: certificate
  rs_own_round :: "round option"
  rs_asked_ms :: nat

record node =
  nd_core :: core
  nd_start :: epoch_start
  nd_round :: "round option"
  nd_round_entered_ms :: nat
  nd_next_batch_sequence :: nat
  nd_now_ms :: nat
  nd_last_payload_round :: "round option"
  nd_frame_fetches :: nat
  nd_batch_reply_bytes :: "validator_index \<rightharpoonup> nat"
  nd_batch_replied :: "validator_index \<times> digest \<rightharpoonup> nat"
  nd_frame_answered_frontier :: bool
  nd_frame_answered_ordering :: bool
  nd_frontier_answered_ms :: "validator_index \<rightharpoonup> nat"
  nd_votes :: vote_collector
  nd_sessions :: session_book
  nd_certificates :: "(nat \<times> certificate) list"
  nd_ml_dsa :: verifiers
  nd_frontier_held :: bool
  nd_certified_handover_index :: nat
  nd_outbox :: "(target \<times> message) list"
  nd_journal :: "journal_record list"
  nd_connected :: seat_set
  nd_started :: bool
  nd_own_votes :: "(nat \<times> checkpoint_vote) list"
  nd_last_repair_ms :: nat
  nd_resuming :: "resuming option"

definition node_new :: "node_params \<Rightarrow> core_config \<Rightarrow> committee \<Rightarrow> validator_index \<Rightarrow> epoch_start \<Rightarrow> node" where
  "node_new np cfg c me start =
     \<lparr>nd_core = core_new (np_core np) cfg c me start, nd_start = start, nd_round = None, nd_round_entered_ms = 0,
      nd_next_batch_sequence = 0, nd_now_ms = 0, nd_last_payload_round = None, nd_frame_fetches = 0,
      nd_batch_reply_bytes = Map.empty, nd_batch_replied = Map.empty, nd_frame_answered_frontier = False,
      nd_frame_answered_ordering = False, nd_frontier_answered_ms = Map.empty, nd_votes = collector_new,
      nd_sessions = book_new (cfg_chain_id cfg) (cfg_genesis_hash cfg) (c_epoch c), nd_certificates = [],
      nd_ml_dsa = verifiers_default np, nd_frontier_held = False, nd_certified_handover_index = uint_max 64,
      nd_outbox = [], nd_journal = [], nd_connected = ss_new, nd_started = False, nd_own_votes = [],
      nd_last_repair_ms = 0, nd_resuming = None\<rparr>"

abbreviation nd_committee :: "node \<Rightarrow> committee" where "nd_committee n \<equiv> w_committee (nd_core n)"
abbreviation nd_cfg :: "node \<Rightarrow> core_config" where "nd_cfg n \<equiv> co_cfg (nd_core n)"
abbreviation nd_me :: "node \<Rightarrow> validator_index" where "nd_me n \<equiv> co_me (nd_core n)"

definition on_core :: "(core \<Rightarrow> core) \<Rightarrow> node \<Rightarrow> node" where
  "on_core f n = n\<lparr>nd_core := f (nd_core n)\<rparr>"

definition send :: "target \<Rightarrow> message \<Rightarrow> node \<Rightarrow> node" where
  "send to msg n = n\<lparr>nd_outbox := nd_outbox n @ [(to, msg)]\<rparr>"

definition push_event :: "core_event \<Rightarrow> node \<Rightarrow> node" where
  "push_event ev = on_core (\<lambda>c. c\<lparr>co_events := co_events c @ [ev]\<rparr>)"

definition last_entry :: "('k \<times> 'v) list \<Rightarrow> ('k \<times> 'v) option" where
  "last_entry xs = (if xs = [] then None else Some (last xs))"

text \<open>\<open>split_off\<close> of a B-tree map: the entries from a key on.\<close>

definition bt_from :: "'k::linorder \<Rightarrow> ('k \<times> 'v) list \<Rightarrow> ('k \<times> 'v) list" where
  "bt_from k xs = filter (\<lambda>p. k \<le> fst p) xs"

lemma send_fields [simp]:
  "nd_core (send to msg n) = nd_core n" "nd_votes (send to msg n) = nd_votes n" "nd_sessions (send to msg n) = nd_sessions n"
  "nd_certificates (send to msg n) = nd_certificates n" "nd_round (send to msg n) = nd_round n"
  "nd_outbox (send to msg n) = nd_outbox n @ [(to, msg)]" "nd_journal (send to msg n) = nd_journal n"
  "nd_own_votes (send to msg n) = nd_own_votes n"
  by (simp_all add: send_def)

lemma push_event_fields [simp]:
  "w_committee (nd_core (push_event ev n)) = nd_committee n" "co_cfg (nd_core (push_event ev n)) = nd_cfg n"
  "co_events (nd_core (push_event ev n)) = co_events (nd_core n) @ [ev]" "nd_votes (push_event ev n) = nd_votes n"
  "nd_sessions (push_event ev n) = nd_sessions n" "nd_certificates (push_event ev n) = nd_certificates n"
  by (simp_all add: push_event_def on_core_def)

lemma bt_put_set: "p \<in> set (bt_put k v xs) \<longleftrightarrow> p = (k, v) \<or> p \<in> set xs \<and> fst p \<noteq> k"
  by (auto simp: bt_put_def set_insort_key)

lemma bt_put_sorted: "sorted (map fst xs) \<Longrightarrow> sorted (map fst (bt_put k v xs))"
  by (simp add: bt_put_def sorted_insort_key sorted_filter)

lemma bt_put_distinct: "distinct (map fst xs) \<Longrightarrow> distinct (map fst (bt_put k v xs))"
  by (auto simp: bt_put_def distinct_map_filter distinct_insort_key)

lemma bt_keep_last_set: "p \<in> set (bt_keep_last k xs) \<Longrightarrow> p \<in> set xs"
  by (auto simp: bt_keep_last_def dest: in_set_dropD)

end
