(* ===== verification/Intake.thy ===== *)
theory Intake
  imports Node_State
begin

text \<open>
  What a validator takes in (\<^verbatim>\<open>crates/tenzro-consensus/src/core.rs\<close>): proposals and the batches they
  name, the actions of the reliable broadcast, vertices offered to the DAG and batches pushed by their
  authors. A vertex is echoed only once it passed the structural check and every batch it names is
  held as what it is named as.
\<close>

section \<open>The DAG and the broadcast\<close>

definition MAX_BATCH_BYTES :: nat where "MAX_BATCH_BYTES = 2 ^ 20"

definition opt_max :: "nat option \<Rightarrow> nat option \<Rightarrow> nat option" where
  "opt_max a b = (case (a, b) of (None, _) \<Rightarrow> b | (_, None) \<Rightarrow> a | (Some x, Some y) \<Rightarrow> Some (max x y))"

definition wanted_default :: wanted where
  "wanted_default = \<lparr>wt_asked_ms = 0, wt_attempts = 0, wt_holder = None, wt_round = 0\<rparr>"

text \<open>\<open>entry(d).or_insert(w)\<close> with the round raised to that of the vertex.\<close>

definition want_batch :: "digest \<Rightarrow> wanted \<Rightarrow> core \<Rightarrow> core" where
  "want_batch d fresh c =
     (let w = (case map_of (co_wanted_batches c) d of None \<Rightarrow> fresh | Some w \<Rightarrow> w)
      in c\<lparr>co_wanted_batches := al_put d (w\<lparr>wt_round := max (wt_round w) (wt_round fresh)\<rparr>) (co_wanted_batches c)\<rparr>)"

definition want_vertex :: "digest \<Rightarrow> core \<Rightarrow> core" where
  "want_vertex d c =
     (if map_of (co_wanted_vertices c) d = None
      then c\<lparr>co_wanted_vertices := al_put d wanted_default (co_wanted_vertices c)\<rparr> else c)"

definition named_batches :: "vertex \<Rightarrow> batch_ref list" where
  "named_batches v = v_batches v @ map cb_batch (v_carried v)"

definition note_inserted :: "node \<Rightarrow> vertex_ref \<Rightarrow> node" where
  "note_inserted n r =
     (let c = (nd_core n)\<lparr>co_wanted_vertices := al_del (r_digest r) (co_wanted_vertices (nd_core n)),
                co_bodies := al_del (r_digest r) (co_bodies (nd_core n))\<rparr>
      in case dag_get (w_dag c) (r_digest r) of
           None \<Rightarrow> n\<lparr>nd_core := c\<rparr>
         | Some v \<Rightarrow>
             (let c = c\<lparr>co_carry_pool := filter (\<lambda>(k, _). k \<notin> (\<lambda>b. (v_source v, b_sequence b)) ` set (v_batches v)) (co_carry_pool c)\<rparr>;
                  c = foldl (\<lambda>c b. if map_of (co_payloads c) (b_digest b) = None \<and> v_source v \<noteq> co_me c
                        then want_batch (b_digest b) (wanted_default\<lparr>wt_holder := Some (v_source v), wt_round := v_round v\<rparr>) c
                        else c) c (named_batches v)
              in n\<lparr>nd_core := c,
                   nd_last_payload_round := (if named_batches v = [] then nd_last_payload_round n
                      else opt_max (nd_last_payload_round n) (Some (v_round v))),
                   nd_journal := nd_journal n @ [RecDelivered v]\<rparr>))"

definition after_offer :: "vertex_ref list \<Rightarrow> digest list \<Rightarrow> node \<Rightarrow> node" where
  "after_offer inserted missing n =
     on_core (\<lambda>c. foldl (\<lambda>c d. want_vertex d c) c missing) (foldl note_inserted n inserted)"

definition core_offer :: "node_params \<Rightarrow> vertex \<Rightarrow> node \<Rightarrow> node" where
  "core_offer np v n =
     (let ((inserted, missing), g) = offer (np_vdigest np) v (w_dag (nd_core n))
      in after_offer inserted missing (on_core (\<lambda>c. c\<lparr>w_dag := g\<rparr>) n))"

definition core_hold :: "node_params \<Rightarrow> vertex \<Rightarrow> node \<Rightarrow> node" where
  "core_hold np v n =
     (let ((inserted, missing), g) = hold (np_vdigest np) v (w_dag (nd_core n))
      in after_offer inserted missing (on_core (\<lambda>c. c\<lparr>w_dag := g\<rparr>) n))"

definition core_deliver :: "node_params \<Rightarrow> round \<Rightarrow> validator_index \<Rightarrow> digest \<Rightarrow> node \<Rightarrow> node" where
  "core_deliver np round source d n =
     (let c = nd_core n;
          c = c\<lparr>w_dag := expect d round (w_dag c)\<rparr>;
          c = (case map_of (co_unechoed c) (round, source) of
                 Some v \<Rightarrow> if np_vdigest np v = d then c\<lparr>co_bodies := al_put d v (co_bodies c)\<rparr> else c
               | None \<Rightarrow> c);
          n = n\<lparr>nd_core := c\<rparr>
      in case map_of (co_bodies c) d of
           Some v \<Rightarrow> core_offer np v n
         | None \<Rightarrow> on_core (want_vertex d) n)"

fun apply_action :: "node_params \<Rightarrow> node \<times> signal list \<Rightarrow> rbc_action \<Rightarrow> node \<times> signal list" where
  "apply_action np (n, signals) (Broadcast s) = (n\<lparr>nd_journal := nd_journal n @ [RecSignal s]\<rparr>, signals @ [s])"
| "apply_action np (n, signals) (Deliver round source d) = (core_deliver np round source d n, signals)"

definition apply_rbc :: "node_params \<Rightarrow> rbc_action list \<Rightarrow> node \<Rightarrow> node" where
  "apply_rbc np acts n =
     (let (n, signals) = foldl (apply_action np) (n, []) acts
      in if signals = [] then n else send All (MsgSignals signals) n)"

definition core_signal :: "node_params \<Rightarrow> validator_index \<Rightarrow> signal \<Rightarrow> node \<Rightarrow> node" where
  "core_signal np sender s n =
     (let (rb, acts) = on_signal (nd_committee n) sender s (co_rbc (nd_core n))
      in apply_rbc np acts (on_core (\<lambda>c. c\<lparr>co_rbc := rb\<rparr>) n))"

section \<open>Proposals\<close>

fun batch_is :: "batch_payload \<Rightarrow> validator_index \<Rightarrow> batch_ref \<Rightarrow> bool" where
  "batch_is p author b \<longleftrightarrow> bp_author p = author \<and> bp_sequence p = b_sequence b \<and> bp_transactions p = b_transactions b
     \<and> length (bp_body p) = b_bytes b"

definition holds_batches_of :: "core \<Rightarrow> vertex \<Rightarrow> bool option" where
  "holds_batches_of c v =
     (let named = map (\<lambda>b. (v_source v, b)) (v_batches v) @ map (\<lambda>x. (cb_author x, cb_batch x)) (v_carried v)
      in if list_ex (\<lambda>(_, b). map_of (co_payloads c) (b_digest b) = None) named then None
         else Some (list_all (\<lambda>(author, b). batch_is (the (map_of (co_payloads c) (b_digest b))) author b) named))"

definition core_echo :: "node_params \<Rightarrow> vertex \<Rightarrow> node \<Rightarrow> node" where
  "core_echo np v n =
     (let d = np_vdigest np v;
          (rb, acts) = on_propose (nd_committee n) (v_source v) (v_round v) (v_source v) d (co_rbc (nd_core n));
          c = (nd_core n)\<lparr>co_rbc := rb\<rparr>;
          c = (if acts \<noteq> [] \<and> \<not> dag_contains (w_dag c) d then c\<lparr>co_bodies := al_put d v (co_bodies c)\<rparr> else c)
      in apply_rbc np acts (n\<lparr>nd_core := c\<rparr>))"

definition echo_held :: "node_params \<Rightarrow> node \<Rightarrow> node" where
  "echo_held np n =
     (let ready = List.map_filter (\<lambda>(k, v). map_option (\<lambda>ok. (k, v, ok)) (holds_batches_of (nd_core n) v))
            (np_held_order np (co_unechoed (nd_core n)))
      in foldl (\<lambda>n (k, v, ok).
           let n = on_core (\<lambda>c. c\<lparr>co_unechoed := al_del k (co_unechoed c)\<rparr>) n
           in if ok then core_echo np v n else n) n ready)"

definition put_first :: "round \<Rightarrow> validator_index \<Rightarrow> vertex_ref list \<Rightarrow> core \<Rightarrow> core" where
  "put_first round source refs c =
     c\<lparr>w_first_proposals := al_put round (al_put source refs (first_refs c round)) (w_first_proposals c)\<rparr>"

fun chunks_of :: "nat \<Rightarrow> 'a list \<Rightarrow> 'a list list" where
  "chunks_of k xs = (if xs = [] \<or> k = 0 then [] else take k xs # chunks_of k (drop k xs))"

declare chunks_of.simps [simp del]

definition horizon :: "node \<Rightarrow> round" where
  "horizon n = (case nd_round n of None \<Rightarrow> 0 | Some r \<Rightarrow> r) + cfg_max_rounds_ahead (nd_cfg n)"

definition core_propose :: "node_params \<Rightarrow> validator_index \<Rightarrow> vertex \<Rightarrow> node \<Rightarrow> node" where
  "core_propose np sender v n =
     (let slot = (v_round v, v_source v) in
      if sender \<noteq> v_source v \<or> check_structure v (nd_committee n) \<noteq> Inr () then n
      else if v_round v < g_floor (w_dag (nd_core n)) \<or> horizon n < v_round v then n
      else if rbc_proposed (co_rbc (nd_core n)) (v_round v) (v_source v) \<noteq> None
           \<or> map_of (co_unechoed (nd_core n)) slot \<noteq> None then n
      else let n = on_core (put_first (v_round v) (v_source v) (v_strong v)) n;
               missing = filter (\<lambda>d. map_of (co_payloads (nd_core n)) d = None) (map b_digest (named_batches v))
           in if missing = []
              then if holds_batches_of (nd_core n) v = Some True then core_echo np v n else n
              else let n = on_core (\<lambda>c. foldl (\<lambda>c d. want_batch d \<lparr>wt_asked_ms = nd_now_ms n, wt_attempts = 1,
                               wt_holder = Some (v_source v), wt_round = v_round v\<rparr> c) c missing) n;
                       n = foldl (\<lambda>n chunk. send (One (v_source v)) (MsgFetchBatches chunk) n) n (chunks_of MAX_FETCH missing)
                   in on_core (\<lambda>c. c\<lparr>co_unechoed := al_put slot v (co_unechoed c)\<rparr>) n)"

section \<open>Batches\<close>

definition batch_reference :: "node_params \<Rightarrow> batch_payload \<Rightarrow> batch_ref" where
  "batch_reference np p = \<lparr>b_sequence = bp_sequence p, b_digest = np_bdigest np p, b_bytes = length (bp_body p) mod 2 ^ 32,
     b_transactions = bp_transactions p\<rparr>"

definition on_batch :: "node_params \<Rightarrow> validator_index \<Rightarrow> batch_payload \<Rightarrow> node \<Rightarrow> node" where
  "on_batch np sender p n =
     (let c = nd_core n; d = np_bdigest np p; base = released_through (co_availability c) (bp_author p);
          wanted = map_of (co_wanted_batches c) d \<noteq> None; key = (bp_author p, bp_sequence p) in
      if bp_author p \<noteq> sender \<or> bp_epoch p \<noteq> c_epoch (nd_committee n) \<or> MAX_BATCH_BYTES < length (bp_body p) \<or> co_halted c then n
      else if map_of (co_payloads c) d \<noteq> None then n
      else if base + MAX_AHEAD_PER_AUTHOR \<le> bp_sequence p
           \<or> \<not> wanted \<and> (bp_sequence p < base \<or> map_of (co_carry_pool c) key \<noteq> None) then n
      else n\<lparr>nd_core := c\<lparr>co_wanted_batches := al_del d (co_wanted_batches c),
               co_payload_round := (co_payload_round c)(d \<mapsto> (case nd_round n of None \<Rightarrow> 0 | Some r \<Rightarrow> r)),
               co_carry_pool := (if base \<le> bp_sequence p then bt_put key (batch_reference np p) (co_carry_pool c) else co_carry_pool c),
               co_payloads := al_put d p (co_payloads c)\<rparr>\<rparr>)"

definition on_fetched_batch :: "node_params \<Rightarrow> node \<Rightarrow> batch_payload \<Rightarrow> node" where
  "on_fetched_batch np n p =
     (let c = nd_core n; d = np_bdigest np p in
      if bp_epoch p \<noteq> c_epoch (nd_committee n) \<or> map_of (co_wanted_batches c) d = None then n
      else let c = c\<lparr>co_wanted_batches := al_del d (co_wanted_batches c)\<rparr> in
        if MAX_BATCH_BYTES < length (bp_body p) then n\<lparr>nd_core := c\<rparr>
        else n\<lparr>nd_core := c\<lparr>co_payload_round := (co_payload_round c)(d \<mapsto> (case nd_round n of None \<Rightarrow> 0 | Some r \<Rightarrow> r)),
               co_payloads := al_put d p (co_payloads c)\<rparr>\<rparr>)"

definition submit_part :: "node_params \<Rightarrow> batch_part \<Rightarrow> node \<Rightarrow> node" where
  "submit_part np part n =
     (let c = nd_core n;
          payload = seal_parts (c_epoch (nd_committee n)) (nd_me n) (nd_next_batch_sequence n) [part] in
      if co_halted c \<or> MAX_BATCH_BYTES < length (bp_body payload) \<or> MAX_TRANSACTIONS_PER_BLOCK < p_transactions part
      then push_event (EvUnordered payload) n
      else let r = batch_reference np payload;
               c = c\<lparr>co_payload_round := (co_payload_round c)(b_digest r \<mapsto> (case nd_round n of None \<Rightarrow> 0 | Some r \<Rightarrow> r)),
                     co_payloads := al_put (b_digest r) payload (co_payloads c),
                     co_own_unintroduced := co_own_unintroduced c @ [r]\<rparr>
           in send All (MsgBatch payload) (n\<lparr>nd_core := c, nd_next_batch_sequence := nd_next_batch_sequence n + 1,
                nd_journal := nd_journal n @ [RecBatch payload]\<rparr>))"

end
