(* ===== verification/Rounds.thy ===== *)
theory Rounds
  imports Intake
begin

text \<open>
  Rounds and proposals (\<^verbatim>\<open>crates/tenzro-consensus/src/core.rs\<close>): when a validator leaves a round, the
  vertex it proposes in the next, and the loop that proposes every round the DAG allows. \<open>Advance\<close> shows
  that the loop ends, \<open>Proposals\<close> that the vertex passes the check every receiver makes and \<open>Engine\<close> that
  a validator proposes at most once in a round.
\<close>

section \<open>Proposing\<close>

definition MIN_UNCOMMITTED_ROUNDS :: round where "MIN_UNCOMMITTED_ROUNDS = 16"

definition is_idle :: "node \<Rightarrow> bool" where
  "is_idle n \<longleftrightarrow>
     (let c = nd_core n in
      co_own_unintroduced c = [] \<and> co_own_introduced c = [] \<and> co_carry_pool c = [] \<and> co_waiting c = []
      \<and> (case nd_last_payload_round n of
           None \<Rightarrow> True
         | Some r \<Rightarrow> (case co_last_committed c of None \<Rightarrow> False | Some k \<Rightarrow> r + 1 < k)))"

definition max_uncommitted_rounds :: "node \<Rightarrow> round" where
  "max_uncommitted_rounds n = sat_mul 64 (max (cfg_gc_depth (nd_cfg n)) MIN_UNCOMMITTED_ROUNDS) 2"

definition strong_parents :: "core \<Rightarrow> round \<Rightarrow> vertex_ref list" where
  "strong_parents c round =
     (if round = 0 then []
      else sort_key (\<lambda>r. (r_round r, r_source r, r_digest r))
        (map (\<lambda>(s, d, _). \<lparr>r_round = round - 1, r_source = s, r_digest = d\<rparr>) (dag_round (w_dag c) (round - 1))))"

definition weak_parents :: "core \<Rightarrow> round \<Rightarrow> vertex_ref list" where
  "weak_parents c round =
     (if 2 \<le> round
      then orphans_below (w_dag c) (round - 1) (map r_digest (strong_parents c round))
             (\<lambda>d. map_of (co_ordered c) d \<noteq> None) (cfg_max_weak_refs (co_cfg c))
      else [])"

text \<open>The vertex a validator proposes in a round, and its core once the batches in it are taken.\<close>

definition next_vertex :: "node_params \<Rightarrow> round \<Rightarrow> nat \<Rightarrow> core \<Rightarrow> vertex \<times> core" where
  "next_vertex np round now c =
     (let strong = strong_parents c round; weak = weak_parents c round;
          batches = (if co_halted c then [] else co_own_unintroduced c);
          c = (if co_halted c then c else c\<lparr>co_own_unintroduced := []\<rparr>);
          c = c\<lparr>co_own_introduced := foldl (\<lambda>m b. al_put (b_digest b) round m) (co_own_introduced c) batches\<rparr>;
          (lead, c) = (if co_halted c then (False, c)
                       else let (l, s) = leads (pm_draw (np_core np)) (w_schedule c) round (co_me c) in (l, c\<lparr>w_schedule := s\<rparr>));
          carried = (if lead then map (\<lambda>((author, _), b). \<lparr>cb_author = author, cb_batch = b\<rparr>) (take MAX_CARRIED (co_carry_pool c)) else []);
          c = (if lead then c\<lparr>co_carry_pool := drop MAX_CARRIED (co_carry_pool c)\<rparr> else c)
      in (\<lparr>v_epoch = c_epoch (w_committee c), v_round = round, v_source = co_me c, v_strong = strong, v_weak = weak,
           v_batches = batches, v_carried = carried, v_timestamp_ms = max now (co_last_timestamp_ms c)\<rparr>, c))"

definition propose_round :: "node_params \<Rightarrow> round \<Rightarrow> nat \<Rightarrow> node \<Rightarrow> node" where
  "propose_round np round now n =
     (let (v, c) = next_vertex np round now (nd_core n);
          d = np_vdigest np v;
          c = put_first round (co_me c) (v_strong v) c;
          c = c\<lparr>co_bodies := al_put d v (co_bodies c)\<rparr>;
          n = send All (MsgPropose v) (n\<lparr>nd_core := c, nd_round := Some round, nd_round_entered_ms := now,
                nd_journal := nd_journal n @ [RecOwn v]\<rparr>);
          (rb, acts) = on_propose (nd_committee n) (nd_me n) round (nd_me n) d (co_rbc (nd_core n))
      in apply_rbc np acts (on_core (\<lambda>c. c\<lparr>co_rbc := rb\<rparr>) n))"

section \<open>Leaving a round\<close>

text \<open>\<open>all\<close> stops at the first slot whose leader's vertex is missing, each query drawing what it needs.\<close>

fun leaders_held_from :: "draw_hash \<Rightarrow> dag \<Rightarrow> round \<Rightarrow> schedule \<Rightarrow> nat list \<Rightarrow> bool \<times> schedule" where
  "leaders_held_from h g r s [] = (True, s)"
| "leaders_held_from h g r s (k # ks) =
     (let (l, s') = leader h s r k in if dag_at g r l = None then (False, s') else leaders_held_from h g r s' ks)"

definition leaders_held :: "node_params \<Rightarrow> round \<Rightarrow> core \<Rightarrow> bool \<times> core" where
  "leaders_held np r c =
     (if leaders_settled r (fst (w_next_slot c)) (sc_lookahead (w_schedule c))
      then let (ok, s) = leaders_held_from (pm_draw (np_core np)) (w_dag c) r (w_schedule c) [0..<slots_per_round c]
           in (ok, c\<lparr>w_schedule := s\<rparr>)
      else (length (dag_round (w_dag c) r) = c_size (w_committee c), c))"

definition own_slot_missing :: "node_params \<Rightarrow> round \<Rightarrow> bool \<Rightarrow> core \<Rightarrow> bool \<times> core" where
  "own_slot_missing np r paced c =
     (if paced \<or> dag_at (w_dag c) r (co_me c) \<noteq> None then (False, c)
      else let (l, s) = leads (pm_draw (np_core np)) (w_schedule c) r (co_me c) in (l, c\<lparr>w_schedule := s\<rparr>))"

definition enter_after :: "node_params \<Rightarrow> round \<Rightarrow> nat \<Rightarrow> bool \<Rightarrow> node \<Rightarrow> bool \<times> node" where
  "enter_after np r now paced n =
     (let c = nd_core n;
          interval = (if co_halted c \<or> is_idle n then cfg_idle_round_interval_ms (nd_cfg n) else cfg_min_round_interval_ms (nd_cfg n));
          committed = (case co_last_committed c of None \<Rightarrow> 0 | Some r \<Rightarrow> r) in
      if (case nd_round n of None \<Rightarrow> False | Some current \<Rightarrow> r < current) then (False, n)
      else if paced \<and> (nd_frontier_held n \<or> now < sat_add 64 (nd_round_entered_ms n) interval) then (False, n)
      else if paced \<and> sat_add 64 committed (max_uncommitted_rounds n) < r + 1 then (False, n)
      else if round_weight c r < quorum (nd_committee n) then (False, n)
      else let (held, c) = leaders_held np r c;
               (own_missing, c) = own_slot_missing np r paced c;
               n = n\<lparr>nd_core := c\<rparr>;
               waited = (\<not> own_missing \<and> sat_add 64 (nd_round_entered_ms n) (cfg_leader_timeout_ms (nd_cfg n)) \<le> now)
           in if \<not> held \<and> \<not> waited then (False, n) else (True, propose_round np (r + 1) now n))"

fun top_quorum :: "core \<Rightarrow> round \<Rightarrow> round \<Rightarrow> round" where
  "top_quorum c current t =
     (if current < t \<and> round_weight c t < quorum (w_committee c) then top_quorum c current (t - 1) else t)"

declare top_quorum.simps [simp del]

text \<open>One pass of the loop: whether a round was entered.\<close>

definition advance_once :: "node_params \<Rightarrow> nat \<Rightarrow> node \<Rightarrow> bool \<times> node" where
  "advance_once np now n =
     (case nd_round n of
        None \<Rightarrow> (False, n)
      | Some current \<Rightarrow>
          (let c = nd_core n;
               t = top_quorum c current (case highest_round (w_dag c) of None \<Rightarrow> current | Some h \<Rightarrow> max h current) in
           if \<not> current < t then enter_after np current now True n
           else let (lead, s) = leads (pm_draw (np_core np)) (w_schedule c) t (co_me c);
                    n = n\<lparr>nd_core := c\<lparr>w_schedule := s\<rparr>\<rparr>;
                    (entered, n) = (if lead then enter_after np (t - 1) now False n else (False, n))
                in if entered then (True, n)
                   else case enter_after np t now False n of
                       (True, n) \<Rightarrow> (True, n)
                     | (False, n) \<Rightarrow> enter_after np current now True n))"

text \<open>
  The loop on fuel. A round entered is above the last one, and either a round whose vertices the core
  already holds allows it or the bound on uncommitted rounds does.
\<close>

primrec try_advance_fuel :: "nat \<Rightarrow> node_params \<Rightarrow> nat \<Rightarrow> node \<Rightarrow> node option" where
  "try_advance_fuel 0 np now n = None"
| "try_advance_fuel (Suc k) np now n =
     (case advance_once np now n of (True, n) \<Rightarrow> try_advance_fuel k np now n | (False, n) \<Rightarrow> Some n)"

definition rounds_in :: "('k \<times> vertex) list \<Rightarrow> round set" where
  "rounds_in xs = v_round ` snd ` set xs"

definition round_keys :: "((round \<times> 'a) \<times> 'b) list \<Rightarrow> round set" where
  "round_keys xs = fst ` fst ` set xs"

definition dag_rounds :: "dag \<Rightarrow> round set" where
  "dag_rounds g = round_keys (g_rounds g) \<union> rounds_in (g_pending g) \<union> rounds_in (g_held g)"

definition known_rounds :: "core \<Rightarrow> round set" where
  "known_rounds c = dag_rounds (w_dag c) \<union> rounds_in (co_bodies c) \<union> rounds_in (co_unechoed c)"

definition uncommitted_limit :: "node \<Rightarrow> round" where
  "uncommitted_limit n = sat_add 64 (case co_last_committed (nd_core n) of None \<Rightarrow> 0 | Some r \<Rightarrow> r) (max_uncommitted_rounds n)"

definition round_limit :: "node \<Rightarrow> round" where
  "round_limit n = Max (insert (uncommitted_limit n) (Suc ` known_rounds (nd_core n)))"

definition try_advance :: "node_params \<Rightarrow> nat \<Rightarrow> node \<Rightarrow> node option" where
  "try_advance np now n =
     try_advance_fuel (Suc (round_limit n + 1 - (case nd_round n of None \<Rightarrow> 0 | Some r \<Rightarrow> r))) np now n"

definition try_start :: "node_params \<Rightarrow> nat \<Rightarrow> node \<Rightarrow> node" where
  "try_start np now n =
     (if nd_started n \<and> nd_resuming n = None \<and> nd_round n = None \<and> quorum (nd_committee n) \<le> ss_weight (nd_connected n)
      then propose_round np 0 now n else n)"

definition progress :: "node_params \<Rightarrow> nat \<Rightarrow> node \<Rightarrow> node option" where
  "progress np now n =
     (case try_commit (np_core np) (nd_core n) of
        None \<Rightarrow> None
      | Some c \<Rightarrow> map_option (on_core release_segments) (try_advance np now (n\<lparr>nd_core := c\<rparr>)))"

end
