(* ===== verification/Certification.thy ===== *)
theory Certification
  imports Node_State
begin

text \<open>
  Certification (\<^verbatim>\<open>crates/tenzro-consensus/src/core.rs\<close>, \<^verbatim>\<open>nversion.rs\<close>): the handlers of votes and
  certificates, the second verification of every signature, the end of an epoch and the start of the
  next. The main result is that the checkpoints honest validators report as certified are the same
  everywhere.
\<close>

section \<open>Two signature implementations\<close>

definition agree :: "verifiers \<Rightarrow> codecs \<Rightarrow> validator_public_key \<Rightarrow> bytes \<Rightarrow> bytes \<Rightarrow> composite_signature \<Rightarrow> bool" where
  "agree vf pr key domain msg sig =
     (case message_representative_for (prims pr) default_scheme domain msg of
        None \<Rightarrow> True
      | Some rep \<Rightarrow> vf_primary vf (ml_dsa key) rep (cs_ml_dsa sig) = vf_second vf (ml_dsa key) rep (cs_ml_dsa sig))"

definition session_agrees :: "verifiers \<Rightarrow> codecs \<Rightarrow> committee \<Rightarrow> session_certificate \<Rightarrow> bool" where
  "session_agrees vf pr c cert =
     (case find (\<lambda>m. fingerprint (prims pr) (m_public_key m) = sc_validator cert) (c_members c) of
        None \<Rightarrow> True
      | Some m \<Rightarrow> agree vf pr (m_public_key m) SESSION_CERTIFICATE_DOMAIN (certificate_message pr cert) (sc_signature cert))"

definition vote_agrees :: "verifiers \<Rightarrow> codecs \<Rightarrow> committee \<Rightarrow> checkpoint_vote \<Rightarrow> bool" where
  "vote_agrees vf pr c vote \<longleftrightarrow>
     session_agrees vf pr c (vs_session (cv_signature vote))
     \<and> agree vf pr (sc_session_key (vs_session (cv_signature vote))) CHECKPOINT_VOTE_DOMAIN
         (checkpoint_digest pr (cv_checkpoint vote)) (vs_signature (cv_signature vote))"

definition certificate_agrees :: "verifiers \<Rightarrow> codecs \<Rightarrow> certificate \<Rightarrow> session_book \<Rightarrow> bool" where
  "certificate_agrees vf pr ct book =
     list_all (\<lambda>(session, sig). case book_get book session of
          None \<Rightarrow> True
        | Some (_, cert) \<Rightarrow> agree vf pr (sc_session_key cert) CHECKPOINT_VOTE_DOMAIN (checkpoint_digest pr (ct_checkpoint ct)) sig)
       (zip (ct_sessions ct) (ct_signatures ct))"

section \<open>Votes and certificates\<close>

definition on_disagreement :: "nat \<Rightarrow> node \<Rightarrow> node" where
  "on_disagreement index n =
     push_event (EvVerifierDisagreement index) (on_core (\<lambda>c. c\<lparr>co_halted := True\<rparr>) n)"

definition node_context :: "node \<Rightarrow> certificate_context" where
  "node_context n = \<lparr>cx_chain_id = cfg_chain_id (nd_cfg n), cx_genesis_hash = cfg_genesis_hash (nd_cfg n),
     cx_committee = nd_committee n, cx_sessions = nd_sessions n\<rparr>"

definition complete_epoch :: "certificate \<Rightarrow> node \<Rightarrow> node" where
  "complete_epoch handover n =
     (let c = nd_core n;
          stranded = sort (map fst (co_own_introduced c) @ map b_digest (co_own_unintroduced c));
          back = List.map_filter (\<lambda>d. map_of (co_payloads c) d) stranded;
          c = c\<lparr>co_own_introduced := [], co_own_unintroduced := [], co_events := co_events c @ map EvUnordered back\<rparr>
      in push_event (EvEpochComplete handover) (n\<lparr>nd_core := c\<rparr>))"

definition on_certified :: "certificate \<Rightarrow> node \<Rightarrow> node" where
  "on_certified ct n =
     (let index = cp_index (ct_checkpoint ct) in
      if map_of (nd_certificates n) index \<noteq> None then n
      else let n = on_core (\<lambda>c. c\<lparr>co_uncertified_payloads :=
                 bt_from (cp_last_height (ct_checkpoint ct) + 1) (co_uncertified_payloads c)\<rparr>) n;
               n = (if cp_next_committee_root (ct_checkpoint ct) \<noteq> None \<and> \<not> co_epoch_closed (nd_core n)
                    then n\<lparr>nd_certified_handover_index := index + cfg_handover_confirmations (nd_cfg n)\<rparr> else n);
               n = n\<lparr>nd_certificates := bt_keep_last 8 (bt_put index ct (nd_certificates n)),
                     nd_votes := collector_prune_below (nd_votes n) (sat_sub index 16),
                     nd_own_votes := bt_from (index + 1) (nd_own_votes n)\<rparr>
           in if index = co_handover_index (nd_core n) \<or> index = nd_certified_handover_index n
              then complete_epoch ct n else push_event (EvCertified ct) n)"

text \<open>
  The member a double vote names is one: votes are counted only for members, so the panic of the
  source on another signer is not reached and the model leaves the state as it is there.
\<close>

definition count_vote :: "node_params \<Rightarrow> checkpoint_vote \<Rightarrow> node \<Rightarrow> node" where
  "count_vote np vote n =
     (case admit (np_codecs np) (nd_sessions n) (nd_committee n) (vs_session (cv_signature vote)) of
        (Inl _, book) \<Rightarrow> n\<lparr>nd_sessions := book\<rparr>
      | (Inr _, book) \<Rightarrow>
          (let n = n\<lparr>nd_sessions := book\<rparr>;
               (out, votes) = collector_add (np_codecs np) (nd_committee n) (nd_votes n) vote;
               n = n\<lparr>nd_votes := votes\<rparr>
           in case out of
                Certified ct \<Rightarrow> on_certified ct n
              | Equivocation a b \<Rightarrow>
                  (case c_member (nd_committee n) (cv_signer a) of
                     None \<Rightarrow> n
                   | Some mem \<Rightarrow> push_event (EvEquivocation \<lparr>ce_public_key = m_public_key mem, ce_first = cv_checkpoint a,
                         ce_first_signature = cv_signature a, ce_second = cv_checkpoint b,
                         ce_second_signature = cv_signature b\<rparr>) n)
              | _ \<Rightarrow> n))"

definition vote_reach :: "node \<Rightarrow> nat" where
  "vote_reach n = (case last_entry (nd_certificates n) of
       None \<Rightarrow> co_next_checkpoint_index (nd_core n)
     | Some (i, _) \<Rightarrow> max (co_next_checkpoint_index (nd_core n)) (i + 1))"

definition on_vote :: "node_params \<Rightarrow> checkpoint_vote \<Rightarrow> node \<Rightarrow> node" where
  "on_vote np vote n =
     (case c_member (nd_committee n) (cv_signer vote) of
        None \<Rightarrow> n
      | Some mem \<Rightarrow>
          (let cp = cv_checkpoint vote in
           if cp_epoch cp \<noteq> c_epoch (nd_committee n) \<or> cp_chain_id cp \<noteq> cfg_chain_id (nd_cfg n)
              \<or> cp_genesis_hash cp \<noteq> cfg_genesis_hash (nd_cfg n) then n
           else if sat_add 64 (vote_reach n) SIGNED_VOTE_WINDOW < cp_index cp then n
           else if \<not> vote_agrees (nd_ml_dsa n) (np_codecs np) (nd_committee n) vote then on_disagreement (cp_index cp) n
           else if \<not> vote_verify (np_codecs np) vote (m_public_key mem) then n
           else count_vote np vote n))"

definition on_own_vote :: "node_params \<Rightarrow> checkpoint_vote \<Rightarrow> node \<Rightarrow> node" where
  "on_own_vote np vote n =
     (if cp_epoch (cv_checkpoint vote) \<noteq> c_epoch (nd_committee n) then n
      else let index = cp_index (cv_checkpoint vote);
               n = (if map_of (nd_certificates n) index = None
                    then n\<lparr>nd_own_votes := bt_put index vote (nd_own_votes n)\<rparr> else n)
           in count_vote np vote (send All (MsgVote vote) n))"

definition on_certificate :: "node_params \<Rightarrow> certificate \<Rightarrow> node \<Rightarrow> node" where
  "on_certificate np ct n =
     (let pr = np_codecs np; index = cp_index (ct_checkpoint ct); cx = node_context n in
      if \<not> certificate_agrees (nd_ml_dsa n) pr ct (nd_sessions n) then on_disagreement index n
      else if certificate_verify pr ct cx \<noteq> Inr () then n
      else case map_of (nd_certificates n) index of
          Some mine \<Rightarrow>
            if checkpoint_digest pr (ct_checkpoint mine) \<noteq> checkpoint_digest pr (ct_checkpoint ct)
            then foldl (\<lambda>n (_, e). push_event (EvEquivocation e) n) n (from_conflicting_certificates pr mine ct cx)
            else n
        | None \<Rightarrow> on_certified ct n)"

primrec admit_sessions :: "node_params \<Rightarrow> nat \<Rightarrow> session_certificate list \<Rightarrow> node \<Rightarrow> bool \<times> node" where
  "admit_sessions np index [] n = (True, n)"
| "admit_sessions np index (s # ss) n =
     (if \<not> session_agrees (nd_ml_dsa n) (np_codecs np) (nd_committee n) s then (False, on_disagreement index n)
      else admit_sessions np index ss
             (n\<lparr>nd_sessions := snd (admit (np_codecs np) (nd_sessions n) (nd_committee n) s)\<rparr>))"

definition adopt_certificate :: "node_params \<Rightarrow> certificate \<Rightarrow> session_certificate list \<Rightarrow> node \<Rightarrow> node" where
  "adopt_certificate np ct sessions n =
     (case admit_sessions np (cp_index (ct_checkpoint ct)) sessions n of
        (False, n) \<Rightarrow> n
      | (True, n) \<Rightarrow> on_certificate np ct n)"

definition adopt_handover :: "node_params \<Rightarrow> certificate \<Rightarrow> session_certificate list \<Rightarrow> node \<Rightarrow> node" where
  "adopt_handover np ct sessions n =
     (let pr = np_codecs np; index = cp_index (ct_checkpoint ct) in
      case admit_sessions np index sessions n of
        (False, n) \<Rightarrow> n
      | (True, n) \<Rightarrow>
          if \<not> certificate_agrees (nd_ml_dsa n) pr ct (nd_sessions n) then on_disagreement index n
          else if certificate_verify pr ct (node_context n) \<noteq> Inr () then n
          else if cp_epoch (ct_checkpoint ct) = c_epoch (nd_committee n) \<and> \<not> co_epoch_closed (nd_core n)
               \<and> nd_certified_handover_index n = uint_max 64
          then (let n = n\<lparr>nd_certified_handover_index := index\<rparr> in
                case map_of (nd_certificates n) index of
                  Some held \<Rightarrow> complete_epoch held n
                | None \<Rightarrow> on_certificate np ct n)
          else on_certificate np ct n)"

definition latest_certificate :: "node \<Rightarrow> certificate option" where
  "latest_certificate n = map_option snd (last_entry (nd_certificates n))"

text \<open>
  The executed blocks below the next height, the last three of them, in rising order. The heights
  searched are those below the next one; the map of executed blocks is pruned from below.
\<close>

definition next_epoch_start :: "node_params \<Rightarrow> certificate \<Rightarrow> node \<Rightarrow> epoch_start" where
  "next_epoch_start np handover n =
     (let c = nd_core n;
          executed = take (STATE_ROOT_LAG + 1) (List.map_filter
            (\<lambda>h. map_option (\<lambda>(block, state, _). (h, block, state)) (co_executed c h)) (rev [0..<co_next_height c]))
      in \<lparr>es_first_height = max (co_next_height c) (cp_last_height (ct_checkpoint handover) + 1),
          es_first_checkpoint = cp_index (ct_checkpoint handover) + 1,
          es_prev_checkpoint = checkpoint_digest (np_codecs np) (ct_checkpoint handover),
          es_timestamp_ms = cp_timestamp_ms (ct_checkpoint handover), es_base_blocks = rev executed,
          es_leader_lookahead_rounds = sc_lookahead (w_schedule c)\<rparr>)"

section \<open>What is certified is signed by a quorum\<close>

text \<open>
  A certificate whose signers are members with a quorum of seats, each of whose hardware keys stands
  behind a signature on the checkpoint; and a vote that shows this of its signer.
\<close>

definition backed :: "codecs \<Rightarrow> committee \<Rightarrow> certificate \<Rightarrow> bool" where
  "backed pr c ct \<longleftrightarrow>
     set (ct_signers ct) \<subseteq> member_set c \<and> quorum c \<le> sum (c_seats c) (set (ct_signers ct))
     \<and> (\<forall>s \<in> set (ct_signers ct). signed_by pr (m_public_key (c_members c ! s)) (ct_checkpoint ct))"

definition vote_backed :: "codecs \<Rightarrow> committee \<Rightarrow> nat \<Rightarrow> digest \<Rightarrow> checkpoint_vote \<Rightarrow> bool" where
  "vote_backed pr c chain genesis v \<longleftrightarrow>
     cv_signer v \<in> member_set c \<and> cp_epoch (cv_checkpoint v) = c_epoch c \<and> cp_chain_id (cv_checkpoint v) = chain
     \<and> cp_genesis_hash (cv_checkpoint v) = genesis \<and> vote_verify pr v (m_public_key (c_members c ! cv_signer v))"

lemma formed_backed:
  assumes "formed pr c (vote_backed pr c chain genesis) i ct"
  shows "backed pr c ct" "cp_index (ct_checkpoint ct) = i"
proof -
  obtain vote where quorum: "quorum c \<le> sum (c_seats c) (set (ct_signers ct))"
    and vote: "\<And>s. s \<in> set (ct_signers ct) \<Longrightarrow> cv_signer (vote s) = s \<and> vote_backed pr c chain genesis (vote s)
      \<and> cp_index (cv_checkpoint (vote s)) = i \<and> checkpoint_digest pr (cv_checkpoint (vote s)) = checkpoint_digest pr (ct_checkpoint ct)"
    and cp: "\<exists>s \<in> set (ct_signers ct). ct_checkpoint ct = cv_checkpoint (vote s)"
    using assms unfolding formed_def by blast
  obtain s0 where s0: "s0 \<in> set (ct_signers ct)" "cv_checkpoint (vote s0) = ct_checkpoint ct" using cp by force
  note ok = vote [OF s0(1), unfolded vote_backed_def s0(2)]
  then show "cp_index (ct_checkpoint ct) = i" by simp
  have "vote_signature_verify pr (cv_signature (vote s)) (m_public_key (c_members c ! s)) (ct_checkpoint ct)"
    if "s \<in> set (ct_signers ct)" for s
    using vote [OF that] ok unfolding vote_backed_def vote_verify_def vote_signature_verify_def by metis
  moreover have "s \<in> member_set c" if "s \<in> set (ct_signers ct)" for s
    using vote [OF that] unfolding vote_backed_def by metis
  ultimately show "backed pr c ct" using quorum unfolding backed_def signed_by_def by blast
qed

lemma verified_backed:
  assumes ok: "certificate_verify pr ct cx = Inr ()" and book: "book_inv pr (cx_committee cx) (cx_sessions cx)"
    and same: "sb_chain_id (cx_sessions cx) = cx_chain_id cx" "sb_genesis_hash (cx_sessions cx) = cx_genesis_hash cx"
      "sb_epoch (cx_sessions cx) = c_epoch (cx_committee cx)"
  shows "backed pr (cx_committee cx) ct"
proof -
  have "signed_by pr (m_public_key (c_members (cx_committee cx) ! s)) (ct_checkpoint ct)" if s: "s \<in> set (ct_signers ct)" for s
  proof -
    obtain k where k: "k < length (ct_signers ct)" "ct_signers ct ! k = s" using s by (auto simp: in_set_conv_nth)
    obtain cert where cert: "book_get (cx_sessions cx) (ct_sessions ct ! k) = Some (s, cert)"
      "key_verify (prims pr) (sc_session_key cert) CHECKPOINT_VOTE_DOMAIN (checkpoint_digest pr (ct_checkpoint ct)) (ct_signatures ct ! k)"
      using certificate_vote_at [OF ok k(1)] k(2) by metis
    have "certifies pr cert (m_public_key (c_members (cx_committee cx) ! s)) (cx_chain_id cx) (cx_genesis_hash cx) (c_epoch (cx_committee cx))"
      using book cert(1) same unfolding book_inv_def book_get_def by auto
    then have "vote_signature_verify pr \<lparr>vs_session = cert, vs_signature = ct_signatures ct ! k\<rparr>
        (m_public_key (c_members (cx_committee cx) ! s)) (ct_checkpoint ct)"
      using cert(2) certificate_verify_signers(3-5) [OF ok] by (simp add: vote_signature_verify_def)
    then show ?thesis unfolding signed_by_def by blast
  qed
  then show ?thesis using certificate_verify_signers(1,2) [OF ok] by (simp add: backed_def)
qed

text \<open>The certificates a core reported.\<close>

definition reported :: "core_event list \<Rightarrow> certificate set" where
  "reported es = {ct. EvCertified ct \<in> set es \<or> EvEpochComplete ct \<in> set es}"

lemma reported_append [simp]: "reported (xs @ ys) = reported xs \<union> reported ys"
  by (auto simp: reported_def)

lemma reported_none [simp]:
  "reported [] = {}" "reported [EvEquivocation e] = {}" "reported [EvVerifierDisagreement i] = {}"
  "reported (map EvUnordered ps) = {}" "reported [EvCertified ct] = {ct}" "reported [EvEpochComplete ct] = {ct}"
  by (auto simp: reported_def)

definition cert_inv :: "codecs \<Rightarrow> committee \<Rightarrow> nat \<Rightarrow> digest \<Rightarrow> node \<Rightarrow> bool" where
  "cert_inv pr c chain genesis n \<longleftrightarrow>
     nd_committee n = c \<and> cfg_chain_id (nd_cfg n) = chain \<and> cfg_genesis_hash (nd_cfg n) = genesis
     \<and> book_inv pr c (nd_sessions n) \<and> sb_chain_id (nd_sessions n) = chain \<and> sb_genesis_hash (nd_sessions n) = genesis
     \<and> sb_epoch (nd_sessions n) = c_epoch c
     \<and> (\<forall>i e. vc_indices (nd_votes n) i = Some e \<longrightarrow> entry_inv pr c (vote_backed pr c chain genesis) i e)
     \<and> (\<forall>(i, ct) \<in> set (nd_certificates n). cp_index (ct_checkpoint ct) = i \<and> backed pr c ct)
     \<and> (\<forall>ct \<in> reported (co_events (nd_core n)). backed pr c ct)"

lemma cert_inv_new:
  "cert_inv (np_codecs np) c (cfg_chain_id cfg) (cfg_genesis_hash cfg) (node_new np cfg c me start)"
  by (simp add: cert_inv_def node_new_def core_new_def collector_new_def book_inv_new, simp add: book_new_def)

lemma cert_inv_event:
  "cert_inv pr c chain genesis n \<Longrightarrow> (\<And>ct. ct \<in> reported [ev] \<Longrightarrow> backed pr c ct) \<Longrightarrow> cert_inv pr c chain genesis (push_event ev n)"
  by (auto simp: cert_inv_def)

lemma cert_inv_disagreement: "cert_inv pr c chain genesis n \<Longrightarrow> cert_inv pr c chain genesis (on_disagreement i n)"
  unfolding on_disagreement_def by (intro cert_inv_event) (auto simp: cert_inv_def on_core_def)

lemma cert_inv_complete:
  assumes "cert_inv pr c chain genesis n" "backed pr c ct"
  shows "cert_inv pr c chain genesis (complete_epoch ct n)"
  unfolding complete_epoch_def Let_def using assms by (intro cert_inv_event) (auto simp: cert_inv_def)

lemma prune_indices: "vc_indices (collector_prune_below vc i) j = Some e \<Longrightarrow> vc_indices vc j = Some e"
  by (auto simp: collector_prune_below_def restrict_map_def split: if_splits)

lemma cert_inv_certified:
  assumes inv: "cert_inv pr c chain genesis n" and ct: "backed pr c ct"
  shows "cert_inv pr c chain genesis (on_certified ct n)"
proof (cases "map_of (nd_certificates n) (cp_index (ct_checkpoint ct)) = None")
  case True
  let ?i = "cp_index (ct_checkpoint ct)"
  define n1 where "n1 = on_core (\<lambda>c. c\<lparr>co_uncertified_payloads := bt_from (cp_last_height (ct_checkpoint ct) + 1) (co_uncertified_payloads c)\<rparr>) n"
  define n2 where "n2 = (if cp_next_committee_root (ct_checkpoint ct) \<noteq> None \<and> \<not> co_epoch_closed (nd_core n1)
    then n1\<lparr>nd_certified_handover_index := ?i + cfg_handover_confirmations (nd_cfg n1)\<rparr> else n1)"
  define n3 where "n3 = n2\<lparr>nd_certificates := bt_keep_last 8 (bt_put ?i ct (nd_certificates n2)),
    nd_votes := collector_prune_below (nd_votes n2) (sat_sub ?i 16), nd_own_votes := bt_from (?i + 1) (nd_own_votes n2)\<rparr>"
  have "cert_inv pr c chain genesis n2" using inv by (auto simp: n1_def n2_def on_core_def cert_inv_def)
  then have "cert_inv pr c chain genesis n3"
    using ct unfolding n3_def cert_inv_def
    by (auto simp: bt_put_set dest!: bt_keep_last_set prune_indices)
  then show ?thesis
    using True ct cert_inv_event cert_inv_complete
    unfolding on_certified_def Let_def n1_def [symmetric] n2_def [symmetric] n3_def [symmetric] by (auto intro!: cert_inv_event)
qed (use inv in \<open>simp add: on_certified_def\<close>)

lemma cert_inv_admit:
  assumes "cert_inv pr c chain genesis n"
  shows "cert_inv pr c chain genesis (n\<lparr>nd_sessions := snd (admit pr (nd_sessions n) (nd_committee n) s)\<rparr>)"
  using assms book_inv_admit [of pr c "nd_sessions n" s] by (simp add: cert_inv_def admit_frame)

lemma cert_inv_collector:
  assumes inv: "cert_inv pr c chain genesis n" and v: "vote_backed pr c chain genesis v"
    and add: "collector_add pr c (nd_votes n) v = (out, votes)"
  shows "cert_inv pr c chain genesis (n\<lparr>nd_votes := votes\<rparr>)" "out = Certified ct \<Longrightarrow> backed pr c ct"
proof -
  let ?ok = "vote_backed pr c chain genesis" and ?i = "cp_index (cv_checkpoint v)"
  have "(\<forall>j e. vc_indices votes j = Some e \<longrightarrow> entry_inv pr c ?ok j e) \<and> (\<forall>ct. out = Certified ct \<longrightarrow> backed pr c ct)"
  proof (cases "?i < vc_floor (nd_votes n)")
    case True
    then show ?thesis using add inv by (auto simp: collector_add_def cert_inv_def)
  next
    case False
    obtain e' where e': "add_entry pr c (index_entry (nd_votes n) ?i) v = (out, e')" "votes = (nd_votes n)\<lparr>vc_indices := (vc_indices (nd_votes n))(?i \<mapsto> e')\<rparr>"
      using add False by (auto simp: collector_add_def Let_def split: prod.splits)
    have e: "entry_inv pr c ?ok ?i (index_entry (nd_votes n) ?i)"
      using inv entry_inv_default by (auto simp: cert_inv_def index_entry_def split: option.splits)
    from e v refl e'(1) have "entry_inv pr c ?ok ?i e' \<and> (\<forall>ct. out = Certified ct \<longrightarrow> backed pr c ct)"
    proof (cases rule: add_entry_cases)
      case seen
      then show ?thesis using e by simp
    next
      case (certified ct)
      then show ?thesis using formed_backed(1) by simp
    qed simp_all
    then show ?thesis using inv e'(2) by (auto simp: cert_inv_def)
  qed
  then show "cert_inv pr c chain genesis (n\<lparr>nd_votes := votes\<rparr>)" "out = Certified ct \<Longrightarrow> backed pr c ct"
    using inv by (simp_all add: cert_inv_def)
qed

lemma cert_inv_count:
  assumes inv: "cert_inv (np_codecs np) c chain genesis n" and v: "vote_backed (np_codecs np) c chain genesis v"
  shows "cert_inv (np_codecs np) c chain genesis (count_vote np v n)"
proof -
  obtain r book where adm: "admit (np_codecs np) (nd_sessions n) (nd_committee n) (vs_session (cv_signature v)) = (r, book)"
    by (metis surj_pair)
  have n1: "cert_inv (np_codecs np) c chain genesis (n\<lparr>nd_sessions := book\<rparr>)"
    using cert_inv_admit [OF inv, of "vs_session (cv_signature v)"] adm by simp
  obtain out votes where add: "collector_add (np_codecs np) c (nd_votes n) v = (out, votes)" by (metis surj_pair)
  have c: "nd_committee n = c" using inv by (simp add: cert_inv_def)
  note n2 = cert_inv_collector [OF n1 v, simplified, OF add]
  show ?thesis
    using n1 n2 cert_inv_certified [OF n2(1)]
    unfolding count_vote_def adm Let_def
    by (auto simp: c add split: sum.splits vote_outcome.splits option.splits intro!: cert_inv_event)
qed

lemma cert_inv_vote:
  assumes "cert_inv (np_codecs np) c chain genesis n"
  shows "cert_inv (np_codecs np) c chain genesis (on_vote np v n)"
proof -
  have base: "nd_committee n = c" "cfg_chain_id (nd_cfg n) = chain" "cfg_genesis_hash (nd_cfg n) = genesis"
    using assms by (simp_all add: cert_inv_def)
  have "vote_backed (np_codecs np) c chain genesis v"
    if "c_member c (cv_signer v) = Some mem" "cp_epoch (cv_checkpoint v) = c_epoch c" "cp_chain_id (cv_checkpoint v) = chain"
      "cp_genesis_hash (cv_checkpoint v) = genesis" "vote_verify (np_codecs np) v (m_public_key mem)" for mem
    using that by (auto simp: vote_backed_def c_member_def member_set_def split: if_splits)
  then show ?thesis
    using assms cert_inv_count [OF assms] cert_inv_disagreement [OF assms]
    by (auto simp: on_vote_def Let_def base split: option.splits)
qed

lemma cert_inv_own_vote:
  assumes inv: "cert_inv (np_codecs np) c chain genesis n"
    and v: "cp_epoch (cv_checkpoint v) = c_epoch c \<Longrightarrow> vote_backed (np_codecs np) c chain genesis v"
  shows "cert_inv (np_codecs np) c chain genesis (on_own_vote np v n)"
proof (cases "cp_epoch (cv_checkpoint v) = c_epoch c")
  case True
  let ?n = "if map_of (nd_certificates n) (cp_index (cv_checkpoint v)) = None
    then n\<lparr>nd_own_votes := bt_put (cp_index (cv_checkpoint v)) v (nd_own_votes n)\<rparr> else n"
  have "cert_inv (np_codecs np) c chain genesis (send All (MsgVote v) ?n)" using inv by (simp add: cert_inv_def)
  from cert_inv_count [OF this v [OF True]] show ?thesis
    using True inv by (simp add: on_own_vote_def Let_def cert_inv_def [of _ _ _ _ n])
qed (use inv in \<open>simp add: on_own_vote_def cert_inv_def\<close>)

lemma cert_inv_equivocations:
  "cert_inv pr c chain genesis n \<Longrightarrow> cert_inv pr c chain genesis (foldl (\<lambda>n (_, e). push_event (EvEquivocation e) n) n es)"
proof (induction es arbitrary: n)
  case (Cons e es)
  from Cons.IH [OF cert_inv_event [OF Cons.prems, of "EvEquivocation (snd e)"]] show ?case by (simp add: case_prod_beta)
qed simp

lemma cert_inv_certificate:
  assumes inv: "cert_inv (np_codecs np) c chain genesis n"
  shows "cert_inv (np_codecs np) c chain genesis (on_certificate np ct n)"
proof -
  have "backed (np_codecs np) c ct" if "certificate_verify (np_codecs np) ct (node_context n) = Inr ()"
    using verified_backed [OF that] inv by (simp add: cert_inv_def node_context_def)
  then show ?thesis
    using inv cert_inv_certified [OF inv] cert_inv_disagreement [OF inv] cert_inv_equivocations [OF inv]
    by (auto simp: on_certificate_def Let_def split: option.splits)
qed

lemma cert_inv_sessions:
  "cert_inv (np_codecs np) c chain genesis n \<Longrightarrow> cert_inv (np_codecs np) c chain genesis (snd (admit_sessions np i ss n))"
  by (induction ss arbitrary: n) (auto simp: cert_inv_disagreement cert_inv_admit)

lemma cert_inv_adopt:
  assumes "cert_inv (np_codecs np) c chain genesis n"
  shows "cert_inv (np_codecs np) c chain genesis (adopt_certificate np ct ss n)"
    "cert_inv (np_codecs np) c chain genesis (adopt_handover np ct ss n)"
proof -
  obtain b n1 where n1: "admit_sessions np (cp_index (ct_checkpoint ct)) ss n = (b, n1)" by (metis surj_pair)
  have inv: "cert_inv (np_codecs np) c chain genesis n1" using cert_inv_sessions [OF assms] n1 by (metis snd_conv)
  then show "cert_inv (np_codecs np) c chain genesis (adopt_certificate np ct ss n)"
    using cert_inv_certificate by (simp add: adopt_certificate_def n1 split: bool.splits)
  let ?n2 = "n1\<lparr>nd_certified_handover_index := cp_index (ct_checkpoint ct)\<rparr>"
  have n2: "cert_inv (np_codecs np) c chain genesis ?n2" using inv by (simp add: cert_inv_def)
  have held: "backed (np_codecs np) c held" if "map_of (nd_certificates n1) i = Some held" for i held
    using inv map_of_SomeD [OF that] by (auto simp: cert_inv_def)
  show "cert_inv (np_codecs np) c chain genesis (adopt_handover np ct ss n)"
    using inv cert_inv_certificate [OF inv] cert_inv_certificate [OF n2] cert_inv_disagreement [OF inv]
      cert_inv_complete [OF n2] held
    by (auto simp: adopt_handover_def Let_def n1 split: bool.splits option.splits)
qed

section \<open>Runs of the certification\<close>

text \<open>
  The inputs of the certification in any order; everything else a core does leaves its votes, sessions
  and certificates alone and reports no certificate. A validator's own votes are those its signer
  released.
\<close>

inductive certification_run :: "node_params \<Rightarrow> node \<Rightarrow> node \<Rightarrow> bool" for np n0 where
  begin_run: "certification_run np n0 n0"
| run_vote: "certification_run np n0 n \<Longrightarrow> certification_run np n0 (on_vote np v n)"
| run_own_vote: "certification_run np n0 n \<Longrightarrow>
    vote_backed (np_codecs np) (nd_committee n) (cfg_chain_id (nd_cfg n)) (cfg_genesis_hash (nd_cfg n)) v \<Longrightarrow>
    certification_run np n0 (on_own_vote np v n)"
| run_certificate: "certification_run np n0 n \<Longrightarrow> certification_run np n0 (on_certificate np ct n)"
| run_adopt: "certification_run np n0 n \<Longrightarrow> certification_run np n0 (adopt_certificate np ct ss n)"
| run_handover: "certification_run np n0 n \<Longrightarrow> certification_run np n0 (adopt_handover np ct ss n)"
| run_other: "certification_run np n0 n \<Longrightarrow> nd_committee n' = nd_committee n \<Longrightarrow> nd_cfg n' = nd_cfg n \<Longrightarrow>
    nd_votes n' = nd_votes n \<Longrightarrow> nd_sessions n' = nd_sessions n \<Longrightarrow> nd_certificates n' = nd_certificates n \<Longrightarrow>
    reported (co_events (nd_core n')) \<subseteq> reported (co_events (nd_core n)) \<Longrightarrow> certification_run np n0 n'"

lemma cert_inv_run:
  assumes "certification_run np n0 n" "cert_inv (np_codecs np) c chain genesis n0"
  shows "cert_inv (np_codecs np) c chain genesis n"
  using assms
proof (induction rule: certification_run.induct)
  case (run_own_vote n v)
  then have inv: "cert_inv (np_codecs np) c chain genesis n" by simp
  then have "nd_committee n = c" "cfg_chain_id (nd_cfg n) = chain" "cfg_genesis_hash (nd_cfg n) = genesis" unfolding cert_inv_def by blast+
  then show ?case using cert_inv_own_vote [OF inv, of v] run_own_vote.hyps by simp
next
  case (run_other n n')
  have "cert_inv (np_codecs np) c chain genesis n" using run_other.IH run_other.prems .
  then show ?case using run_other.hyps(7) unfolding cert_inv_def run_other.hyps(2-6) by blast
qed (simp_all add: cert_inv_vote cert_inv_certificate cert_inv_adopt)

text \<open>
  Signatures are not forged: a signature by the hardware key of an honest member stands behind a vote
  that member released.
\<close>

definition keys_honest :: "codecs \<Rightarrow> committee \<Rightarrow> validator_index set \<Rightarrow> (validator_index \<Rightarrow> checkpoint_vote list) \<Rightarrow> bool" where
  "keys_honest pr c H votes \<longleftrightarrow>
     (\<forall>s \<in> H. \<forall>cp. signed_by pr (m_public_key (c_members c ! s)) cp \<longrightarrow>
        (\<exists>v \<in> set (votes s). checkpoint_digest pr (cv_checkpoint v) = checkpoint_digest pr cp))"

lemma backed_overlap:
  assumes wf: "wf_committee c" and few: "sum (c_seats c) (member_set c - H) \<le> max_faulty c"
    and a: "backed pr c a" and b: "backed pr c b"
  obtains s where "s \<in> H" "s \<in> member_set c" "signed_by pr (m_public_key (c_members c ! s)) (ct_checkpoint a)"
    "signed_by pr (m_public_key (c_members c ! s)) (ct_checkpoint b)"
proof -
  let ?Q = "set (ct_signers a) \<inter> set (ct_signers b)"
  have over: "max_faulty c < sum (c_seats c) ?Q"
    using a b unfolding backed_def by (intro cq.quorums_overlap [OF wf]) (simp_all add: quorum_def)
  have "?Q \<subseteq> member_set c" using a unfolding backed_def by blast
  have "\<not> ?Q \<subseteq> member_set c - H"
  proof
    assume "?Q \<subseteq> member_set c - H"
    then have "sum (c_seats c) ?Q \<le> sum (c_seats c) (member_set c - H)" by (intro sum_mono2) (simp_all add: member_set_def)
    then show False using over few by simp
  qed
  then obtain s where "s \<in> ?Q" "s \<in> H" using \<open>?Q \<subseteq> member_set c\<close> by blast
  then show thesis using that [of s] a b unfolding backed_def by blast
qed

lemma signed_requested:
  assumes "v \<in> set (snd (foldl (sign_step pr me) (hs, []) reqs))"
  shows "\<exists>signer cert fault. (signer, cert, fault, cv_checkpoint v) \<in> set reqs"
proof -
  have "v \<in> set votes \<or> (\<exists>signer cert fault. (signer, cert, fault, cv_checkpoint v) \<in> set reqs)"
    if "v \<in> set (snd (foldl (sign_step pr me) (hs, votes) reqs))" for hs votes
    using that
  proof (induction reqs arbitrary: hs votes)
    case (Cons req reqs)
    obtain signer cert fault cp where req: "req = (signer, cert, fault, cp)" by (cases req) auto
    obtain r hs' where r: "sign_checkpoint pr signer cert fault hs me cp = (r, hs')" by (metis surj_pair)
    have "cv_checkpoint w = cp" if "r = Inr w" for w
      using r that by (auto simp: sign_checkpoint_def Let_def split: if_splits sum.splits prod.splits)
    then show ?case
      using Cons.IH [of hs' "case r of Inl _ \<Rightarrow> votes | Inr w \<Rightarrow> votes @ [w]"] Cons.prems
      by (cases r) (auto simp: sign_step_def req r)
  qed simp
  from this [OF assms] show ?thesis by simp
qed

text \<open>
  Property C4. Finality is consistent. Whatever votes and certificates two validators receive, the
  checkpoints they report as certified for one index are the same checkpoint, when the members
  outside \<open>H\<close> hold at most \<open>max_faulty\<close> seats, honest keys are not forged, the digests of the
  checkpoints in play do not collide, and honest members sign through the persisted high-water mark.
\<close>

theorem certified_checkpoints_agree:
  assumes "wf_committee c" "sum (c_seats c) (member_set c - H) \<le> max_faulty c"
    and "certification_run np (node_new np cfg c p start) n1" "certification_run np (node_new np cfg c q start') n2"
    and "keys_honest (np_codecs np) c H (\<lambda>s. snd (foldl (sign_step (np_codecs np) s) (hs_empty, []) (requests s)))"
    and "mono f" "\<forall>s \<in> H. \<forall>(signer, cert, fault, cp) \<in> set (requests s). cp_epoch cp = f (cp_index cp) \<and> cp \<in> U"
    and "inj_on (checkpoint_digest (np_codecs np)) U"
    and "ct1 \<in> reported (co_events (nd_core n1))" "ct2 \<in> reported (co_events (nd_core n2))"
    and "ct_checkpoint ct1 \<in> U" "ct_checkpoint ct2 \<in> U" "cp_index (ct_checkpoint ct1) = cp_index (ct_checkpoint ct2)"
  shows "ct_checkpoint ct1 = ct_checkpoint ct2"
proof -
  let ?pr = "np_codecs np" let ?votes = "\<lambda>s. snd (foldl (sign_step ?pr s) (hs_empty, []) (requests s))"
  have "backed ?pr c ct1" "backed ?pr c ct2"
    using cert_inv_run [OF assms(3) cert_inv_new] cert_inv_run [OF assms(4) cert_inv_new] assms(9,10) by (auto simp: cert_inv_def)
  then obtain s where s: "s \<in> H" "signed_by ?pr (m_public_key (c_members c ! s)) (ct_checkpoint ct1)"
    "signed_by ?pr (m_public_key (c_members c ! s)) (ct_checkpoint ct2)"
    by (rule backed_overlap [OF assms(1,2)])
  obtain v w where v: "v \<in> set (?votes s)" "checkpoint_digest ?pr (cv_checkpoint v) = checkpoint_digest ?pr (ct_checkpoint ct1)"
    and w: "w \<in> set (?votes s)" "checkpoint_digest ?pr (cv_checkpoint w) = checkpoint_digest ?pr (ct_checkpoint ct2)"
    using assms(5) s unfolding keys_honest_def by blast
  have reqs: "\<forall>(signer, cert, fault, cp) \<in> set (requests s). cp_epoch cp = f (cp_index cp)"
    "\<forall>(signer, cert, fault, cp) \<in> set (requests s). cp \<in> U"
    using assms(7) s(1) by auto
  have "cv_checkpoint v \<in> U" "cv_checkpoint w \<in> U" using signed_requested [OF v(1)] signed_requested [OF w(1)] reqs(2) by auto
  then have "cv_checkpoint v = ct_checkpoint ct1" "cv_checkpoint w = ct_checkpoint ct2"
    using v(2) w(2) assms(8,11,12) by (simp_all add: inj_on_def)
  moreover have "checkpoint_digest ?pr (cv_checkpoint v) = checkpoint_digest ?pr (cv_checkpoint w)"
    using signed_once [OF assms(6) reqs(1) v(1) w(1)] calculation assms(13) by simp
  ultimately show ?thesis using assms(8,11,12) by (simp add: inj_on_def)
qed

text \<open>A validator alone in its committee certifies with its own vote.\<close>

definition solo_params :: node_params where
  "solo_params = \<lparr>np_core = \<lparr>pm_draw = (\<lambda>_ _ _. 0), pm_seed = (\<lambda>d. d), pm_epoch_seed = (\<lambda>_ d. d), pm_codecs = demo_codecs,
       pm_ordering_bytes = (\<lambda>_. [])\<rparr>, np_vdigest = (\<lambda>_. []), np_bdigest = (\<lambda>_. []), np_libcrux = (\<lambda>_ _ _ _. True),
     np_held_order = (\<lambda>xs. xs), np_wanted_order = (\<lambda>xs. xs), np_peer_order = (\<lambda>xs. xs)\<rparr>"

definition solo_config :: core_config where
  "solo_config = \<lparr>cfg_chain_id = 7, cfg_genesis_hash = demo_hash, cfg_leader_timeout_ms = 400, cfg_min_round_interval_ms = 100,
     cfg_leader_slots = 1, cfg_checkpoint_interval_ms = 500, cfg_gc_depth = 50, cfg_max_weak_refs = 64, cfg_max_rounds_ahead = 100,
     cfg_epoch_checkpoints = 100, cfg_handover_confirmations = 2, cfg_fetch_retry_ms = 200, cfg_idle_round_interval_ms = 1000\<rparr>"

definition solo_start :: epoch_start where
  "solo_start = \<lparr>es_first_height = 1, es_first_checkpoint = 0, es_prev_checkpoint = [], es_timestamp_ms = 0, es_base_blocks = [],
     es_leader_lookahead_rounds = 4\<rparr>"

definition solo_node :: node where
  "solo_node = node_new solo_params solo_config (solo_committee 0) 0 solo_start"

lemma solo_node_fields:
  "nd_committee solo_node = solo_committee 0" "cfg_chain_id (nd_cfg solo_node) = 7" "cfg_genesis_hash (nd_cfg solo_node) = demo_hash"
  "nd_sessions solo_node = book_new 7 demo_hash 0" "nd_votes solo_node = collector_new" "nd_certificates solo_node = []"
  "co_events (nd_core solo_node) = []" "co_handover_index (nd_core solo_node) = uint_max 64"
  "nd_certified_handover_index solo_node = uint_max 64" "np_codecs solo_params = demo_codecs"
  by (simp_all add: solo_node_def node_new_def core_new_def solo_config_def solo_params_def)

lemma solo_vote_backed: "vote_backed demo_codecs (solo_committee 0) 7 demo_hash (demo_vote None)"
  using demo_key_verify [OF demo_like_codecs demo_domains(1)] demo_key_verify [OF demo_like_codecs demo_domains(2)] demo_like_codecs
  by (simp add: vote_backed_def vote_verify_def vote_signature_verify_def certifies_def demo_vote_def demo_checkpoint_def
      demo_session_def demo_member_def demo_like_def)

lemma solo_counts: "\<exists>ct. co_events (nd_core (count_vote solo_params (demo_vote None) (solo_node\<lparr>nd_own_votes := ov, nd_outbox := ob\<rparr>))) = [EvCertified ct]
    \<and> ct_checkpoint ct = demo_checkpoint 0 None"
proof -
  have vote: "cv_signer (demo_vote None) = 0" "cv_checkpoint (demo_vote None) = demo_checkpoint 0 None"
    "vs_session (cv_signature (demo_vote None)) = demo_session 0"
    by (simp_all add: demo_vote_def)
  have cp: "cp_index (demo_checkpoint 0 None) = 0" "cp_next_committee_root (demo_checkpoint 0 None) = None"
    by (simp_all add: demo_checkpoint_def)
  obtain e' ct where add: "add_entry demo_codecs (solo_committee 0) iv_default (demo_vote None) = (Certified ct, e')" "ct_checkpoint ct = demo_checkpoint 0 None"
    by (simp add: add_entry_def Let_def iv_default_def vote form_certificate_def seatset.ins_weight seatset.elems_empty seatset.weight_empty)
  have col: "collector_add demo_codecs (solo_committee 0) collector_new (demo_vote None) = (Certified ct, collector_new\<lparr>vc_indices := [0 \<mapsto> e']\<rparr>)"
    using add by (simp add: collector_add_def collector_new_def index_entry_def vote cp)
  show ?thesis
    using add(2) by (simp add: count_vote_def Let_def solo_node_fields vote cp demo_admit col on_certified_def
        on_core_def push_event_def uint_max_def)
qed

lemma solo_own_vote: "\<exists>ct \<in> reported (co_events (nd_core (on_own_vote solo_params (demo_vote None) solo_node))).
    ct_checkpoint ct = demo_checkpoint 0 None"
  using solo_counts [where ov = "bt_put 0 (demo_vote None) (nd_own_votes solo_node)" and ob = "nd_outbox solo_node @ [(All, MsgVote (demo_vote None))]"]
  by (auto simp: on_own_vote_def Let_def solo_node_fields demo_vote_def demo_checkpoint_def send_def reported_def)

lemma solo_received_vote: "\<exists>ct \<in> reported (co_events (nd_core (on_vote solo_params (demo_vote None) solo_node))).
    ct_checkpoint ct = demo_checkpoint 0 None"
proof -
  have "agree (nd_ml_dsa solo_node) demo_codecs demo_key domain msg demo_sig" for domain msg
    by (simp add: agree_def solo_node_def node_new_def verifiers_default_def verify_ml_dsa_for_def demo_key_def demo_sig_def
        default_scheme_def solo_params_def demo_codecs_def primitives.truncate_def split: option.splits)
  then have "vote_agrees (nd_ml_dsa solo_node) demo_codecs (solo_committee 0) (demo_vote None)"
    by (simp add: vote_agrees_def session_agrees_def demo_vote_def demo_session_def demo_member_def)
  moreover have "vote_verify demo_codecs (demo_vote None) demo_key"
    using solo_vote_backed by (simp add: vote_backed_def demo_vote_def demo_member_def)
  ultimately have "on_vote solo_params (demo_vote None) solo_node = count_vote solo_params (demo_vote None) solo_node"
    by (simp add: on_vote_def Let_def solo_node_fields c_member_def demo_member_def demo_vote_def demo_checkpoint_def)
  then show ?thesis using solo_counts [where ov = "nd_own_votes solo_node" and ob = "nd_outbox solo_node"] by (auto simp: reported_def)
qed

theorem certified_checkpoints_agree_witness:
  "\<exists>ct1 ct2. ct1 \<in> reported (co_events (nd_core (on_own_vote solo_params (demo_vote None) solo_node)))
     \<and> ct2 \<in> reported (co_events (nd_core (on_vote solo_params (demo_vote None) solo_node)))
     \<and> ct_checkpoint ct1 = ct_checkpoint ct2"
proof -
  let ?cp = "demo_checkpoint 0 None" and ?c = "solo_committee 0"
  let ?reqs = "\<lambda>s :: nat. [(demo_signer, demo_session 0, NoFault, demo_checkpoint 0 None)]"
  obtain ct1 ct2 where ct: "ct1 \<in> reported (co_events (nd_core (on_own_vote solo_params (demo_vote None) solo_node)))" "ct_checkpoint ct1 = ?cp"
    "ct2 \<in> reported (co_events (nd_core (on_vote solo_params (demo_vote None) solo_node)))" "ct_checkpoint ct2 = ?cp"
    using solo_own_vote solo_received_vote by blast
  have runs: "certification_run solo_params solo_node (on_own_vote solo_params (demo_vote None) solo_node)"
    "certification_run solo_params solo_node (on_vote solo_params (demo_vote None) solo_node)"
    using solo_vote_backed by (auto simp: solo_node_fields intro!: certification_run.intros)
  have signed: "snd (foldl (sign_step demo_codecs s) (hs_empty, []) (?reqs s)) \<noteq> []" for s
    by (simp add: sign_step_def sign_checkpoint_def demo_signer_def demo_session_def demo_checkpoint_def Let_def record_vote_def
        check_high_water_def hs_empty_def)
  have same: "checkpoint_digest demo_codecs cp = checkpoint_digest demo_codecs cp'" for cp cp'
    by (simp add: checkpoint_digest_def digest_under_def CHECKPOINT_DIGEST_SCHEMES_def scheme_from_def demo_codecs_def)
  have honest: "keys_honest (np_codecs solo_params) ?c {0} (\<lambda>s. snd (foldl (sign_step (np_codecs solo_params) s) (hs_empty, []) (?reqs s)))"
    unfolding keys_honest_def solo_node_fields using same signed by (metis list.set_intros(1) neq_Nil_conv)
  have "ct_checkpoint ct1 = ct_checkpoint ct2"
    by (rule certified_checkpoints_agree [OF wf_solo _ runs [unfolded solo_node_def] honest, where f = "\<lambda>i. i" and U = "{?cp}"])
      (use ct in \<open>simp_all add: mono_def demo_checkpoint_def [of 0] solo_node_def\<close>)
  then show ?thesis using ct by blast
qed

end
