(* ===== verification/Node.thy ===== *)
theory Node
  imports Rounds Certification
begin

text \<open>
  The inputs of a validator (\<^verbatim>\<open>crates/tenzro-consensus/src/core.rs\<close>): messages, ticks, channels, and
  the repair of what was lost; resuming from a certified checkpoint and recovering from the journal.
  A handler is \<open>None\<close> where the source panics.
\<close>

definition MAX_FETCHES_PER_FRAME :: nat where "MAX_FETCHES_PER_FRAME = 4"
definition MAX_BATCH_REPLY_BYTES :: nat where "MAX_BATCH_REPLY_BYTES = 8 * 2 ^ 20"
definition BATCH_REPLY_COOLDOWN_RETRIES :: nat where "BATCH_REPLY_COOLDOWN_RETRIES = 8"
definition MAX_SIGNALS_PER_FRAME :: nat where "MAX_SIGNALS_PER_FRAME = 4096"
definition LIVE_ROUNDS :: round where "LIVE_ROUNDS = 2"
definition MAX_BULK_FETCH :: nat where "MAX_BULK_FETCH = 256"

section \<open>Where a validator stands\<close>

definition rbc_slots :: "reliable_broadcast \<Rightarrow> (round \<times> validator_index) list" where
  "rbc_slots rb = sorted_list_of_set (dom (rb_instances rb))"

definition frontier_of :: "node \<Rightarrow> frontier" where
  "frontier_of n =
     (let c = nd_core n; g = w_dag c;
          upper = (case highest_round g of None \<Rightarrow> 0 | Some h \<Rightarrow> h);
          holes = undelivered_from (rbc_slots (co_rbc c)) (co_rbc c);
          below = (\<lambda>s. case holes s of
              Some hole \<Rightarrow> if hole \<le> g_floor g then None else Some (min (hole - 1) upper)
            | None \<Rightarrow> Some upper);
          found = (\<lambda>s. case below s of
              None \<Rightarrow> None
            | Some b \<Rightarrow> (case find (\<lambda>r. dag_at g r s \<noteq> None) (rev [g_floor g..<b + 1]) of
                None \<Rightarrow> None
              | Some r \<Rightarrow> Some \<lparr>r_round = r, r_source = s, r_digest = fst (the (dag_at g r s))\<rparr>))
      in \<lparr>fr_round = nd_round n, fr_highest = List.map_filter found [0..<c_size (w_committee c)],
          fr_next_checkpoint = (case last_entry (nd_certificates n) of
              None \<Rightarrow> es_first_checkpoint (nd_start n) | Some (i, _) \<Rightarrow> i + 1)\<rparr>)"

definition delivered_of :: "frontier \<Rightarrow> validator_index \<Rightarrow> round option" where
  "delivered_of f s =
     (let rs = map r_round (filter (\<lambda>r. r_source r = s) (fr_highest f)) in if rs = [] then None else Some (Max (set rs)))"

definition own_vertex :: "core \<Rightarrow> round \<Rightarrow> vertex option" where
  "own_vertex c r =
     (case dag_at (w_dag c) r (co_me c) of
        Some (_, v) \<Rightarrow> Some v
      | None \<Rightarrow> find (\<lambda>v. v_source v = co_me c \<and> v_round v = r) (map snd (co_bodies c)))"

definition on_frontier :: "validator_index \<Rightarrow> frontier \<Rightarrow> node \<Rightarrow> node" where
  "on_frontier peer f n =
     (case nd_round n of
        None \<Rightarrow> n
      | Some current \<Rightarrow>
          if (case nd_frontier_answered_ms n peer of None \<Rightarrow> False
              | Some t \<Rightarrow> sat_sub (nd_now_ms n) t < cfg_fetch_retry_ms (nd_cfg n)) then n
          else let n = n\<lparr>nd_frontier_answered_ms := (nd_frontier_answered_ms n)(peer \<mapsto> nd_now_ms n)\<rparr>;
                   c = nd_core n; floor = g_floor (w_dag c);
                   past = (\<lambda>s. case delivered_of f s of None \<Rightarrow> 0 | Some r \<Rightarrow> sat_add 64 r 1);
                   low = foldl (\<lambda>low s. min low (past s)) (case fr_round f of None \<Rightarrow> 0 | Some r \<Rightarrow> r) [0..<c_size (w_committee c)];
                   low = max low floor in
            if current < low then n
            else let own = List.map_filter (own_vertex c) [max (past (co_me c)) floor..<current + 1];
                     n = foldl (\<lambda>n v. send (One peer) (MsgPropose v) n) n own;
                     n = foldl (\<lambda>n ss. send (One peer) (MsgSignals ss) n) n
                           (chunks_of MAX_SIGNALS_PER_FRAME (sent_signals (rbc_slots (co_rbc c)) low (co_rbc c)));
                     n = foldl (\<lambda>n v. send (One peer) (MsgVote v) n) n (map snd (bt_from (fr_next_checkpoint f) (nd_own_votes n)))
                 in case last_entry (nd_certificates n) of
                      None \<Rightarrow> n
                    | Some (i, ct) \<Rightarrow> if fr_next_checkpoint f \<le> i then send (One peer) (MsgCertificate ct) n else n)"

definition stall_after_ms :: "node \<Rightarrow> nat" where
  "stall_after_ms n =
     (let pace = (if is_idle n then cfg_idle_round_interval_ms (nd_cfg n) else cfg_min_round_interval_ms (nd_cfg n))
      in sat_mul 64 (max (max (cfg_leader_timeout_ms (nd_cfg n)) (cfg_fetch_retry_ms (nd_cfg n))) pace) 2)"

definition repair_stall :: "nat \<Rightarrow> node \<Rightarrow> node" where
  "repair_stall now n =
     (if co_halted (nd_core n) \<or> nd_round n = None then n
      else if now < sat_add 64 (nd_round_entered_ms n) (stall_after_ms n) \<or> now < sat_add 64 (nd_last_repair_ms n) (stall_after_ms n) then n
      else let n = n\<lparr>nd_last_repair_ms := now\<rparr> in send All (MsgFrontier (frontier_of n)) n)"

section \<open>Fetches\<close>

definition batch_reply_cooldown_ms :: "node \<Rightarrow> nat" where
  "batch_reply_cooldown_ms n = sat_mul 64 (cfg_fetch_retry_ms (nd_cfg n)) BATCH_REPLY_COOLDOWN_RETRIES"

definition reply_step ::
  "validator_index \<Rightarrow> node \<times> nat \<times> batch_payload list \<Rightarrow> digest \<Rightarrow> node \<times> nat \<times> batch_payload list" where
  "reply_step peer = (\<lambda>(n, budget, found) d.
     case map_of (co_payloads (nd_core n)) d of
       None \<Rightarrow> (n, budget, found)
     | Some p \<Rightarrow>
         if (case nd_batch_replied n (peer, d) of None \<Rightarrow> False
             | Some t \<Rightarrow> sat_sub (nd_now_ms n) t < batch_reply_cooldown_ms n) then (n, budget, found)
         else let len = max (length (bp_body p)) 1 in
           if budget < len then (n, budget, found)
           else (n\<lparr>nd_batch_replied := (nd_batch_replied n)((peer, d) \<mapsto> nd_now_ms n)\<rparr>, budget - len, found @ [p]))"

definition answer_batch_fetch :: "validator_index \<Rightarrow> digest list \<Rightarrow> node \<Rightarrow> node" where
  "answer_batch_fetch peer ds n =
     (let used = (case nd_batch_reply_bytes n peer of None \<Rightarrow> 0 | Some b \<Rightarrow> b);
          budget0 = sat_sub MAX_BATCH_REPLY_BYTES used;
          (n, budget, found) = foldl (reply_step peer) (n, budget0, []) (take MAX_FETCH ds)
      in if found = [] then n
         else send (One peer) (MsgBatches found)
                (n\<lparr>nd_batch_reply_bytes := (nd_batch_reply_bytes n)(peer \<mapsto> used + (budget0 - budget))\<rparr>))"

definition take_outbox :: "node \<Rightarrow> (target \<times> message) list \<times> node" where
  "take_outbox n =
     (nd_outbox n,
      n\<lparr>nd_outbox := [], nd_batch_reply_bytes := Map.empty,
        nd_batch_replied := filter_map (\<lambda>_ t. sat_sub (nd_now_ms n) t < batch_reply_cooldown_ms n) (nd_batch_replied n)\<rparr>)"

definition digest_word :: "digest \<Rightarrow> nat" where
  "digest_word d = (case d of a # b # _ \<Rightarrow> unat a + unat b * 256 | _ \<Rightarrow> 0)"

definition pick_peer :: "nat \<Rightarrow> nat \<Rightarrow> nat \<Rightarrow> digest \<Rightarrow> validator_index" where
  "pick_peer members me attempts d =
     (let i = (digest_word d + attempts) mod (members - 1) in if me \<le> i then i + 1 else i)"

definition due_fetch :: "nat \<Rightarrow> nat \<Rightarrow> wanted \<Rightarrow> bool" where
  "due_fetch now retry w \<longleftrightarrow> wt_attempts w = 0 \<or> retry \<le> sat_sub now (wt_asked_ms w)"

definition asked :: "nat \<Rightarrow> wanted \<Rightarrow> wanted" where
  "asked now w = w\<lparr>wt_attempts := wt_attempts w + 1, wt_asked_ms := now\<rparr>"

definition fetch_vertex_step ::
  "node \<Rightarrow> nat \<Rightarrow> nat \<times> (validator_index \<times> digest) list \<times> (digest \<times> wanted) list \<Rightarrow> digest \<times> wanted
    \<Rightarrow> nat \<times> (validator_index \<times> digest) list \<times> (digest \<times> wanted) list" where
  "fetch_vertex_step n now = (\<lambda>(bulk, asks, out) (d, w).
     let c = nd_core n;
         live_from = sat_sub (case nd_round n of None \<Rightarrow> 0 | Some r \<Rightarrow> r) LIVE_ROUNDS;
         old = (case map_of (g_expected (w_dag c)) d of None \<Rightarrow> False | Some r \<Rightarrow> r < live_from) in
     if \<not> due_fetch now (cfg_fetch_retry_ms (nd_cfg n)) w \<or> old \<and> bulk = MAX_BULK_FETCH then (bulk, asks, out @ [(d, w)])
     else (if old then bulk + 1 else bulk, asks @ [(pick_peer (c_size (w_committee c)) (co_me c) (wt_attempts w) d, d)],
           out @ [(d, asked now w)]))"

definition fetch_batch_step ::
  "node \<Rightarrow> nat \<Rightarrow> (validator_index \<times> digest) list \<times> (digest \<times> wanted) list \<Rightarrow> digest \<times> wanted
    \<Rightarrow> (validator_index \<times> digest) list \<times> (digest \<times> wanted) list" where
  "fetch_batch_step n now = (\<lambda>(asks, out) (d, w).
     let pick = pick_peer (c_size (nd_committee n)) (nd_me n);
         p = (case wt_holder w of
                Some h \<Rightarrow> if h \<noteq> nd_me n then if even (wt_attempts w) then h else pick (wt_attempts w div 2) d
                          else pick (wt_attempts w) d
              | None \<Rightarrow> pick (wt_attempts w) d) in
     if due_fetch now (cfg_fetch_retry_ms (nd_cfg n)) w then (asks @ [(p, d)], out @ [(d, asked now w)])
     else (asks, out @ [(d, w)]))"

definition retry_fetches :: "node_params \<Rightarrow> nat \<Rightarrow> node \<Rightarrow> node" where
  "retry_fetches np now n =
     (if c_size (nd_committee n) < 2 then n
      else let c = nd_core n;
               (_, vasks, vs) = foldl (fetch_vertex_step n now) (0, [], []) (np_wanted_order np (co_wanted_vertices c));
               (basks, bs) = foldl (fetch_batch_step n now) ([], []) (np_wanted_order np (co_wanted_batches c));
               n = n\<lparr>nd_core := c\<lparr>co_wanted_vertices := vs, co_wanted_batches := bs\<rparr>\<rparr>;
               of_peer = (\<lambda>p asks. map snd (filter (\<lambda>a. fst a = p) asks))
           in foldl (\<lambda>n p.
                let n = foldl (\<lambda>n ds. send (One p) (MsgFetchVertices ds) n) n (chunks_of MAX_FETCH (of_peer p vasks))
                in foldl (\<lambda>n ds. send (One p) (MsgFetchBatches ds) n) n (chunks_of MAX_FETCH (of_peer p basks)))
              n (np_peer_order np (remdups (map fst vasks @ map fst basks))))"

section \<open>Resuming from a certified checkpoint\<close>

definition install :: "certificate \<Rightarrow> ordering_state \<Rightarrow> round option \<Rightarrow> nat \<Rightarrow> node_params \<Rightarrow> node \<Rightarrow> node" where
  "install ct st own_round now np n =
     (let c = nd_core n; index = cp_index (ct_checkpoint ct);
          g = snd (dag_prune_below (os_floor st) (with_vouching (map m_seats (c_members (w_committee c))) (validity (w_committee c))));
          a = avail_import (os_availability st);
          own_next = foldl max (released_through a (co_me c)) (concat (map (\<lambda>(author, es).
            if author = co_me c then map (\<lambda>(s, _). s + 1) es else []) (as_early (os_availability st))));
          c = c\<lparr>w_dag := g, co_ordered := os_ordered st, w_next_slot := os_next_slot st,
                co_last_committed := Some (os_anchor_round st), co_next_height := os_next_height st,
                co_last_timestamp_ms := os_last_timestamp_ms st, co_last_state_height := os_last_state_height st,
                co_last_checkpoint_height := os_last_checkpoint_height st, co_last_checkpoint_ts := os_last_checkpoint_ts st,
                co_next_checkpoint_index := index + 1, co_epoch_ends_ms := os_epoch_ends_ms st,
                co_epoch_closed := os_epoch_closed st, co_handover_index := os_handover_index st,
                co_seed_chain := (if os_seed_tail st = [] then [cp_prev (ct_checkpoint ct)] else os_seed_tail st),
                w_schedule := schedule_import (os_schedule st), co_availability := a,
                co_prev_checkpoint := checkpoint_digest (np_codecs np) (ct_checkpoint ct),
                co_decided := [], co_waiting := [], co_uncertified_payloads := [],
                co_ordering_states := bt_put index st (co_ordering_states c), co_wanted_vertices := []\<rparr>
      in n\<lparr>nd_core := c, nd_resuming := None,
           nd_journal := nd_journal n @ [RecResumed \<lparr>re_certificate = ct, re_state = st\<rparr>],
           nd_next_batch_sequence := max (nd_next_batch_sequence n) own_next,
           nd_round := opt_max own_round (Some (os_anchor_round st)), nd_round_entered_ms := now,
           nd_certificates := bt_put index ct (nd_certificates n)\<rparr>)"

definition resume :: "node_params \<Rightarrow> core_config \<Rightarrow> committee \<Rightarrow> validator_index \<Rightarrow> certificate \<Rightarrow> session_certificate list
    \<Rightarrow> round option \<Rightarrow> nat \<Rightarrow> nat \<Rightarrow> round \<Rightarrow> node" where
  "resume np cfg c me ct sessions own_round next_sequence executed_through lookahead =
     (let cp = ct_checkpoint ct;
          start = \<lparr>es_first_height = cp_last_height cp + 1, es_first_checkpoint = cp_index cp + 1,
             es_prev_checkpoint = checkpoint_digest (np_codecs np) cp, es_timestamp_ms = cp_timestamp_ms cp,
             es_base_blocks = [], es_leader_lookahead_rounds = lookahead\<rparr>;
          n = node_new np cfg c me start;
          n = n\<lparr>nd_sessions := admit_each (np_codecs np) c (nd_sessions n) sessions\<rparr>
      in n\<lparr>nd_core := (nd_core n)\<lparr>co_last_committed := Some (cp_anchor_round cp), co_executed_through := executed_through\<rparr>,
           nd_next_batch_sequence := next_sequence,
           nd_resuming := Some \<lparr>rs_certificate = ct, rs_own_round = own_round, rs_asked_ms = 0\<rparr>\<rparr>)"

definition reach_round :: "core \<Rightarrow> round option" where
  "reach_round c =
     (let waiting = (case List.map_filter (\<lambda>w. case w of WaitSegment s \<Rightarrow> Some (r_round (wg_anchor s)) | WaitEpochEnds _ \<Rightarrow> None) (co_waiting c) of
            [] \<Rightarrow> None | r # _ \<Rightarrow> Some r)
      in case (co_last_committed c, waiting) of
           (Some a, Some b) \<Rightarrow> Some (min a b)
         | (Some a, None) \<Rightarrow> Some a
         | (None, w) \<Rightarrow> w)"

definition ask_ordering :: "nat \<Rightarrow> node \<Rightarrow> node" where
  "ask_ordering now n =
     (case nd_resuming n of
        None \<Rightarrow> n
      | Some r \<Rightarrow>
          if rs_asked_ms r \<noteq> 0 \<and> now < sat_add 64 (rs_asked_ms r) (sat_mul 64 (max (cfg_fetch_retry_ms (nd_cfg n)) 1) 4) then n
          else send All (MsgFetchOrdering (cp_index (ct_checkpoint (rs_certificate r))))
                 (n\<lparr>nd_resuming := Some (r\<lparr>rs_asked_ms := max now 1\<rparr>)\<rparr>))"

definition on_ordering :: "node_params \<Rightarrow> ordering_state \<Rightarrow> node \<Rightarrow> node option" where
  "on_ordering np st n =
     (case nd_resuming n of
        None \<Rightarrow> Some n
      | Some r \<Rightarrow>
          (let cp = ct_checkpoint (rs_certificate r) in
           if os_index st \<noteq> cp_index cp \<or> os_epoch st \<noteq> cp_epoch cp \<or> ordering_digest (np_core np) st \<noteq> cp_ordering_root cp
           then Some n
           else let now = nd_now_ms n;
                    n = install (rs_certificate r) st (rs_own_round r) now np n;
                    n = n\<lparr>nd_last_repair_ms := now\<rparr>
                in progress np now (send All (MsgFrontier (frontier_of n)) n)))"

section \<open>Messages and ticks\<close>

definition fetch_vertices :: "validator_index \<Rightarrow> digest list \<Rightarrow> node \<Rightarrow> node" where
  "fetch_vertices peer ds n =
     (let c = nd_core n;
          found = List.map_filter (\<lambda>d. case dag_get (w_dag c) d of Some v \<Rightarrow> Some v
              | None \<Rightarrow> (case map_of (co_bodies c) d of Some v \<Rightarrow> Some v | None \<Rightarrow> co_history c d)) (take MAX_FETCH ds)
      in if found = [] then n else send (One peer) (MsgVertices found) n)"

definition on_vertex :: "node_params \<Rightarrow> node \<Rightarrow> vertex \<Rightarrow> node" where
  "on_vertex np n v =
     (let d = np_vdigest np v; c = nd_core n;
          unwanted = on_core (\<lambda>c. c\<lparr>co_wanted_vertices := al_del d (co_wanted_vertices c)\<rparr>) n in
      if check_structure v (nd_committee n) \<noteq> Inr () then n
      else if is_expected (w_dag c) d then core_offer np v unwanted
      else if map_of (co_wanted_vertices c) d \<noteq> None
      then if \<not> dag_contains (w_dag c) d then core_hold np v unwanted else unwanted
      else n)"

definition on_message :: "node_params \<Rightarrow> validator_index \<Rightarrow> message \<Rightarrow> node \<Rightarrow> node" where
  "on_message np sender msg n =
     (case msg of
        MsgPropose v \<Rightarrow> core_propose np sender v n
      | MsgSignals signals \<Rightarrow>
          (let limit = horizon n in foldl (\<lambda>n s. if limit < s_round s then n else core_signal np sender s n) n signals)
      | MsgBatch p \<Rightarrow> on_batch np sender p n
      | MsgFetchVertices ds \<Rightarrow>
          if MAX_FETCHES_PER_FRAME \<le> nd_frame_fetches n then n
          else fetch_vertices sender ds (n\<lparr>nd_frame_fetches := nd_frame_fetches n + 1\<rparr>)
      | MsgVertices vs \<Rightarrow> foldl (on_vertex np) n vs
      | MsgFetchBatches ds \<Rightarrow>
          if MAX_FETCHES_PER_FRAME \<le> nd_frame_fetches n then n
          else answer_batch_fetch sender ds (n\<lparr>nd_frame_fetches := nd_frame_fetches n + 1\<rparr>)
      | MsgBatches ps \<Rightarrow> foldl (on_fetched_batch np) n ps
      | MsgVote v \<Rightarrow> on_vote np v n
      | MsgCertificate ct \<Rightarrow> on_certificate np ct n
      | MsgFrontier f \<Rightarrow>
          if nd_frame_answered_frontier n then n else on_frontier sender f (n\<lparr>nd_frame_answered_frontier := True\<rparr>)
      | MsgFetchOrdering index \<Rightarrow>
          if nd_frame_answered_ordering n then n
          else (let n = n\<lparr>nd_frame_answered_ordering := True\<rparr> in
                case map_of (co_ordering_states (nd_core n)) index of
                  None \<Rightarrow> n | Some st \<Rightarrow> send (One sender) (MsgOrdering st) n)
      | MsgOrdering _ \<Rightarrow> n)"

fun take_orderings :: "node_params \<Rightarrow> message list \<Rightarrow> node \<Rightarrow> node option" where
  "take_orderings np [] n = Some n"
| "take_orderings np (MsgOrdering st # ms) n = Option.bind (on_ordering np st n) (take_orderings np ms)"
| "take_orderings np (_ # ms) n = take_orderings np ms n"

definition on_messages :: "node_params \<Rightarrow> validator_index \<Rightarrow> message list \<Rightarrow> nat \<Rightarrow> node \<Rightarrow> node option" where
  "on_messages np sender ms now n =
     (if sender = nd_me n \<or> c_member (nd_committee n) sender = None then Some n
      else let n = n\<lparr>nd_now_ms := now\<rparr> in
        if nd_resuming n \<noteq> None then take_orderings np ms n
        else let n = n\<lparr>nd_frame_fetches := 0, nd_frame_answered_frontier := False, nd_frame_answered_ordering := False\<rparr>;
                 n = foldl (\<lambda>n msg. on_message np sender msg n) n ms
             in progress np now (echo_held np n))"

definition on_tick :: "node_params \<Rightarrow> nat \<Rightarrow> node \<Rightarrow> node option" where
  "on_tick np now n =
     (let n = n\<lparr>nd_now_ms := now\<rparr> in
      if nd_resuming n \<noteq> None then Some (ask_ordering now n)
      else map_option (repair_stall now) (progress np now (retry_fetches np now n)))"

definition start_epoch :: "node_params \<Rightarrow> nat \<Rightarrow> node \<Rightarrow> node" where
  "start_epoch np now n =
     (let n = n\<lparr>nd_now_ms := now, nd_started := True,
            nd_connected := snd (ss_insert (nd_connected n) (nd_me n) (c_seats (nd_committee n) (nd_me n)))\<rparr>
      in if nd_resuming n \<noteq> None then ask_ordering now n else try_start np now n)"

definition on_peer_up :: "node_params \<Rightarrow> validator_index \<Rightarrow> nat \<Rightarrow> node \<Rightarrow> node" where
  "on_peer_up np peer now n =
     (if peer = nd_me n \<or> c_member (nd_committee n) peer = None then n
      else let n = n\<lparr>nd_now_ms := now,
                 nd_connected := snd (ss_insert (nd_connected n) peer (c_seats (nd_committee n) peer))\<rparr>
           in case nd_resuming n of
                Some r \<Rightarrow> send (One peer) (MsgFetchOrdering (cp_index (ct_checkpoint (rs_certificate r)))) n
              | None \<Rightarrow> try_start np now (send (One peer) (MsgFrontier (frontier_of n)) n))"

definition hold_frontier :: "bool \<Rightarrow> node \<Rightarrow> node" where
  "hold_frontier held n = n\<lparr>nd_frontier_held := held\<rparr>"

definition take_events :: "node \<Rightarrow> core_event list \<times> node" where
  "take_events n = (co_events (nd_core n), on_core (\<lambda>c. c\<lparr>co_events := []\<rparr>) n)"

definition take_journal :: "node \<Rightarrow> journal_record list \<times> node" where
  "take_journal n = (nd_journal n, n\<lparr>nd_journal := []\<rparr>)"

definition take_skipped :: "node \<Rightarrow> (round \<times> validator_index) list \<times> node" where
  "take_skipped n = (co_skipped_slots (nd_core n), on_core (\<lambda>c. c\<lparr>co_skipped_slots := []\<rparr>) n)"

section \<open>Recovering from the journal\<close>

text \<open>The records of one kind, in the order of the journal.\<close>

definition own_of :: "journal_record list \<Rightarrow> vertex list" where
  "own_of = List.map_filter (\<lambda>r. case r of RecOwn v \<Rightarrow> Some v | _ \<Rightarrow> None)"

definition delivered_in :: "journal_record list \<Rightarrow> vertex list" where
  "delivered_in = List.map_filter (\<lambda>r. case r of RecDelivered v \<Rightarrow> Some v | _ \<Rightarrow> None)"

definition signals_in :: "journal_record list \<Rightarrow> signal list" where
  "signals_in = List.map_filter (\<lambda>r. case r of RecSignal s \<Rightarrow> Some s | _ \<Rightarrow> None)"

definition batches_in :: "journal_record list \<Rightarrow> batch_payload list" where
  "batches_in = List.map_filter (\<lambda>r. case r of RecBatch p \<Rightarrow> Some p | _ \<Rightarrow> None)"

definition keep_batch :: "node_params \<Rightarrow> core \<Rightarrow> batch_payload \<Rightarrow> core" where
  "keep_batch np c p =
     c\<lparr>co_payload_round := (co_payload_round c)(np_bdigest np p \<mapsto> 0), co_payloads := al_put (np_bdigest np p) p (co_payloads c)\<rparr>"

text \<open>The journal at its last resumption: the records before it, the resumption, the records after.\<close>

fun at_resumption :: "journal_record list \<Rightarrow> (journal_record list \<times> resumed \<times> journal_record list) option" where
  "at_resumption [] = None"
| "at_resumption (r # rs) =
     (case at_resumption rs of
        Some (before, re, after) \<Rightarrow> Some (r # before, re, after)
      | None \<Rightarrow> (case r of RecResumed re \<Rightarrow> Some ([], re, rs) | _ \<Rightarrow> None))"

definition from_resumption :: "node_params \<Rightarrow> nat \<Rightarrow> journal_record list \<Rightarrow> node \<Rightarrow> node \<times> journal_record list" where
  "from_resumption np now records n =
     (case at_resumption records of
        None \<Rightarrow> (n, records)
      | Some (before, re, after) \<Rightarrow>
          (let own_round = foldl (\<lambda>m v. opt_max m (Some (v_round v))) None (own_of before);
               n = on_core (\<lambda>c. foldl (keep_batch np) c (batches_in before)) n
           in (install (re_certificate re) (re_state re) own_round now np n, after)))"

definition restore_own :: "node_params \<Rightarrow> node \<Rightarrow> vertex \<Rightarrow> node" where
  "restore_own np n v =
     (let c = nd_core n;
          c = c\<lparr>co_own_introduced := foldl (\<lambda>m b. al_put (b_digest b) (v_round v) m) (co_own_introduced c) (v_batches v)\<rparr>;
          c = put_first (v_round v) (co_me c) (v_strong v) c;
          c = c\<lparr>co_bodies := al_put (np_vdigest np v) v (co_bodies c)\<rparr>
      in n\<lparr>nd_core := c, nd_round := Some (v_round v)\<rparr>)"

definition restore_vertex :: "node_params \<Rightarrow> core \<Rightarrow> vertex \<Rightarrow> core" where
  "restore_vertex np c v =
     (let d = np_vdigest np v;
          c = c\<lparr>co_rbc := restore_delivered (v_round v) (v_source v) d (co_rbc c)\<rparr>;
          c = (if map_of (first_refs c (v_round v)) (v_source v) = None then put_first (v_round v) (v_source v) (v_strong v) c else c)
      in c\<lparr>w_dag := snd (offer (np_vdigest np) v (expect d (v_round v) (w_dag c)))\<rparr>)"

definition restore_signal :: "core \<Rightarrow> signal \<Rightarrow> core" where
  "restore_signal c s = c\<lparr>co_rbc := restore_sent (w_committee c) s (co_rbc c)\<rparr>"

text \<open>
  The delivered vertices and the signals, both in the order of their rounds, a round of vertices at a
  time; \<open>None\<close> where a commit panics.
\<close>

function replay_rounds :: "node_params \<Rightarrow> vertex list \<Rightarrow> signal list \<Rightarrow> core \<Rightarrow> (core \<times> signal list) option" where
  "replay_rounds np [] signals c = Some (c, signals)"
| "replay_rounds np (v # vs) signals c =
     (let c = foldl restore_signal c (takeWhile (\<lambda>s. s_round s \<le> v_round v) signals);
          c = foldl (restore_vertex np) c (v # takeWhile (\<lambda>w. v_round w = v_round v) vs)
      in Option.bind (try_commit (np_core np) c)
           (replay_rounds np (dropWhile (\<lambda>w. v_round w = v_round v) vs)
              (dropWhile (\<lambda>s. s_round s \<le> v_round v) signals)))"
  by pat_completeness auto

termination
  by (relation "measure (\<lambda>(np, vs, signals, c). length vs)") (auto simp: le_imp_less_Suc length_dropWhile_le)

definition next_sequence_of :: "core \<Rightarrow> nat" where
  "next_sequence_of c =
     (let ss = map bp_sequence (filter (\<lambda>p. bp_author p = co_me c) (map snd (co_payloads c)))
      in if ss = [] then 0 else Max (set ss) + 1)"

definition recover :: "node_params \<Rightarrow> core_config \<Rightarrow> committee \<Rightarrow> validator_index \<Rightarrow> epoch_start \<Rightarrow> journal_record list
    \<Rightarrow> nat \<Rightarrow> nat \<Rightarrow> node option" where
  "recover np cfg c me start records executed_through now =
     (let n = on_core (\<lambda>c. c\<lparr>co_executed_through := executed_through\<rparr>) (node_new np cfg c me start);
          (n, records) = from_resumption np now records n;
          n = on_core (\<lambda>c. foldl (keep_batch np) c (batches_in records)) n;
          n = n\<lparr>nd_next_batch_sequence := max (nd_next_batch_sequence n) (next_sequence_of (nd_core n))\<rparr>;
          own = sort_key v_round (own_of records);
          n = foldl (restore_own np) n own;
          introduced = map b_digest (concat (map v_batches own));
          mine = filter (\<lambda>(d, p). bp_author p = me \<and> d \<notin> set introduced) (co_payloads (nd_core n));
          n = on_core (\<lambda>c. c\<lparr>co_own_unintroduced := sort_key b_sequence (map (\<lambda>(_, p). batch_reference np p) mine)\<rparr>) n;
          signals = sort_key s_round (signals_in records)
      in case replay_rounds np (sort_key (\<lambda>v. (v_round v, v_source v)) (delivered_in records)) signals (nd_core n) of
           None \<Rightarrow> None
         | Some (c, rest) \<Rightarrow>
             (let c = (release_segments (foldl restore_signal c rest))\<lparr>co_wanted_vertices := []\<rparr>;
                  n = n\<lparr>nd_core := c, nd_journal := [], nd_round_entered_ms := now\<rparr>;
                  floor = g_floor (w_dag c);
                  n = foldl (\<lambda>n v. send All (MsgPropose v) n) n
                        (filter (\<lambda>v. floor \<le> v_round v \<and> dag_get (w_dag c) (np_vdigest np v) = None) own);
                  n = foldl (\<lambda>n ss. send All (MsgSignals ss) n) n
                        (chunks_of MAX_SIGNALS_PER_FRAME (filter (\<lambda>s. floor \<le> s_round s) signals))
              in Some n))"

end
