(* ===== verification/Conduct.thy ===== *)
theory Conduct
  imports Node
begin

text \<open>
  What a validator says. It signs nothing in the DAG: all that keeps it honest is that it never says
  two different things in one place. This theory shows that the handlers propose at most once in a
  round and send at most one signal of a kind in an instance, and that a validator that restarts and
  recovers from what it persisted keeps to both.
\<close>

section \<open>The broadcast never contradicts what was sent\<close>

text \<open>
  The signals a validator sent: one digest for each kind and instance, and the instance knows it as
  long as it is not pruned. An instance that echoed holds a proposal.
\<close>

definition sent_book :: "reliable_broadcast \<Rightarrow> signal set \<Rightarrow> bool" where
  "sent_book rb S \<longleftrightarrow>
     (\<forall>slot. i_sent (instance_of rb slot) Echo \<noteq> None \<longrightarrow> i_proposed (instance_of rb slot) \<noteq> None)
     \<and> (\<forall>s \<in> S. rb_floor rb \<le> s_round s \<longrightarrow> i_sent (instance_of rb (slot_of s)) (s_kind s) = Some (s_digest s))
     \<and> (\<forall>s \<in> S. \<forall>s' \<in> S. s_kind s = s_kind s' \<longrightarrow> slot_of s = slot_of s' \<longrightarrow> s_digest s = s_digest s')"

lemma sent_bookD:
  assumes "sent_book rb S"
  shows "i_sent (instance_of rb slot) Echo \<noteq> None \<Longrightarrow> i_proposed (instance_of rb slot) \<noteq> None"
    "s \<in> S \<Longrightarrow> rb_floor rb \<le> s_round s \<Longrightarrow> i_sent (instance_of rb (slot_of s)) (s_kind s) = Some (s_digest s)"
    "s \<in> S \<Longrightarrow> s' \<in> S \<Longrightarrow> s_kind s = s_kind s' \<Longrightarrow> slot_of s = slot_of s' \<Longrightarrow> s_digest s = s_digest s'"
  using assms unfolding sent_book_def by blast+

lemma sent_book_subset: "sent_book rb S \<Longrightarrow> T \<subseteq> S \<Longrightarrow> sent_book rb T"
  unfolding sent_book_def by (simp add: subset_iff)

lemma sent_book_instances:
  assumes "sent_book rb S" "rb_floor rb \<le> rb_floor rb'"
    "\<And>slot. i_sent (instance_of rb' slot) = i_sent (instance_of rb slot) \<and> i_proposed (instance_of rb' slot) = i_proposed (instance_of rb slot)
       \<or> fst slot < rb_floor rb' \<and> instance_of rb' slot = instance_default"
  shows "sent_book rb' S"
proof -
  have "i_sent (instance_of rb' (slot_of s)) (s_kind s) = Some (s_digest s)" if "s \<in> S" "rb_floor rb' \<le> s_round s" for s
    using sent_bookD(2) [OF assms(1) that(1)] assms(2) assms(3) [of "slot_of s"] that(2) by auto
  moreover have "i_proposed (instance_of rb' slot) \<noteq> None" if "i_sent (instance_of rb' slot) Echo \<noteq> None" for slot
    using sent_bookD(1) [OF assms(1), of slot] assms(3) [of slot] that by (auto simp: instance_default_def)
  ultimately show ?thesis using sent_bookD(3) [OF assms(1)] unfolding sent_book_def by blast
qed

text \<open>New signals of kinds the instance had not sent.\<close>

lemma sent_book_extend:
  assumes book: "sent_book rb S" and floor: "rb_floor rb' = rb_floor rb" "rb_floor rb \<le> s_round sig"
    and other: "\<And>slot. slot \<noteq> slot_of sig \<Longrightarrow> instance_of rb' slot = instance_of rb slot"
    and sent: "i_sent (instance_of rb' (slot_of sig)) = (\<lambda>k. if k \<in> K then Some (s_digest sig) else i_sent (instance_of rb (slot_of sig)) k)"
    and fresh: "\<And>k. k \<in> K \<Longrightarrow> i_sent (instance_of rb (slot_of sig)) k = None"
    and proposed: "i_sent (instance_of rb' (slot_of sig)) Echo \<noteq> None \<Longrightarrow> i_proposed (instance_of rb' (slot_of sig)) \<noteq> None"
  shows "sent_book rb' (S \<union> (\<lambda>k. sig\<lparr>s_kind := k\<rparr>) ` K)"
proof -
  let ?new = "(\<lambda>k. sig\<lparr>s_kind := k\<rparr>) ` K"
  have clash: "\<not> (s_kind s \<in> K \<and> slot_of s = slot_of sig)" if "s \<in> S" for s
    using sent_bookD(2) [OF book that] fresh [of "s_kind s"] floor(2) by auto
  have "i_sent (instance_of rb' (slot_of s)) (s_kind s) = Some (s_digest s)" if "s \<in> S \<union> ?new" "rb_floor rb' \<le> s_round s" for s
  proof (cases "s \<in> S")
    case True
    then have old: "i_sent (instance_of rb (slot_of s)) (s_kind s) = Some (s_digest s)"
      using sent_bookD(2) [OF book] that(2) floor(1) by simp
    show ?thesis using old other [of "slot_of s"] sent clash [OF True] by (cases "slot_of s = slot_of sig") auto
  next
    case False
    then show ?thesis using that(1) sent by auto
  qed
  moreover have "i_proposed (instance_of rb' slot) \<noteq> None" if "i_sent (instance_of rb' slot) Echo \<noteq> None" for slot
    using sent_bookD(1) [OF book, of slot] other [of slot] proposed that by (cases "slot = slot_of sig") auto
  moreover have "s_digest s = s_digest s'" if "s \<in> S \<union> ?new" "s' \<in> S \<union> ?new" "s_kind s = s_kind s'" "slot_of s = slot_of s'" for s s'
    using sent_bookD(3) [OF book, of s s'] clash [of s] clash [of s'] that by (auto simp del: prod.inject)
  ultimately show ?thesis unfolding sent_book_def by blast
qed

lemma signal_step_book:
  assumes "sent_book rb S" "signal_step c sender sig rb = (rb', out, lb)"
  shows "sent_book rb' (S \<union> broadcasts out)"
proof (cases "accepts c sender sig rb \<and> \<not> is_counted sender sig rb")
  case True
  note fresh = signal_step_fresh [OF assms(2) conjunct1 [OF True] conjunct2 [OF True]]
  have echo: "Echo \<notin> set lb" using fresh(7) by (simp add: asks_def)
  have "sent_book rb' (S \<union> (\<lambda>k. sig\<lparr>s_kind := k\<rparr>) ` set lb)"
  proof (rule sent_book_extend [OF assms(1)])
    show "rb_floor rb \<le> s_round sig" using True by (simp add: accepts_def)
    show "i_sent (instance_of rb' (slot_of sig)) = (\<lambda>k. if k \<in> set lb then Some (s_digest sig) else i_sent (instance_of rb (slot_of sig)) k)"
      by (rule fresh(8))
    show "i_proposed (instance_of rb' (slot_of sig)) \<noteq> None" if "i_sent (instance_of rb' (slot_of sig)) Echo \<noteq> None"
      using that echo fresh(8) fresh(4) sent_bookD(1) [OF assms(1), of "slot_of sig"] by simp
  qed (use fresh(2,3,7) in auto)
  then show ?thesis by (simp add: fresh(9))
next
  case False
  then have stale: "\<not> accepts c sender sig rb \<or> is_counted sender sig rb" by blast
  note s = signal_step_stale [OF assms(2) stale]
  show ?thesis using s(1) sent_book_instances [OF assms(1)] s(4,5) by (simp add: same_instance_def)
qed

lemma on_signal_book:
  assumes "sent_book rb S" "on_signal c sender sig rb = (rb', out)"
  shows "sent_book rb' (S \<union> broadcasts out)"
  using on_signal_preserves [of "\<lambda>rb acts. sent_book rb (S \<union> broadcasts acts)" "\<lambda>_ _ _. True" c sender sig rb rb' out "[]"] assms
    signal_step_book by (simp add: Un_assoc [symmetric])

lemma on_propose_book:
  assumes book: "sent_book rb S" and op: "on_propose c sender r source d rb = (rb', out)"
  shows "sent_book rb' (S \<union> broadcasts out)"
proof (cases "sender \<noteq> source \<or> r < rb_floor rb")
  case True
  then show ?thesis using op book by (auto simp: on_propose_def)
next
  case ok: False
  let ?i = "instance_of rb (r, source)" and ?echo = "\<lparr>s_kind = Echo, s_round = r, s_source = source, s_digest = d\<rparr>"
  let ?p = "?i\<lparr>i_proposed := Some d\<rparr>"
  show ?thesis
  proof (cases "i_proposed ?i = None")
    case False
    then have "rb' = put_instance rb (r, source) ?i" "out = []" using op ok by (simp_all add: on_propose_def Let_def)
    then show ?thesis using sent_book_instances [OF book, of rb'] by (simp add: instance_of_def put_instance_def split: option.splits)
  next
    case new: True
    have none: "i_sent ?i Echo = None" using sent_bookD(1) [OF book, of "(r, source)"] new by fastforce
    show ?thesis
    proof (cases "c_size c = 1")
      case True
      then have rb': "rb' = (put_instance rb (r, source) (?p\<lparr>i_delivered := Some d\<rparr>))
          \<lparr>rb_stats := (rb_stats rb)\<lparr>fast_count := fast_count (rb_stats rb) + 1\<rparr>\<rparr>" and out: "broadcasts out = {}"
        using op ok new by (auto simp: on_propose_def Let_def)
      have "sent_book rb' (S \<union> (\<lambda>k. ?echo\<lparr>s_kind := k\<rparr>) ` {})"
        by (rule sent_book_extend [OF book]) (use none ok in \<open>auto simp: rb' instance_of_def\<close>)
      then show ?thesis by (simp add: out)
    next
      case False
      let ?rb = "put_instance rb (r, source) (?p\<lparr>i_sent := (i_sent ?p)(Echo \<mapsto> d)\<rparr>)"
      obtain out' where call: "on_signal c (rb_me rb) ?echo ?rb = (rb', out')" and out: "out = Broadcast ?echo # out'"
        using op ok new False by (auto simp: on_propose_def Let_def split: prod.splits)
      have "sent_book ?rb (S \<union> (\<lambda>k. ?echo\<lparr>s_kind := k\<rparr>) ` {Echo})"
        by (rule sent_book_extend [OF book]) (use none ok in \<open>auto simp: instance_of_def\<close>)
      then have "sent_book rb' (S \<union> {?echo} \<union> broadcasts out')" using on_signal_book [OF _ call, of "insert ?echo S"] by simp
      then show ?thesis by (simp add: out)
    qed
  qed
qed

text \<open>Pruning only forgets instances below the floor; restoring a signal records it.\<close>

definition rbc_kept :: "reliable_broadcast \<Rightarrow> reliable_broadcast \<Rightarrow> bool" where
  "rbc_kept rb rb' \<longleftrightarrow> rb_me rb' = rb_me rb \<and> rb_floor rb \<le> rb_floor rb'
     \<and> (\<forall>slot. instance_of rb' slot = instance_of rb slot \<or> fst slot < rb_floor rb' \<and> instance_of rb' slot = instance_default)"

lemma rbc_kept_refl [simp]: "rbc_kept rb rb"
  by (simp add: rbc_kept_def)

lemma rbc_kept_trans: "rbc_kept rb rb' \<Longrightarrow> rbc_kept rb' rb'' \<Longrightarrow> rbc_kept rb rb''"
  unfolding rbc_kept_def by (metis order_trans order_less_le_trans)

lemma rbc_kept_prune: "rbc_kept rb (rbc_prune_below r rb)"
  by (auto simp: rbc_kept_def rbc_prune_below_def instance_of_def restrict_map_def split: option.splits)

lemma rbc_kept_book: "rbc_kept rb rb' \<Longrightarrow> sent_book rb S \<Longrightarrow> sent_book rb' S"
  unfolding rbc_kept_def by (elim conjE, rule sent_book_instances [of rb S rb'], assumption, assumption, metis)

lemma sent_book_new: "sent_book (rbc_new me) {}"
  by (simp add: sent_book_def rbc_new_def instance_of_def instance_default_def)

lemma one_digest_insert:
  assumes "\<forall>t \<in> T. \<forall>t' \<in> T. s_kind t = s_kind t' \<longrightarrow> slot_of t = slot_of t' \<longrightarrow> s_digest t = s_digest t'"
    "\<forall>t \<in> T. s_kind t = s_kind s \<longrightarrow> slot_of t = slot_of s \<longrightarrow> s_digest t = s_digest s"
  shows "\<forall>t \<in> insert s T. \<forall>t' \<in> insert s T. s_kind t = s_kind t' \<longrightarrow> slot_of t = slot_of t' \<longrightarrow> s_digest t = s_digest t'"
  using assms by (metis insert_iff)

lemma restore_sent_book:
  assumes book: "sent_book rb T" and one: "\<And>t. t \<in> T \<Longrightarrow> s_kind t = s_kind s \<Longrightarrow> slot_of t = slot_of s \<Longrightarrow> s_digest t = s_digest s"
    and member: "c_member c (s_source s) \<noteq> None"
  shows "sent_book (restore_sent c s rb) (insert s T)"
proof -
  have one_digest: "\<forall>t \<in> insert s T. \<forall>t' \<in> insert s T. s_kind t = s_kind t' \<longrightarrow> slot_of t = slot_of t' \<longrightarrow> s_digest t = s_digest t'"
    by (rule one_digest_insert) (use one sent_bookD(3) [OF book] in blast)+
  show ?thesis
proof (cases "s_round s < rb_floor rb")
  case True
  then have same: "restore_sent c s rb = rb" by (simp add: restore_sent_def)
  have "i_sent (instance_of rb (slot_of t)) (s_kind t) = Some (s_digest t)" if "t \<in> insert s T" "rb_floor rb \<le> s_round t" for t
    using sent_bookD(2) [OF book, of t] that True by (cases "t = s") simp_all
  then show ?thesis using sent_bookD(1) [OF book] one_digest unfolding same sent_book_def by blast
next
  case False
  let ?i = "instance_of rb (slot_of s)" and ?rb = "restore_sent c s rb"
  have i: "i_sent (instance_of ?rb (slot_of s)) = (i_sent ?i)(s_kind s \<mapsto> s_digest s)"
    "i_proposed (instance_of ?rb (slot_of s)) = (if s_kind s = Echo \<and> i_proposed ?i = None then Some (s_digest s) else i_proposed ?i)"
    "rb_floor ?rb = rb_floor rb" "\<And>slot. slot \<noteq> slot_of s \<Longrightarrow> instance_of ?rb slot = instance_of rb slot"
    using False member by (auto simp: restore_sent_def Let_def instance_of_def put_instance_def split: prod.splits)
  have "i_sent (instance_of ?rb (slot_of t)) (s_kind t) = Some (s_digest t)" if t: "t \<in> insert s T" "rb_floor ?rb \<le> s_round t" for t
  proof (cases "t = s")
    case False
    then have T: "t \<in> T" "i_sent (instance_of rb (slot_of t)) (s_kind t) = Some (s_digest t)"
      using t sent_bookD(2) [OF book, of t] i(3) by auto
    show ?thesis using T one [OF T(1)] i(1) i(4) [of "slot_of t"] by (cases "slot_of t = slot_of s") (auto simp del: prod.inject)
  qed (simp add: i(1))
  moreover have "i_proposed (instance_of ?rb slot) \<noteq> None" if "i_sent (instance_of ?rb slot) Echo \<noteq> None" for slot
    using sent_bookD(1) [OF book, of slot] i that by (cases "slot = slot_of s") (auto split: if_splits)
  ultimately show ?thesis using one_digest unfolding sent_book_def by blast
qed
qed

lemma restore_delivered_book: "sent_book rb S \<Longrightarrow> sent_book (restore_delivered r source d rb) S"
  by (rule sent_book_instances) (auto simp: restore_delivered_def Let_def instance_of_def put_instance_def)

section \<open>Committing leaves what was said\<close>

definition core_kept :: "core \<Rightarrow> core \<Rightarrow> bool" where
  "core_kept c c' \<longleftrightarrow> rbc_kept (co_rbc c) (co_rbc c') \<and> co_me c' = co_me c \<and> w_committee c' = w_committee c"

lemma core_kept_refl [simp]: "core_kept c c"
  by (simp add: core_kept_def)

lemma core_kept_trans: "core_kept c c' \<Longrightarrow> core_kept c' c'' \<Longrightarrow> core_kept c c''"
  unfolding core_kept_def using rbc_kept_trans by auto

lemma core_kept_same: "co_rbc c' = co_rbc c \<Longrightarrow> co_me c' = co_me c \<Longrightarrow> w_committee c' = w_committee c \<Longrightarrow> core_kept c c'"
  by (simp add: core_kept_def)

lemma core_kept_foldl: "(\<And>c x. core_kept c (f c x)) \<Longrightarrow> core_kept c (foldl f c xs)"
  by (induction xs arbitrary: c) (auto intro: core_kept_trans)

lemma build_checkpoints_kept: "core_kept c (build_checkpoints pm c)"
proof (induction pm c rule: build_checkpoints.induct)
  case (1 pm c)
  show ?case
  proof (cases "co_decided c")
    case Nil
    then show ?thesis by (simp add: build_checkpoints.simps [of pm c])
  next
    case (Cons pc rest)
    show ?thesis
    proof (cases "pending_ready c pc")
      case True
      then show ?thesis using 1 [OF Cons _ refl] Cons
        by (simp add: build_checkpoints.simps [of pm c] Let_def core_kept_def)
    qed (simp add: build_checkpoints.simps [of pm c] Cons)
  qed
qed

lemma seal_decided_kept: "core_kept c (seal_decided pm c)"
  unfolding seal_decided_def by (rule core_kept_trans [OF _ build_checkpoints_kept]) (simp add: core_kept_def Let_def)

lemma keep_history_said [simp]:
  "co_rbc (keep_history f ps c) = co_rbc c" "co_me (keep_history f ps c) = co_me c" "w_committee (keep_history f ps c) = w_committee c"
  by (simp_all add: keep_history_def Let_def)

lemma collect_garbage_kept: "core_kept c (collect_garbage r c)"
proof (cases "checked_sub r (cfg_gc_depth (co_cfg c))")
  case (Some f)
  obtain ps g where g: "dag_prune_below f (w_dag c) = (ps, g)" by fastforce
  note cg = collect_garbage_def [of r c] Some g Let_def
  show ?thesis
  proof (cases "f \<le> g_floor (w_dag c)")
    case False
    then have "co_rbc (collect_garbage r c) = rbc_prune_below f (co_rbc c)" "co_me (collect_garbage r c) = co_me c"
      "w_committee (collect_garbage r c) = w_committee c" by (simp_all add: cg)
    then show ?thesis by (simp add: core_kept_def rbc_kept_prune)
  qed (simp add: cg)
qed (simp add: collect_garbage_def)

lemma settle_released_kept: "core_kept c (settle_released anchor released c)"
proof -
  have "core_kept c (settle_batch x r c b)" "core_kept c (return_batch c sd)" for c x r b sd
    by (simp_all add: settle_batch_def return_batch_def Let_def core_kept_def split: option.split)
  note folds = core_kept_foldl [of "settle_batch x r" for x r, OF this(1)] core_kept_foldl [of return_batch, OF this(2)]
  show ?thesis unfolding settle_released_def Let_def
    by (rule core_kept_trans [OF core_kept_trans [OF _ folds(1)] folds(2)]) (simp add: core_kept_def)
qed

lemma push_blocks_kept: "core_kept c (push_blocks anchor t vs released c)"
proof -
  have "core_kept c (push_block anchor t vs c b)" for c b by (simp add: push_block_def core_kept_def)
  then show ?thesis by (simp add: push_blocks_def core_kept_foldl)
qed

lemma commit_checkpoint_kept: "core_kept c (commit_checkpoint pm anchor t c)"
  by (simp add: commit_checkpoint_def decide_checkpoint_def Let_def core_kept_def)

lemma order_history_kept: "order_history c anchor = Some (history, released, c') \<Longrightarrow> core_kept c c'"
  by (auto simp: order_history_def Let_def core_kept_def split: option.splits prod.splits)

lemma commit_kept: "commit pm anchor c = Some c' \<Longrightarrow> core_kept c c'"
  unfolding commit_def Let_def
  by (auto split: option.splits dest!: order_history_kept
      intro!: core_kept_trans [OF _ seal_decided_kept] core_kept_trans [OF _ collect_garbage_kept]
        core_kept_trans [OF _ commit_checkpoint_kept] core_kept_trans [OF _ push_blocks_kept]
      elim!: core_kept_trans intro: core_kept_trans [OF settle_released_kept core_kept_same])

lemma commit_pass_kept: "commit_pass pm ds c = Some (again, c') \<Longrightarrow> core_kept c c'"
proof (induction pm ds c arbitrary: again c' rule: commit_pass.induct)
  case (2 pm slot d rest c)
  have slot: "core_kept c (c\<lparr>w_next_slot := s\<rparr>)" for s by (simp add: core_kept_def)
  have skip: "core_kept c (skip_slot pm slot c)" for c by (simp add: skip_slot_def Let_def core_kept_def split: prod.split)
  show ?case
  proof (cases d)
    case (Commit anchor)
    then show ?thesis using 2 commit_kept core_kept_trans slot by (simp split: option.splits if_splits) blast+
  next
    case Skip
    then show ?thesis using 2 core_kept_trans [OF slot core_kept_trans [OF skip]] by simp
  qed (use 2 in simp)
qed simp

lemma try_commit_kept: "try_commit pm c = Some c' \<Longrightarrow> core_kept c c'"
proof -
  have "try_commit_fuel k pm c = Some c' \<Longrightarrow> core_kept c c'" for k c
  proof (induction k arbitrary: c)
    case (Suc k)
    have "core_kept c (draw_open (pm_draw pm) c)" by (simp add: draw_open_def core_kept_def)
    then show ?case using Suc commit_pass_kept core_kept_trans
      by (simp split: if_splits option.splits prod.splits) blast+
  qed simp
  then show "try_commit pm c = Some c' \<Longrightarrow> core_kept c c'" unfolding try_commit_def by blast
qed

lemma release_segments_kept: "core_kept c (release_segments c)"
proof (induction c rule: release_segments.induct)
  case (1 c)
  have seg: "core_kept c (release_segment c seg)" for c seg
    by (simp add: release_segment_def Let_def core_kept_def)
  show ?case
  proof (cases "co_waiting c")
    case (Cons w rest)
    show ?thesis
    proof (cases w)
      case (WaitSegment s)
      show ?thesis
      proof (cases "segment_waits c s")
        case False
        then have "core_kept (release_segment (c\<lparr>co_waiting := rest\<rparr>) s) (release_segments c)"
          using 1(1) [OF Cons WaitSegment] Cons WaitSegment by (simp add: release_segments.simps [of c])
        moreover have "core_kept c (c\<lparr>co_waiting := rest\<rparr>)" by (simp add: core_kept_def)
        ultimately show ?thesis using seg core_kept_trans by blast
      qed (simp add: release_segments.simps [of c] Cons WaitSegment)
    next
      case (WaitEpochEnds h)
      then show ?thesis using 1(2) [OF Cons] Cons by (simp add: release_segments.simps [of c] core_kept_def)
    qed
  qed (simp add: release_segments.simps [of c])
qed

section \<open>Handlers that say nothing in a round\<close>

lemma own_of_simps [simp]:
  "own_of [] = []" "own_of (js @ ks) = own_of js @ own_of ks" "own_of (RecOwn v # js) = v # own_of js"
  "own_of (RecSignal s # js) = own_of js" "own_of (RecDelivered v # js) = own_of js" "own_of (RecBatch p # js) = own_of js"
  "own_of (RecResumed r # js) = own_of js"
  by (simp_all add: own_of_def List.map_filter_def)

lemma signals_in_simps [simp]:
  "signals_in [] = []" "signals_in (js @ ks) = signals_in js @ signals_in ks" "signals_in (RecOwn v # js) = signals_in js"
  "signals_in (RecSignal s # js) = s # signals_in js" "signals_in (RecDelivered v # js) = signals_in js"
  "signals_in (RecBatch p # js) = signals_in js" "signals_in (RecResumed r # js) = signals_in js"
  by (simp_all add: signals_in_def List.map_filter_def)

text \<open>The proposals a validator has waiting for every peer.\<close>

definition proposals :: "(target \<times> message) list \<Rightarrow> vertex set" where
  "proposals out = {v. (All, MsgPropose v) \<in> set out}"

lemma proposals_simps [simp]:
  "proposals [] = {}" "proposals (xs @ ys) = proposals xs \<union> proposals ys"
  "proposals [(One p, msg)] = {}" "proposals [(All, MsgPropose v)] = {v}" "proposals [(All, MsgSignals ss)] = {}"
  "proposals [(All, MsgVote vt)] = {}" "proposals [(All, MsgBatch b)] = {}" "proposals [(All, MsgFrontier f)] = {}"
  "proposals [(All, MsgFetchOrdering i)] = {}"
  by (auto simp: proposals_def)

text \<open>What a node says and what its saying it depends on.\<close>

record conduct =
  cd_round :: "round option"
  cd_resuming :: "resuming option"
  cd_rbc :: reliable_broadcast
  cd_own :: "vertex list"
  cd_signals :: "signal list"
  cd_proposals :: "vertex set"
  cd_installs :: bool
  cd_me :: validator_index
  cd_committee :: committee

definition is_resumed :: "journal_record \<Rightarrow> bool" where
  "is_resumed r = (case r of RecResumed _ \<Rightarrow> True | _ \<Rightarrow> False)"

lemma is_resumed_simps [simp]:
  "is_resumed (RecOwn v) = False" "is_resumed (RecSignal s) = False" "is_resumed (RecDelivered v) = False"
  "is_resumed (RecBatch p) = False" "is_resumed (RecResumed r)"
  by (simp_all add: is_resumed_def)

definition conduct_of :: "node \<Rightarrow> conduct" where
  "conduct_of n = \<lparr>cd_round = nd_round n, cd_resuming = nd_resuming n, cd_rbc = co_rbc (nd_core n), cd_own = own_of (nd_journal n),
     cd_signals = signals_in (nd_journal n), cd_proposals = proposals (nd_outbox n),
     cd_installs = list_ex is_resumed (nd_journal n), cd_me = nd_me n, cd_committee = nd_committee n\<rparr>"

lemma conduct_foldl: "(\<And>n x. conduct_of (f n x) = conduct_of n) \<Longrightarrow> conduct_of (foldl f n xs) = conduct_of n"
  by (induction xs arbitrary: n) simp_all

lemma conduct_option:
  "conduct_of a = d \<Longrightarrow> (\<And>y. conduct_of (f y) = d) \<Longrightarrow> conduct_of (case x of None \<Rightarrow> a | Some y \<Rightarrow> f y) = d"
  by (simp split: option.split)

lemma conduct_if: "conduct_of a = d \<Longrightarrow> conduct_of b = d \<Longrightarrow> conduct_of (if p then a else b) = d"
  by simp

lemma conduct_on_core:
  "(\<And>c. co_rbc (f c) = co_rbc c \<and> co_me (f c) = co_me c \<and> w_committee (f c) = w_committee c) \<Longrightarrow>
     conduct_of (on_core f n) = conduct_of n"
  by (simp add: conduct_of_def on_core_def)

lemma conduct_send_one [simp]: "conduct_of (send (One p) msg n) = conduct_of n"
  by (simp add: conduct_of_def send_def)

lemma conduct_send_all [simp]: "proposals [(All, msg)] = {} \<Longrightarrow> conduct_of (send All msg n) = conduct_of n"
  by (simp add: conduct_of_def send_def)

lemma conduct_push_event [simp]: "conduct_of (push_event ev n) = conduct_of n"
  unfolding push_event_def by (rule conduct_on_core) simp

lemma conduct_fields [simp]:
  "conduct_of (n\<lparr>nd_sessions := a\<rparr>) = conduct_of n" "conduct_of (n\<lparr>nd_votes := b\<rparr>) = conduct_of n"
  "conduct_of (n\<lparr>nd_own_votes := d\<rparr>) = conduct_of n" "conduct_of (n\<lparr>nd_certified_handover_index := e\<rparr>) = conduct_of n"
  "conduct_of (n\<lparr>nd_certificates := f\<rparr>) = conduct_of n" "conduct_of (n\<lparr>nd_now_ms := g\<rparr>) = conduct_of n"
  "conduct_of (n\<lparr>nd_connected := h\<rparr>) = conduct_of n" "conduct_of (n\<lparr>nd_started := i\<rparr>) = conduct_of n"
  "conduct_of (n\<lparr>nd_frame_fetches := j\<rparr>) = conduct_of n" "conduct_of (n\<lparr>nd_frame_answered_frontier := k\<rparr>) = conduct_of n"
  "conduct_of (n\<lparr>nd_frame_answered_ordering := l\<rparr>) = conduct_of n" "conduct_of (n\<lparr>nd_last_repair_ms := m\<rparr>) = conduct_of n"
  "conduct_of (n\<lparr>nd_batch_reply_bytes := p\<rparr>) = conduct_of n" "conduct_of (n\<lparr>nd_batch_replied := q\<rparr>) = conduct_of n"
  "conduct_of (n\<lparr>nd_frontier_answered_ms := r\<rparr>) = conduct_of n" "conduct_of (n\<lparr>nd_frontier_held := s\<rparr>) = conduct_of n"
  by (simp_all add: conduct_of_def)

subsection \<open>Certification\<close>

lemma conduct_disagreement [simp]: "conduct_of (on_disagreement i n) = conduct_of n"
  by (simp add: on_disagreement_def conduct_on_core)

lemma conduct_complete [simp]: "conduct_of (complete_epoch ct n) = conduct_of n"
  by (simp add: complete_epoch_def Let_def, simp add: conduct_of_def)

lemma conduct_certified [simp]: "conduct_of (on_certified ct n) = conduct_of n"
  by (simp add: on_certified_def Let_def conduct_on_core)

lemma conduct_count_vote [simp]: "conduct_of (count_vote np vote n) = conduct_of n"
  by (simp add: count_vote_def Let_def split: prod.split sum.split vote_outcome.split option.split)

lemma conduct_on_vote [simp]: "conduct_of (on_vote np vote n) = conduct_of n"
  by (simp add: on_vote_def Let_def split: option.split)

lemma conduct_on_own_vote [simp]: "conduct_of (on_own_vote np vote n) = conduct_of n"
  by (simp add: on_own_vote_def Let_def)

lemma conduct_on_certificate [simp]: "conduct_of (on_certificate np ct n) = conduct_of n"
  by (simp add: on_certificate_def Let_def conduct_foldl case_prod_unfold split: option.split)

lemma conduct_admit_sessions: "admit_sessions np i ss n = (ok, n') \<Longrightarrow> conduct_of n' = conduct_of n"
  by (induction ss arbitrary: n) (auto split: if_splits)

lemma conduct_adopt [simp]:
  "conduct_of (adopt_certificate np ct ss n) = conduct_of n" "conduct_of (adopt_handover np ct ss n) = conduct_of n"
  by (auto simp: adopt_certificate_def adopt_handover_def Let_def split: prod.split bool.split option.split dest!: conduct_admit_sessions)

subsection \<open>Vertices and batches\<close>

lemma want_fields [simp]:
  "co_rbc (want_batch d w c) = co_rbc c" "co_me (want_batch d w c) = co_me c" "w_committee (want_batch d w c) = w_committee c"
  "co_rbc (want_vertex d c) = co_rbc c" "co_me (want_vertex d c) = co_me c" "w_committee (want_vertex d c) = w_committee c"
  "co_rbc (put_first r s refs c) = co_rbc c" "co_me (put_first r s refs c) = co_me c" "w_committee (put_first r s refs c) = w_committee c"
  by (simp_all add: want_batch_def want_vertex_def put_first_def Let_def)

lemma core_foldl:
  assumes "\<And>c x. co_rbc (f c x) = co_rbc c \<and> co_me (f c x) = co_me c \<and> w_committee (f c x) = w_committee c"
  shows "co_rbc (foldl f c xs) = co_rbc c \<and> co_me (foldl f c xs) = co_me c \<and> w_committee (foldl f c xs) = w_committee c"
  using assms by (induction xs arbitrary: c) simp_all

lemma conduct_note_inserted [simp]: "conduct_of (note_inserted n r) = conduct_of n"
  by (simp add: note_inserted_def Let_def conduct_of_def core_foldl split: option.split)

lemma conduct_after_offer [simp]: "conduct_of (after_offer inserted missing n) = conduct_of n"
  unfolding after_offer_def by (subst conduct_on_core) (simp_all add: conduct_foldl core_foldl)

lemma conduct_offers [simp]:
  "conduct_of (core_offer np v n) = conduct_of n" "conduct_of (core_hold np v n) = conduct_of n"
  by (simp_all add: core_offer_def core_hold_def conduct_on_core split: prod.split)

lemma conduct_core:
  "co_rbc c = co_rbc (nd_core n) \<Longrightarrow> co_me c = nd_me n \<Longrightarrow> w_committee c = nd_committee n \<Longrightarrow> conduct_of (n\<lparr>nd_core := c\<rparr>) = conduct_of n"
  by (simp add: conduct_of_def)

lemma conduct_deliver [simp]: "conduct_of (core_deliver np r s d n) = conduct_of n"
  by (auto simp: core_deliver_def Let_def conduct_on_core split: option.split intro!: conduct_core)

lemma conduct_on_batch [simp]:
  "conduct_of (on_batch np sender p n) = conduct_of n" "conduct_of (on_fetched_batch np n p) = conduct_of n"
  by (auto simp: on_batch_def on_fetched_batch_def Let_def intro!: conduct_core)

lemma conduct_submit [simp]: "conduct_of (submit_part np part n) = conduct_of n"
  by (simp add: submit_part_def Let_def, simp add: conduct_of_def)

lemma conduct_on_vertex [simp]: "conduct_of (on_vertex np n v) = conduct_of n"
  by (simp add: on_vertex_def Let_def conduct_on_core)

subsection \<open>Fetches and repair\<close>

lemma conduct_on_frontier [simp]: "conduct_of (on_frontier peer f n) = conduct_of n"
  unfolding on_frontier_def Let_def
  by (intro conduct_option conduct_if refl)
    (simp_all add: conduct_foldl case_prod_unfold split: option.split)

lemma conduct_repair [simp]: "conduct_of (repair_stall now n) = conduct_of n"
  by (simp add: repair_stall_def Let_def)

lemma conduct_answer [simp]: "conduct_of (answer_batch_fetch peer ds n) = conduct_of n"
proof -
  have "foldl (reply_step peer) (n, b, found) ds = (n', b', found') \<Longrightarrow> conduct_of n' = conduct_of n" for b found n' b' found' ds
    by (induction ds arbitrary: n b found) (auto simp: reply_step_def Let_def split: option.splits if_splits)
  then show ?thesis by (auto simp: answer_batch_fetch_def Let_def split: prod.split)
qed

lemma conduct_retry [simp]: "conduct_of (retry_fetches np now n) = conduct_of n"
  by (auto simp: retry_fetches_def Let_def split: prod.split intro!: trans [OF conduct_foldl] conduct_foldl conduct_core)

lemma conduct_fetch_vertices [simp]: "conduct_of (fetch_vertices peer ds n) = conduct_of n"
  by (simp add: fetch_vertices_def Let_def)

section \<open>Saying something\<close>

text \<open>
  The steps in which a validator says something or loses what it heard: it takes a signal or a
  proposal into its broadcast, proposes above its round, prunes instances, asks for and takes on a
  certified state.
\<close>

definition sends :: "rbc_action list \<Rightarrow> signal list" where
  "sends = List.map_filter (\<lambda>a. case a of Broadcast s \<Rightarrow> Some s | Deliver _ _ _ \<Rightarrow> None)"

lemma sends_simps [simp]:
  "sends [] = []" "sends (Broadcast s # as) = s # sends as" "sends (Deliver r p d # as) = sends as"
  by (simp_all add: sends_def List.map_filter_def)

lemma set_sends: "set (sends acts) = broadcasts acts"
proof (induction acts)
  case (Cons a acts)
  then show ?case by (cases a) simp_all
qed simp

inductive says :: "conduct \<Rightarrow> conduct \<Rightarrow> bool" where
  heard: "on_signal (cd_committee d) q sig (cd_rbc d) = (rb, out) \<Longrightarrow>
     says d (d\<lparr>cd_rbc := rb, cd_signals := cd_signals d @ sends out\<rparr>)"
| echoed: "on_propose (cd_committee d) q r q dg (cd_rbc d) = (rb, out) \<Longrightarrow>
     says d (d\<lparr>cd_rbc := rb, cd_signals := cd_signals d @ sends out\<rparr>)"
| proposed: "cd_resuming d = None \<Longrightarrow> (\<And>r. cd_round d = Some r \<Longrightarrow> r < v_round v) \<Longrightarrow>
     on_propose (cd_committee d) (cd_me d) (v_round v) (cd_me d) dg (cd_rbc d) = (rb, out) \<Longrightarrow>
     says d (d\<lparr>cd_round := Some (v_round v), cd_own := cd_own d @ [v], cd_proposals := insert v (cd_proposals d),
       cd_rbc := rb, cd_signals := cd_signals d @ sends out\<rparr>)"
| pruned: "rbc_kept (cd_rbc d) rb \<Longrightarrow> says d (d\<lparr>cd_rbc := rb\<rparr>)"
| asking: "cd_resuming d = Some r \<Longrightarrow> says d (d\<lparr>cd_resuming := Some (r\<lparr>rs_asked_ms := t\<rparr>)\<rparr>)"
| installed: "cd_resuming d = Some r \<Longrightarrow>
     says d (d\<lparr>cd_resuming := None, cd_round := opt_max (rs_own_round r) (Some a), cd_installs := True\<rparr>)"

abbreviation speaks :: "node \<Rightarrow> node \<Rightarrow> bool" where
  "speaks n n' \<equiv> says\<^sup>*\<^sup>* (conduct_of n) (conduct_of n')"

lemma speaks_foldl: "(\<And>n x. speaks n (f n x)) \<Longrightarrow> speaks n (foldl f n xs)"
  by (induction xs arbitrary: n) (auto intro: rtranclp_trans)

lemma conduct_actions:
  "foldl (apply_action np) (n, ss) acts = (n', ss') \<Longrightarrow>
     conduct_of n' = (conduct_of n)\<lparr>cd_signals := cd_signals (conduct_of n) @ sends acts\<rparr>"
proof (induction acts arbitrary: n ss)
  case (Cons a acts)
  then show ?case
  proof (cases a)
    case (Broadcast s)
    have "conduct_of (n\<lparr>nd_journal := nd_journal n @ [RecSignal s]\<rparr>) = (conduct_of n)\<lparr>cd_signals := cd_signals (conduct_of n) @ [s]\<rparr>"
      by (simp add: conduct_of_def)
    then show ?thesis using Cons.IH [of "n\<lparr>nd_journal := nd_journal n @ [RecSignal s]\<rparr>"] Cons.prems Broadcast by simp
  next
    case (Deliver r p d)
    then show ?thesis using Cons.IH [of "core_deliver np r p d n"] Cons.prems by simp
  qed
qed simp

lemma conduct_apply_rbc: "conduct_of (apply_rbc np acts n) = (conduct_of n)\<lparr>cd_signals := cd_signals (conduct_of n) @ sends acts\<rparr>"
  using conduct_actions [of np n "[]" acts] by (simp add: apply_rbc_def split: prod.split)

lemma conduct_set_rbc: "conduct_of (on_core (\<lambda>c. c\<lparr>co_rbc := rb\<rparr>) n) = (conduct_of n)\<lparr>cd_rbc := rb\<rparr>"
  by (simp add: conduct_of_def on_core_def)

lemma conduct_of_sel [simp]:
  "cd_committee (conduct_of n) = nd_committee n" "cd_rbc (conduct_of n) = co_rbc (nd_core n)" "cd_me (conduct_of n) = nd_me n"
  "cd_resuming (conduct_of n) = nd_resuming n" "cd_round (conduct_of n) = nd_round n" "cd_own (conduct_of n) = own_of (nd_journal n)"
  "cd_signals (conduct_of n) = signals_in (nd_journal n)" "cd_proposals (conduct_of n) = proposals (nd_outbox n)"
  "cd_installs (conduct_of n) = list_ex is_resumed (nd_journal n)"
  by (simp_all add: conduct_of_def)

lemma speaks_signal: "speaks n (core_signal np sender s n)"
proof -
  obtain rb out where call: "on_signal (nd_committee n) sender s (co_rbc (nd_core n)) = (rb, out)" by fastforce
  have "conduct_of (core_signal np sender s n) = (conduct_of n)\<lparr>cd_rbc := rb, cd_signals := cd_signals (conduct_of n) @ sends out\<rparr>"
    by (simp add: core_signal_def call conduct_apply_rbc conduct_set_rbc)
  then show ?thesis using says.heard [of "conduct_of n" sender s rb out] call by auto
qed

lemma speaks_echo: "speaks n (core_echo np v n)"
proof -
  obtain rb out where call: "on_propose (nd_committee n) (v_source v) (v_round v) (v_source v) (np_vdigest np v) (co_rbc (nd_core n)) = (rb, out)"
    by fastforce
  have "conduct_of (n\<lparr>nd_core := (nd_core n)\<lparr>co_rbc := rb, co_bodies := b\<rparr>\<rparr>) = (conduct_of n)\<lparr>cd_rbc := rb\<rparr>"
    "conduct_of (n\<lparr>nd_core := (nd_core n)\<lparr>co_rbc := rb\<rparr>\<rparr>) = (conduct_of n)\<lparr>cd_rbc := rb\<rparr>" for b by (simp_all add: conduct_of_def)
  then have "conduct_of (core_echo np v n) = (conduct_of n)\<lparr>cd_rbc := rb, cd_signals := cd_signals (conduct_of n) @ sends out\<rparr>"
    by (simp add: core_echo_def call conduct_apply_rbc Let_def)
  then show ?thesis using says.echoed [of "conduct_of n" "v_source v" "v_round v" "np_vdigest np v" rb out] call by auto
qed

lemma speaks_echo_held: "speaks n (echo_held np n)"
proof -
  have "speaks m (let m = on_core (\<lambda>c. c\<lparr>co_unechoed := al_del k (co_unechoed c)\<rparr>) m in if ok then core_echo np v m else m)" for m k v ok
    using speaks_echo [of "on_core (\<lambda>c. c\<lparr>co_unechoed := al_del k (co_unechoed c)\<rparr>) m" np v] by (simp add: Let_def conduct_on_core)
  then show ?thesis unfolding echo_held_def Let_def by (intro speaks_foldl) (simp add: Let_def case_prod_unfold)
qed

lemma speaks_propose: "speaks n (core_propose np sender v n)"
proof -
  let ?n = "on_core (put_first (v_round v) (v_source v) (v_strong v)) n"
  have first: "conduct_of ?n = conduct_of n" by (simp add: conduct_on_core)
  have held: "conduct_of (on_core (\<lambda>c. c\<lparr>co_unechoed := al_put k v (co_unechoed c)\<rparr>) m) = conduct_of m" for k m by (simp add: conduct_on_core)
  have want: "conduct_of (on_core (\<lambda>c. foldl (\<lambda>c d. want_batch d w c) c ds) m) = conduct_of m" for ds w m
    by (rule conduct_on_core) (simp add: core_foldl)
  have ask: "conduct_of (foldl (\<lambda>n chunk. send (One (v_source v)) (MsgFetchBatches chunk) n) m ch) = conduct_of m" for m ch
    by (simp add: conduct_foldl)
  show ?thesis
    unfolding core_propose_def Let_def using speaks_echo [of ?n np v] by (simp add: first held want ask)
qed

lemma speaks_message: "speaks n (on_message np sender msg n)"
proof (cases msg)
  case (MsgSignals ss)
  have "speaks n (foldl (\<lambda>n s. if horizon m < s_round s then n else core_signal np sender s n) n ss)" for m
    by (rule speaks_foldl) (simp add: speaks_signal)
  then show ?thesis using MsgSignals by (simp add: on_message_def)
next
  case (MsgFetchOrdering i)
  then show ?thesis by (simp add: on_message_def Let_def split: option.split)
qed (simp_all add: on_message_def speaks_propose conduct_foldl)

section \<open>Rounds\<close>

lemma next_vertex_fields:
  assumes "next_vertex np r now c = (v, c')"
  shows "co_rbc c' = co_rbc c" "co_me c' = co_me c" "w_committee c' = w_committee c" "v_round v = r" "v_source v = co_me c"
    "v_epoch v = c_epoch (w_committee c)"
proof -
  obtain l s where leads: "leads (pm_draw (np_core np)) (w_schedule c) r (co_me c) = (l, s)" by fastforce
  show "co_rbc c' = co_rbc c" "co_me c' = co_me c" "w_committee c' = w_committee c" "v_round v = r" "v_source v = co_me c"
    "v_epoch v = c_epoch (w_committee c)"
    using assms leads unfolding next_vertex_def Let_def by (auto split: if_splits)
qed

lemma conduct_propose_round:
  obtains v rb out where "v_round v = r" "v_source v = nd_me n"
    "on_propose (nd_committee n) (nd_me n) r (nd_me n) (np_vdigest np v) (co_rbc (nd_core n)) = (rb, out)"
    "conduct_of (propose_round np r now n) = (conduct_of n)\<lparr>cd_round := Some r, cd_own := own_of (nd_journal n) @ [v],
       cd_proposals := insert v (proposals (nd_outbox n)), cd_rbc := rb, cd_signals := signals_in (nd_journal n) @ sends out\<rparr>"
proof -
  obtain v c where next_vertex: "next_vertex np r now (nd_core n) = (v, c)" by fastforce
  note f = next_vertex_fields [OF next_vertex]
  obtain rb out where call: "on_propose (nd_committee n) (nd_me n) r (nd_me n) (np_vdigest np v) (co_rbc (nd_core n)) = (rb, out)"
    by fastforce
  have "conduct_of (propose_round np r now n) = (conduct_of n)\<lparr>cd_round := Some r, cd_own := own_of (nd_journal n) @ [v],
       cd_proposals := insert v (proposals (nd_outbox n)), cd_rbc := rb, cd_signals := signals_in (nd_journal n) @ sends out\<rparr>"
    unfolding propose_round_def next_vertex Let_def
    by (simp add: f call conduct_apply_rbc conduct_set_rbc, simp add: conduct_of_def f, simp add: send_def)
  then show thesis using that f(4,5) call by blast
qed

lemma speaks_round:
  assumes "nd_resuming n = None" "\<And>current. nd_round n = Some current \<Longrightarrow> current < r"
  shows "speaks n (propose_round np r now n)"
proof -
  obtain v rb out where v: "v_round v = r"
    "on_propose (nd_committee n) (nd_me n) r (nd_me n) (np_vdigest np v) (co_rbc (nd_core n)) = (rb, out)"
    and d: "conduct_of (propose_round np r now n) = (conduct_of n)\<lparr>cd_round := Some r, cd_own := own_of (nd_journal n) @ [v],
       cd_proposals := insert v (proposals (nd_outbox n)), cd_rbc := rb, cd_signals := signals_in (nd_journal n) @ sends out\<rparr>"
    by (rule conduct_propose_round)
  show ?thesis using says.proposed [of "conduct_of n" v "np_vdigest np v" rb out] assms v d by simp
qed

text \<open>A step of a node that waits for no state: it still waits for none.\<close>

lemma says_on: "says d d' \<Longrightarrow> cd_resuming d = None \<Longrightarrow> cd_resuming d' = None"
  by (erule says.cases) auto

lemma speaks_still: "speaks n n' \<Longrightarrow> nd_resuming n = None \<Longrightarrow> nd_resuming n' = None"
proof -
  have "says\<^sup>*\<^sup>* d d' \<Longrightarrow> cd_resuming d = None \<Longrightarrow> cd_resuming d' = None" for d d'
    by (induction rule: rtranclp_induct) (auto dest: says_on)
  then show "speaks n n' \<Longrightarrow> nd_resuming n = None \<Longrightarrow> nd_resuming n' = None" using conduct_of_sel(4) by metis
qed

definition speaks_on :: "node \<Rightarrow> node \<Rightarrow> bool" where
  "speaks_on n n' \<longleftrightarrow> (nd_resuming n = None \<longrightarrow> speaks n n')"

lemma speaks_onD: "speaks_on n n' \<Longrightarrow> nd_resuming n = None \<Longrightarrow> speaks n n'"
  by (simp add: speaks_on_def)

lemma speaks_on_same: "conduct_of n' = conduct_of n \<Longrightarrow> speaks_on n n'"
  by (simp add: speaks_on_def)

lemma speaks_on_trans: "speaks_on n n' \<Longrightarrow> speaks_on n' n'' \<Longrightarrow> speaks_on n n''"
  unfolding speaks_on_def using speaks_still rtranclp_trans by metis

lemma schedule_said: "conduct_of (n\<lparr>nd_core := (nd_core n)\<lparr>w_schedule := s\<rparr>\<rparr>) = conduct_of n"
  by (rule conduct_core) simp_all

lemma enter_after_on: "enter_after np r now paced n = (entered, n') \<Longrightarrow> speaks_on n n'"
proof -
  assume enter: "enter_after np r now paced n = (entered, n')"
  obtain held c where lh: "leaders_held np r (nd_core n) = (held, c)" by fastforce
  obtain mine c' where om: "own_slot_missing np r paced c = (mine, c')" by fastforce
  have "co_rbc c' = co_rbc (nd_core n) \<and> co_me c' = nd_me n \<and> w_committee c' = nd_committee n"
    using lh om by (auto simp: leaders_held_def own_slot_missing_def split: if_splits prod.splits)
  then have same: "conduct_of (n\<lparr>nd_core := c'\<rparr>) = conduct_of n" by (intro conduct_core) simp_all
  let ?m = "n\<lparr>nd_core := c'\<rparr>"
  consider "n' = n" | "n' = ?m"
    | "n' = propose_round np (r + 1) now ?m" "\<not> (case nd_round n of None \<Rightarrow> False | Some current \<Rightarrow> r < current)"
    using enter unfolding enter_after_def Let_def lh prod.case om by (auto split: if_splits)
  then show ?thesis
  proof cases
    case 3
    then have "current < r + 1" if "nd_round ?m = Some current" for current using that by simp
    then have "speaks_on ?m n'" unfolding speaks_on_def 3(1) using speaks_round [of ?m "r + 1" np now] by simp
    then show ?thesis using speaks_on_trans [OF speaks_on_same [OF same]] by blast
  qed (simp_all add: speaks_on_same same)
qed

lemma advance_once_on: "advance_once np now n = (entered, n') \<Longrightarrow> speaks_on n n'"
proof (cases "nd_round n")
  case (Some current)
  assume adv: "advance_once np now n = (entered, n')"
  let ?c = "nd_core n"
  let ?t = "top_quorum ?c current (case highest_round (w_dag ?c) of None \<Rightarrow> current | Some h \<Rightarrow> max h current)"
  show ?thesis
  proof (cases "current < ?t")
    case True
    obtain lead s where l: "leads (pm_draw (np_core np)) (w_schedule ?c) ?t (co_me ?c) = (lead, s)" by fastforce
    define m where "m = n\<lparr>nd_core := ?c\<lparr>w_schedule := s\<rparr>\<rparr>"
    obtain e1 m1 where e1: "(if lead then enter_after np (?t - 1) now False m else (False, m)) = (e1, m1)" by fastforce
    obtain e2 m2 where e2: "enter_after np ?t now False m1 = (e2, m2)" by fastforce
    obtain e3 m3 where e3: "enter_after np current now True m2 = (e3, m3)" by fastforce
    have "speaks_on n m" unfolding m_def by (rule speaks_on_same [OF schedule_said])
    moreover have "speaks_on m m1" using e1 enter_after_on by (auto split: if_splits intro: speaks_on_same)
    moreover have "speaks_on m1 m2" "speaks_on m2 m3" using e2 e3 enter_after_on by blast+
    moreover have "n' = m1 \<or> n' = m2 \<or> n' = m3"
      using adv Some True l e1 e2 e3 unfolding advance_once_def Let_def by (auto simp: m_def split: if_splits bool.splits)
    ultimately show ?thesis using speaks_on_trans by blast
  next
    case False
    then show ?thesis using adv Some enter_after_on unfolding advance_once_def Let_def by auto
  qed
qed (simp add: advance_once_def speaks_on_same)

lemma try_advance_on: "try_advance np now n = Some n' \<Longrightarrow> speaks_on n n'"
proof -
  have "try_advance_fuel k np now n = Some n' \<Longrightarrow> speaks_on n n'" for k n
  proof (induction k arbitrary: n)
    case (Suc k)
    obtain entered m where m: "advance_once np now n = (entered, m)" by fastforce
    show ?case using Suc advance_once_on [OF m] speaks_on_trans m by (cases entered) auto
  qed simp
  then show "try_advance np now n = Some n' \<Longrightarrow> speaks_on n n'" unfolding try_advance_def by blast
qed

lemma kept_on:
  assumes "core_kept (nd_core n) c"
  shows "speaks n (n\<lparr>nd_core := c\<rparr>)" "speaks_on n (n\<lparr>nd_core := c\<rparr>)"
proof -
  have d: "conduct_of (n\<lparr>nd_core := c\<rparr>) = (conduct_of n)\<lparr>cd_rbc := co_rbc c\<rparr>"
    using assms by (simp add: conduct_of_def core_kept_def)
  show "speaks n (n\<lparr>nd_core := c\<rparr>)" unfolding d using says.pruned [of "conduct_of n" "co_rbc c"] assms by (auto simp: core_kept_def)
  then show "speaks_on n (n\<lparr>nd_core := c\<rparr>)" by (simp add: speaks_on_def)
qed

lemma progress_on:
  assumes "progress np now n = Some n'"
  shows "speaks_on n n'"
proof -
  obtain c m where c: "try_commit (np_core np) (nd_core n) = Some c" "try_advance np now (n\<lparr>nd_core := c\<rparr>) = Some m"
    "n' = m\<lparr>nd_core := release_segments (nd_core m)\<rparr>"
    using assms by (auto simp: progress_def on_core_def split: option.splits)
  show ?thesis
    using speaks_on_trans [OF speaks_on_trans [OF kept_on(2) [OF try_commit_kept [OF c(1)]] try_advance_on [OF c(2)]]
        kept_on(2) [OF release_segments_kept]] by (simp add: c(3))
qed

lemma try_start_speaks: "speaks n (try_start np now n)"
  unfolding try_start_def by (auto intro!: speaks_round)

section \<open>Inputs\<close>

lemma conduct_install:
  "conduct_of (install ct st own now np n) = (conduct_of n)\<lparr>cd_resuming := None, cd_round := opt_max own (Some (os_anchor_round st)),
     cd_installs := True\<rparr>"
  by (simp add: install_def Let_def conduct_of_def)

lemma on_ordering_speaks: "on_ordering np st n = Some n' \<Longrightarrow> speaks n n'"
proof (cases "nd_resuming n")
  case (Some r)
  assume on: "on_ordering np st n = Some n'"
  define m where "m = (install (rs_certificate r) st (rs_own_round r) (nd_now_ms n) np n)\<lparr>nd_last_repair_ms := nd_now_ms n\<rparr>"
  define s where "s = send All (MsgFrontier (frontier_of m)) m"
  have "n' = n \<or> progress np (nd_now_ms n) s = Some n'"
    using on Some unfolding on_ordering_def Let_def by (simp add: s_def m_def split: if_splits)
  then show ?thesis
  proof
    assume p: "progress np (nd_now_ms n) s = Some n'"
    have s: "conduct_of s = (conduct_of n)\<lparr>cd_resuming := None, cd_round := opt_max (rs_own_round r) (Some (os_anchor_round st)),
        cd_installs := True\<rparr>"
      by (simp add: s_def m_def conduct_install)
    have "speaks n s" unfolding s using says.installed [of "conduct_of n" r "os_anchor_round st"] Some by auto
    moreover have "nd_resuming s = None" using arg_cong [OF s, of cd_resuming] by simp
    ultimately show ?thesis using rtranclp_trans [OF _ speaks_onD [OF progress_on [OF p]]] by simp
  qed simp
qed (simp add: on_ordering_def)

lemma take_orderings_speaks: "take_orderings np ms n = Some n' \<Longrightarrow> speaks n n'"
proof (induction np ms n rule: take_orderings.induct)
  case (2 np st ms n)
  then obtain m where m: "on_ordering np st n = Some m" "take_orderings np ms m = Some n'" by (auto simp: Option.bind_eq_Some_conv)
  then show ?case using 2 on_ordering_speaks rtranclp_trans by metis
qed simp_all

lemma speaks_same: "conduct_of n' = conduct_of n \<Longrightarrow> speaks n n'"
  by simp

lemma ask_speaks: "speaks n (ask_ordering now n)"
proof (cases "nd_resuming n")
  case (Some r)
  have "speaks n (n\<lparr>nd_resuming := Some (r\<lparr>rs_asked_ms := t\<rparr>)\<rparr>)" for t
  proof -
    have d: "conduct_of (n\<lparr>nd_resuming := Some (r\<lparr>rs_asked_ms := t\<rparr>)\<rparr>) = (conduct_of n)\<lparr>cd_resuming := Some (r\<lparr>rs_asked_ms := t\<rparr>)\<rparr>"
      by (simp add: conduct_of_def)
    show ?thesis unfolding d using says.asking [of "conduct_of n" r t] Some by auto
  qed
  then show ?thesis using Some by (auto simp: ask_ordering_def)
qed (simp add: ask_ordering_def)

lemma on_messages_speaks: "on_messages np sender ms now n = Some n' \<Longrightarrow> speaks n n'"
proof -
  assume on: "on_messages np sender ms now n = Some n'"
  define m where "m = n\<lparr>nd_now_ms := now, nd_frame_fetches := 0, nd_frame_answered_frontier := False, nd_frame_answered_ordering := False\<rparr>"
  define f where "f = foldl (\<lambda>n msg. on_message np sender msg n) m ms"
  show ?thesis
  proof (cases "sender = nd_me n \<or> c_member (nd_committee n) sender = None")
    case False
    show ?thesis
    proof (cases "nd_resuming n = None")
      case True
      then have p: "progress np now (echo_held np f) = Some n'"
        using on False unfolding on_messages_def f_def m_def by simp
      have "conduct_of m = conduct_of n" by (simp add: m_def)
      then have "speaks n f" using speaks_foldl [of "\<lambda>n msg. on_message np sender msg n" m ms, OF speaks_message] by (simp add: f_def)
      then have "speaks n (echo_held np f)" by (rule rtranclp_trans [OF _ speaks_echo_held])
      then show ?thesis using rtranclp_trans [OF _ speaks_onD [OF progress_on [OF p]]] speaks_still [OF _ True] by simp
    next
      case waits: False
      then have "take_orderings np ms (n\<lparr>nd_now_ms := now\<rparr>) = Some n'" using on False unfolding on_messages_def by simp
      then show ?thesis using take_orderings_speaks by fastforce
    qed
  qed (use on in \<open>auto simp: on_messages_def\<close>)
qed

lemma on_tick_speaks: "on_tick np now n = Some n' \<Longrightarrow> speaks n n'"
proof (cases "nd_resuming n")
  case None
  define f where "f = retry_fetches np now (n\<lparr>nd_now_ms := now\<rparr>)"
  assume "on_tick np now n = Some n'"
  then obtain m where m: "progress np now f = Some m" "n' = repair_stall now m"
    using None unfolding on_tick_def Let_def f_def [symmetric] by auto
  have f: "conduct_of f = conduct_of n" by (simp add: f_def)
  then have "nd_resuming f = None" using conduct_of_sel(4) [of f] conduct_of_sel(4) [of n] None by simp
  then show ?thesis using speaks_onD [OF progress_on [OF m(1)]] m(2) f by simp
next
  case (Some r)
  assume "on_tick np now n = Some n'"
  then show ?thesis using Some ask_speaks [of "n\<lparr>nd_now_ms := now\<rparr>" now] by (simp add: on_tick_def)
qed

lemma start_speaks: "speaks n (start_epoch np now n)"
proof -
  let ?n = "n\<lparr>nd_now_ms := now, nd_started := True, nd_connected := snd (ss_insert (nd_connected n) (nd_me n) (c_seats (nd_committee n) (nd_me n)))\<rparr>"
  show ?thesis using ask_speaks [of ?n now] try_start_speaks [of ?n np now] by (simp add: start_epoch_def Let_def)
qed

lemma peer_up_speaks: "speaks n (on_peer_up np peer now n)"
proof -
  let ?n = "n\<lparr>nd_now_ms := now, nd_connected := snd (ss_insert (nd_connected n) peer (c_seats (nd_committee n) peer))\<rparr>"
  show ?thesis using try_start_speaks [of "send (One peer) (MsgFrontier (frontier_of ?n)) ?n" np now]
    by (simp add: on_peer_up_def Let_def split: option.split)
qed

end
