(* ===== verification/Engine.thy ===== *)
theory Engine
  imports Conduct
begin

text \<open>
  The engine around a validator's core (\<^verbatim>\<open>crates/tenzro-node/src/consensus_driver.rs\<close>): the inputs it
  hands on, the journal it persists before it sends, the restart from that journal and the jump to a
  certified checkpoint. Over every run of the engine, crashes and restarts included, the validator
  proposes at most once in a round and sends at most one signal of a kind in an instance. The jump
  keeps the first but not the second.
\<close>

section \<open>The engine\<close>

datatype engine_input =
    InStart
  | InInbound nat validator_index "message list"
  | InExecuted nat digest digest
  | InVote checkpoint_vote
  | InNextCommittee nat digest
  | InPeerUp nat validator_index
  | InCertificate certificate "session_certificate list"
  | InHandover certificate "session_certificate list"
  | InTick
  | InPart batch_part
  | InHold bool
  | InEvents
  | InSkipped

text \<open>What each input does to the core. Channels, metrics and the next committee's links are not part of it.\<close>

definition on_input :: "node_params \<Rightarrow> nat \<Rightarrow> engine_input \<Rightarrow> node \<Rightarrow> node option" where
  "on_input np now inp n =
     (case inp of
        InStart \<Rightarrow> Some (start_epoch np now n)
      | InInbound epoch sender ms \<Rightarrow> if epoch = c_epoch (nd_committee n) then on_messages np sender ms now n else Some n
      | InExecuted height block state \<Rightarrow> Some (on_core (on_executed (np_core np) height block state []) n)
      | InVote v \<Rightarrow> Some (on_own_vote np v n)
      | InNextCommittee epoch root \<Rightarrow>
          Some (if epoch = c_epoch (nd_committee n) + 1 then on_core (set_next_committee_root (np_core np) root) n else n)
      | InPeerUp epoch peer \<Rightarrow> Some (if epoch = c_epoch (nd_committee n) then on_peer_up np peer now n else n)
      | InCertificate ct ss \<Rightarrow>
          Some (if cp_epoch (ct_checkpoint ct) = c_epoch (nd_committee n) then adopt_certificate np ct ss n else n)
      | InHandover ct ss \<Rightarrow>
          Some (if cp_epoch (ct_checkpoint ct) = c_epoch (nd_committee n) then adopt_handover np ct ss n else n)
      | InTick \<Rightarrow> on_tick np now n
      | InPart part \<Rightarrow> Some (submit_part np part n)
      | InHold held \<Rightarrow> Some (hold_frontier held n)
      | InEvents \<Rightarrow> Some (snd (take_events n))
      | InSkipped \<Rightarrow> Some (snd (take_skipped n)))"

text \<open>
  The jump to a certified checkpoint. The tip, the tail of executed blocks and the peers with a channel
  are what the rest of the node holds.
\<close>

definition fast_forward :: "node_params \<Rightarrow> core_config \<Rightarrow> certificate \<Rightarrow> session_certificate list \<Rightarrow> nat
    \<Rightarrow> (nat \<times> digest \<times> digest) list \<Rightarrow> validator_index list \<Rightarrow> nat \<Rightarrow> node \<Rightarrow> node" where
  "fast_forward np cfg ct ss executed tail peers now n =
     (let cp = ct_checkpoint ct in
      if cp_epoch cp \<noteq> c_epoch (nd_committee n) \<or> cp_next_committee_root cp \<noteq> None
         \<or> (case nd_resuming n of None \<Rightarrow> False | Some r \<Rightarrow> cp_index cp \<le> cp_index (ct_checkpoint (rs_certificate r))) then n
      else let m = resume np cfg (nd_committee n) (nd_me n) ct ss (nd_round n) (nd_next_batch_sequence n) executed
                 (sc_lookahead (w_schedule (nd_core n)));
               m = start_epoch np now m;
               m = foldl (\<lambda>m (h, block, state). on_core (on_executed (np_core np) h block state []) m) m tail
           in foldl (\<lambda>m p. on_peer_up np p now m) m peers)"

text \<open>The journal is written, then the messages are sent.\<close>

definition flush :: "node \<Rightarrow> journal_record list \<times> (target \<times> message) list \<times> node" where
  "flush n = (let (records, n) = take_journal n; (out, n) = take_outbox n in (records, out, n))"

text \<open>
  The runs of an engine with what it has persisted: a crash loses what was not, messages included. The
  flag tells whether the engine ever jumped; it jumps only from a core that does not wait for a state.
\<close>

inductive engine_run :: "node_params \<Rightarrow> committee \<Rightarrow> validator_index \<Rightarrow> epoch_start \<Rightarrow> bool \<Rightarrow> journal_record list \<Rightarrow> node \<Rightarrow> bool"
  for np c me start where
  launch: "engine_run np c me start False [] (node_new np cfg c me start)"
| input: "engine_run np c me start ff log n \<Longrightarrow> on_input np now inp n = Some n' \<Longrightarrow> engine_run np c me start ff log n'"
| jump: "engine_run np c me start ff log n \<Longrightarrow> nd_resuming n = None \<Longrightarrow>
     engine_run np c me start True log (fast_forward np cfg ct ss executed tail peers now n)"
| flushed: "engine_run np c me start ff log n \<Longrightarrow> flush n = (records, out, n') \<Longrightarrow> engine_run np c me start ff (log @ records) n'"
| restart: "engine_run np c me start ff log n \<Longrightarrow> recover np cfg c me start log executed now = Some n' \<Longrightarrow>
     engine_run np c me start ff log n'"

section \<open>Inputs only speak\<close>

lemma core_kept_said: "core_kept c (on_executed pm h b s ss c)" "core_kept c (set_next_committee_root pm root c)"
  unfolding on_executed_def set_next_committee_root_def
  by (rule core_kept_trans [OF core_kept_same build_checkpoints_kept]; simp)+

lemma on_input_speaks: "on_input np now inp n = Some n' \<Longrightarrow> speaks n n'"
proof (cases inp)
  case (InExecuted h b s)
  assume "on_input np now inp n = Some n'"
  then show ?thesis using kept_on(1) [OF core_kept_said(1), of n] InExecuted by (auto simp: on_input_def on_core_def)
next
  case (InNextCommittee e root)
  assume "on_input np now inp n = Some n'"
  then show ?thesis using kept_on(1) [OF core_kept_said(2), of n] InNextCommittee by (auto simp: on_input_def on_core_def split: if_splits)
next
  case InEvents
  assume "on_input np now inp n = Some n'"
  then show ?thesis using InEvents by (auto simp: on_input_def take_events_def conduct_on_core)
next
  case InSkipped
  assume "on_input np now inp n = Some n'"
  then show ?thesis using InSkipped by (auto simp: on_input_def take_skipped_def conduct_on_core)
qed (auto simp: on_input_def start_speaks peer_up_speaks hold_frontier_def dest: on_messages_speaks on_tick_speaks split: if_splits)

section \<open>One proposal in a round\<close>

definition own_bound :: "conduct \<Rightarrow> round option" where
  "own_bound d = (case cd_resuming d of None \<Rightarrow> cd_round d | Some r \<Rightarrow> rs_own_round r)"

text \<open>The vertices proposed so far, persisted or not, in rising rounds none above the current one.\<close>

definition in_order :: "vertex list \<Rightarrow> round option \<Rightarrow> bool" where
  "in_order own bound \<longleftrightarrow> sorted_wrt (<) (map v_round own) \<and> (\<forall>v \<in> set own. \<exists>r. bound = Some r \<and> v_round v \<le> r)"

lemma in_order_snoc:
  assumes "in_order own bound" "\<And>r. bound = Some r \<Longrightarrow> r < v_round v"
  shows "in_order (own @ [v]) (Some (v_round v))"
  using assms unfolding in_order_def by (fastforce simp: sorted_wrt_append)

lemma in_order_raise: "in_order own bound \<Longrightarrow> in_order own (opt_max bound (Some a))"
  by (cases bound) (auto simp: in_order_def opt_max_def le_max_iff_disj)

lemma in_order_prefix: "in_order (own @ rest) bound \<Longrightarrow> in_order own bound"
  by (auto simp: in_order_def sorted_wrt_append)

definition proposes :: "vertex list \<Rightarrow> conduct \<Rightarrow> bool" where
  "proposes own d \<longleftrightarrow> in_order (own @ cd_own d) (own_bound d) \<and> cd_proposals d \<subseteq> set (own @ cd_own d)"

lemma proposes_says: "says d d' \<Longrightarrow> proposes own d \<Longrightarrow> proposes own d'"
proof (induction rule: says.induct)
  case (proposed d v dg rb out)
  have "own_bound d = cd_round d" using proposed.hyps(1) by (simp add: own_bound_def)
  then have "in_order ((own @ cd_own d) @ [v]) (Some (v_round v))"
    using in_order_snoc [of "own @ cd_own d" "own_bound d" v] proposed by (simp add: proposes_def)
  then show ?case using proposed.prems proposed.hyps(1) by (auto simp: proposes_def own_bound_def)
next
  case (installed d r a)
  have "own_bound d = rs_own_round r" using installed.hyps by (simp add: own_bound_def)
  then have "in_order (own @ cd_own d) (opt_max (rs_own_round r) (Some a))"
    using installed.prems in_order_raise [of "own @ cd_own d" "rs_own_round r" a] by (simp add: proposes_def)
  then show ?case using installed.prems by (auto simp: proposes_def own_bound_def)
qed (auto simp: proposes_def own_bound_def split: option.splits)

lemma proposes_speaks: "speaks n n' \<Longrightarrow> proposes own (conduct_of n) \<Longrightarrow> proposes own (conduct_of n')"
proof -
  have "says\<^sup>*\<^sup>* d d' \<Longrightarrow> proposes own d \<Longrightarrow> proposes own d'" for d d'
    by (induction rule: rtranclp_induct) (auto dest: proposes_says)
  then show "speaks n n' \<Longrightarrow> proposes own (conduct_of n) \<Longrightarrow> proposes own (conduct_of n')" by blast
qed

lemma fast_forward_speaks:
  obtains "fast_forward np cfg ct ss executed tail peers now n = n"
  | m where "conduct_of m = \<lparr>cd_round = None, cd_resuming = Some \<lparr>rs_certificate = ct, rs_own_round = nd_round n, rs_asked_ms = 0\<rparr>,
      cd_rbc = rbc_new (nd_me n), cd_own = [], cd_signals = [], cd_proposals = {}, cd_installs = False, cd_me = nd_me n,
      cd_committee = nd_committee n\<rparr>" "speaks m (fast_forward np cfg ct ss executed tail peers now n)"
proof -
  define m where "m = resume np cfg (nd_committee n) (nd_me n) ct ss (nd_round n) (nd_next_batch_sequence n) executed
    (sc_lookahead (w_schedule (nd_core n)))"
  define m' where "m' = foldl (\<lambda>m (h, block, state). on_core (on_executed (np_core np) h block state []) m) (start_epoch np now m) tail"
  have step: "speaks m (on_core (on_executed (np_core np) h block state []) m)" for m h block state
    using kept_on(1) [OF core_kept_said(1)] by (simp add: on_core_def)
  have "speaks m (start_epoch np now m)" by (rule start_speaks)
  also have "speaks (start_epoch np now m) m'" unfolding m'_def by (rule speaks_foldl) (simp add: case_prod_unfold step)
  also have "speaks m' (foldl (\<lambda>m p. on_peer_up np p now m) m' peers)" by (rule speaks_foldl [OF peer_up_speaks])
  finally have "fast_forward np cfg ct ss executed tail peers now n = n \<or> speaks m (fast_forward np cfg ct ss executed tail peers now n)"
    unfolding fast_forward_def Let_def m_def [symmetric] m'_def [symmetric] by auto
  moreover have "conduct_of m = \<lparr>cd_round = None, cd_resuming = Some \<lparr>rs_certificate = ct, rs_own_round = nd_round n, rs_asked_ms = 0\<rparr>,
      cd_rbc = rbc_new (nd_me n), cd_own = [], cd_signals = [], cd_proposals = {}, cd_installs = False, cd_me = nd_me n,
      cd_committee = nd_committee n\<rparr>"
    by (simp add: m_def resume_def Let_def conduct_of_def node_new_def core_new_def)
  ultimately show thesis using that by blast
qed

section \<open>What recovery restores\<close>

text \<open>The journal splits at its last resumption.\<close>

lemma at_resumption_split:
  "at_resumption records = Some (before, re, after) \<Longrightarrow> records = before @ RecResumed re # after \<and> at_resumption after = None"
proof (induction records arbitrary: before)
  case (Cons r rs)
  then show ?case by (cases "at_resumption rs") (auto split: journal_record.splits prod.splits)
qed simp

lemma at_resumption_None: "at_resumption records = None \<longleftrightarrow> \<not> list_ex is_resumed records"
proof (induction records)
  case (Cons r rs)
  then show ?case by (cases r) (auto split: option.splits)
qed simp

lemma own_max_base:
  "foldl (\<lambda>m v. opt_max m (Some (v_round v))) (Some y) vs = Some x \<Longrightarrow> y \<le> x"
  by (induction vs arbitrary: y) (fastforce simp: opt_max_def)+

lemma own_max:
  "foldl (\<lambda>m v. opt_max m (Some (v_round v))) b vs = None \<longleftrightarrow> b = None \<and> vs = []"
  "foldl (\<lambda>m v. opt_max m (Some (v_round v))) b vs = Some x \<Longrightarrow> v \<in> set vs \<Longrightarrow> v_round v \<le> x"
proof -
  show "foldl (\<lambda>m v. opt_max m (Some (v_round v))) b vs = None \<longleftrightarrow> b = None \<and> vs = []"
    by (induction vs arbitrary: b) (auto simp: opt_max_def split: option.splits)
  show "foldl (\<lambda>m v. opt_max m (Some (v_round v))) b vs = Some x \<Longrightarrow> v \<in> set vs \<Longrightarrow> v_round v \<le> x"
  proof (induction vs arbitrary: b)
    case (Cons w ws)
    obtain y where y: "opt_max b (Some (v_round w)) = Some y" "v_round w \<le> y" by (cases b) (auto simp: opt_max_def)
    show ?case
    proof (cases "v \<in> set ws")
      case False
      then show ?thesis using own_max_base [of y ws x] Cons.prems y by auto
    qed (use Cons in simp)
  qed simp
qed

text \<open>The node a recovery starts from, the records it replays, and the round it has after the ones before.\<close>

lemma from_resumption_cases:
  assumes "from_resumption np now records n = (n', rest)" "nd_round n = None" "nd_resuming n = None" "nd_outbox n = []"
  obtains before where "own_of records = before @ own_of rest" "in_order (own_of records) b \<Longrightarrow> in_order before (nd_round n')"
    "nd_resuming n' = None" "nd_outbox n' = []" "at_resumption records = None \<Longrightarrow> n' = n \<and> rest = records"
proof (cases "at_resumption records")
  case None
  then have "n' = n" "rest = records" using assms(1) by (simp_all add: from_resumption_def)
  then show thesis using that [of "[]"] assms(2-) by (simp add: in_order_def)
next
  case (Some bra)
  obtain before re after where bra: "bra = (before, re, after)" by (metis prod_cases3)
  let ?own = "foldl (\<lambda>m v. opt_max m (Some (v_round v))) None (own_of before)"
  have n': "n' = install (re_certificate re) (re_state re) ?own now np (on_core (\<lambda>c. foldl (keep_batch np) c (batches_in before)) n)"
    and rest: "rest = after"
    using assms(1) Some bra by (simp_all add: from_resumption_def)
  have split: "own_of records = own_of before @ own_of rest" using at_resumption_split Some bra rest by fastforce
  have round: "nd_round n' = opt_max ?own (Some (os_anchor_round (re_state re)))" "nd_resuming n' = None" "nd_outbox n' = []"
    using assms(4) by (simp_all add: n' install_def Let_def on_core_def)
  have "in_order (own_of before) (nd_round n')" if "in_order (own_of records) b"
  proof -
    have "in_order (own_of before) ?own"
      using in_order_prefix [of "own_of before" "own_of rest" b] that own_max [of None "own_of before"] unfolding split
      by (cases ?own) (auto simp: in_order_def)
    then show ?thesis unfolding round by (rule in_order_raise)
  qed
  then show thesis using that [of "own_of before"] split round(2,3) Some by simp
qed

lemma restore_own_round:
  "nd_round (foldl (restore_own np) n own) = (if own = [] then nd_round n else Some (v_round (last own)))"
  "nd_resuming (foldl (restore_own np) n own) = nd_resuming n" "nd_outbox (foldl (restore_own np) n own) = nd_outbox n"
  by (induction own arbitrary: n) (simp_all add: restore_own_def Let_def)

lemma send_foldl:
  "nd_round (foldl (\<lambda>n x. send to (f x) n) n xs) = nd_round n" "nd_resuming (foldl (\<lambda>n x. send to (f x) n) n xs) = nd_resuming n"
  "nd_journal (foldl (\<lambda>n x. send to (f x) n) n xs) = nd_journal n" "nd_core (foldl (\<lambda>n x. send to (f x) n) n xs) = nd_core n"
  "nd_outbox (foldl (\<lambda>n x. send to (f x) n) n xs) = nd_outbox n @ map (\<lambda>x. (to, f x)) xs"
  by (induction xs arbitrary: n) (simp_all add: send_def)

lemma in_order_append:
  assumes "in_order (before @ own) b" "in_order before r" "own \<noteq> []"
  shows "in_order (before @ own) (Some (v_round (last own)))"
proof -
  have s: "sorted_wrt (<) (map v_round (before @ own))" using assms(1) by (simp add: in_order_def)
  then have "sorted_wrt (<) (map v_round ((before @ butlast own) @ [last own]))" using assms(3) by simp
  then have "v_round v < v_round (last own)" if "v \<in> set (before @ butlast own)" for v
    using that unfolding map_append sorted_wrt_append by auto
  moreover have "set own = insert (last own) (set (butlast own))"
    using assms(3) by (metis append_butlast_last_id list.set(2) rotate1.simps(2) set_rotate1)
  ultimately show ?thesis using s unfolding in_order_def by (auto simp: less_imp_le)
qed

lemma sorted_own: "in_order own b \<Longrightarrow> sort_key v_round own = own"
  unfolding in_order_def by (metis sort_key_id_if_sorted strict_sorted_imp_sorted)

lemma sort_key_Nil: "sort_key f xs = [] \<longleftrightarrow> xs = []"
  by (metis length_0_conv length_sort)

lemma recover_stages:
  assumes "recover np cfg c me start records executed now = Some n'"
  obtains n rest core core' left where
    "from_resumption np now records (on_core (\<lambda>c. c\<lparr>co_executed_through := executed\<rparr>) (node_new np cfg c me start)) = (n, rest)"
    "replay_rounds np (sort_key (\<lambda>v. (v_round v, v_source v)) (delivered_in rest)) (sort_key s_round (signals_in rest)) core = Some (core', left)"
    "co_rbc core = co_rbc (nd_core n)" "w_committee core = nd_committee n"
    "nd_core n' = (release_segments (foldl restore_signal core' left))\<lparr>co_wanted_vertices := []\<rparr>" "nd_journal n' = []"
    "nd_round n' = (if own_of rest = [] then nd_round n else Some (v_round (last (sort_key v_round (own_of rest)))))"
    "nd_resuming n' = nd_resuming n" "proposals (nd_outbox n') \<subseteq> proposals (nd_outbox n) \<union> set (own_of rest)"
proof -
  obtain n rest where fr: "from_resumption np now records (on_core (\<lambda>c. c\<lparr>co_executed_through := executed\<rparr>) (node_new np cfg c me start)) = (n, rest)"
    by fastforce
  define n1 where "n1 = on_core (\<lambda>c. foldl (keep_batch np) c (batches_in rest)) n"
  define n2 where "n2 = n1\<lparr>nd_next_batch_sequence := max (nd_next_batch_sequence n1) (next_sequence_of (nd_core n1))\<rparr>"
  define own where "own = sort_key v_round (own_of rest)"
  define n3 where "n3 = foldl (restore_own np) n2 own"
  define bs where "bs = sort_key b_sequence (map (\<lambda>(_, p). batch_reference np p) (filter (\<lambda>(d, p). bp_author p = me
    \<and> d \<notin> set (map b_digest (concat (map v_batches own)))) (co_payloads (nd_core n3))))"
  define n4 where "n4 = on_core (\<lambda>c. c\<lparr>co_own_unintroduced := bs\<rparr>) n3"
  note defs = n1_def [symmetric] n2_def [symmetric] own_def [symmetric] n3_def [symmetric] bs_def [symmetric] n4_def [symmetric]
  obtain core' left where replay: "replay_rounds np (sort_key (\<lambda>v. (v_round v, v_source v)) (delivered_in rest))
      (sort_key s_round (signals_in rest)) (nd_core n4) = Some (core', left)"
    using assms unfolding recover_def Let_def fr prod.case defs by (auto split: option.splits)
  define c where "c = (release_segments (foldl restore_signal core' left))\<lparr>co_wanted_vertices := []\<rparr>"
  define n5 where "n5 = n4\<lparr>nd_core := c, nd_journal := [], nd_round_entered_ms := now\<rparr>"
  obtain vs ss where n': "n' = foldl (\<lambda>n ss. send All (MsgSignals ss) n) (foldl (\<lambda>n v. send All (MsgPropose v) n) n5 vs) ss"
    and vs: "set vs \<subseteq> set own"
    using assms unfolding recover_def Let_def fr prod.case defs replay option.case c_def [symmetric] n5_def [symmetric] by auto
  have same: "co_rbc (foldl (keep_batch np) c ps) = co_rbc c \<and> co_me (foldl (keep_batch np) c ps) = co_me c
      \<and> w_committee (foldl (keep_batch np) c ps) = w_committee c" for c ps
    by (rule core_foldl) (simp add: keep_batch_def)
  have rest: "co_rbc (nd_core (foldl (restore_own np) m vs)) = co_rbc (nd_core m) \<and> nd_committee (foldl (restore_own np) m vs) = nd_committee m" for m vs
    by (induction vs arbitrary: m) (simp_all add: restore_own_def Let_def)
  have core: "co_rbc (nd_core n4) = co_rbc (nd_core n)" "w_committee (nd_core n4) = nd_committee n"
    using same rest by (simp_all add: n4_def n3_def n2_def n1_def on_core_def)
  have round: "nd_round n4 = (if own_of rest = [] then nd_round n else Some (v_round (last own)))" "nd_resuming n4 = nd_resuming n"
    "nd_outbox n4 = nd_outbox n"
    by (simp_all add: n4_def n3_def n2_def n1_def on_core_def restore_own_round own_def sort_key_Nil)
  have "(All, MsgPropose v) \<notin> set (map (\<lambda>x. (All, MsgSignals x)) ss)" for v by auto
  then have out: "proposals (nd_outbox n') \<subseteq> proposals (nd_outbox n) \<union> set (own_of rest)"
    using vs round(3) by (auto simp: n' send_foldl n5_def proposals_def own_def)
  show thesis
    using that [OF fr replay core] out round by (simp add: n' send_foldl n5_def c_def own_def)
qed

lemma recover_proposes:
  assumes "recover np cfg c me start log executed now = Some n'" "in_order (own_of log) b"
  shows "proposes (own_of log) (conduct_of n')"
proof -
  let ?n0 = "on_core (\<lambda>c. c\<lparr>co_executed_through := executed\<rparr>) (node_new np cfg c me start)"
  obtain n rest where fr: "from_resumption np now log ?n0 = (n, rest)" and journal: "nd_journal n' = []"
    and round: "nd_round n' = (if own_of rest = [] then nd_round n else Some (v_round (last (sort_key v_round (own_of rest)))))"
    and res: "nd_resuming n' = nd_resuming n" and out: "proposals (nd_outbox n') \<subseteq> proposals (nd_outbox n) \<union> set (own_of rest)"
    by (rule recover_stages [OF assms(1)])
  have n0: "nd_round ?n0 = None" "nd_resuming ?n0 = None" "nd_outbox ?n0 = []" by (simp_all add: on_core_def node_new_def)
  obtain before where own: "own_of log = before @ own_of rest" and order: "in_order before (nd_round n)"
    and none: "nd_resuming n = None" "nd_outbox n = []"
    using from_resumption_cases [OF fr n0, of b] assms(2) by blast
  have "sort_key v_round (own_of rest) = own_of rest"
    using assms(2) unfolding own in_order_def by (simp add: sorted_wrt_append sort_key_id_if_sorted strict_sorted_imp_sorted)
  then have "in_order (own_of log) (nd_round n')"
    using in_order_append [of before "own_of rest" b "nd_round n"] assms(2) order round unfolding own by (cases "own_of rest = []") simp_all
  then show ?thesis using out none res journal by (auto simp: proposes_def own_bound_def own)
qed

lemma run_proposes: "engine_run np c me start ff log n \<Longrightarrow> proposes (own_of log) (conduct_of n)"
proof (induction rule: engine_run.induct)
  case (launch cfg)
  show ?case by (simp add: proposes_def conduct_of_def node_new_def in_order_def)
next
  case (input ff log n now inp n')
  then show ?case using proposes_speaks [OF on_input_speaks] by blast
next
  case (jump ff log n cfg ct ss executed tail peers now)
  show ?case
  proof (cases rule: fast_forward_speaks [of np cfg ct ss executed tail peers now n])
    case (2 m)
    have "in_order (own_of log) (nd_round n)"
      using jump in_order_prefix [of "own_of log" "own_of (nd_journal n)" "nd_round n"] by (simp add: proposes_def own_bound_def)
    then have "proposes (own_of log) (conduct_of m)" by (simp add: 2(1) proposes_def own_bound_def)
    then show ?thesis by (rule proposes_speaks [OF 2(2)])
  qed (use jump in simp)
next
  case (flushed ff log n records out n')
  have "conduct_of n' = (conduct_of n)\<lparr>cd_own := [], cd_signals := [], cd_proposals := {}, cd_installs := False\<rparr>" "records = nd_journal n"
    using flushed.hyps(2) by (auto simp: flush_def take_journal_def take_outbox_def conduct_of_def)
  then show ?case using flushed.IH by (simp add: proposes_def own_bound_def split: option.splits)
next
  case (restart ff log n cfg executed now n')
  have "in_order (own_of log) (own_bound (conduct_of n))" using restart.IH in_order_prefix unfolding proposes_def by blast
  then show ?case by (rule recover_proposes [OF restart.hyps(2)])
qed

text \<open>
  Property C5. One vertex in a round. Over any run of the engine, whatever it receives, through
  crashes, restarts from the journal and jumps to a certified checkpoint, the vertices it proposes are
  in strictly rising rounds, and every proposal it sends out is among those in its journal.
\<close>

theorem proposes_once:
  assumes "engine_run np c me start ff log n"
  shows "sorted_wrt (<) (map v_round (own_of (log @ nd_journal n)))
    \<and> {v. (All, MsgPropose v) \<in> set (nd_outbox n)} \<subseteq> set (own_of (log @ nd_journal n))"
  using run_proposes [OF assms] by (simp add: proposes_def in_order_def proposals_def)

section \<open>One signal of a kind in an instance\<close>

abbreviation counted :: "committee \<Rightarrow> signal set" where
  "counted c \<equiv> {s. c_member c (s_source s) \<noteq> None}"

text \<open>What the signals sent and persisted show of the broadcast's state; of members' instances only, as no one counts others.\<close>

definition echoes :: "signal list \<Rightarrow> conduct \<Rightarrow> bool" where
  "echoes sent d \<longleftrightarrow> sent_book (cd_rbc d) (set (sent @ cd_signals d) \<inter> counted (cd_committee d))"

lemma echoes_says: "says d d' \<Longrightarrow> echoes sent d \<Longrightarrow> echoes sent d'"
proof (induction rule: says.induct)
  case (heard d q sig rb out)
  show ?case using on_signal_book [OF heard(2) [unfolded echoes_def] heard(1)]
    by (auto simp: echoes_def set_sends elim!: sent_book_subset)
next
  case (echoed d q r dg rb out)
  show ?case using on_propose_book [OF echoed(2) [unfolded echoes_def] echoed(1)]
    by (auto simp: echoes_def set_sends elim!: sent_book_subset)
next
  case (proposed d v dg rb out)
  show ?case using on_propose_book [OF proposed(4) [unfolded echoes_def] proposed(3)]
    by (auto simp: echoes_def set_sends elim!: sent_book_subset)
next
  case (pruned d rb)
  then show ?case by (simp add: echoes_def rbc_kept_book)
qed (simp_all add: echoes_def)

lemma says_waits: "says d d' \<Longrightarrow> cd_resuming d = None \<Longrightarrow> cd_resuming d' = None \<and> cd_installs d' = cd_installs d \<and> cd_committee d' = cd_committee d"
  by (erule says.cases) auto

lemma echoes_speaks: "speaks n n' \<Longrightarrow> echoes sent (conduct_of n) \<Longrightarrow> echoes sent (conduct_of n')"
proof -
  have "says\<^sup>*\<^sup>* d d' \<Longrightarrow> echoes sent d \<Longrightarrow> echoes sent d'" for d d'
    by (induction rule: rtranclp_induct) (auto dest: echoes_says)
  then show "speaks n n' \<Longrightarrow> echoes sent (conduct_of n) \<Longrightarrow> echoes sent (conduct_of n')" by blast
qed

lemma speaks_waits:
  "speaks n n' \<Longrightarrow> nd_resuming n = None \<Longrightarrow>
     nd_resuming n' = None \<and> list_ex is_resumed (nd_journal n') = list_ex is_resumed (nd_journal n) \<and> nd_committee n' = nd_committee n"
proof -
  have "says\<^sup>*\<^sup>* d d' \<Longrightarrow> cd_resuming d = None \<Longrightarrow> cd_resuming d' = None \<and> cd_installs d' = cd_installs d \<and> cd_committee d' = cd_committee d" for d d'
    by (induction rule: rtranclp_induct) (auto dest: says_waits)
  from this [of "conduct_of n" "conduct_of n'"]
  show "speaks n n' \<Longrightarrow> nd_resuming n = None \<Longrightarrow>
     nd_resuming n' = None \<and> list_ex is_resumed (nd_journal n') = list_ex is_resumed (nd_journal n) \<and> nd_committee n' = nd_committee n"
    by simp
qed

text \<open>Recovery puts every persisted signal back.\<close>

definition one_digest :: "signal set \<Rightarrow> bool" where
  "one_digest S \<longleftrightarrow> (\<forall>s \<in> S. \<forall>s' \<in> S. s_kind s = s_kind s' \<longrightarrow> slot_of s = slot_of s' \<longrightarrow> s_digest s = s_digest s')"

definition restored :: "committee \<Rightarrow> signal set \<Rightarrow> core \<Rightarrow> bool" where
  "restored com T c \<longleftrightarrow> w_committee c = com \<and> sent_book (co_rbc c) (T \<inter> counted com)"

lemma restored_kept: "restored com T c \<Longrightarrow> core_kept c c' \<Longrightarrow> restored com T c'"
  unfolding restored_def core_kept_def using rbc_kept_book by auto

lemma restored_signal:
  assumes "restored com T c" "one_digest (insert s T \<inter> counted com)"
  shows "restored com (insert s T) (restore_signal c s)"
proof (cases "s \<in> counted com")
  case True
  have "sent_book (restore_sent com s (co_rbc c)) (insert s (T \<inter> counted com))"
    using assms True by (intro restore_sent_book) (auto simp: restored_def one_digest_def)
  then show ?thesis using assms(1) True by (simp add: restored_def restore_signal_def)
next
  case False
  then have "restore_sent com s (co_rbc c) = co_rbc c" by (simp add: restore_sent_def)
  then show ?thesis using assms(1) False by (simp add: restored_def restore_signal_def)
qed

lemma one_digest_subset: "one_digest S \<Longrightarrow> T \<subseteq> S \<Longrightarrow> one_digest T"
  unfolding one_digest_def by (simp add: subset_iff)

lemma restored_signals:
  "restored com T c \<Longrightarrow> one_digest ((T \<union> set ss) \<inter> counted com) \<Longrightarrow> restored com (T \<union> set ss) (foldl restore_signal c ss)"
proof (induction ss arbitrary: T c)
  case (Cons s ss)
  have "restored com (insert s T) (restore_signal c s)"
    by (rule restored_signal [OF Cons.prems(1) one_digest_subset [OF Cons.prems(2)]]) auto
  from Cons.IH [OF this] show ?case using Cons.prems(2) by simp
qed simp

lemma restored_vertices: "restored com T c \<Longrightarrow> restored com T (foldl (restore_vertex np) c vs)"
proof (induction vs arbitrary: c)
  case (Cons v vs)
  have "restored com T (restore_vertex np c v)"
    using Cons.prems by (auto simp: restored_def restore_vertex_def Let_def put_first_def restore_delivered_book)
  then show ?case using Cons.IH by simp
qed simp

lemma replay_restored:
  "replay_rounds np vs ss c = Some (c', left) \<Longrightarrow> restored com T c \<Longrightarrow> one_digest ((T \<union> set ss) \<inter> counted com) \<Longrightarrow>
     \<exists>T'. restored com T' c' \<and> T' \<union> set left = T \<union> set ss"
proof (induction np vs ss c arbitrary: T rule: replay_rounds.induct)
  case (1 np ss c)
  then show ?case by auto
next
  case (2 np v vs ss c)
  let ?P = "\<lambda>s. s_round s \<le> v_round v"
  let ?c1 = "foldl restore_signal c (takeWhile ?P ss)"
  let ?c2 = "foldl (restore_vertex np) ?c1 (v # takeWhile (\<lambda>w. v_round w = v_round v) vs)"
  obtain c3 where c3: "try_commit (np_core np) ?c2 = Some c3"
    "replay_rounds np (dropWhile (\<lambda>w. v_round w = v_round v) vs) (dropWhile ?P ss) c3 = Some (c', left)"
    using 2(2) by (auto simp: Let_def Option.bind_eq_Some_conv)
  have ss: "set ss = set (takeWhile ?P ss) \<union> set (dropWhile ?P ss)" by (metis set_append takeWhile_dropWhile_id)
  have "restored com (T \<union> set (takeWhile ?P ss)) ?c1"
    by (rule restored_signals [OF 2(3) one_digest_subset [OF 2(4)]]) (use ss in auto)
  then have "restored com (T \<union> set (takeWhile ?P ss)) c3"
    using restored_kept [OF restored_vertices try_commit_kept [OF c3(1)]] by blast
  from 2(1) [OF refl refl c3 this] show ?case using 2(4) ss by (simp add: Un_assoc)
qed

lemma recover_echoes:
  assumes "recover np cfg c me start log executed now = Some n'" "\<not> list_ex is_resumed log"
    and "one_digest (set (signals_in log) \<inter> counted c)"
  shows "echoes (signals_in log) (conduct_of n')" "nd_resuming n' = None" "nd_journal n' = []" "nd_committee n' = c"
proof -
  let ?n0 = "on_core (\<lambda>c. c\<lparr>co_executed_through := executed\<rparr>) (node_new np cfg c me start)"
  obtain n rest core core' left where fr: "from_resumption np now log ?n0 = (n, rest)" and journal: "nd_journal n' = []"
    and replay: "replay_rounds np (sort_key (\<lambda>v. (v_round v, v_source v)) (delivered_in rest)) (sort_key s_round (signals_in rest)) core = Some (core', left)"
    and core: "co_rbc core = co_rbc (nd_core n)" "w_committee core = nd_committee n"
    and n': "nd_core n' = (release_segments (foldl restore_signal core' left))\<lparr>co_wanted_vertices := []\<rparr>" "nd_resuming n' = nd_resuming n"
    by (rule recover_stages [OF assms(1)])
  have "at_resumption log = None" using assms(2) by (simp add: at_resumption_None)
  then have "n = ?n0" "rest = log" using fr by (simp_all add: from_resumption_def)
  then have start: "restored c {} core" "nd_resuming n = None"
    using core sent_book_new by (simp_all add: restored_def on_core_def node_new_def core_new_def)
  obtain T where T: "restored c T core'" "T \<union> set left = set (signals_in log)"
    using replay_restored [OF replay start(1)] assms(3) \<open>rest = log\<close> by auto
  have "restored c (set (signals_in log)) (foldl restore_signal core' left)"
    using restored_signals [OF T(1), of left] T(2) assms(3) by simp
  then have "restored c (set (signals_in log)) (release_segments (foldl restore_signal core' left))"
    by (rule restored_kept [OF _ release_segments_kept])
  then show "echoes (signals_in log) (conduct_of n')" "nd_committee n' = c"
    using journal by (simp_all add: echoes_def restored_def n'(1))
  show "nd_resuming n' = None" "nd_journal n' = []" using n'(2) start(2) journal by simp_all
qed

lemma echoes_one: "echoes sent d \<Longrightarrow> one_digest (set sent \<inter> counted (cd_committee d))"
  unfolding echoes_def one_digest_def using sent_bookD(3) by (fastforce simp del: prod.inject)

lemma run_echoes:
  "engine_run np c me start ff log n \<Longrightarrow> \<not> ff \<Longrightarrow>
     echoes (signals_in log) (conduct_of n) \<and> nd_resuming n = None \<and> \<not> list_ex is_resumed (log @ nd_journal n) \<and> nd_committee n = c"
proof (induction rule: engine_run.induct)
  case (launch cfg)
  show ?case by (simp add: echoes_def conduct_of_def node_new_def core_new_def sent_book_new)
next
  case (input ff log n now inp n')
  then show ?case using on_input_speaks [OF input.hyps(2)] echoes_speaks speaks_waits by auto
next
  case (flushed ff log n records out n')
  have "conduct_of n' = (conduct_of n)\<lparr>cd_own := [], cd_signals := [], cd_proposals := {}, cd_installs := False\<rparr>" "records = nd_journal n"
    "nd_resuming n' = nd_resuming n" "nd_journal n' = []" "nd_committee n' = nd_committee n"
    using flushed.hyps(2) by (auto simp: flush_def take_journal_def take_outbox_def conduct_of_def)
  then show ?case using flushed.IH flushed.prems by (clarsimp simp: echoes_def)
next
  case (restart ff log n cfg executed now n')
  have "one_digest (set (signals_in log) \<inter> counted c)" "\<not> list_ex is_resumed log"
    using restart.IH [OF restart.prems] echoes_one [of "signals_in log" "conduct_of n"] by simp_all
  then show ?case using recover_echoes [OF restart.hyps(2)] by simp
qed simp


section \<open>Jumping again\<close>

text \<open>What a jump that is taken leaves the engine with: a core without a round that waits for a state.\<close>

definition waits_for :: "certificate \<Rightarrow> round option \<Rightarrow> node \<Rightarrow> bool" where
  "waits_for ct own n \<longleftrightarrow> nd_round n = None \<and> (\<exists>q. nd_resuming n = Some q \<and> rs_certificate q = ct \<and> rs_own_round q = own)"

lemma waits_foldl: "(\<And>m x. waits_for ct own m \<Longrightarrow> waits_for ct own (f m x)) \<Longrightarrow> waits_for ct own m \<Longrightarrow> waits_for ct own (foldl f m xs)"
  by (induction xs arbitrary: m) simp_all

lemma jump_waits:
  assumes "cp_epoch (ct_checkpoint ct) = c_epoch (nd_committee n)" "cp_next_committee_root (ct_checkpoint ct) = None"
    and "\<And>q. nd_resuming n = Some q \<Longrightarrow> cp_index (ct_checkpoint (rs_certificate q)) < cp_index (ct_checkpoint ct)"
  shows "waits_for ct (nd_round n) (fast_forward np cfg ct ss executed tail peers now n)"
    "nd_committee (fast_forward np cfg ct ss executed tail peers now n) = nd_committee n"
proof -
  define m where "m = resume np cfg (nd_committee n) (nd_me n) ct ss (nd_round n) (nd_next_batch_sequence n) executed
    (sc_lookahead (w_schedule (nd_core n)))"
  define m' where "m' = foldl (\<lambda>m (h, block, state). on_core (on_executed (np_core np) h block state []) m) (start_epoch np now m) tail"
  have taken: "fast_forward np cfg ct ss executed tail peers now n = foldl (\<lambda>m p. on_peer_up np p now m) m' peers"
    using assms unfolding fast_forward_def Let_def m_def [symmetric] m'_def [symmetric] by (auto split: option.split)
  have "waits_for ct (nd_round n) m" by (simp add: waits_for_def m_def resume_def Let_def node_new_def)
  then have "waits_for ct (nd_round n) (start_epoch np now m)"
    by (auto simp: waits_for_def start_epoch_def Let_def ask_ordering_def send_def)
  then have "waits_for ct (nd_round n) m'"
    unfolding m'_def by (intro waits_foldl) (auto simp: waits_for_def on_core_def)
  then show "waits_for ct (nd_round n) (fast_forward np cfg ct ss executed tail peers now n)"
    unfolding taken by (intro waits_foldl) (auto simp: waits_for_def on_peer_up_def Let_def send_def)
  have committee: "cd_committee d' = cd_committee d" if "says\<^sup>*\<^sup>* d d'" for d d'
    using that by (induction rule: rtranclp_induct) (auto elim!: says.cases)
  show "nd_committee (fast_forward np cfg ct ss executed tail peers now n) = nd_committee n"
  proof (cases rule: fast_forward_speaks [of np cfg ct ss executed tail peers now n])
    case (2 m)
    then show ?thesis using committee [OF 2(2)] by simp
  qed simp
qed

text \<open>
  Property C17. A second jump forgets the rounds. The engine jumps again while its core still waits for
  a state, and passes that core's round, which is none, as the last round proposed in. The validator
  that was in round \<open>r\<close> goes on from the anchor of the second checkpoint, whatever \<open>r\<close> was, and may
  propose once more in the rounds between.
\<close>

theorem second_jump_forgets_round:
  assumes "nd_resuming n = None" "nd_round n = Some r"
    and "cp_epoch (ct_checkpoint ct) = c_epoch (nd_committee n)" "cp_epoch (ct_checkpoint ct') = c_epoch (nd_committee n)"
    and "cp_next_committee_root (ct_checkpoint ct) = None" "cp_next_committee_root (ct_checkpoint ct') = None"
    and "cp_index (ct_checkpoint ct) < cp_index (ct_checkpoint ct')"
    and m: "m = fast_forward np cfg ct ss executed tail peers now n"
    and m': "m' = fast_forward np cfg' ct' ss' executed' tail' peers' now' m"
  shows "\<exists>q q'. nd_resuming m = Some q \<and> rs_own_round q = Some r \<and> nd_resuming m' = Some q' \<and> rs_own_round q' = None
    \<and> nd_round (install ct' st (rs_own_round q') later np m') = Some (os_anchor_round st)"
proof -
  have w1: "waits_for ct (Some r) m" "nd_committee m = nd_committee n"
    using jump_waits [of ct n np cfg ss executed tail peers now] assms(1-7) by (simp_all add: m)
  have "waits_for ct' (nd_round m) m'"
    unfolding m' by (rule jump_waits(1)) (use w1 assms(4,6,7) in \<open>auto simp: waits_for_def\<close>)
  then show ?thesis using w1(1) by (auto simp: waits_for_def install_def Let_def opt_max_def)
qed

section \<open>A validator of four\<close>

text \<open>Digests are the timestamps of vertices; validator 0 hears of validator 1's vertices of round 0.\<close>

definition echo_params :: node_params where
  "echo_params = solo_params\<lparr>np_vdigest := \<lambda>v. [of_nat (v_timestamp_ms v)]\<rparr>"

definition echo_vertex :: "nat \<Rightarrow> vertex" where
  "echo_vertex t = \<lparr>v_epoch = 0, v_round = 0, v_source = 1, v_strong = [], v_weak = [], v_batches = [], v_carried = [], v_timestamp_ms = t\<rparr>"

definition echo_signal :: "nat \<Rightarrow> signal" where
  "echo_signal t = \<lparr>s_kind = Echo, s_round = 0, s_source = 1, s_digest = [of_nat t]\<rparr>"

lemma echo_once: "snd (on_propose demo_committee 1 0 1 [1] (rbc_new 0)) = [Broadcast (echo_signal 1)]"
  "snd (on_propose demo_committee 1 0 1 [2] (rbc_new 0)) = [Broadcast (echo_signal 2)]"
  by code_simp+

lemma echo_vertex_ok: "check_structure (echo_vertex t) demo_committee = Inr ()"
  unfolding check_structure_cases
  by (simp add: echo_vertex_def MAX_REFS_def MAX_BATCH_REFS_def MAX_CARRIED_def consecutive_def sorted_carried_def demo_committee_def member_set_def)

lemma progress_idle:
  assumes "open_slots (nd_core n) = []" "advance_once np now n = (False, n)"
  shows "progress np now n = Some (on_core release_segments n)"
proof -
  have "decide_slots (pm_draw (np_core np)) (nd_core n) = []" using assms(1) by (simp add: decide_slots_def)
  then have "try_commit (np_core np) (nd_core n) = Some (nd_core n)"
    using assms(1) by (simp add: try_commit_def draw_open_def)
  then show ?thesis using assms(2) by (simp add: progress_def try_advance_def)
qed

text \<open>A node that has heard nothing yet.\<close>

definition unheard :: "nat \<Rightarrow> node \<Rightarrow> bool" where
  "unheard now n \<longleftrightarrow> nd_committee n = demo_committee \<and> nd_me n = 0 \<and> co_rbc (nd_core n) = rbc_new 0 \<and> nd_resuming n = None
     \<and> co_unechoed (nd_core n) = [] \<and> g_rounds (w_dag (nd_core n)) = [] \<and> g_floor (w_dag (nd_core n)) = 0
     \<and> w_first_proposals (nd_core n) = [] \<and> nd_cfg n = solo_config
     \<and> (nd_round n = None \<or> nd_round n = Some 0 \<and> nd_round_entered_ms n = now)"

lemma unheard_idle:
  assumes "nd_cfg n = solo_config" "nd_round n = None \<or> nd_round n = Some 0 \<and> nd_round_entered_ms n = 0" "g_rounds (w_dag (nd_core n)) = []"
  shows "advance_once np 0 n = (False, n)"
proof (cases "nd_round n")
  case (Some r)
  then have "r = 0" "nd_round_entered_ms n = 0" using assms(2) by auto
  moreover have "highest_round (w_dag (nd_core n)) = None" using assms(3) by (simp add: highest_round_def)
  ultimately show ?thesis using Some assms(1)
    by (simp add: advance_once_def Let_def top_quorum.simps enter_after_def solo_config_def sat_add_def uint_max_def)
qed (simp add: advance_once_def)

lemma hear_echo:
  assumes n: "unheard 0 n" and t: "t = 1 \<or> t = 2"
  shows "\<exists>n'. on_input echo_params 0 (InInbound 0 1 [MsgPropose (echo_vertex t)]) n = Some n'
    \<and> signals_in (nd_journal n') = signals_in (nd_journal n) @ [echo_signal t] \<and> nd_resuming n' = None \<and> nd_committee n' = demo_committee
    \<and> nd_me n' = 0 \<and> nd_round n' = nd_round n"
proof -
  note n = n [unfolded unheard_def]
  define m where "m = n\<lparr>nd_now_ms := 0, nd_frame_fetches := 0, nd_frame_answered_frontier := False, nd_frame_answered_ordering := False\<rparr>"
  define rb where "rb = fst (on_propose demo_committee 1 0 1 [of_nat t] (rbc_new 0))"
  have op: "on_propose demo_committee 1 0 1 [of_nat t] (rbc_new 0) = (rb, [Broadcast (echo_signal t)])"
    using t echo_once by (auto simp: rb_def prod_eq_iff)
  define f where "f = core_propose echo_params 1 (echo_vertex t) m"
  have v: "v_round (echo_vertex t) = 0" "v_source (echo_vertex t) = 1" "v_strong (echo_vertex t) = []" "v_batches (echo_vertex t) = []"
    "v_carried (echo_vertex t) = []" "np_vdigest echo_params (echo_vertex t) = [of_nat t]"
    by (simp_all add: echo_vertex_def echo_params_def)
  have f: "f = core_echo echo_params (echo_vertex t) (on_core (put_first 0 1 []) m)"
    using n echo_vertex_ok [of t]
    by (simp add: f_def core_propose_def Let_def v m_def rbc_proposed_def rbc_new_def named_batches_def holds_batches_of_def on_core_def)
  have g: "signals_in (nd_journal f) = signals_in (nd_journal n) @ [echo_signal t]" "nd_resuming f = None" "nd_committee f = demo_committee" "nd_me f = 0"
    "co_unechoed (nd_core f) = []" "g_rounds (w_dag (nd_core f)) = []" "w_first_proposals (nd_core f) = [(0, [(1, [])])]" "nd_cfg f = solo_config"
    "nd_round f = nd_round n" "nd_round_entered_ms f = nd_round_entered_ms n"
    using n unfolding f core_echo_def Let_def v
    by (simp_all add: op apply_rbc_def on_core_def m_def put_first_def send_def first_refs_def al_put_def del: One_nat_def)
  have idle: "advance_once echo_params 0 f = (False, f)" by (rule unheard_idle) (use g n in auto)
  have "open_slots (nd_core f) = []" by (simp add: open_slots_def top_round_def g)
  then have p: "progress echo_params 0 f = Some (on_core release_segments f)" by (rule progress_idle [OF _ idle])
  have held: "echo_held echo_params f = f" using g(5) by (simp add: echo_held_def echo_params_def solo_params_def List.map_filter_def)
  have "on_input echo_params 0 (InInbound 0 1 [MsgPropose (echo_vertex t)]) n = progress echo_params 0 (echo_held echo_params f)"
    using n unfolding on_input_def on_messages_def Let_def
    by (simp add: demo_committee_def c_member_def on_message_def f_def m_def)
  then show ?thesis using g(1-4,9) release_segments_kept [of "nd_core f"] unfolding held p by (simp add: on_core_def core_kept_def)
qed

definition jump_state :: ordering_state where
  "jump_state = ordering_state_of (core_new (np_core echo_params) solo_config demo_committee 0 solo_start) 0"

definition jump_certificate :: certificate where
  "jump_certificate = \<lparr>ct_checkpoint = (demo_checkpoint 0 None)\<lparr>cp_ordering_root := ordering_digest (np_core echo_params) jump_state\<rparr>,
     ct_signers = [], ct_sessions = [], ct_signatures = []\<rparr>"

lemma demo_members: "c_epoch demo_committee = 0" "c_member demo_committee 2 \<noteq> None"
  by (simp_all add: demo_committee_def c_member_def)

lemma jump_state_fields:
  "os_index jump_state = 0" "os_epoch jump_state = 0" "os_floor jump_state = 0" "os_anchor_round jump_state = 0"
  by (simp_all add: jump_state_def ordering_state_of_def core_new_def demo_committee_def with_vouching_def dag_new_def)

lemma jump_certificate_fields:
  "cp_epoch (ct_checkpoint jump_certificate) = 0" "cp_index (ct_checkpoint jump_certificate) = 0"
  "cp_next_committee_root (ct_checkpoint jump_certificate) = None"
  "cp_ordering_root (ct_checkpoint jump_certificate) = ordering_digest (np_core echo_params) jump_state"
  by (simp_all add: jump_certificate_def demo_checkpoint_def)

lemma unheard_new: "unheard 0 (node_new echo_params solo_config demo_committee 0 solo_start)"
  by (simp add: unheard_def node_new_def core_new_def with_vouching_def dag_new_def)

text \<open>The jump and the state it waits for leave a node that has heard nothing.\<close>

lemma jump_unheard:
  assumes "nd_committee n = demo_committee" "nd_me n = 0" "nd_resuming n = None" "nd_round n = None"
  defines "m \<equiv> fast_forward echo_params solo_config jump_certificate [] 0 [] [] 0 n"
  shows "\<exists>n'. on_input echo_params 0 (InInbound 0 2 [MsgOrdering jump_state]) m = Some n' \<and> unheard 0 n'"
proof -
  define k where "k = resume echo_params solo_config demo_committee 0 jump_certificate [] None (nd_next_batch_sequence n) 0 (sc_lookahead (w_schedule (nd_core n)))"
  have k: "nd_resuming k = Some \<lparr>rs_certificate = jump_certificate, rs_own_round = None, rs_asked_ms = 0\<rparr>"
    "nd_committee k = demo_committee" "nd_me k = 0" "nd_cfg k = solo_config" "co_rbc (nd_core k) = rbc_new 0" "co_unechoed (nd_core k) = []"
    "w_first_proposals (nd_core k) = []" "co_waiting (nd_core k) = []"
    by (simp_all add: k_def resume_def Let_def node_new_def core_new_def)
  define q where "q = \<lparr>rs_certificate = jump_certificate, rs_own_round = None, rs_asked_ms = (1 :: nat)\<rparr>"
  have m: "nd_core m = nd_core k" "nd_resuming m = Some q"
    using assms(1-4) k jump_certificate_fields
    by (simp_all add: m_def fast_forward_def Let_def demo_members k_def [symmetric] start_epoch_def ask_ordering_def send_def q_def)
  define i where "i = (install jump_certificate jump_state None 0 echo_params (m\<lparr>nd_now_ms := 0\<rparr>))\<lparr>nd_last_repair_ms := 0\<rparr>"
  define f where "f = send All (MsgFrontier (frontier_of i)) i"
  have f: "nd_committee f = demo_committee" "nd_me f = 0" "co_rbc (nd_core f) = rbc_new 0" "nd_resuming f = None" "co_unechoed (nd_core f) = []"
    "g_rounds (w_dag (nd_core f)) = []" "g_floor (w_dag (nd_core f)) = 0" "w_first_proposals (nd_core f) = []" "nd_cfg f = solo_config"
    "nd_round f = Some 0" "nd_round_entered_ms f = 0" "co_waiting (nd_core f) = []"
    using k m(1) jump_state_fields
    by (simp_all add: f_def i_def send_def install_def Let_def with_vouching_def dag_new_def dag_prune_below_def opt_max_def)
  have no_more: "Option.bind x (take_orderings np []) = x" for x np by (cases x) simp_all
  have "advance_once echo_params 0 f = (False, f)" by (rule unheard_idle) (use f in simp_all)
  moreover have "open_slots (nd_core f) = []" using f(6,8) by (simp add: open_slots_def top_round_def)
  ultimately have p: "progress echo_params 0 f = Some (on_core release_segments f)" by (intro progress_idle)
  have "release_segments (nd_core f) = nd_core f" using f(12) by (simp add: release_segments.simps)
  then have "unheard 0 (on_core release_segments f)" using f by (simp add: unheard_def on_core_def)
  moreover have "on_input echo_params 0 (InInbound 0 2 [MsgOrdering jump_state]) m = progress echo_params 0 f"
    using m k jump_state_fields jump_certificate_fields unfolding on_input_def on_messages_def Let_def
    by (simp add: demo_members on_ordering_def q_def Let_def f_def i_def no_more)
  ultimately show ?thesis using p by simp
qed


text \<open>Once it has channels to a quorum the validator proposes in round 0.\<close>

definition lined_up :: "validator_index set \<Rightarrow> node \<Rightarrow> bool" where
  "lined_up A n \<longleftrightarrow> nd_committee n = demo_committee \<and> nd_me n = 0 \<and> nd_resuming n = None \<and> nd_round n = None \<and> nd_started n
     \<and> nd_journal n = [] \<and> ss_elems (nd_connected n) = A \<and> ss_weight (nd_connected n) = card A \<and> finite A"

lemma demo_quorum: "quorum demo_committee = 3"
  by (simp add: quorum_def demo_thresholds)

lemma lined_up_peer:
  assumes "lined_up A n" "p \<notin> A" "p = 1 \<or> p = 2"
  obtains "card A + 1 < 3" "lined_up (insert p A) (on_peer_up echo_params p 0 n)"
  | m where "3 \<le> card A + 1" "on_peer_up echo_params p 0 n = propose_round echo_params 0 0 m" "nd_journal m = []"
      "nd_resuming m = None" "nd_round m = None" "nd_committee m = demo_committee"
proof -
  define k where "k = n\<lparr>nd_now_ms := 0, nd_connected := snd (ss_insert (nd_connected n) p (c_seats (nd_committee n) p))\<rparr>"
  define m where "m = send (One p) (MsgFrontier (frontier_of k)) k"
  have p: "p \<noteq> 0" "p < 4" "c_member demo_committee p \<noteq> None" using assms(3) by (auto simp: demo_committee_def c_member_def)
  have up: "on_peer_up echo_params p 0 n = try_start echo_params 0 m"
    using assms(1) p unfolding on_peer_up_def Let_def k_def [symmetric] by (auto simp: lined_up_def m_def k_def)
  have m: "lined_up (insert p A) m"
    using assms(1,2) p seatset.ins_elems [of "nd_connected n" p "c_seats demo_committee p"]
      seatset.ins_weight [of "nd_connected n" p "c_seats demo_committee p"]
    by (simp add: lined_up_def m_def k_def send_def c_seats_demo)
  have card: "card (insert p A) = card A + 1" using assms(1,2) by (simp add: lined_up_def)
  show thesis
  proof (cases "card A + 1 < 3")
    case True
    then have "try_start echo_params 0 m = m" using m card by (simp add: try_start_def lined_up_def demo_quorum)
    then show thesis using that(1) True m up by simp
  next
    case False
    then have "try_start echo_params 0 m = propose_round echo_params 0 0 m" using m card by (simp add: try_start_def lined_up_def demo_quorum)
    then show thesis using that(2) [of m] False m up by (simp add: lined_up_def)
  qed
qed

lemma lined_up_start: "lined_up {0} (start_epoch echo_params 0 (node_new echo_params solo_config demo_committee 0 solo_start))"
  using seatset.ins_elems [of ss_new 0 1] seatset.ins_weight [of ss_new 0 1]
  by (simp add: start_epoch_def Let_def try_start_def demo_quorum lined_up_def node_new_def core_new_def c_seats_demo
      seatset.elems_empty seatset.weight_empty)

lemma started_ok:
  obtains n v where "engine_run echo_params demo_committee 0 solo_start False [] n" "own_of (nd_journal n) = [v]" "nd_round n = Some 0"
    "nd_resuming n = None" "nd_committee n = demo_committee"
proof -
  let ?run = "engine_run echo_params demo_committee 0 solo_start False []"
  define n0 where "n0 = start_epoch echo_params 0 (node_new echo_params solo_config demo_committee 0 solo_start)"
  define n1 where "n1 = on_peer_up echo_params 1 0 n0"
  define n2 where "n2 = on_peer_up echo_params 2 0 n1"
  have l0: "lined_up {0} n0" using lined_up_start by (simp add: n0_def)
  have l1: "lined_up {1, 0} n1" using lined_up_peer [OF l0, of 1] by (auto simp: n1_def)
  obtain m where m: "n2 = propose_round echo_params 0 0 m" "nd_journal m = []" "nd_resuming m = None" "nd_round m = None" "nd_committee m = demo_committee"
    using lined_up_peer [OF l1, of 2] by (auto simp: n2_def)
  have "?run n0" unfolding n0_def by (rule engine_run.input [OF engine_run.launch, of _ 0 InStart]) (simp add: on_input_def)
  then have "?run n1"
    by (rule engine_run.input [of _ _ _ _ _ _ _ 0 "InPeerUp 0 1"]) (use l0 in \<open>simp add: on_input_def n1_def lined_up_def demo_members\<close>)
  then have run: "?run n2"
    by (rule engine_run.input [of _ _ _ _ _ _ _ 0 "InPeerUp 0 2"]) (use l1 in \<open>simp add: on_input_def n2_def lined_up_def demo_members\<close>)
  obtain v rb out where d: "conduct_of n2 = (conduct_of m)\<lparr>cd_round := Some 0, cd_own := own_of (nd_journal m) @ [v],
       cd_proposals := insert v (proposals (nd_outbox m)), cd_rbc := rb, cd_signals := signals_in (nd_journal m) @ sends out\<rparr>"
    unfolding m(1) by (rule conduct_propose_round)
  show thesis
    using that [OF run, of v] arg_cong [OF d, of cd_own] arg_cong [OF d, of cd_round] arg_cong [OF d, of cd_resuming] arg_cong [OF d, of cd_committee] m
    by simp
qed

theorem proposes_once_witness:
  "\<exists>n v. engine_run echo_params demo_committee 0 solo_start False [] n \<and> own_of ([] @ nd_journal n) = [v]
     \<and> sorted_wrt (<) (map v_round (own_of ([] @ nd_journal n)))"
proof -
  obtain n v where n: "engine_run echo_params demo_committee 0 solo_start False [] n" "own_of (nd_journal n) = [v]" by (rule started_ok)
  then show ?thesis using proposes_once [OF n(1)] by auto
qed


theorem second_jump_forgets_round_witness:
  "\<exists>n q. nd_round n = Some 0 \<and> rs_own_round q = None
     \<and> nd_resuming (fast_forward echo_params solo_config (demo_certificate 0 None\<lparr>ct_checkpoint := (demo_checkpoint 0 None)\<lparr>cp_index := 1\<rparr>\<rparr>) [] 0 [] [] 0
         (fast_forward echo_params solo_config (demo_certificate 0 None) [] 0 [] [] 0 n)) = Some q"
proof -
  obtain n v where n: "nd_round n = Some 0" "nd_resuming n = None" "nd_committee n = demo_committee" by (rule started_ok)
  show ?thesis
    using second_jump_forgets_round [where np = echo_params and n = n and r = 0 and ct = "demo_certificate 0 None"
        and ct' = "demo_certificate 0 None\<lparr>ct_checkpoint := (demo_checkpoint 0 None)\<lparr>cp_index := 1\<rparr>\<rparr>" and cfg = solo_config and cfg' = solo_config
        and ss = "[]" and ss' = "[]" and executed = 0 and executed' = 0 and tail = "[]" and tail' = "[]" and peers = "[]"
        and peers' = "[]" and now = 0 and now' = 0 and st = jump_state and later = 0, OF _ _ _ _ _ _ _ refl refl] n
    by (auto simp: demo_certificate_def demo_checkpoint_def demo_members)
qed

end
