(* ===== verification/Recovery.thy ===== *)
theory Recovery
  imports Engine
begin

text \<open>
  Recovery after a jump (\<^verbatim>\<open>crates/tenzro-consensus/src/core.rs\<close>): the batches a recovered validator
  takes for not introduced yet.
\<close>

section \<open>Batches introduced before a resumption\<close>

lemma restore_own_core:
  "nd_core (restore_own np n v) = (put_first (v_round v) (co_me (nd_core n)) (v_strong v) ((nd_core n)\<lparr>co_own_introduced :=
     foldl (\<lambda>m b. al_put (b_digest b) (v_round v) m) (co_own_introduced (nd_core n)) (v_batches v)\<rparr>))
     \<lparr>co_bodies := al_put (np_vdigest np v) v (co_bodies (nd_core n))\<rparr>"
  by (simp add: restore_own_def Let_def put_first_def)

lemma next_vertex_batches:
  "\<not> co_halted c \<Longrightarrow> v_batches (fst (next_vertex np r now c)) = co_own_unintroduced c"
  by (simp add: next_vertex_def Let_def split: prod.split)

text \<open>
  Property C16. A recovered validator proposes a vertex its peers refuse. It introduced its first batch
  before it resumed from a certified checkpoint and its second after; its third waits. Restarted from
  this journal, it takes the first for not introduced, since only the vertices after the resumption
  are looked at, and its next vertex introduces the first and the third, which are not consecutive.
\<close>

theorem recovery_gap:
  fixes p :: "nat \<Rightarrow> batch_payload"
  assumes "\<And>i. bp_author (p i) = me \<and> bp_sequence (p i) = i" "inj (\<lambda>i. np_bdigest np (p i))"
    and "v_batches v = [batch_reference np (p 0)]" "v_batches w = [batch_reference np (p 1)]"
    and "log = [RecBatch (p 0), RecOwn v, RecResumed re, RecBatch (p 1), RecOwn w, RecBatch (p 2)]"
  shows "\<exists>n. recover np cfg c me start log executed now = Some n \<and> map b_sequence (co_own_unintroduced (nd_core n)) = [0, 2]
    \<and> check_structure (fst (next_vertex np r t (nd_core n))) c \<noteq> Inr ()"
proof -
  let ?rest = "[RecBatch (p 1), RecOwn w, RecBatch (p 2)]"
  have res: "at_resumption log = Some ([RecBatch (p 0), RecOwn v], re, ?rest)" using assms(5) by simp
  have kinds: "own_of ?rest = [w]" "own_of [RecBatch (p 0), RecOwn v] = [v]" "batches_in ?rest = [p 1, p 2]" "signals_in ?rest = []"
    "batches_in [RecBatch (p 0), RecOwn v] = [p 0]" "delivered_in ?rest = []"
    by (simp_all add: batches_in_def delivered_in_def List.map_filter_def)
  have d: "np_bdigest np (p i) = np_bdigest np (p j) \<longleftrightarrow> i = j" for i j using assms(2) by (auto dest: injD)
  have ref: "b_sequence (batch_reference np (p i)) = i" "b_digest (batch_reference np (p i)) = np_bdigest np (p i)" for i
    using assms(1) by (simp_all add: batch_reference_def)
  define n0 where "n0 = install (re_certificate re) (re_state re) (opt_max None (Some (v_round v))) now np
    (on_core (\<lambda>c. keep_batch np c (p 0)) (on_core (\<lambda>c. c\<lparr>co_executed_through := executed\<rparr>) (node_new np cfg c me start)))"
  have fr: "from_resumption np now log (on_core (\<lambda>c. c\<lparr>co_executed_through := executed\<rparr>) (node_new np cfg c me start)) = (n0, ?rest)"
    unfolding from_resumption_def res by (simp add: kinds n0_def)
  define n1 where "n1 = on_core (\<lambda>c. foldl (keep_batch np) c (batches_in ?rest)) n0"
  define n2 where "n2 = n1\<lparr>nd_next_batch_sequence := max (nd_next_batch_sequence n1) (next_sequence_of (nd_core n1))\<rparr>"
  define n3 where "n3 = foldl (restore_own np) n2 (sort_key v_round (own_of ?rest))"
  define bs where "bs = sort_key b_sequence (map (\<lambda>(_, p). batch_reference np p) (filter (\<lambda>(d, p). bp_author p = me
    \<and> d \<notin> set (map b_digest (concat (map v_batches (sort_key v_round (own_of ?rest)))))) (co_payloads (nd_core n3))))"
  define n4 where "n4 = on_core (\<lambda>c. c\<lparr>co_own_unintroduced := bs\<rparr>) n3"
  note stages = n1_def [symmetric] n2_def [symmetric] n3_def [symmetric] bs_def [symmetric] n4_def [symmetric]
  have n3: "n3 = restore_own np n2 w" "n1 = on_core (\<lambda>c. keep_batch np (keep_batch np c (p 1)) (p 2)) n0"
    unfolding n3_def n1_def kinds by simp_all
  have pay: "co_payloads (nd_core n3) = [(np_bdigest np (p 2), p 2), (np_bdigest np (p 1), p 1), (np_bdigest np (p 0), p 0)]"
    by (simp add: n3 n2_def n0_def restore_own_core put_first_def keep_batch_def on_core_def install_def Let_def node_new_def core_new_def al_put_def d)
  have idle: "\<not> co_halted (nd_core n3)" "co_waiting (nd_core n3) = []"
    by (simp_all add: n3 n2_def n0_def restore_own_core put_first_def keep_batch_def on_core_def install_def Let_def node_new_def core_new_def)
  have bs: "bs = [batch_reference np (p 0), batch_reference np (p 2)]"
    unfolding bs_def kinds pay using assms(1,4) by (simp add: d ref)
  define core where "core = (nd_core n4)\<lparr>co_wanted_vertices := []\<rparr>"
  have n4: "co_waiting (nd_core n4) = []" "co_own_unintroduced core = bs" "\<not> co_halted core"
    using idle by (simp_all add: n4_def core_def on_core_def)
  have replay: "replay_rounds np (sort_key (\<lambda>v. (v_round v, v_source v)) (delivered_in ?rest)) (sort_key s_round (signals_in ?rest)) (nd_core n4)
      = Some (nd_core n4, [])"
    unfolding kinds by simp
  obtain n where n: "recover np cfg c me start log executed now = Some n" "nd_core n = core"
    unfolding recover_def Let_def fr prod.case stages replay option.case
    using n4(1) by (simp add: send_foldl core_def release_segments.simps)
  have "\<not> consecutive bs" unfolding consecutive_def by (auto simp: bs ref intro!: exI [of _ 0])
  moreover have "v_batches (fst (next_vertex np r t core)) = bs" using n4 by (simp add: next_vertex_batches)
  ultimately have "check_structure (fst (next_vertex np r t core)) c \<noteq> Inr ()" unfolding check_structure_cases by metis
  then show ?thesis using n n4(2) by (auto simp: bs ref)
qed

text \<open>Three batches of validator 0 and the vertices that introduce the first two.\<close>

definition gap_params :: node_params where
  "gap_params = echo_params\<lparr>np_bdigest := \<lambda>p. replicate (bp_sequence p) 0\<rparr>"

definition gap_batch :: "nat \<Rightarrow> batch_payload" where
  "gap_batch i = \<lparr>bp_epoch = 0, bp_author = 0, bp_sequence = i, bp_transactions = 1, bp_body = []\<rparr>"

definition gap_vertex :: "nat \<Rightarrow> vertex" where
  "gap_vertex i = (echo_vertex i)\<lparr>v_round := i, v_source := 0, v_batches := [batch_reference gap_params (gap_batch i)]\<rparr>"

definition gap_log :: "journal_record list" where
  "gap_log = [RecBatch (gap_batch 0), RecOwn (gap_vertex 0), RecResumed \<lparr>re_certificate = demo_certificate 0 None, re_state = jump_state\<rparr>,
     RecBatch (gap_batch 1), RecOwn (gap_vertex 1), RecBatch (gap_batch 2)]"

theorem recovery_gap_witness:
  "\<exists>n. recover gap_params solo_config demo_committee 0 solo_start gap_log 0 0 = Some n
     \<and> map b_sequence (co_own_unintroduced (nd_core n)) = [0, 2]
     \<and> check_structure (fst (next_vertex gap_params 2 0 (nd_core n))) demo_committee \<noteq> Inr ()"
proof -
  have "inj (\<lambda>i. np_bdigest gap_params (gap_batch i))"
    by (auto simp: inj_def gap_params_def gap_batch_def replicate_eq_replicate)
  then show ?thesis
    by (intro recovery_gap [where p = gap_batch and v = "gap_vertex 0" and w = "gap_vertex 1"])
      (simp_all add: gap_batch_def gap_vertex_def gap_log_def)
qed

end
