(* ===== verification/Advance.thy ===== *)
theory Advance
  imports Rounds
begin

text \<open>
  The loop that enters rounds (\<^verbatim>\<open>crates/tenzro-consensus/src/core.rs\<close>) ends. Every pass that goes on
  enters a round above the last one; a round entered without pacing follows one the core holds a
  vertex of, and a round entered with it is within the bound on uncommitted rounds. Entering a round
  makes no other round known.
\<close>

section \<open>What the DAG knows of\<close>

lemma rounds_in_put: "v_round v \<in> S \<Longrightarrow> rounds_in xs \<subseteq> S \<Longrightarrow> rounds_in (al_put k v xs) \<subseteq> S"
  by (auto simp: rounds_in_def set_al_put image_subset_iff)

lemma rounds_in_del: "rounds_in xs \<subseteq> S \<Longrightarrow> rounds_in (al_del k xs) \<subseteq> S"
  by (auto simp: rounds_in_def set_al_del image_subset_iff)

lemma rounds_in_get: "map_of xs k = Some v \<Longrightarrow> rounds_in xs \<subseteq> S \<Longrightarrow> v_round v \<in> S"
  by (force simp: rounds_in_def dest: map_of_SomeD)

lemma round_keys_put: "fst k \<in> S \<Longrightarrow> round_keys xs \<subseteq> S \<Longrightarrow> round_keys (al_put k v xs) \<subseteq> S"
  by (auto simp: round_keys_def set_al_put image_subset_iff)

definition within :: "round set \<Rightarrow> dag \<Rightarrow> bool" where
  "within S g \<longleftrightarrow> round_keys (g_rounds g) \<subseteq> S \<and> rounds_in (g_pending g) \<subseteq> S \<and> rounds_in (g_held g) \<subseteq> S"

lemma within_iff: "within S g \<longleftrightarrow> dag_rounds g \<subseteq> S"
  by (auto simp: within_def dag_rounds_def)

lemmas within_rules = rounds_in_put rounds_in_del round_keys_put

lemma within_fields [simp]:
  "within S (g\<lparr>g_expected := x\<rparr>) = within S g" "within S (g\<lparr>g_reached_by := y\<rparr>) = within S g"
  "within S g \<Longrightarrow> within S (g\<lparr>g_held := al_del d (g_held g)\<rparr>)"
  "within S g \<Longrightarrow> within S (g\<lparr>g_pending := al_del d (g_pending g)\<rparr>)"
  by (simp_all add: within_def within_rules)

lemma accept_within:
  assumes "accept d v g = (further, g')" "v_round v \<in> S" "within S g"
  shows "within S g'"
  using assms by (simp add: accept_def Let_def) (elim conjE, hypsubst, simp add: within_def within_rules)

lemma reach_loop_within: "within S g \<Longrightarrow> within S (reach_loop work g)"
proof (induction work g rule: reach_loop.induct)
  case (2 r authors work g)
  let ?d = "r_digest r"
  obtain round0 old where e: "(case map_of (g_reached_by g) ?d of None \<Rightarrow> (r_round r, []) | Some e \<Rightarrow> e) = (round0, old)" by fastforce
  define added where "added = filter (\<lambda>a. a \<notin> set old) (remdups authors)"
  define g' where "g' = g\<lparr>g_reached_by := al_put ?d (round0, old @ added) (g_reached_by g)\<rparr>"
  have g': "within S g'" using 2(7) by (simp add: g'_def)
  show ?case
  proof (cases "r_round r < g_floor g \<or> dag_contains g ?d \<or> map_of (g_pending g) ?d \<noteq> None")
    case False
    note IH = 2(2-6) [OF False refl e [symmetric] refl added_def g'_def]
    show ?thesis
    proof (cases "map_of (g_held g) ?d")
      case (Some v)
      obtain further g'' where acc: "accept ?d v (g'\<lparr>g_held := al_del ?d (g_held g), g_expected := al_del ?d (g_expected g)\<rparr>) = (further, g'')" by fastforce
      have "within S g''" by (rule accept_within [OF acc]) (use 2(7) Some in \<open>auto simp: g'_def within_def intro!: within_rules elim: rounds_in_get\<close>)
      then show ?thesis using IH(1) [OF _ g'] IH(3) [OF _ _ Some refl acc [symmetric]] IH(5) [OF _ _ Some g'] False
        unfolding reach_loop.simps(2) Let_def e prod.case added_def [symmetric] g'_def [symmetric] Some option.case acc by simp
    next
      case None
      have "within S (g'\<lparr>g_expected := al_put ?d (r_round r) (g_expected g)\<rparr>)" using g' by simp
      then show ?thesis using IH(1) [OF _ g'] IH(2) [OF _ _ None] IH(4) [OF _ _ None g'] False
        unfolding reach_loop.simps(2) Let_def e prod.case added_def [symmetric] g'_def [symmetric] None option.case by simp
    qed
  qed (use 2 in simp)
qed simp

lemma insert_ready_within: "within S g \<Longrightarrow> within S (fst (insert_ready (g, ins) x))"
  by (cases x) (simp add: insert_ready_def Let_def within_def within_rules rounds_in_get split: option.split)

lemma insert_ready_fold_within: "within S (fst st) \<Longrightarrow> within S (fst (foldl insert_ready st xs))"
proof (induction xs arbitrary: st)
  case (Cons x xs)
  then show ?case using insert_ready_within [of S "fst st" "snd st" x] by simp
qed simp

lemma drain_loop_within: "within S g \<Longrightarrow> within S (fst (drain_loop g ins))"
proof (induction g ins rule: drain_loop.induct)
  case (1 g ins)
  obtain g' ins' where fold: "foldl insert_ready (g, ins) (ready_list g) = (g', ins')" by fastforce
  show ?case
  proof (cases "ready_list g = []")
    case False
    have "within S g'" using insert_ready_fold_within [of S "(g, ins)" "ready_list g"] 1(2) by (simp add: fold)
    then show ?thesis using 1(1) [OF refl False fold [symmetric]] False by (simp add: drain_loop.simps [of g] fold)
  qed (use 1 in \<open>simp add: drain_loop.simps [of g]\<close>)
qed

lemma drain_pending_within: "within S g \<Longrightarrow> within S (snd (drain_pending g))"
  using drain_loop_within [of S g "[]"] by (simp add: drain_pending_def Let_def case_prod_unfold)

lemma offer_within:
  assumes "within S g" "v_round v \<in> S"
  shows "within S (snd (offer h v g))"
proof -
  let ?g = "g\<lparr>g_expected := al_del (h v) (g_expected g), g_held := al_del (h v) (g_held g)\<rparr>"
  obtain work g' where acc: "accept (h v) v ?g = (work, g')" by fastforce
  have "within S ?g" using assms(1) by (simp add: within_def within_rules)
  then have "within S g'" by (rule accept_within [OF acc assms(2)])
  then have "within S (snd (drain_pending (reach work g')))" by (simp add: reach_def drain_pending_within reach_loop_within)
  then show ?thesis using assms(1) by (simp add: offer_def Let_def acc)
qed

section \<open>What the core knows of\<close>

text \<open>
  What entering a round leaves of a core: the rounds it knows of stay within a set, what it committed
  and its configuration stay as they are.
\<close>

definition core_stays :: "round set \<Rightarrow> core \<Rightarrow> core \<Rightarrow> bool" where
  "core_stays S c c' \<longleftrightarrow> (known_rounds c \<subseteq> S \<longrightarrow> known_rounds c' \<subseteq> S)
     \<and> co_cfg c' = co_cfg c \<and> co_last_committed c' = co_last_committed c"

abbreviation stays :: "round set \<Rightarrow> node \<Rightarrow> node \<Rightarrow> bool" where
  "stays S n n' \<equiv> core_stays S (nd_core n) (nd_core n') \<and> nd_round n' = nd_round n"

lemma known_within: "known_rounds c \<subseteq> S \<longleftrightarrow> within S (w_dag c) \<and> rounds_in (co_bodies c) \<subseteq> S \<and> rounds_in (co_unechoed c) \<subseteq> S"
  by (auto simp: known_rounds_def within_iff)

lemma core_stays_refl [simp]: "core_stays S c c"
  by (simp add: core_stays_def)

lemma core_stays_trans: "core_stays S c c' \<Longrightarrow> core_stays S c' c'' \<Longrightarrow> core_stays S c c''"
  by (simp add: core_stays_def)

lemma core_stays_foldl: "(\<And>c x. core_stays S c (f c x)) \<Longrightarrow> core_stays S c (foldl f c xs)"
  by (induction xs arbitrary: c) (auto intro: core_stays_trans)

lemma stays_foldl: "(\<And>n x. stays S n (f n x)) \<Longrightarrow> stays S n (foldl f n xs)"
  by (induction xs arbitrary: n) (auto intro: core_stays_trans)

lemmas core_stays_simps = core_stays_def known_within

lemma want_stays:
  "core_stays S c (foldl (\<lambda>c b. if P c b then want_batch (f b) (w b) c else c) c bs)"
  "core_stays S c (foldl (\<lambda>c d. want_vertex d c) c ds)" "core_stays S c (want_vertex d c)"
  by (intro core_stays_foldl, simp add: want_batch_def want_vertex_def Let_def core_stays_simps)+
    (simp add: want_vertex_def core_stays_simps)

lemma note_inserted_stays: "stays S n (note_inserted n r)"
proof -
  define c where "c = (nd_core n)\<lparr>co_wanted_vertices := al_del (r_digest r) (co_wanted_vertices (nd_core n)),
    co_bodies := al_del (r_digest r) (co_bodies (nd_core n))\<rparr>"
  have c: "core_stays S (nd_core n) c" by (simp add: c_def core_stays_simps rounds_in_del)
  have "core_stays S c (c\<lparr>co_carry_pool := x\<rparr>)" for x by (simp add: core_stays_simps)
  note pooled = core_stays_trans [OF core_stays_trans [OF c this] want_stays(1)]
  show ?thesis
    unfolding note_inserted_def Let_def c_def [symmetric]
    by (simp add: c split: option.split) (intro allI impI pooled)
qed

lemma after_offer_stays: "stays S n (after_offer inserted missing n)"
  using stays_foldl [of S note_inserted n inserted, OF note_inserted_stays] want_stays(2) core_stays_trans
  by (auto simp: after_offer_def on_core_def)

lemma core_deliver_stays: "stays S n (core_deliver np r s d n)"
proof -
  define c where "c = (let c = (nd_core n)\<lparr>w_dag := expect d r (w_dag (nd_core n))\<rparr> in
    case map_of (co_unechoed c) (r, s) of
      Some v \<Rightarrow> if np_vdigest np v = d then c\<lparr>co_bodies := al_put d v (co_bodies c)\<rparr> else c | None \<Rightarrow> c)"
  have c: "core_stays S (nd_core n) c"
    by (simp add: c_def Let_def core_stays_simps expect_def rounds_in_put rounds_in_get split: option.split)
  have eq: "core_deliver np r s d n = (case map_of (co_bodies c) d of
      Some v \<Rightarrow> core_offer np v (n\<lparr>nd_core := c\<rparr>) | None \<Rightarrow> on_core (want_vertex d) (n\<lparr>nd_core := c\<rparr>))"
    unfolding core_deliver_def c_def Let_def by (rule refl)
  show ?thesis
  proof (cases "map_of (co_bodies c) d")
    case None
    then show ?thesis using core_stays_trans [OF c want_stays(3)] by (simp add: eq on_core_def)
  next
    case (Some v)
    obtain ins mis g where off: "offer (np_vdigest np) v (w_dag c) = ((ins, mis), g)" by (metis prod.exhaust)
    have "core_stays S c (c\<lparr>w_dag := g\<rparr>)"
      using offer_within [of S "w_dag c" v "np_vdigest np"] rounds_in_get [OF Some] by (auto simp: core_stays_simps off)
    then have "core_stays S (nd_core n) (c\<lparr>w_dag := g\<rparr>)" by (rule core_stays_trans [OF c])
    then show ?thesis
      using after_offer_stays [of S "n\<lparr>nd_core := c\<lparr>w_dag := g\<rparr>\<rparr>" ins mis] core_stays_trans
      by (auto simp: eq Some core_offer_def off on_core_def)
  qed
qed

lemma apply_rbc_stays: "stays S n (apply_rbc np acts n)"
proof -
  have "stays S n (fst (foldl (apply_action np) (n, ss) acts))" for ss
  proof (induction acts arbitrary: n ss)
    case (Cons a acts)
    obtain n' ss' where step: "apply_action np (n, ss) a = (n', ss')" by fastforce
    have "stays S n n'" using step core_deliver_stays [of S n np] by (cases a) auto
    then show ?case using Cons [of n' ss'] core_stays_trans by (auto simp: step)
  qed simp
  then show ?thesis by (simp add: apply_rbc_def case_prod_unfold Let_def)
qed

section \<open>Entering a round\<close>

lemma next_vertex_stays: "next_vertex np r now c = (v, c') \<Longrightarrow> core_stays S c c' \<and> v_round v = r"
  by (auto simp: next_vertex_def Let_def core_stays_simps split: prod.splits if_splits)

lemma propose_round_stays:
  assumes "r \<in> S"
  shows "core_stays S (nd_core n) (nd_core (propose_round np r now n)) \<and> nd_round (propose_round np r now n) = Some r"
proof -
  obtain v c where v: "next_vertex np r now (nd_core n) = (v, c)" by fastforce
  define c' where "c' = (put_first r (co_me c) (v_strong v) c)\<lparr>co_bodies := al_put (np_vdigest np v) v (co_bodies c)\<rparr>"
  have c': "core_stays S (nd_core n) (c'\<lparr>co_rbc := rb\<rparr>)" for rb
    using next_vertex_stays [OF v, of S] assms by (simp add: c'_def put_first_def core_stays_simps rounds_in_put)
  obtain rb acts where rb: "on_propose (w_committee c') (co_me c') r (co_me c') (np_vdigest np v) (co_rbc c') = (rb, acts)" by fastforce
  define m where "m = (send All (MsgPropose v) (n\<lparr>nd_core := c', nd_round := Some r, nd_round_entered_ms := now,
    nd_journal := nd_journal n @ [RecOwn v]\<rparr>))\<lparr>nd_core := c'\<lparr>co_rbc := rb\<rparr>\<rparr>"
  have "propose_round np r now n = apply_rbc np acts m"
    using rb by (simp add: propose_round_def v m_def c'_def put_first_def Let_def on_core_def)
  then show ?thesis
    using apply_rbc_stays [of S m np acts] core_stays_trans [OF c' [of rb]] unfolding m_def by simp
qed

lemma leaders_held_stays: "leaders_held np r c = (ok, c') \<Longrightarrow> core_stays S c c'"
  by (auto simp: leaders_held_def core_stays_simps split: prod.splits if_splits)

lemma own_slot_missing_stays: "own_slot_missing np r paced c = (b, c') \<Longrightarrow> core_stays S c c'"
  by (auto simp: own_slot_missing_def core_stays_simps split: prod.splits if_splits)

lemma uncommitted_limit_stays: "core_stays S (nd_core n) (nd_core n') \<Longrightarrow> uncommitted_limit n' = uncommitted_limit n"
  by (simp add: core_stays_def uncommitted_limit_def max_uncommitted_rounds_def)

lemma enter_after_stays:
  assumes "enter_after np r now paced n = (False, n')"
  shows "stays S n n'"
proof -
  obtain ok c where c: "leaders_held np r (nd_core n) = (ok, c)" by fastforce
  obtain b c' where c': "own_slot_missing np r paced c = (b, c')" by fastforce
  have "core_stays S (nd_core n) c'" using leaders_held_stays [OF c] own_slot_missing_stays [OF c'] core_stays_trans by blast
  then show ?thesis using assms by (auto simp: enter_after_def Let_def c c' split: if_splits)
qed

lemma enter_after_enters:
  assumes "enter_after np r now paced n = (True, n')"
  shows "(case nd_round n of None \<Rightarrow> True | Some current \<Rightarrow> current \<le> r) \<and> nd_round n' = Some (r + 1)
    \<and> (paced \<longrightarrow> r + 1 \<le> uncommitted_limit n) \<and> (r + 1 \<in> S \<longrightarrow> core_stays S (nd_core n) (nd_core n'))"
proof -
  obtain ok c where c: "leaders_held np r (nd_core n) = (ok, c)" by fastforce
  obtain b c' where c': "own_slot_missing np r paced c = (b, c')" by fastforce
  have st: "core_stays S (nd_core n) c'" for S using leaders_held_stays [OF c] own_slot_missing_stays [OF c'] core_stays_trans by blast
  have n': "n' = propose_round np (r + 1) now (n\<lparr>nd_core := c'\<rparr>)" and guard: "case nd_round n of None \<Rightarrow> True | Some current \<Rightarrow> current \<le> r"
    and limit: "paced \<longrightarrow> r + 1 \<le> uncommitted_limit n"
    using assms by (auto simp: enter_after_def uncommitted_limit_def Let_def c c' not_less split: if_splits option.splits)
  have "nd_round n' = Some (r + 1)" using propose_round_stays [of "r + 1" UNIV "n\<lparr>nd_core := c'\<rparr>" np now] by (simp add: n')
  moreover have "r + 1 \<in> S \<longrightarrow> core_stays S (nd_core n) (nd_core n')"
    using propose_round_stays [of "r + 1" S "n\<lparr>nd_core := c'\<rparr>" np now] core_stays_trans [OF st] by (auto simp: n')
  ultimately show ?thesis using guard limit by blast
qed

lemma top_quorum_le: "top_quorum c current t \<le> t"
  by (induction c current t rule: top_quorum.induct) (subst top_quorum.simps, auto)

text \<open>The rounds a node may still enter: none above a limit its uncommitted rounds and known rounds stay under.\<close>

definition capped :: "round \<Rightarrow> node \<Rightarrow> bool" where
  "capped l n \<longleftrightarrow> uncommitted_limit n \<le> l
     \<and> (case nd_round n of None \<Rightarrow> True | Some current \<Rightarrow> known_rounds (nd_core n) \<subseteq> {..<max l (Suc current)})"

lemma advance_once_enters:
  assumes "advance_once np now n = (True, n')" "nd_round n = Some current" "capped l n"
  shows "\<exists>r. nd_round n' = Some r \<and> current < r \<and> r \<le> l \<and> capped l n'"
proof -
  define c where "c = nd_core n"
  define h where "h = (case highest_round (w_dag c) of None \<Rightarrow> current | Some h \<Rightarrow> max h current)"
  define t where "t = top_quorum c current h"
  obtain lead s where lead: "leads (pm_draw (np_core np)) (w_schedule c) t (co_me c) = (lead, s)" by fastforce
  define m where "m = n\<lparr>nd_core := c\<lparr>w_schedule := s\<rparr>\<rparr>"
  have m: "stays S n m" for S by (simp add: m_def c_def core_stays_simps)
  note cap = assms(2,3) [unfolded capped_def]
  have high: "t < l" if "current < t"
  proof -
    have "t \<le> h" unfolding t_def by (rule top_quorum_le)
    then obtain k where k: "highest_round (w_dag c) = Some k" "t \<le> k"
      using \<open>current < t\<close> unfolding h_def by (cases "highest_round (w_dag c)") (simp_all add: le_max_iff_disj)
    have "k \<in> known_rounds c"
      using k(1) Max_in [of "round_keys (g_rounds (w_dag c))"]
      by (auto simp: highest_round_def known_rounds_def dag_rounds_def round_keys_def image_comp split: if_splits)
    then show ?thesis using cap k(2) that by (auto simp: c_def)
  qed
  have entered: ?thesis if "enter_after np r now paced n0 = (True, n')" "\<And>S. stays S n n0" "\<not> paced \<Longrightarrow> r < l" for r paced n0
  proof -
    let ?S = "{..<max l (Suc (r + 1))}"
    have e: "current \<le> r" "nd_round n' = Some (r + 1)" "paced \<longrightarrow> r + 1 \<le> uncommitted_limit n0"
      "core_stays ?S (nd_core n0) (nd_core n')"
      using enter_after_enters [OF that(1), of ?S] that(2) assms(2) by auto
    have "core_stays ?S (nd_core n) (nd_core n')" using that(2) e(4) core_stays_trans by blast
    then have "known_rounds (nd_core n') \<subseteq> ?S" "uncommitted_limit n' = uncommitted_limit n"
      using cap e(1) uncommitted_limit_stays by (auto simp: core_stays_def less_max_iff_disj subset_iff) 
    moreover have "r + 1 \<le> l" using that(2) [of UNIV] that(3) e(3) cap uncommitted_limit_stays [of UNIV n n0] by (cases paced) auto
    ultimately show ?thesis using e cap by (auto simp: capped_def)
  qed
  show ?thesis
  proof (cases "current < t")
    case False
    then have "enter_after np current now True n = (True, n')"
      using assms(1,2) by (simp add: advance_once_def Let_def c_def [symmetric] h_def [symmetric] t_def [symmetric])
    then show ?thesis by (rule entered) simp_all
  next
    case True
    obtain b m' where first: "(if lead then enter_after np (t - 1) now False m else (False, m)) = (b, m')" by fastforce
    obtain b' m'' where second: "enter_after np t now False m' = (b', m'')" by fastforce
    have eq: "advance_once np now n = (if b then (True, m') else if b' then (True, m'') else enter_after np current now True m'')"
      unfolding advance_once_def assms(2) option.case Let_def c_def [symmetric] h_def [symmetric] t_def [symmetric] lead prod.case
        m_def [symmetric] first second using True by (simp split: bool.split)
    show ?thesis
    proof (cases b)
      case True
      then have "enter_after np (t - 1) now False m = (True, n')" using first eq assms(1) by (auto split: if_splits)
      then show ?thesis by (rule entered) (use m high \<open>current < t\<close> in auto)
    next
      case False
      have m': "stays S n m'" for S
        using first False m [of S] enter_after_stays [of np "t - 1" now False m m' S] core_stays_trans by (auto split: if_splits)
      show ?thesis
      proof (cases b')
        case True
        then have "enter_after np t now False m' = (True, n')" using second eq assms(1) False by simp
        then show ?thesis by (rule entered) (use m' high \<open>current < t\<close> in auto)
      next
        case b': False
        then have "enter_after np current now True m'' = (True, n')" using eq assms(1) False by simp
        moreover have "stays S n m''" for S
          using enter_after_stays [of np t now False m' m'' S] second b' m' [of S] core_stays_trans by auto
        ultimately show ?thesis by (rule entered) simp_all
      qed
    qed
  qed
qed

lemma try_advance_fuel_returns:
  "nd_round n = Some current \<Longrightarrow> capped l n \<Longrightarrow> l - current < k \<Longrightarrow> \<exists>n'. try_advance_fuel k np now n = Some n'"
proof (induction k arbitrary: n current)
  case (Suc k)
  obtain b n' where step: "advance_once np now n = (b, n')" by fastforce
  show ?case
  proof (cases b)
    case True
    then obtain r where "nd_round n' = Some r" "current < r" "r \<le> l" "capped l n'"
      using advance_once_enters [of np now n n' current l] step Suc.prems by metis
    then show ?thesis using Suc.IH [of n' r] Suc.prems(3) True by (simp add: step)
  qed (simp add: step)
qed simp

lemma capped_limit: "capped (round_limit n) n"
proof -
  have fin: "finite (insert (uncommitted_limit n) (Suc ` known_rounds (nd_core n)))"
    by (simp add: known_rounds_def dag_rounds_def rounds_in_def round_keys_def)
  have "Suc r \<le> round_limit n" if "r \<in> known_rounds (nd_core n)" for r
    unfolding round_limit_def by (rule Max_ge [OF fin]) (use that in blast)
  then show ?thesis
    using Max_ge [OF fin insertI1] by (auto simp: capped_def round_limit_def [symmetric] Suc_le_eq less_max_iff_disj split: option.split)
qed

text \<open>
  Property C11. The loop that proposes every round the DAG allows ends, from every state of the node:
  a pass goes on only into a round above the last, and no round above both those the node knows a
  vertex of and its bound on uncommitted rounds is entered.
\<close>

theorem try_advance_returns: "\<exists>n'. try_advance np now n = Some n'"
proof (cases "nd_round n")
  case None
  then show ?thesis by (simp add: try_advance_def advance_once_def)
next
  case (Some current)
  then show ?thesis unfolding try_advance_def by (intro try_advance_fuel_returns [OF Some capped_limit]) simp
qed

end
