(* ===== verification/Proposals.thy ===== *)
theory Proposals
  imports Rounds Certification
begin

text \<open>
  What a validator proposes (\<^verbatim>\<open>crates/tenzro-consensus/src/core.rs\<close>) is what its peers accept
  (\<^verbatim>\<open>crates/tenzro-consensus/src/vertex.rs\<close>): from a core in order, the next vertex passes the
  structural check. Taking in batches, its own and its peers', keeps the core in order.
\<close>

section \<open>A core in order\<close>

definition pool_ok :: "core \<Rightarrow> bool" where
  "pool_ok c \<longleftrightarrow> sorted_wrt (<) (map fst (co_carry_pool c))
     \<and> (\<forall>(k, b) \<in> set (co_carry_pool c). b_sequence b = snd k \<and> fst k \<noteq> co_me c \<and> fst k \<in> member_set (w_committee c))"

definition own_ok :: "core \<Rightarrow> bool" where
  "own_ok c \<longleftrightarrow> consecutive (co_own_unintroduced c) \<and> length (co_own_unintroduced c) \<le> MAX_BATCH_REFS"

definition proposable :: "core \<Rightarrow> bool" where
  "proposable c \<longleftrightarrow> distinct (map fst (g_rounds (w_dag c))) \<and> snd ` fst ` set (g_rounds (w_dag c)) \<subseteq> member_set (w_committee c)
     \<and> co_me c \<in> member_set (w_committee c) \<and> c_size (w_committee c) \<le> MAX_REFS
     \<and> 0 < cfg_max_weak_refs (co_cfg c) \<and> cfg_max_weak_refs (co_cfg c) \<le> MAX_REFS \<and> pool_ok c \<and> own_ok c"

section \<open>Parents\<close>

lemma round_sources:
  "map fst (dag_round g r) = map (snd \<circ> fst) (filter (\<lambda>p. fst (fst p) = r) (g_rounds g))"
  by (simp add: dag_round_def comp_def case_prod_unfold)

lemma round_sources_distinct:
  assumes "distinct (map fst (g_rounds g))"
  shows "distinct (map fst (dag_round g r))"
proof -
  have "inj_on snd (fst ` set (filter (\<lambda>p. fst (fst p) = r) (g_rounds g)))" by (auto simp: inj_on_def)
  then have "distinct (map snd (map fst (filter (\<lambda>p. fst (fst p) = r) (g_rounds g))))"
    using assms by (subst distinct_map) (simp add: distinct_map_filter)
  then show ?thesis unfolding round_sources by simp
qed

lemma round_sources_set: "fst ` set (dag_round g r) \<subseteq> snd ` fst ` set (g_rounds g)"
  using arg_cong [OF round_sources [of g r], of set] by force

lemma strong_parents_sources:
  assumes "0 < r"
  shows "mset (map r_source (strong_parents c r)) = mset (map fst (dag_round (w_dag c) (r - 1)))"
    "\<forall>s \<in> set (strong_parents c r). r_round s = r - 1"
proof -
  show "mset (map r_source (strong_parents c r)) = mset (map fst (dag_round (w_dag c) (r - 1)))"
    using assms by (simp add: strong_parents_def multiset.map_comp comp_def case_prod_unfold)
  show "\<forall>s \<in> set (strong_parents c r). r_round s = r - 1" using assms by (auto simp: strong_parents_def)
qed

lemma strong_parents_ok:
  assumes "proposable c" "0 < r" "quorum (w_committee c) \<le> round_weight c (r - 1)"
  shows "length (strong_parents c r) \<le> MAX_REFS" "v_strong v = strong_parents c r \<Longrightarrow> v_round v = r \<Longrightarrow> strong_ok (w_committee c) v"
proof -
  let ?S = "map fst (dag_round (w_dag c) (r - 1))" and ?P = "map r_source (strong_parents c r)"
  have wf: "distinct ?S" "set ?S \<subseteq> member_set (w_committee c)" "c_size (w_committee c) \<le> MAX_REFS"
    using assms(1) round_sources_distinct [of "w_dag c"] order_trans [OF round_sources_set [of "w_dag c" "r - 1"]]
    by (simp_all add: proposable_def)
  have P: "distinct ?P" "set ?P = set ?S" "length ?P = length ?S"
    using strong_parents_sources(1) [OF assms(2), of c] wf(1) by (metis mset_eq_imp_distinct_iff, metis mset_eq_setD, metis mset_eq_length)
  have "length ?S \<le> c_size (w_committee c)"
    using wf card_mono [of "member_set (w_committee c)" "set ?S"] distinct_card [of ?S] by (simp add: member_set_def c_size_def)
  then show "length (strong_parents c r) \<le> MAX_REFS" using P(3) wf(3) by simp
  have "round_weight c (r - 1) = sum (c_seats (w_committee c)) (set ?S)"
    using sum_list_distinct_conv_sum_set [OF wf(1), of "c_seats (w_committee c)"] by (simp add: round_weight_def case_prod_unfold comp_def)
  then show "strong_ok (w_committee c) v" if "v_strong v = strong_parents c r" "v_round v = r"
    using that P(1) P(2) [symmetric] wf(2) strong_parents_sources(2) [OF assms(2), of c] assms(3)
    by (auto simp: strong_ok_def image_subset_iff)
qed

lemma weak_parents_ok:
  assumes "proposable c" "0 < r"
  shows "length (weak_parents c r) \<le> MAX_REFS"
    "\<forall>w \<in> set (weak_parents c r). r_round w < r - 1 \<and> r_source w \<in> member_set (w_committee c)"
proof -
  have wf: "0 < cfg_max_weak_refs (co_cfg c)" "cfg_max_weak_refs (co_cfg c) \<le> MAX_REFS"
    "snd ` fst ` set (g_rounds (w_dag c)) \<subseteq> member_set (w_committee c)"
    using assms(1) by (simp_all add: proposable_def)
  show "length (weak_parents c r) \<le> MAX_REFS" using wf by (auto simp: weak_parents_def orphans_below_def Let_def)
  have "\<exists>x. ((r_round w, r_source w), x) \<in> set (g_rounds (w_dag c)) \<and> r_round w < r - 1" if "w \<in> set (weak_parents c r)" for w
    using that by (auto simp: weak_parents_def orphans_below_def Let_def split: if_splits dest!: in_set_takeD) blast+
  then show "\<forall>w \<in> set (weak_parents c r). r_round w < r - 1 \<and> r_source w \<in> member_set (w_committee c)"
    using wf(3) by (fastforce simp: image_subset_iff)
qed

section \<open>The vertex\<close>

lemma next_vertex_shape:
  assumes "next_vertex np r now c = (v, c')"
  shows "v_epoch v = c_epoch (w_committee c)" "v_round v = r" "v_source v = co_me c" "v_strong v = strong_parents c r"
    "v_weak v = weak_parents c r" "v_batches v = [] \<or> v_batches v = co_own_unintroduced c"
    "v_carried v = [] \<or> v_carried v = map (\<lambda>((author, _), b). \<lparr>cb_author = author, cb_batch = b\<rparr>) (take MAX_CARRIED (co_carry_pool c))"
  using assms by (auto simp: next_vertex_def Let_def split: prod.splits if_splits)

lemma carried_ok:
  assumes "pool_ok c"
  defines "cs \<equiv> map (\<lambda>((author, _), b). \<lparr>cb_author = author, cb_batch = b\<rparr>) (take MAX_CARRIED (co_carry_pool c))"
  shows "length cs \<le> MAX_CARRIED" "sorted_carried cs" "\<forall>x \<in> set cs. cb_author x \<noteq> co_me c \<and> cb_author x \<in> member_set (w_committee c)"
proof -
  have "map (\<lambda>x. (cb_author x, b_sequence (cb_batch x))) cs = map fst (take MAX_CARRIED (co_carry_pool c))"
    using assms(1) unfolding cs_def by (auto simp: pool_ok_def dest!: in_set_takeD)
  then show "sorted_carried cs" using assms(1) by (simp add: sorted_carried_def pool_ok_def take_map [symmetric] sorted_wrt_take)
  show "length cs \<le> MAX_CARRIED" by (simp add: cs_def)
  show "\<forall>x \<in> set cs. cb_author x \<noteq> co_me c \<and> cb_author x \<in> member_set (w_committee c)"
    using assms(1) by (force simp: cs_def pool_ok_def dest!: in_set_takeD)
qed

text \<open>
  Property C12. What an honest validator proposes, every peer takes: if its committee fits the bounds
  on references, its DAG holds vertices of members, its own batches not introduced yet are
  consecutive and its pool holds other members' batches in order, then the vertex it proposes in round
  0, or after a round of which it holds a quorum, passes the structural check.
\<close>

theorem proposal_passes:
  assumes "proposable c" "r = 0 \<or> quorum (w_committee c) \<le> round_weight c (r - 1)"
  shows "check_structure (fst (next_vertex np r now c)) (w_committee c) = Inr ()"
proof -
  obtain v c' where v: "next_vertex np r now c = (v, c')" by fastforce
  note shape = next_vertex_shape [OF v]
  have carried: "length (v_carried v) \<le> MAX_CARRIED" "sorted_carried (v_carried v)"
    "\<forall>x \<in> set (v_carried v). cb_author x \<noteq> co_me c \<and> cb_author x \<in> member_set (w_committee c)"
    using shape(7) carried_ok [of c] assms(1) by (auto simp: proposable_def sorted_carried_def)
  have batches: "consecutive (v_batches v)" "length (v_batches v) \<le> MAX_BATCH_REFS"
    using shape(6) assms(1) by (auto simp: proposable_def own_ok_def consecutive_def)
  have refs: "length (v_strong v) \<le> MAX_REFS" "length (v_weak v) \<le> MAX_REFS" if "0 < r"
    using that shape strong_parents_ok(1) weak_parents_ok(1) assms by simp_all
  have zero: "r = 0 \<Longrightarrow> v_strong v = [] \<and> v_weak v = []" using shape by (simp add: strong_parents_def weak_parents_def)
  have "if v_round v = 0 then v_strong v = [] \<and> v_weak v = []
      else strong_ok (w_committee c) v \<and> (\<forall>w \<in> set (v_weak v). r_round w < v_round v - 1 \<and> r_source w \<in> member_set (w_committee c))"
    using shape zero strong_parents_ok(2) [of c r v] weak_parents_ok(2) [of c r] assms by (cases "r = 0") auto
  then show ?thesis
    unfolding v fst_conv check_structure_cases using carried batches refs zero shape assms(1) by (cases "r = 0") (simp_all add: proposable_def)
qed

text \<open>The second of two own batches waits; three of four validators proposed in round 0.\<close>

definition ready_core :: core where
  "ready_core = (core_new (np_core solo_params) solo_config demo_committee 0 solo_start)
     \<lparr>w_dag := dag_new\<lparr>g_rounds := map (\<lambda>i. ((0, i), ([of_nat i], demo_vertex\<lparr>v_round := 0, v_source := i, v_strong := []\<rparr>))) [0, 1, 2]\<rparr>,
      co_own_unintroduced := map (\<lambda>i. \<lparr>b_sequence = i, b_digest = [of_nat i], b_bytes = 5, b_transactions = 1\<rparr>) [4, 5],
      co_carry_pool := [((1, 7), \<lparr>b_sequence = 7, b_digest = [9], b_bytes = 5, b_transactions = 1\<rparr>)]\<rparr>"

lemma ready_core_ok: "proposable ready_core" "quorum (w_committee ready_core) \<le> round_weight ready_core 0"
proof -
  have fields: "g_rounds (w_dag ready_core) = map (\<lambda>i. ((0, i), ([of_nat i], demo_vertex\<lparr>v_round := 0, v_source := i, v_strong := []\<rparr>))) [0, 1, 2]"
    "w_committee ready_core = demo_committee" "co_me ready_core = 0" "cfg_max_weak_refs (co_cfg ready_core) = 64"
    by (simp_all add: ready_core_def core_new_def solo_config_def)
  have "own_ok ready_core"
    by (auto simp: own_ok_def ready_core_def consecutive_def MAX_BATCH_REFS_def uint_max_def less_Suc_eq)
  moreover have "pool_ok ready_core" by (simp add: pool_ok_def ready_core_def core_new_def)
  ultimately show "proposable ready_core"
    by (simp add: proposable_def fields MAX_REFS_def c_size_def) (simp add: demo_committee_def)
  show "quorum (w_committee ready_core) \<le> round_weight ready_core 0"
    by (simp add: round_weight_def dag_round_def fields c_seats_demo quorum_def demo_thresholds)
qed

theorem proposal_passes_witness: "check_structure (fst (next_vertex solo_params 1 0 ready_core)) (w_committee ready_core) = Inr ()"
  using ready_core_ok by (intro proposal_passes) simp_all

section \<open>Taking in batches\<close>

text \<open>Batches of other members keep the pool in order.\<close>

lemma on_batch_pool:
  assumes "pool_ok (nd_core n)" "sender \<in> member_set (nd_committee n)" "sender \<noteq> nd_me n"
  shows "pool_ok (nd_core (on_batch np sender p n))"
proof -
  let ?pool = "co_carry_pool (nd_core n)" and ?k = "(bp_author p, bp_sequence p)"
  have order: "sorted_wrt (<) (map fst (bt_put ?k (batch_reference np p) ?pool))"
    using assms(1) by (simp add: pool_ok_def strict_sorted_iff bt_put_sorted bt_put_distinct)
  have "\<forall>(k, b) \<in> set (bt_put ?k (batch_reference np p) ?pool). b_sequence b = snd k \<and> fst k \<noteq> nd_me n \<and> fst k \<in> member_set (nd_committee n)"
    if "bp_author p = sender"
    using assms that unfolding pool_ok_def by (intro ballI) (simp add: bt_put_set split_beta, elim disjE; force simp: batch_reference_def)
  then show ?thesis using assms(1) order by (cases "bp_author p = sender") (simp_all add: on_batch_def Let_def pool_ok_def)
qed

text \<open>
  Own batches are numbered in order. The sequence number is a \<^verbatim>\<open>u64\<close> and the driver stops cutting
  batches long before a vertex is full, which the bounds say.
\<close>

definition numbered :: "node \<Rightarrow> bool" where
  "numbered n \<longleftrightarrow> (let bs = co_own_unintroduced (nd_core n) in
     consecutive bs \<and> (bs \<noteq> [] \<longrightarrow> b_sequence (last bs) + 1 = nd_next_batch_sequence n))"

lemma consecutive_snoc:
  "consecutive (bs @ [b]) \<longleftrightarrow> consecutive bs \<and> (bs \<noteq> [] \<longrightarrow> b_sequence b = b_sequence (last bs) + 1 \<and> b_sequence (last bs) < uint_max 64)"
proof (cases "bs = []")
  case False
  have split: "(\<forall>i. Suc i < length (bs @ [b]) \<longrightarrow> P i) \<longleftrightarrow> (\<forall>i. Suc i < length bs \<longrightarrow> P i) \<and> P (length bs - 1)" for P
    using False by (cases "length bs") (auto simp: less_Suc_eq)
  show ?thesis
    unfolding consecutive_def split using False by (auto simp: nth_append last_conv_nth)
qed (simp add: consecutive_def)

lemma submit_part_numbered:
  assumes "numbered n" "nd_next_batch_sequence n \<le> uint_max 64"
  shows "numbered (submit_part np part n)"
  using assms
  by (auto simp: numbered_def submit_part_def Let_def consecutive_snoc push_event_def on_core_def send_def batch_reference_def seal_parts_def)

end
