(* ===== verification/Epochs.thy ===== *)
theory Epochs
  imports Composite_Keys
begin

text \<open>
  Epochs and their validator sets (\<^verbatim>\<open>crates/tenzro-consensus/src/epoch_manager.rs\<close>, and the set itself in
  \<^verbatim>\<open>validator.rs\<close>): queued additions and removals, the transition that applies them within a churn
  budget, the ranges of heights epochs cover, the store they are read back from at a restart, and the
  epoch a recovery installs. Records of the store are the epochs themselves: encoding and decoding is
  the serialisation library's, and a record of an older schema is one that does not decode.
\<close>

section \<open>Validator sets\<close>

datatype epoch_error = SetError finality_error | DuplicateAddress address | Internal string | StoreError

fun check_validators :: "primitives \<Rightarrow> address set \<Rightarrow> digest set \<Rightarrow> validator_info list \<Rightarrow> (epoch_error, unit) result" where
  "check_validators pr addresses keys [] = Inr ()"
| "check_validators pr addresses keys (v # vs) =
     (case check_well_formed pr (vi_public_key v) of
        Inl e \<Rightarrow> Inl (SetError e)
      | Inr _ \<Rightarrow>
          if vi_address v \<in> addresses then Inl (DuplicateAddress (vi_address v))
          else if fingerprint pr (vi_public_key v) \<in> keys then Inl (SetError (InvalidValidatorSet ''two validators share one key''))
          else check_validators pr (insert (vi_address v) addresses) (insert (fingerprint pr (vi_public_key v)) keys) vs)"

definition validator_set_new :: "primitives \<Rightarrow> nat \<Rightarrow> validator_info list \<Rightarrow> (epoch_error, validator_set) result" where
  "validator_set_new pr epoch vs =
     (if vs = [] then Inl (SetError (InvalidValidatorSet ''validator set cannot be empty''))
      else case check_validators pr {} {} vs of
          Inl e \<Rightarrow> Inl e
        | Inr _ \<Rightarrow> Inr \<lparr>vs_epoch = epoch, vs_validators = vs, vs_total_stake = sum_list (map voting_power vs)\<rparr>)"

definition find_validator :: "validator_info list \<Rightarrow> address \<Rightarrow> validator_info option" where
  "find_validator vs a = find (\<lambda>v. vi_address v = a) vs"

abbreviation get_by_address :: "validator_set \<Rightarrow> address \<Rightarrow> validator_info option" where
  "get_by_address s \<equiv> find_validator (vs_validators s)"

section \<open>Epochs\<close>

record epoch =
  ep_number :: nat
  ep_start_height :: nat
  ep_end_height :: nat
  ep_validator_set :: validator_set
  ep_start_time :: int

definition epoch_contains :: "epoch \<Rightarrow> nat \<Rightarrow> bool" where
  "epoch_contains e h \<longleftrightarrow> ep_start_height e \<le> h \<and> h < ep_end_height e"

type_synonym epoch_store = "(nat \<times> epoch option) list"

record epoch_manager =
  em_current :: epoch
  em_duration :: nat
  em_pending :: "validator_info list"
  em_removals :: "address list"
  em_history :: "epoch list"
  em_max_history :: nat
  em_store :: "epoch_store option"

definition genesis_epoch :: "nat \<Rightarrow> int \<Rightarrow> validator_set \<Rightarrow> epoch" where
  "genesis_epoch duration now vs =
     \<lparr>ep_number = 0, ep_start_height = 0, ep_end_height = duration, ep_validator_set = vs, ep_start_time = now\<rparr>"

definition fresh_manager :: "epoch \<Rightarrow> nat \<Rightarrow> epoch list \<Rightarrow> epoch_store option \<Rightarrow> epoch_manager" where
  "fresh_manager e duration history st =
     \<lparr>em_current = e, em_duration = duration, em_pending = [], em_removals = [], em_history = history, em_max_history = 10, em_store = st\<rparr>"

definition epoch_manager_new :: "primitives \<Rightarrow> int \<Rightarrow> validator_info list \<Rightarrow> nat \<Rightarrow> (epoch_error, epoch_manager) result" where
  "epoch_manager_new pr now vs duration =
     (case validator_set_new pr 0 vs of
        Inl e \<Rightarrow> Inl e
      | Inr s \<Rightarrow> Inr (fresh_manager (genesis_epoch duration now s) duration [] None))"

text \<open>A write that fails leaves the store as it was; which writes fail is up to the storage.\<close>

definition put_epoch :: "bool \<Rightarrow> nat \<Rightarrow> epoch \<Rightarrow> epoch_store \<Rightarrow> epoch_store" where
  "put_epoch ok n e st = (if ok then al_put n (Some e) st else st)"

definition for_each_epoch :: "epoch_store \<Rightarrow> epoch option list" where
  "for_each_epoch st = map snd (sort_key fst st)"

definition HYDRATED_EPOCHS :: nat where "HYDRATED_EPOCHS = 11"

definition hydrate_step :: "epoch list \<Rightarrow> epoch option \<Rightarrow> epoch list" where
  "hydrate_step newest r =
     (case r of
        None \<Rightarrow> newest
      | Some e \<Rightarrow>
          (let n = insort_key ep_number e (filter (\<lambda>x. ep_number x \<noteq> ep_number e) newest)
           in if HYDRATED_EPOCHS < length n then tl n else n))"

definition with_store :: "primitives \<Rightarrow> int \<Rightarrow> bool \<Rightarrow> validator_info list \<Rightarrow> nat \<Rightarrow> epoch_store \<Rightarrow> (epoch_error, epoch_manager) result" where
  "with_store pr now ok vs duration st =
     (let decoded = foldl hydrate_step [] (for_each_epoch st) in
      if decoded = []
      then case validator_set_new pr 0 vs of
          Inl e \<Rightarrow> Inl e
        | Inr s \<Rightarrow>
            (let e = genesis_epoch duration now s in Inr (fresh_manager e duration [] (Some (put_epoch ok 0 e st))))
      else Inr (fresh_manager (last decoded) duration
             (drop (length (butlast decoded) - 10) (butlast decoded)) (Some st)))"

section \<open>Queues\<close>

primrec put_validator :: "validator_info \<Rightarrow> validator_info list \<Rightarrow> validator_info list" where
  "put_validator u [] = [u]"
| "put_validator u (v # vs) = (if vi_address v = vi_address u then u # vs else v # put_validator u vs)"

definition add_pending_validator :: "validator_info \<Rightarrow> epoch_manager \<Rightarrow> epoch_manager" where
  "add_pending_validator u m =
     m\<lparr>em_pending := put_validator u (em_pending m), em_removals := filter (\<lambda>a. a \<noteq> vi_address u) (em_removals m)\<rparr>"

definition remove_pending_validator :: "address \<Rightarrow> epoch_manager \<Rightarrow> epoch_manager" where
  "remove_pending_validator a m =
     m\<lparr>em_pending := filter (\<lambda>v. vi_address v \<noteq> a) (em_pending m),
       em_removals := (if a \<in> set (em_removals m) then em_removals m else em_removals m @ [a])\<rparr>"

section \<open>The next set\<close>

definition unseatable :: "primitives \<Rightarrow> validator_info list \<Rightarrow> validator_info \<Rightarrow> bool" where
  "unseatable pr vs u \<longleftrightarrow> check_well_formed pr (vi_public_key u) \<noteq> Inr ()
     \<or> list_ex (\<lambda>v. vi_address v \<noteq> vi_address u
          \<and> fingerprint pr (vi_public_key v) = fingerprint pr (vi_public_key u)) vs"

text \<open>Removals within the budget, and the first one whatever its stake.\<close>

definition drop_step :: "validator_set \<Rightarrow> nat \<Rightarrow> nat \<times> nat \<times> address list \<Rightarrow> address \<Rightarrow> nat \<times> nat \<times> address list" where
  "drop_step old budget = (\<lambda>(removed, real, applied) a.
     case get_by_address old a of
       None \<Rightarrow> (removed, real, applied @ [a])
     | Some m \<Rightarrow>
         (let cumulative = sat_add 128 removed (vi_stake m) in
          if cumulative \<le> budget \<or> real = 0 then (cumulative, real + 1, applied @ [a]) else (removed, real, applied)))"

text \<open>Updates that add no stake; the others wait for the budget.\<close>

definition upsert_step :: "primitives \<Rightarrow> validator_info list \<times> address list \<times> validator_info list \<Rightarrow> validator_info
    \<Rightarrow> validator_info list \<times> address list \<times> validator_info list" where
  "upsert_step pr = (\<lambda>(next, applied, growth) u.
     if unseatable pr next u then (next, applied @ [vi_address u], growth)
     else case find_validator next (vi_address u) of
         Some existing \<Rightarrow>
           if vi_stake u \<le> vi_stake existing then (put_validator u next, applied @ [vi_address u], growth)
           else (next, applied, growth @ [u])
       | None \<Rightarrow> (next, applied, growth @ [u]))"

definition grow_step :: "primitives \<Rightarrow> nat \<Rightarrow> validator_info list \<times> address list \<times> nat \<Rightarrow> validator_info
    \<Rightarrow> validator_info list \<times> address list \<times> nat" where
  "grow_step pr budget = (\<lambda>(next, applied, granted) u.
     if unseatable pr next u then (next, applied @ [vi_address u], granted)
     else let current = (case find_validator next (vi_address u) of None \<Rightarrow> 0 | Some v \<Rightarrow> vi_stake v);
              wanted = vi_stake u - current; room = budget - granted; grant = min wanted room in
       if grant < wanted \<and> grant = 0 then (next, applied, granted)
       else (put_validator (u\<lparr>vi_stake := current + grant\<rparr>) next,
             if grant < wanted then applied else applied @ [vi_address u], sat_add 128 granted grant))"

definition applied_drops :: "epoch_manager \<Rightarrow> address list" where
  "applied_drops m =
     (let old = ep_validator_set (em_current m)
      in snd (snd (foldl (drop_step old (vs_total_stake old div 3)) (0, 0, []) (em_removals m))))"

definition continuing :: "primitives \<Rightarrow> epoch_manager \<Rightarrow> validator_info list \<times> address list \<times> validator_info list" where
  "continuing pr m =
     foldl (upsert_step pr)
       (filter (\<lambda>v. vi_address v \<notin> set (applied_drops m)) (vs_validators (ep_validator_set (em_current m))), [], [])
       (em_pending m)"

definition next_validators :: "primitives \<Rightarrow> epoch_manager \<Rightarrow> validator_info list \<times> address list" where
  "next_validators pr m =
     (let (kept, applied, growth) = continuing pr m;
          budget = sum_list (map vi_stake kept) div 2;
          (next, applied, granted) = foldl (grow_step pr budget) (kept, applied, 0) growth
      in (next, applied))"

section \<open>The transition\<close>

definition should_transition :: "nat \<Rightarrow> epoch_manager \<Rightarrow> bool" where
  "should_transition height m \<longleftrightarrow> ep_number (em_current m) < height div em_duration m"

definition push_history :: "epoch \<Rightarrow> epoch_manager \<Rightarrow> epoch list" where
  "push_history e m =
     (let h = em_history m @ [e] in if em_max_history m < length h then tl h else h)"

definition stored_epoch :: "nat \<Rightarrow> epoch_manager \<Rightarrow> epoch option" where
  "stored_epoch n m =
     (case em_store m of
        None \<Rightarrow> None
      | Some st \<Rightarrow> (case map_of st n of Some (Some e) \<Rightarrow> if ep_number e = n then Some e else None | _ \<Rightarrow> None))"

definition get_epoch :: "nat \<Rightarrow> epoch_manager \<Rightarrow> epoch option" where
  "get_epoch n m =
     (if ep_number (em_current m) = n then Some (em_current m)
      else case find (\<lambda>e. ep_number e = n) (em_history m) of Some e \<Rightarrow> Some e | None \<Rightarrow> stored_epoch n m)"

definition get_validator_set :: "nat \<Rightarrow> epoch_manager \<Rightarrow> validator_set option" where
  "get_validator_set n m = map_option ep_validator_set (get_epoch n m)"

definition find_in_store :: "(epoch \<Rightarrow> bool) \<Rightarrow> epoch_manager \<Rightarrow> epoch option" where
  "find_in_store pred m =
     (case em_store m of
        None \<Rightarrow> None
      | Some st \<Rightarrow> find pred (rev (List.map_filter (\<lambda>r. r) (for_each_epoch st))))"

definition get_epoch_for_height :: "nat \<Rightarrow> epoch_manager \<Rightarrow> epoch option" where
  "get_epoch_for_height h m =
     (if epoch_contains (em_current m) h then Some (em_current m)
      else case find (\<lambda>e. epoch_contains e h) (em_history m) of
          Some e \<Rightarrow> Some e
        | None \<Rightarrow> find_in_store (\<lambda>e. epoch_contains e h) m)"

text \<open>The outgoing epoch and the new one are written through, each write on its own.\<close>

definition persist :: "(nat \<Rightarrow> bool) \<Rightarrow> nat \<Rightarrow> epoch_manager \<Rightarrow> epoch_manager" where
  "persist ok out m =
     (case em_store m of
        None \<Rightarrow> m
      | Some st \<Rightarrow>
          (let st = (case get_epoch out m of None \<Rightarrow> st | Some e \<Rightarrow> put_epoch (ok out) out e st);
               new = em_current m
           in m\<lparr>em_store := Some (put_epoch (ok (ep_number new)) (ep_number new) new st)\<rparr>))"

definition transition_epoch_timed :: "primitives \<Rightarrow> int \<Rightarrow> (nat \<Rightarrow> bool) \<Rightarrow> nat \<Rightarrow> nat option \<Rightarrow> epoch_manager
    \<Rightarrow> (epoch_error, validator_set option) result \<times> epoch_manager" where
  "transition_epoch_timed pr now ok height time_up m =
     (let cur = em_current m; height_due = should_transition height m; n = ep_number cur + 1 in
      if \<not> height_due \<and> time_up \<noteq> Some (ep_number cur) then (Inr None, m)
      else let (next, applied) = next_validators pr m in
        case validator_set_new pr n next of
          Inl e \<Rightarrow> (Inl e, m)
        | Inr s \<Rightarrow>
            (let start = (if height_due then n * em_duration m else height);
                 new = \<lparr>ep_number = n, ep_start_height = start, ep_end_height = start + em_duration m,
                        ep_validator_set = s, ep_start_time = now\<rparr>;
                 m = m\<lparr>em_history := push_history (cur\<lparr>ep_end_height := start\<rparr>) m,
                       em_pending := filter (\<lambda>v. vi_address v \<notin> set applied) (em_pending m),
                       em_removals := filter (\<lambda>a. a \<notin> set (applied_drops m)) (em_removals m),
                       em_current := new\<rparr>
             in (Inr (Some s), persist ok (ep_number cur) m)))"

definition transition_epoch :: "primitives \<Rightarrow> int \<Rightarrow> (nat \<Rightarrow> bool) \<Rightarrow> nat \<Rightarrow> epoch_manager
    \<Rightarrow> (epoch_error, validator_set option) result \<times> epoch_manager" where
  "transition_epoch pr now ok height m = transition_epoch_timed pr now ok height None m"

text \<open>A recovery writes the new epoch first; a write that fails ends it with the error, the state changed.\<close>

definition persist_recovery :: "(nat \<Rightarrow> bool) \<Rightarrow> nat \<Rightarrow> epoch_manager \<Rightarrow> (epoch_error, unit) result \<times> epoch_manager" where
  "persist_recovery ok from_epoch m =
     (case em_store m of
        None \<Rightarrow> (Inr (), m)
      | Some st \<Rightarrow>
          (let to_epoch = from_epoch + 1; out = get_epoch from_epoch m in
           if \<not> ok to_epoch then (Inl StoreError, m)
           else let st = al_put to_epoch (Some (em_current m)) st in
             case out of
               None \<Rightarrow> (Inr (), m\<lparr>em_store := Some st\<rparr>)
             | Some e \<Rightarrow>
                 if ok from_epoch then (Inr (), m\<lparr>em_store := Some (al_put from_epoch (Some e) st)\<rparr>)
                 else (Inl StoreError, m\<lparr>em_store := Some st\<rparr>)))"

definition install_recovery_epoch :: "primitives \<Rightarrow> int \<Rightarrow> (nat \<Rightarrow> bool) \<Rightarrow> nat \<Rightarrow> nat \<Rightarrow> validator_info list \<Rightarrow> epoch_manager
    \<Rightarrow> (epoch_error, unit) result \<times> epoch_manager" where
  "install_recovery_epoch pr now ok from_epoch start vs m =
     (let to_epoch = from_epoch + 1; cur = em_current m in
      case validator_set_new pr to_epoch vs of
        Inl e \<Rightarrow> (Inl e, m)
      | Inr s \<Rightarrow>
          (let new = \<lparr>ep_number = to_epoch, ep_start_height = start, ep_end_height = start + em_duration m,
                      ep_validator_set = s, ep_start_time = now\<rparr>;
               replaced = (ep_number cur = to_epoch) in
           if \<not> replaced \<and> ep_number cur \<noteq> from_epoch
           then (Inl (Internal (''recovery from epoch '' @ dec from_epoch @ '' but the epoch manager is at epoch '' @ dec (ep_number cur))), m)
           else persist_recovery ok from_epoch
                  (m\<lparr>em_history := (if replaced then em_history m else push_history (cur\<lparr>ep_end_height := start\<rparr>) m),
                     em_current := new, em_pending := [], em_removals := []\<rparr>)))"

section \<open>Sets that can be seated\<close>

definition seats_ok :: "primitives \<Rightarrow> validator_info list \<Rightarrow> bool" where
  "seats_ok pr vs \<longleftrightarrow> (\<forall>v \<in> set vs. check_well_formed pr (vi_public_key v) = Inr ()) \<and> distinct (map vi_address vs)
     \<and> inj_on (\<lambda>v. fingerprint pr (vi_public_key v)) (set vs)"

lemma check_validators_iff:
  "check_validators pr addresses keys vs = Inr () \<longleftrightarrow> seats_ok pr vs \<and> vi_address ` set vs \<inter> addresses = {}
     \<and> (\<lambda>v. fingerprint pr (vi_public_key v)) ` set vs \<inter> keys = {}"
proof (induction pr addresses keys vs rule: check_validators.induct)
  case (2 pr addresses keys v vs)
  show ?case
  proof (cases "check_well_formed pr (vi_public_key v)")
    case (Inr x)
    then show ?thesis using 2 by (auto simp: seats_ok_def)
  qed (simp add: seats_ok_def)
qed (simp add: seats_ok_def)

lemma validator_set_new_iff:
  "validator_set_new pr n vs = Inr s \<longleftrightarrow> vs \<noteq> [] \<and> seats_ok pr vs
     \<and> s = \<lparr>vs_epoch = n, vs_validators = vs, vs_total_stake = sum_list (map voting_power vs)\<rparr>"
  using check_validators_iff [of pr "{}" "{}" vs] by (auto simp: validator_set_new_def split: sum.split)

lemma validator_set_new_empty: "validator_set_new pr n vs = Inl e \<Longrightarrow> seats_ok pr vs \<Longrightarrow> vs = []"
  using check_validators_iff [of pr "{}" "{}" vs] by (auto simp: validator_set_new_def split: sum.splits if_splits)

lemma put_validator_set:
  "distinct (map vi_address vs) \<Longrightarrow> x \<in> set (put_validator u vs) \<longleftrightarrow> x = u \<or> x \<in> set vs \<and> vi_address x \<noteq> vi_address u"
  by (induction vs) (auto simp: rev_image_eqI)

lemma put_validator_addresses: "vi_address ` set (put_validator u vs) = insert (vi_address u) (vi_address ` set vs)"
  by (induction vs) auto

lemma put_validator_distinct: "distinct (map vi_address vs) \<Longrightarrow> distinct (map vi_address (put_validator u vs))"
  by (induction vs) (auto simp: put_validator_addresses)

lemma find_validator_cases:
  assumes "distinct (map vi_address vs)"
  shows "find_validator vs a = Some v \<longleftrightarrow> v \<in> set vs \<and> vi_address v = a" "find_validator vs a = None \<longleftrightarrow> a \<notin> vi_address ` set vs"
  using assms by (induction vs) (auto simp: find_validator_def)

lemma sum_put:
  fixes g :: "validator_info \<Rightarrow> nat"
  shows "sum_list (map g (put_validator u vs)) + (case find_validator vs (vi_address u) of None \<Rightarrow> 0 | Some e \<Rightarrow> g e)
    = sum_list (map g vs) + g u"
  by (induction vs) (auto simp: find_validator_def)

lemma seats_ok_put:
  assumes "seats_ok pr vs" "\<not> unseatable pr vs u"
  shows "seats_ok pr (put_validator u vs)"
proof -
  have dist: "distinct (map vi_address vs)" using assms(1) by (simp add: seats_ok_def)
  have other: "fingerprint pr (vi_public_key x) \<noteq> fingerprint pr (vi_public_key u)" if "x \<in> set vs" "vi_address x \<noteq> vi_address u" for x
    using assms(2) that by (auto simp: unseatable_def list_ex_iff)
  show ?thesis
    unfolding seats_ok_def
  proof (intro conjI ballI inj_onI)
    fix x y assume "x \<in> set (put_validator u vs)" "y \<in> set (put_validator u vs)"
      and "fingerprint pr (vi_public_key x) = fingerprint pr (vi_public_key y)"
    then show "x = y" using other assms(1) unfolding put_validator_set [OF dist] seats_ok_def inj_on_def by metis
  next
    fix x assume "x \<in> set (put_validator u vs)"
    then show "check_well_formed pr (vi_public_key x) = Inr ()"
      using assms unfolding put_validator_set [OF dist] seats_ok_def unseatable_def by blast
  qed (rule put_validator_distinct [OF dist])
qed

lemma unseatable_stake [simp]: "unseatable pr vs (u\<lparr>vi_stake := x\<rparr>) = unseatable pr vs u"
  by (simp add: unseatable_def)

section \<open>Churn\<close>

text \<open>Validators up to their stakes.\<close>

definition restaked :: "validator_info set \<Rightarrow> validator_info set" where
  "restaked us = {u\<lparr>vi_stake := x\<rparr> |u x. u \<in> us}"

lemma restaked_mono: "us \<subseteq> vs \<Longrightarrow> restaked us \<subseteq> restaked vs"
  by (auto simp: restaked_def)

lemma restaked_self: "us \<subseteq> restaked us"
proof
  fix u assume "u \<in> us"
  then show "u \<in> restaked us" unfolding restaked_def by (intro CollectI exI [of _ u] exI [of _ "vi_stake u"]) simp
qed

lemma restaked_put: "u \<in> us \<Longrightarrow> u\<lparr>vi_stake := x\<rparr> \<in> restaked us"
  by (auto simp: restaked_def)

text \<open>The stake an address had, and what of a set's stake its holders had before.\<close>

definition stake_in :: "validator_info list \<Rightarrow> address \<Rightarrow> nat" where
  "stake_in old a = (case find_validator old a of None \<Rightarrow> 0 | Some v \<Rightarrow> vi_stake v)"

definition held_before :: "validator_info list \<Rightarrow> validator_info list \<Rightarrow> nat" where
  "held_before old vs = sum_list (map (\<lambda>v. min (vi_stake v) (stake_in old (vi_address v))) vs)"

abbreviation stake_sum :: "validator_info list \<Rightarrow> nat" where
  "stake_sum vs \<equiv> sum_list (map vi_stake vs)"

definition no_growth :: "validator_info list \<Rightarrow> validator_info list \<Rightarrow> bool" where
  "no_growth old vs \<longleftrightarrow> (\<forall>v \<in> set vs. vi_stake v \<le> stake_in old (vi_address v))"

lemma held_before_all: "no_growth old vs \<Longrightarrow> held_before old vs = stake_sum vs"
  unfolding held_before_def no_growth_def by (intro arg_cong [of _ _ sum_list]) (simp add: min_def)

lemma upsert_step_ok:
  assumes "upsert_step pr (next, applied, growth) u = (next', applied', growth')" "seats_ok pr next" "no_growth old next"
  shows "seats_ok pr next' \<and> no_growth old next' \<and> vi_address ` set next' = vi_address ` set next
    \<and> set next' \<subseteq> insert u (set next) \<and> set growth' \<subseteq> insert u (set growth)"
proof (cases "\<not> unseatable pr next u \<and> (\<exists>e. find_validator next (vi_address u) = Some e \<and> vi_stake u \<le> vi_stake e)")
  case True
  then obtain e where e: "find_validator next (vi_address u) = Some e" "vi_stake u \<le> vi_stake e" "\<not> unseatable pr next u" by blast
  have dist: "distinct (map vi_address next)" using assms(2) by (simp add: seats_ok_def)
  then have in_next: "e \<in> set next" "vi_address e = vi_address u" using find_validator_cases(1) [OF dist] e(1) by auto
  then have "vi_stake u \<le> stake_in old (vi_address u)" using assms(3) e(2) unfolding no_growth_def by fastforce
  then show ?thesis
    using assms e seats_ok_put in_next put_validator_set [OF dist] put_validator_addresses [of u "next"]
    by (auto simp: upsert_step_def no_growth_def insert_absorb rev_image_eqI)
next
  case False
  then show ?thesis using assms by (auto simp: upsert_step_def split: option.splits if_splits)
qed

lemma upserts_ok:
  assumes "foldl (upsert_step pr) (next, applied, growth) us = (next', applied', growth')" "seats_ok pr next" "no_growth old next"
  shows "seats_ok pr next' \<and> no_growth old next' \<and> vi_address ` set next' = vi_address ` set next
    \<and> set next' \<subseteq> set us \<union> set next \<and> set growth' \<subseteq> set us \<union> set growth"
  using assms
proof (induction us arbitrary: "next" applied growth)
  case (Cons u us)
  obtain n a g where step: "upsert_step pr (next, applied, growth) u = (n, a, g)" by (metis prod_cases3)
  note ok = upsert_step_ok [OF step Cons.prems(2,3)]
  then show ?case using Cons.IH [of n a g] Cons.prems(1) by (auto simp: step)
qed simp

lemma grow_step_ok:
  assumes "grow_step pr budget (next, applied, granted) u = (next', applied', granted')" "seats_ok pr next"
    and "granted \<le> budget" "budget \<le> uint_max 128" "stake_sum next = base + granted" "base \<le> held_before old next"
  shows "seats_ok pr next' \<and> granted' \<le> budget \<and> stake_sum next' = base + granted' \<and> base \<le> held_before old next'
    \<and> vi_address ` set next \<subseteq> vi_address ` set next' \<and> set next' \<subseteq> set next \<union> restaked {u}"
proof -
  define now where "now = (case find_validator next (vi_address u) of None \<Rightarrow> 0 | Some v \<Rightarrow> vi_stake v)"
  define grant where "grant = min (vi_stake u - now) (budget - granted)"
  define v where "v = u\<lparr>vi_stake := now + grant\<rparr>"
  have step: "grow_step pr budget (next, applied, granted) u = (if unseatable pr next u then (next, applied @ [vi_address u], granted)
      else if grant < vi_stake u - now \<and> grant = 0 then (next, applied, granted)
      else (put_validator v next, if grant < vi_stake u - now then applied else applied @ [vi_address u], sat_add 128 granted grant))"
    unfolding grow_step_def prod.case Let_def now_def [symmetric] grant_def [symmetric] v_def by (rule refl)
  show ?thesis
  proof (cases "unseatable pr next u \<or> grant < vi_stake u - now \<and> grant = 0")
    case True
    then have "next' = next" "granted' = granted" using assms(1) unfolding step by (auto split: if_splits)
    then show ?thesis using assms by auto
  next
    case False
    have "granted + grant \<le> budget" using assms(3) by (simp add: grant_def)
    moreover from this have out: "next' = put_validator v next" "granted' = granted + grant"
      using assms(1,4) False unfolding step by (auto simp: sat_add_id split: if_splits)
    moreover have "stake_sum (put_validator v next) + now = stake_sum next + (now + grant)"
      using sum_put [of vi_stake v "next"] by (simp add: v_def now_def)
    moreover have "held_before old next \<le> held_before old (put_validator v next)"
    proof -
      let ?g = "\<lambda>v. min (vi_stake v) (stake_in old (vi_address v))"
      have "?g e \<le> ?g v" if "find_validator next (vi_address v) = Some e" for e
        using that find_validator_cases(1) [of "next" "vi_address v" e] assms(2) by (simp add: v_def now_def seats_ok_def)
      then have "(case find_validator next (vi_address v) of None \<Rightarrow> 0 | Some e \<Rightarrow> ?g e) \<le> ?g v"
        by (cases "find_validator next (vi_address v)") simp_all
      then show ?thesis using sum_put [of ?g v "next"] unfolding held_before_def by linarith
    qed
    moreover have "seats_ok pr (put_validator v next)" using seats_ok_put [OF assms(2), of v] False by (simp add: v_def)
    moreover have "set (put_validator v next) \<subseteq> insert v (set next)"
      using put_validator_set [of "next" _ v] assms(2) by (auto simp: seats_ok_def)
    ultimately show ?thesis using assms(5,6) put_validator_addresses [of v "next"] by (auto simp: v_def restaked_put)
  qed
qed

lemma grows_ok:
  assumes "foldl (grow_step pr budget) (next, applied, granted) us = (next', applied', granted')" "seats_ok pr next"
    and "granted \<le> budget" "budget \<le> uint_max 128" "stake_sum next = base + granted" "base \<le> held_before old next"
  shows "seats_ok pr next' \<and> granted' \<le> budget \<and> stake_sum next' = base + granted' \<and> base \<le> held_before old next'
    \<and> vi_address ` set next \<subseteq> vi_address ` set next' \<and> set next' \<subseteq> set next \<union> restaked (set us)"
  using assms
proof (induction us arbitrary: "next" applied granted)
  case (Cons u us)
  obtain n a g where step: "grow_step pr budget (next, applied, granted) u = (n, a, g)" by (metis prod_cases3)
  note ok = grow_step_ok [OF step Cons.prems(2-6)]
  then have "foldl (grow_step pr budget) (n, a, g) us = (next', applied', granted')" using Cons.prems(1) by (simp add: step)
  note rest = Cons.IH [OF this] and ok = ok
  then have "seats_ok pr next' \<and> granted' \<le> budget \<and> stake_sum next' = base + granted' \<and> base \<le> held_before old next'
      \<and> vi_address ` set n \<subseteq> vi_address ` set next' \<and> set next' \<subseteq> set n \<union> restaked (set us)"
    using Cons.prems(4) by blast
  moreover have "restaked {u} \<subseteq> restaked (set (u # us))" "restaked (set us) \<subseteq> restaked (set (u # us))"
    by (simp_all add: restaked_mono subset_insertI)
  ultimately show ?case using ok by blast
qed simp

text \<open>Removals, but for a first one too large alone, stay within the budget.\<close>

definition drops_ok :: "validator_info list \<Rightarrow> nat \<Rightarrow> nat \<times> nat \<times> address list \<Rightarrow> bool" where
  "drops_ok old budget = (\<lambda>(removed, real, applied).
     let gone = filter (\<lambda>v. vi_address v \<in> set applied) old in
     (real = 0 \<longrightarrow> gone = [] \<and> removed = 0) \<and> (removed \<le> budget \<longrightarrow> stake_sum gone \<le> removed)
     \<and> (budget < removed \<longrightarrow> 0 < real \<and> length gone \<le> 1))"

lemma filter_more:
  assumes "distinct (map vi_address old)" "find_validator old a = Some m"
  shows "stake_sum (filter (\<lambda>v. vi_address v = a \<or> vi_address v \<in> X) old) \<le> stake_sum (filter (\<lambda>v. vi_address v \<in> X) old) + vi_stake m"
    "length (filter (\<lambda>v. vi_address v = a \<or> vi_address v \<in> X) old) \<le> length (filter (\<lambda>v. vi_address v \<in> X) old) + 1"
proof -
  have one: "filter (\<lambda>v. vi_address v = a) old = [m]"
    using assms by (induction old) (auto simp: find_validator_def filter_empty_conv rev_image_eqI split: if_splits)
  have sum: "sum_list (map f (filter (\<lambda>v. P v \<or> Q v) xs)) \<le> sum_list (map f (filter Q xs)) + sum_list (map f (filter P xs))"
    for f :: "validator_info \<Rightarrow> nat" and P Q xs by (induction xs) auto
  show "stake_sum (filter (\<lambda>v. vi_address v = a \<or> vi_address v \<in> X) old) \<le> stake_sum (filter (\<lambda>v. vi_address v \<in> X) old) + vi_stake m"
    using sum [of vi_stake "\<lambda>v. vi_address v = a" "\<lambda>v. vi_address v \<in> X" old] by (simp add: one)
  show "length (filter (\<lambda>v. vi_address v = a \<or> vi_address v \<in> X) old) \<le> length (filter (\<lambda>v. vi_address v \<in> X) old) + 1"
    using sum [of "\<lambda>_. 1" "\<lambda>v. vi_address v = a" "\<lambda>v. vi_address v \<in> X" old] by (simp add: one sum_list_triv)
qed

lemma drop_step_ok:
  assumes "drops_ok (vs_validators old) budget st" "distinct (map vi_address (vs_validators old))" "budget < uint_max 128"
  shows "drops_ok (vs_validators old) budget (drop_step old budget st a)"
proof -
  obtain removed real applied where st: "st = (removed, real, applied)" by (metis prod_cases3)
  show ?thesis
  proof (cases "get_by_address old a")
    case None
    then have "filter (\<lambda>v. vi_address v = a \<or> vi_address v \<in> X) (vs_validators old) = filter (\<lambda>v. vi_address v \<in> X) (vs_validators old)" for X
      using find_validator_cases(2) [OF assms(2)] by (intro filter_cong) auto
    then show ?thesis using assms(1) None by (simp add: st drop_step_def drops_ok_def)
  next
    case (Some m)
    define c where "c = sat_add 128 removed (vi_stake m)"
    show ?thesis
    proof (cases "c \<le> budget \<or> real = 0")
      case True
      have "c \<le> budget \<Longrightarrow> c = removed + vi_stake m" "removed \<le> c \<or> uint_max 128 \<le> c" using assms(3) by (auto simp: c_def sat_add_def)
      then show ?thesis
        using True Some assms(1,3) filter_more [OF assms(2) Some, of "set applied"]
        by (auto simp: st drop_step_def drops_ok_def Let_def c_def [symmetric])
    next
      case False
      then show ?thesis using Some assms(1) by (simp add: st drop_step_def c_def)
    qed
  qed
qed

lemma drops_fold_ok:
  "drops_ok (vs_validators old) budget st \<Longrightarrow> distinct (map vi_address (vs_validators old)) \<Longrightarrow> budget < uint_max 128
    \<Longrightarrow> drops_ok (vs_validators old) budget (foldl (drop_step old budget) st as)"
  by (induction as arbitrary: st) (simp_all add: drop_step_ok)

lemma stake_in_own: "distinct (map vi_address old) \<Longrightarrow> v \<in> set old \<Longrightarrow> stake_in old (vi_address v) = vi_stake v"
  using find_validator_cases(1) [of old "vi_address v" v] by (simp add: stake_in_def)

lemma stake_sum_addresses:
  "distinct (map vi_address old) \<Longrightarrow> stake_sum old = sum (stake_in old) (vi_address ` set old)"
  using sum_list_distinct_conv_sum_set [of "map vi_address old" "stake_in old"] stake_in_own [of old]
  by (simp add: comp_def cong: map_cong)

lemma no_growth_sum:
  assumes "distinct (map vi_address old)" "distinct (map vi_address vs)" "vi_address ` set vs \<subseteq> vi_address ` set old" "no_growth old vs"
  shows "stake_sum vs \<le> stake_sum old"
proof -
  have "stake_sum vs \<le> sum_list (map (stake_in old) (map vi_address vs))"
    using assms(4) by (auto simp: no_growth_def intro!: sum_list_mono)
  also have "\<dots> = sum (stake_in old) (vi_address ` set vs)"
    using sum_list_distinct_conv_sum_set [OF assms(2), of "stake_in old"] by simp
  also have "\<dots> \<le> sum (stake_in old) (vi_address ` set old)" using assms(3) by (intro sum_mono2) auto
  finally show ?thesis using stake_sum_addresses [OF assms(1)] by simp
qed

abbreviation current_validators :: "epoch_manager \<Rightarrow> validator_info list" where
  "current_validators m \<equiv> vs_validators (ep_validator_set (em_current m))"

lemma next_validators_ok:
  assumes "next_validators pr m = (next, applied)" "seats_ok pr (current_validators m)" "stake_sum (current_validators m) \<le> uint_max 128"
  shows "seats_ok pr next \<and> 2 * stake_sum next \<le> 3 * held_before (current_validators m) next
    \<and> vi_address ` set (current_validators m) - set (applied_drops m) \<subseteq> vi_address ` set next
    \<and> set next \<subseteq> set (current_validators m) \<union> restaked (set (em_pending m))"
proof -
  let ?old = "current_validators m"
  define survivors where "survivors = filter (\<lambda>v. vi_address v \<notin> set (applied_drops m)) ?old"
  obtain kept a growth where cont: "foldl (upsert_step pr) (survivors, [], []) (em_pending m) = (kept, a, growth)" by (metis prod_cases3)
  define budget where "budget = stake_sum kept div 2"
  obtain next' a' granted where grow: "foldl (grow_step pr budget) (kept, a, 0) growth = (next', a', granted)" by (metis prod_cases3)
  have eq: "next = next'"
    using assms(1) grow by (simp add: next_validators_def continuing_def survivors_def [symmetric] cont budget_def)
  have dist: "distinct (map vi_address ?old)" using assms(2) by (simp add: seats_ok_def)
  have surv: "seats_ok pr survivors" "no_growth ?old survivors"
    using assms(2) stake_in_own [OF dist] by (auto simp: survivors_def seats_ok_def no_growth_def distinct_map_filter inj_on_def)
  note k = upserts_ok [OF cont surv]
  have "stake_sum kept \<le> stake_sum ?old"
    by (rule no_growth_sum) (use dist k in \<open>auto simp: seats_ok_def survivors_def\<close>)
  then have b: "budget \<le> uint_max 128" using assms(3) by (simp add: budget_def)
  have g: "seats_ok pr next \<and> granted \<le> budget \<and> stake_sum next = stake_sum kept + granted \<and> stake_sum kept \<le> held_before ?old next
    \<and> vi_address ` set kept \<subseteq> vi_address ` set next \<and> set next \<subseteq> set kept \<union> restaked (set growth)"
    unfolding eq by (rule grows_ok [OF grow]) (use k b held_before_all in auto)
  let ?G = "restaked (set (em_pending m))"
  have "set kept \<subseteq> ?G \<union> set survivors" using k restaked_self [of "set (em_pending m)"] by blast
  moreover have "restaked (set growth) \<subseteq> ?G" using k by (intro restaked_mono) simp
  moreover have "set survivors \<subseteq> set ?old" by (simp add: survivors_def)
  ultimately have members: "set next \<subseteq> set ?old \<union> ?G" using g by blast
  have "2 * granted \<le> stake_sum kept" using g by (auto simp: budget_def)
  then have "2 * stake_sum next \<le> 3 * held_before ?old next" using g by linarith
  moreover have "vi_address ` set ?old - set (applied_drops m) \<subseteq> vi_address ` set survivors" by (auto simp: survivors_def)
  then have "vi_address ` set ?old - set (applied_drops m) \<subseteq> vi_address ` set next" using g k by (elim conjE) blast
  ultimately show ?thesis using g members by (elim conjE) (intro conjI)
qed

section \<open>The transition\<close>

lemma transition_epoch_cases:
  assumes "transition_epoch_timed pr now ok height time_up m = (Inr (Some s), m')"
  obtains "next" applied start where "next_validators pr m = (next, applied)" "next \<noteq> []" "seats_ok pr next"
    "s = \<lparr>vs_epoch = ep_number (em_current m) + 1, vs_validators = next, vs_total_stake = sum_list (map voting_power next)\<rparr>"
    "start = (if should_transition height m then (ep_number (em_current m) + 1) * em_duration m else height)"
    "should_transition height m \<or> time_up = Some (ep_number (em_current m))"
    "m' = persist ok (ep_number (em_current m))
       (m\<lparr>em_history := push_history ((em_current m)\<lparr>ep_end_height := start\<rparr>) m,
          em_pending := filter (\<lambda>v. vi_address v \<notin> set applied) (em_pending m),
          em_removals := filter (\<lambda>a. a \<notin> set (applied_drops m)) (em_removals m),
          em_current := \<lparr>ep_number = ep_number (em_current m) + 1, ep_start_height = start, ep_end_height = start + em_duration m,
            ep_validator_set = s, ep_start_time = now\<rparr>\<rparr>)"
proof -
  obtain n a where n: "next_validators pr m = (n, a)" by fastforce
  have due: "should_transition height m \<or> time_up = Some (ep_number (em_current m))"
    using assms by (auto simp: transition_epoch_timed_def Let_def split: if_splits)
  then have set_new: "validator_set_new pr (ep_number (em_current m) + 1) n = Inr s"
    using assms by (auto simp: transition_epoch_timed_def Let_def n split: if_splits sum.splits)
  define start where "start = (if should_transition height m then (ep_number (em_current m) + 1) * em_duration m else height)"
  have "m' = persist ok (ep_number (em_current m))
       (m\<lparr>em_history := push_history ((em_current m)\<lparr>ep_end_height := start\<rparr>) m,
          em_pending := filter (\<lambda>v. vi_address v \<notin> set a) (em_pending m),
          em_removals := filter (\<lambda>a. a \<notin> set (applied_drops m)) (em_removals m),
          em_current := \<lparr>ep_number = ep_number (em_current m) + 1, ep_start_height = start, ep_end_height = start + em_duration m,
            ep_validator_set = s, ep_start_time = now\<rparr>\<rparr>)"
    using assms due unfolding transition_epoch_timed_def Let_def n prod.case set_new sum.case start_def [symmetric]
    by (simp split: if_splits)
  then show thesis using that [OF n _ _ _ start_def due] set_new by (simp add: validator_set_new_iff)
qed

definition made :: "primitives \<Rightarrow> validator_set \<Rightarrow> bool" where
  "made pr s \<longleftrightarrow> validator_set_new pr (vs_epoch s) (vs_validators s) = Inr s"

lemma made_iff: "made pr s \<longleftrightarrow> vs_validators s \<noteq> [] \<and> seats_ok pr (vs_validators s)
    \<and> vs_total_stake s = sum_list (map voting_power (vs_validators s))"
  unfolding made_def validator_set_new_iff by (cases s) auto

lemma restaked_active: "\<forall>u \<in> us. is_active u \<Longrightarrow> v \<in> restaked us \<Longrightarrow> is_active v"
  by (auto simp: restaked_def is_active_def)

lemma active_power: "\<forall>v \<in> set vs. is_active v \<Longrightarrow> sum_list (map voting_power vs) = stake_sum vs"
  by (intro arg_cong [of _ _ sum_list]) (simp add: voting_power_def)

text \<open>
  Property C14. Set continuity across a transition. When every validator is active, what the members of
  the next set held before makes up at least two thirds of its voting power; and those who left held at
  most a third of the outgoing stake, unless a single one did.
\<close>

theorem churn_bounded:
  assumes "transition_epoch_timed pr now ok height time_up m = (Inr (Some s), m')"
    and "made pr (ep_validator_set (em_current m))" "vs_total_stake (ep_validator_set (em_current m)) \<le> uint_max 128"
    and "\<forall>v \<in> set (current_validators m) \<union> set (em_pending m). is_active v"
  shows "2 * vs_total_stake s \<le> 3 * held_before (current_validators m) (vs_validators s)
    \<and> (let gone = filter (\<lambda>v. vi_address v \<notin> vi_address ` set (vs_validators s)) (current_validators m)
       in 3 * stake_sum gone \<le> vs_total_stake (ep_validator_set (em_current m)) \<or> length gone = 1)"
proof -
  let ?old = "current_validators m" and ?set = "ep_validator_set (em_current m)"
  obtain "next" applied where n: "next_validators pr m = (next, applied)"
    and s: "s = \<lparr>vs_epoch = ep_number (em_current m) + 1, vs_validators = next, vs_total_stake = sum_list (map voting_power next)\<rparr>"
    by (rule transition_epoch_cases [OF assms(1)])
  have old: "seats_ok pr ?old" "vs_total_stake ?set = stake_sum ?old" "stake_sum ?old \<le> uint_max 128"
    using assms(2-4) active_power [of ?old] by (auto simp: made_iff)
  note ok = next_validators_ok [OF n old(1,3)]
  have members: "set next \<subseteq> set ?old \<union> restaked (set (em_pending m))" using ok by (elim conjE)
  have "is_active v" if "v \<in> set next" for v
    using members that assms(4) restaked_active [of "set (em_pending m)" v] by (cases "v \<in> set ?old") auto
  then have power: "vs_total_stake s = stake_sum next" using active_power by (simp add: s)
  define gone where "gone = filter (\<lambda>v. vi_address v \<notin> vi_address ` set next) ?old"
  obtain removed real where f: "foldl (drop_step ?set (vs_total_stake ?set div 3)) (0, 0, []) (em_removals m) = (removed, real, applied_drops m)"
    unfolding applied_drops_def Let_def by (metis prod.collapse)
  have "drops_ok ?old (vs_total_stake ?set div 3) (removed, real, applied_drops m)"
    unfolding f [symmetric] by (rule drops_fold_ok) (use old in \<open>auto simp: drops_ok_def seats_ok_def uint_max_def\<close>)
  moreover define dropped where "dropped = filter (\<lambda>v. vi_address v \<in> set (applied_drops m)) ?old"
  ultimately have d: "removed \<le> vs_total_stake ?set div 3 \<and> stake_sum dropped \<le> removed \<or> length dropped \<le> 1"
    by (auto simp: drops_ok_def Let_def)
  have "gone = filter (\<lambda>v. vi_address v \<notin> vi_address ` set next) dropped"
    unfolding gone_def dropped_def filter_filter using ok by (intro filter_cong) blast+
  then have "length gone \<le> length dropped" "stake_sum gone \<le> stake_sum dropped"
    by (auto intro: sum_list_filter_le_nat)
  then have "3 * stake_sum gone \<le> vs_total_stake ?set \<or> length gone = 1" using d by (cases gone; cases "tl gone") auto
  then show ?thesis using ok power by (simp add: s gone_def)
qed

text \<open>
  When a member of the current set is not removed, a transition that is due succeeds,
  whatever is queued: updates with malformed or taken keys are refused on their own, and the next set
  has well-formed keys and no address or key twice.
\<close>

lemma transition_succeeds:
  assumes "made pr (ep_validator_set (em_current m))" "stake_sum (current_validators m) \<le> uint_max 128"
    and "should_transition height m \<or> time_up = Some (ep_number (em_current m))"
    and "v \<in> set (current_validators m)" "vi_address v \<notin> set (applied_drops m)"
  shows "\<exists>s m'. transition_epoch_timed pr now ok height time_up m = (Inr (Some s), m') \<and> made pr s
    \<and> ep_validator_set (em_current m') = s \<and> vi_address v \<in> vi_address ` set (vs_validators s)"
proof -
  obtain "next" applied where n: "next_validators pr m = (next, applied)" by fastforce
  have ok: "seats_ok pr next" "vi_address v \<in> vi_address ` set next"
    using next_validators_ok [OF n] assms by (auto simp: made_iff)
  then obtain s where s: "validator_set_new pr (ep_number (em_current m) + 1) next = Inr s"
    using validator_set_new_iff by fastforce
  have "ep_validator_set (em_current (persist ok' k m')) = ep_validator_set (em_current m')" for ok' k m'
    by (simp add: persist_def Let_def split: option.split)
  moreover have "made pr s" "vs_validators s = next" using s by (auto simp: validator_set_new_iff made_iff)
  ultimately show ?thesis
    using ok(2) assms(3) unfolding transition_epoch_timed_def Let_def n prod.case s sum.case by auto
qed

lemma drop_applied_mono: "a \<in> set (snd (snd st)) \<Longrightarrow> a \<in> set (snd (snd (foldl (drop_step old budget) st as)))"
proof (induction as arbitrary: st)
  case (Cons b as)
  have "a \<in> set (snd (snd (drop_step old budget st b)))"
    using Cons.prems by (cases st) (auto simp: drop_step_def Let_def split: option.split)
  then show ?case using Cons.IH by simp
qed simp

lemma sole_dropped:
  assumes "vs_validators old = [v]" "vi_address v \<in> set as"
  shows "vi_address v \<in> set (snd (snd (foldl (drop_step old budget) (removed, 0, applied) as)))"
  using assms(2)
proof (induction as arbitrary: applied)
  case (Cons a as)
  show ?case
  proof (cases "a = vi_address v")
    case True
    have "vi_address v \<in> set (snd (snd (drop_step old budget (removed, 0, applied) a)))"
      using assms(1) True by (simp add: drop_step_def find_validator_def Let_def)
    then show ?thesis using drop_applied_mono by simp
  next
    case False
    then have "drop_step old budget (removed, 0, applied) a = (removed, 0, applied @ [a])"
      using assms(1) by (simp add: drop_step_def find_validator_def)
    then show ?thesis using Cons False by simp
  qed
qed simp

lemma upserts_empty: "foldl (upsert_step pr) ([], applied, growth) us = (next, applied', growth')
    \<Longrightarrow> next = [] \<and> set growth' \<subseteq> set us \<union> set growth"
proof (induction us arbitrary: applied growth)
  case (Cons u us)
  have "\<exists>a g. upsert_step pr ([], applied, growth) u = ([], a, g) \<and> set g \<subseteq> insert u (set growth)"
    by (auto simp: upsert_step_def find_validator_def)
  then show ?case using Cons by fastforce
qed simp

lemma grows_empty: "\<forall>u \<in> set us. 0 < vi_stake u \<Longrightarrow> fst (foldl (grow_step pr 0) ([], applied, 0) us) = []"
proof (induction us arbitrary: applied)
  case (Cons u us)
  then have "\<exists>a. grow_step pr 0 ([], applied, 0) u = ([], a, 0)"
    by (auto simp: grow_step_def find_validator_def Let_def)
  then show ?case using Cons by auto
qed simp

text \<open>
  Property C26. With a single validator whose removal is queued no epoch ever closes: whoever is
  queued to join is given half of no continuing stake, the next set is empty, and every transition
  fails and leaves the queues as they are.
\<close>

theorem sole_removal_blocks:
  assumes "current_validators m = [v]" "vi_address v \<in> set (em_removals m)" "\<forall>u \<in> set (em_pending m). 0 < vi_stake u"
    and "should_transition height m \<or> time_up = Some (ep_number (em_current m))"
  shows "transition_epoch_timed pr now ok height time_up m = (Inl (SetError (InvalidValidatorSet ''validator set cannot be empty'')), m)"
proof -
  have "vi_address v \<in> set (applied_drops m)"
    using sole_dropped [OF assms(1,2)] by (simp add: applied_drops_def Let_def)
  then have cont: "continuing pr m = foldl (upsert_step pr) ([], [], []) (em_pending m)" by (simp add: continuing_def assms(1))
  obtain kept a growth where k: "foldl (upsert_step pr) ([], [], []) (em_pending m) = (kept, a, growth)" by (metis prod_cases3)
  have "kept = []" "set growth \<subseteq> set (em_pending m)" using upserts_empty [OF k] by auto
  then have "fst (next_validators pr m) = []"
    using grows_empty [of growth pr a] assms(3) by (auto simp: next_validators_def cont k case_prod_unfold Let_def)
  then show ?thesis
    using assms(4) by (auto simp: transition_epoch_timed_def Let_def case_prod_unfold validator_set_new_def)
qed

section \<open>Examples\<close>

definition key_pr :: primitives where
  "key_pr = \<lparr>pr_sha512 = (\<lambda>x. x), pr_ml_dsa = (\<lambda>_ _ _ _ _. True), pr_ecdsa = (\<lambda>_ _ _ _. True), pr_on_curve = (\<lambda>_ _. True), pr_blake3 = (\<lambda>x. x)\<rparr>"

definition seat :: "nat \<Rightarrow> nat \<Rightarrow> validator_info" where
  "seat k st = \<lparr>vi_address = [of_nat k], vi_public_key = \<lparr>ml_dsa = replicate 1952 (of_nat k), p256 = replicate 65 4\<rparr>,
     vi_node_key = [], vi_stake = st, vi_status = Active, vi_registered_at = 0\<rparr>"

lemma seat_fields [simp]: "vi_address (seat k st) = [of_nat k]" "vi_stake (seat k st) = st" "is_active (seat k st)"
  by (simp_all add: seat_def is_active_def)

lemma seat_key_ok: "check_well_formed key_pr (vi_public_key (seat k st)) = Inr ()"
  by (simp add: seat_def check_well_formed_def split_public_key_def scheme_split_def default_scheme_def key_scheme_def key_pr_def hd_replicate)

lemma seat_inj: "k < 256 \<Longrightarrow> l < 256 \<Longrightarrow> (of_nat k :: u8) = of_nat l \<longleftrightarrow> k = l"
  by (simp add: word_of_nat_eq_iff take_bit_eq_mod)

lemma seat_fingerprint:
  "k < 256 \<Longrightarrow> l < 256 \<Longrightarrow> fingerprint key_pr (vi_public_key (seat k st)) = fingerprint key_pr (vi_public_key (seat l st')) \<longleftrightarrow> k = l"
  by (simp add: fingerprint_def key_pr_def seat_def replicate_eq_replicate seat_inj)

lemma seats_demo:
  assumes "distinct (map fst ks)" "\<forall>(k, st) \<in> set ks. k < 256"
  shows "seats_ok key_pr (map (\<lambda>(k, st). seat k st) ks)"
proof -
  have addr: "map vi_address (map (\<lambda>(k, st). seat k st) ks) = map (\<lambda>k. [of_nat k]) (map fst ks)" by (simp add: case_prod_unfold)
  have "distinct (map vi_address (map (\<lambda>(k, st). seat k st) ks))"
    unfolding addr distinct_map [of "\<lambda>k. [of_nat k]"] using assms by (auto simp: inj_on_def) (metis (mono_tags, lifting) case_prodD seat_inj)
  moreover have "inj_on (\<lambda>v. fingerprint key_pr (vi_public_key v)) (set (map (\<lambda>(k, st). seat k st) ks))"
  proof (rule inj_onI)
    fix x y assume xy: "x \<in> set (map (\<lambda>(k, st). seat k st) ks)" "y \<in> set (map (\<lambda>(k, st). seat k st) ks)"
      and eq: "fingerprint key_pr (vi_public_key x) = fingerprint key_pr (vi_public_key y)"
    obtain k st where x: "(k, st) \<in> set ks" "x = seat k st" using xy(1) by auto
    obtain l st' where y: "(l, st') \<in> set ks" "y = seat l st'" using xy(2) by auto
    have "k = l" using seat_fingerprint [of k l st st'] eq x y assms(2) by auto
    then show "x = y" using eq_key_imp_eq_value [OF assms(1)] x y by blast
  qed
  ultimately show ?thesis by (auto simp: seats_ok_def seat_key_ok)
qed

definition trio :: "validator_info list" where "trio = [seat 0 30, seat 1 30, seat 2 30]"

definition trio_set :: validator_set where
  "trio_set = \<lparr>vs_epoch = 0, vs_validators = trio, vs_total_stake = 90\<rparr>"

text \<open>The third validator leaves, and one with more than the others together asks to join.\<close>

definition trio_manager :: epoch_manager where
  "trio_manager = (fresh_manager (genesis_epoch 10 0 trio_set) 10 [] None)\<lparr>em_pending := [seat 3 100], em_removals := [[2]]\<rparr>"

lemma trio_ok: "seats_ok key_pr trio"
  using seats_demo [of "[(0, 30), (1, 30), (2, 30)]"] by (simp add: trio_def)

lemma trio_made: "made key_pr trio_set"
  using trio_ok by (auto simp: made_iff trio_set_def trio_def voting_power_def)

lemma trio_fields:
  "ep_validator_set (em_current trio_manager) = trio_set" "em_pending trio_manager = [seat 3 100]" "em_removals trio_manager = [[2]]"
  "should_transition 10 trio_manager"
  by (simp_all add: trio_manager_def fresh_manager_def genesis_epoch_def should_transition_def)

lemma drops_subset: "set (snd (snd (foldl (drop_step old budget) st as))) \<subseteq> set (snd (snd st)) \<union> set as"
proof (induction as arbitrary: st)
  case (Cons a as)
  have "set (snd (snd (drop_step old budget st a))) \<subseteq> insert a (set (snd (snd st)))"
    by (cases st) (auto simp: drop_step_def Let_def split: option.splits if_splits)
  then show ?case using Cons.IH [of "drop_step old budget st a"] by auto
qed simp

lemma trio_transition:
  obtains s m' where "transition_epoch_timed key_pr 0 (\<lambda>_. True) 10 None trio_manager = (Inr (Some s), m')"
proof -
  have "set (applied_drops trio_manager) \<subseteq> {[2]}"
    using drops_subset [of trio_set "vs_total_stake trio_set div 3" "(0, 0, [])" "[[2]]"] by (simp add: applied_drops_def trio_fields Let_def)
  then have "vi_address (seat 0 30) \<notin> set (applied_drops trio_manager)" by auto
  moreover have "seat 0 30 \<in> set (current_validators trio_manager)" by (simp add: trio_fields trio_set_def trio_def)
  ultimately obtain s m' where "transition_epoch_timed key_pr 0 (\<lambda>_. True) 10 None trio_manager = (Inr (Some s), m')"
    using transition_succeeds [of key_pr trio_manager 10 None "seat 0 30" 0 "\<lambda>_. True"] trio_made
    by (auto simp: trio_fields) (auto simp: trio_set_def trio_def uint_max_def)
  then show thesis by (rule that)
qed

theorem churn_bounded_witness:
  "\<exists>s m'. transition_epoch_timed key_pr 0 (\<lambda>_. True) 10 None trio_manager = (Inr (Some s), m')
     \<and> 2 * vs_total_stake s \<le> 3 * held_before trio (vs_validators s)"
proof -
  obtain s m' where t: "transition_epoch_timed key_pr 0 (\<lambda>_. True) 10 None trio_manager = (Inr (Some s), m')" by (rule trio_transition)
  have "2 * vs_total_stake s \<le> 3 * held_before (current_validators trio_manager) (vs_validators s)"
    using churn_bounded [OF t] trio_made by (auto simp: trio_fields trio_set_def trio_def uint_max_def)
  then show ?thesis using t by (auto simp: trio_fields trio_set_def)
qed

text \<open>The only validator leaves and another asks to take its place.\<close>

definition last_one :: epoch_manager where
  "last_one = (fresh_manager (genesis_epoch 10 0 \<lparr>vs_epoch = 0, vs_validators = [seat 0 30], vs_total_stake = 30\<rparr>) 10 [] None)
     \<lparr>em_pending := [seat 1 30], em_removals := [[0]]\<rparr>"

theorem sole_removal_blocks_witness:
  "transition_epoch_timed key_pr 0 (\<lambda>_. True) 10 None last_one
     = (Inl (SetError (InvalidValidatorSet ''validator set cannot be empty'')), last_one)"
  by (rule sole_removal_blocks [where v = "seat 0 30"])
    (simp_all add: last_one_def fresh_manager_def genesis_epoch_def should_transition_def)

definition fresh_trio :: epoch_manager where
  "fresh_trio = fresh_manager (genesis_epoch 10 0 trio_set) 10 [] None"

lemma trio_set_new: "validator_set_new key_pr 0 trio = Inr trio_set"
  using trio_made by (simp add: made_def trio_set_def)

text \<open>
  The budgets count stake, not voting power. With a jailed validator of 90 beside an active one of 10,
  an entrant is given 50 at once: five sixths of the voting power of the next set.
\<close>

lemma jailed_stake_widens_budget:
  "map voting_power (fst (next_validators key_pr (fresh_trio
     \<lparr>em_current := (genesis_epoch 10 0 \<lparr>vs_epoch = 0, vs_validators = [seat 0 10, (seat 1 90)\<lparr>vi_status := Jailed\<rparr>], vs_total_stake = 10\<rparr>),
       em_pending := [seat 2 50]\<rparr>))) = [10, 0, 50]"
proof -
  have "\<not> unseatable key_pr [seat 0 10, (seat 1 90)\<lparr>vi_status := Jailed\<rparr>] (seat 2 50)"
    using seat_fingerprint [of 0 2 10 50] seat_fingerprint [of 1 2 90 50] by (simp add: unseatable_def seat_key_ok)
  then show ?thesis
    by (simp add: next_validators_def continuing_def applied_drops_def fresh_trio_def fresh_manager_def genesis_epoch_def upsert_step_def
        grow_step_def find_validator_def Let_def voting_power_def is_active_def sat_add_def uint_max_def)
      (simp add: seat_def)
qed

text \<open>Decreases are not removals: all the stake may leave in one transition.\<close>

lemma decreases_leave_unbounded:
  "stake_sum (fst (next_validators key_pr (fresh_trio\<lparr>em_pending := [seat 0 1, seat 1 1, seat 2 1]\<rparr>))) = 3"
proof -
  have ok: "\<not> unseatable key_pr (map (\<lambda>(k, st). seat k st) ks) (seat j s)" if "\<forall>(k, st) \<in> set ks. k < 256" "j < 256" for ks j s
    using that by (fastforce simp: unseatable_def seat_key_ok list_ex_iff seat_fingerprint)
  show ?thesis
    using ok [of "[(0, 30), (1, 30), (2, 30)]" 0 1] ok [of "[(0, 1), (1, 30), (2, 30)]" 1 1] ok [of "[(0, 1), (1, 1), (2, 30)]" 2 1]
    by (simp add: next_validators_def continuing_def applied_drops_def fresh_trio_def fresh_manager_def genesis_epoch_def upsert_step_def
        trio_set_def trio_def find_validator_def Let_def)
qed

end
