(* ===== verification/Epoch_History.thy ===== *)
theory Epoch_History
  imports Epochs
begin

text \<open>
  The epochs a manager keeps (\<^verbatim>\<open>crates/tenzro-consensus/src/epoch_manager.rs\<close>): over its runs they cover
  the heights without gap or overlap, and a restart reads the same ones back from the store. A recovery
  that replaces an epoch already derived leaves a gap.
\<close>

section \<open>The heights of epochs\<close>

definition tiled :: "epoch list \<Rightarrow> bool" where
  "tiled es \<longleftrightarrow> successively (\<lambda>e e'. ep_end_height e = ep_start_height e' \<and> ep_number e' = ep_number e + 1) es
     \<and> (\<forall>e \<in> set es. ep_start_height e \<le> ep_end_height e)"

abbreviation kept_epochs :: "epoch_manager \<Rightarrow> epoch list" where
  "kept_epochs m \<equiv> em_history m @ [em_current m]"

definition epochs_ok :: "epoch_manager \<Rightarrow> bool" where
  "epochs_ok m \<longleftrightarrow> tiled (kept_epochs m) \<and> ep_start_height (em_current m) \<le> ep_number (em_current m) * em_duration m"

inductive manager_run :: "primitives \<Rightarrow> nat \<Rightarrow> epoch_manager \<Rightarrow> bool" for pr d where
  fresh: "epoch_manager_new pr now vs d = Inr m \<Longrightarrow> manager_run pr d m"
| stored: "with_store pr now ok vs d [] = Inr m \<Longrightarrow> manager_run pr d m"
| added: "manager_run pr d m \<Longrightarrow> manager_run pr d (add_pending_validator u m)"
| removed: "manager_run pr d m \<Longrightarrow> manager_run pr d (remove_pending_validator a m)"
| transition: "manager_run pr d m \<Longrightarrow> transition_epoch_timed pr now ok height time_up m = (r, m')
    \<Longrightarrow> ep_start_height (em_current m) \<le> height \<Longrightarrow> manager_run pr d m'"

lemma persist_fields [simp]:
  "em_current (persist ok k m) = em_current m" "em_history (persist ok k m) = em_history m" "em_duration (persist ok k m) = em_duration m"
  "em_max_history (persist ok k m) = em_max_history m" "em_pending (persist ok k m) = em_pending m"
  by (simp_all add: persist_def Let_def split: option.split)

lemma transition_result:
  assumes "transition_epoch_timed pr now ok height time_up m = (r, m')"
  shows "m' = m \<or> (\<exists>s. r = Inr (Some s))"
  using assms by (auto simp: transition_epoch_timed_def Let_def split: if_splits prod.splits sum.splits)

lemma tiled_tl: "tiled es \<Longrightarrow> tiled (tl es)"
  by (cases es) (auto simp: tiled_def successively_Cons)

lemma tiled_snoc:
  assumes "tiled (es @ [e])" "ep_start_height e \<le> ep_start_height e'" "ep_start_height e' \<le> ep_end_height e'" "ep_number e' = ep_number e + 1"
  shows "tiled ((es @ [e\<lparr>ep_end_height := ep_start_height e'\<rparr>]) @ [e'])"
  using assms by (auto simp: tiled_def successively_append_iff)

lemma push_history_cases:
  "push_history e m @ xs = em_history m @ e # xs \<or> push_history e m @ xs = tl (em_history m @ e # xs)"
  by (cases "em_history m") (auto simp: push_history_def Let_def)

lemma transition_epochs_ok:
  assumes "epochs_ok m" "0 < em_duration m" "ep_start_height (em_current m) \<le> height"
    and "transition_epoch_timed pr now ok height time_up m = (Inr (Some s), m')"
  shows "epochs_ok m' \<and> em_duration m' = em_duration m"
proof -
  let ?cur = "em_current m" and ?d = "em_duration m"
  obtain start applied where start: "start = (if should_transition height m then (ep_number ?cur + 1) * ?d else height)"
    and m': "m' = persist ok (ep_number ?cur)
       (m\<lparr>em_history := push_history (?cur\<lparr>ep_end_height := start\<rparr>) m,
          em_pending := filter (\<lambda>v. vi_address v \<notin> set applied) (em_pending m),
          em_removals := filter (\<lambda>a. a \<notin> set (applied_drops m)) (em_removals m),
          em_current := \<lparr>ep_number = ep_number ?cur + 1, ep_start_height = start, ep_end_height = start + ?d,
            ep_validator_set = s, ep_start_time = now\<rparr>\<rparr>)"
    by (rule transition_epoch_cases [OF assms(4)])
  have ok: "tiled (em_history m @ [?cur])" "ep_start_height ?cur \<le> ep_number ?cur * ?d" using assms(1) by (simp_all add: epochs_ok_def)
  have "ep_start_height ?cur \<le> start" using ok(2) assms(3) by (simp add: start)
  then have t: "tiled ((em_history m @ [?cur\<lparr>ep_end_height := start\<rparr>]) @ [em_current m'])"
    using tiled_snoc [OF ok(1), of "em_current m'"] by (simp add: m')
  have "height div ?d \<le> ep_number ?cur \<Longrightarrow> height \<le> (ep_number ?cur + 1) * ?d"
    using assms(2) less_Suc_eq_le [of "height div ?d" "ep_number ?cur"] div_less_iff_less_mult [of ?d height "Suc (ep_number ?cur)"] by simp
  then have "start \<le> (ep_number ?cur + 1) * ?d" by (simp add: start should_transition_def not_less)
  moreover have "kept_epochs m' = (em_history m @ [?cur\<lparr>ep_end_height := start\<rparr>]) @ [em_current m']
      \<or> kept_epochs m' = tl ((em_history m @ [?cur\<lparr>ep_end_height := start\<rparr>]) @ [em_current m'])"
    using push_history_cases [of "?cur\<lparr>ep_end_height := start\<rparr>" m "[em_current m']"] by (simp add: m')
  ultimately show ?thesis using t tiled_tl [OF t] by (auto simp: epochs_ok_def m')
qed

lemma run_epochs_ok: "manager_run pr d m \<Longrightarrow> 0 < d \<Longrightarrow> epochs_ok m \<and> em_duration m = d"
proof (induction rule: manager_run.induct)
  case (fresh now vs m)
  then show ?case
    by (auto simp: epoch_manager_new_def fresh_manager_def genesis_epoch_def epochs_ok_def tiled_def split: sum.splits)
next
  case (stored now ok vs m)
  then show ?case
    by (auto simp: with_store_def for_each_epoch_def Let_def fresh_manager_def genesis_epoch_def epochs_ok_def tiled_def split: sum.splits)
next
  case (transition m now ok height time_up r m')
  then show ?case using transition_result [OF transition.hyps(2)] transition_epochs_ok [of m height pr now ok time_up _ m'] by auto
qed (auto simp: epochs_ok_def add_pending_validator_def remove_pending_validator_def)

lemma tiled_order: "tiled es \<Longrightarrow> sorted_wrt (\<lambda>e e'. ep_end_height e \<le> ep_start_height e') es"
proof (induction es)
  case (Cons e es)
  have "tiled es" using tiled_tl [OF Cons.prems] by simp
  moreover have "ep_end_height e \<le> ep_start_height x" if "x \<in> set es" for x
  proof (cases es)
    case (Cons f fs)
    then have "ep_end_height e = ep_start_height f" "ep_start_height f \<le> ep_end_height f"
      using \<open>tiled (e # es)\<close> by (auto simp: tiled_def)
    then show ?thesis using that Cons.IH [OF calculation] Cons by fastforce
  qed (use that in simp)
  ultimately show ?case using Cons.IH by simp
qed simp

lemma tiled_covers: "tiled es \<Longrightarrow> es \<noteq> [] \<Longrightarrow> ep_start_height (hd es) \<le> h \<Longrightarrow> h < ep_end_height (last es) \<Longrightarrow> \<exists>e \<in> set es. epoch_contains e h"
proof (induction es)
  case (Cons e es)
  show ?case
  proof (cases "es \<noteq> [] \<and> ep_end_height e \<le> h")
    case True
    then have "ep_start_height (hd es) \<le> h" using Cons.prems(1) by (cases es) (auto simp: tiled_def)
    then show ?thesis using Cons tiled_tl [OF Cons.prems(1)] True by auto
  qed (use Cons.prems in \<open>auto simp: epoch_contains_def\<close>)
qed simp

lemma tiled_unique:
  assumes "sorted_wrt (\<lambda>e e'. ep_end_height e \<le> ep_start_height e') es" "e \<in> set es" "e' \<in> set es" "epoch_contains e h" "epoch_contains e' h"
  shows "e = e'"
  using assms by (induction es) (fastforce simp: epoch_contains_def)+


lemma order_ends:
  "sorted_wrt (\<lambda>e e'. ep_end_height e \<le> ep_start_height e') (es @ [f]) \<Longrightarrow> ep_start_height f \<le> ep_end_height f \<Longrightarrow>
    e \<in> set (es @ [f]) \<Longrightarrow> ep_end_height e \<le> ep_end_height f"
  by (auto simp: sorted_wrt_append)

text \<open>
  Property C28. A recovery that replaces an epoch already derived does not close the one before where
  it starts: a height between the boundary the halted chain recorded and the start of the recovery is
  in no epoch any more.
\<close>

theorem recovery_leaves_gap:
  assumes "tiled (hs @ [e])" "em_history m = hs @ [e]" "ep_number e = from_epoch" "ep_number (em_current m) = from_epoch + 1"
    and "validator_set_new pr (from_epoch + 1) vs = Inr s" "ep_end_height e \<le> h" "h < start"
    and "\<forall>x \<in> set hs. ep_number x \<noteq> from_epoch"
    and "em_store m = Some st" "\<forall>(k, r) \<in> set st. k = from_epoch \<or> k = from_epoch + 1 \<or> \<not> (\<exists>x. r = Some x \<and> epoch_contains x h)"
  shows "\<exists>m'. install_recovery_epoch pr now (\<lambda>_. True) from_epoch start vs m = (Inr (), m') \<and> get_epoch_for_height h m' = None"
proof -
  define new where "new = \<lparr>ep_number = from_epoch + 1, ep_start_height = start, ep_end_height = start + em_duration m,
    ep_validator_set = s, ep_start_time = now\<rparr>"
  define m1 where "m1 = m\<lparr>em_history := em_history m, em_current := new, em_pending := [], em_removals := []\<rparr>"
  define st' where "st' = al_put from_epoch (Some e) (al_put (from_epoch + 1) (Some new) st)"
  have "find (\<lambda>x. ep_number x = from_epoch) (hs @ [e]) = Some e" using assms(3,8) by (induction hs) auto
  then have "get_epoch from_epoch m1 = Some e" by (simp add: get_epoch_def m1_def new_def assms(2))
  then have p: "persist_recovery (\<lambda>_. True) from_epoch m1 = (Inr (), m1\<lparr>em_store := Some st'\<rparr>)"
    by (simp add: persist_recovery_def Let_def m1_def assms(9) st'_def)
  have out: "install_recovery_epoch pr now (\<lambda>_. True) from_epoch start vs m = (Inr (), m1\<lparr>em_store := Some st'\<rparr>)"
    using p unfolding install_recovery_epoch_def Let_def assms(4,5) sum.case new_def [symmetric] by (simp add: m1_def)
  have "ep_end_height x \<le> ep_end_height e" if "x \<in> set (hs @ [e])" for x
    using order_ends [OF tiled_order [OF assms(1)] _ that] assms(1) by (simp add: tiled_def)
  then have hist: "\<not> epoch_contains x h" if "x \<in> set (hs @ [e])" for x using that assms(6) by (fastforce simp: epoch_contains_def)
  have new: "\<not> epoch_contains new h" using assms(7) by (simp add: epoch_contains_def new_def)
  have "\<not> epoch_contains x h" if "(k, Some x) \<in> set st'" for k x
    using that hist new assms(10) by (fastforce simp: st'_def set_al_put)
  then have "find_in_store (\<lambda>e. epoch_contains e h) (m1\<lparr>em_store := Some st'\<rparr>) = None"
    by (auto simp: find_in_store_def for_each_epoch_def find_None_iff List.map_filter_def)
  moreover have "find (\<lambda>e. epoch_contains e h) (em_history m) = None" using hist by (auto simp: find_None_iff assms(2))
  ultimately have "get_epoch_for_height h (m1\<lparr>em_store := Some st'\<rparr>) = None" using new by (simp add: get_epoch_for_height_def m1_def)
  then show ?thesis using out by blast
qed

section \<open>Restart\<close>

lemma insort_last: "\<forall>y \<in> set xs. f y < f x \<Longrightarrow> insort_key f x xs = xs @ [x]"
  by (induction xs) auto

lemma hydrate_all:
  "sorted_wrt (<) (map ep_number es) \<Longrightarrow> foldl hydrate_step [] (map Some es) = drop (length es - HYDRATED_EPOCHS) es"
proof (induction es rule: rev_induct)
  case (snoc e es)
  have less: "\<forall>y \<in> set es. ep_number y < ep_number e" using snoc.prems by (auto simp: sorted_wrt_append)
  then have "\<forall>y \<in> set (drop k es). ep_number y < ep_number e" for k by (meson in_set_dropD)
  then have "insort_key ep_number e (filter (\<lambda>x. ep_number x \<noteq> ep_number e) (drop k es)) = drop k es @ [e]" for k
    by (subst filter_True) (fastforce, simp add: insort_last)
  then have step: "hydrate_step (drop k es) (Some e) = (if 11 < length (drop k es @ [e]) then tl (drop k es @ [e]) else drop k es @ [e])" for k
    unfolding hydrate_step_def Let_def option.case HYDRATED_EPOCHS_def by metis
  have "foldl hydrate_step [] (map Some es) = drop (length es - 11) es"
    using snoc by (simp add: sorted_wrt_append HYDRATED_EPOCHS_def)
  then have "foldl hydrate_step [] (map Some (es @ [e])) = hydrate_step (drop (length es - 11) es) (Some e)" by simp
  moreover have "Suc (length es - 11) = length es - 10" if "\<not> length es < 11" using that by simp
  ultimately show ?case
    unfolding step by (cases "length es < 11") (auto simp: HYDRATED_EPOCHS_def tl_append2 tl_drop drop_Suc [symmetric] Suc_diff_le)
qed simp

text \<open>A manager over a store whose writes succeed. The first epoch of a fresh store is written at once.\<close>

inductive durable_run :: "primitives \<Rightarrow> nat \<Rightarrow> epoch_manager \<Rightarrow> bool" for pr d where
  bootstrap: "with_store pr now True vs d [] = Inr m \<Longrightarrow> durable_run pr d m"
| added: "durable_run pr d m \<Longrightarrow> durable_run pr d (add_pending_validator u m)"
| removed: "durable_run pr d m \<Longrightarrow> durable_run pr d (remove_pending_validator a m)"
| transition: "durable_run pr d m \<Longrightarrow> transition_epoch_timed pr now (\<lambda>_. True) height time_up m = (r, m') \<Longrightarrow> durable_run pr d m'"

text \<open>Every epoch so far is stored, and the last ten before the current one are in memory.\<close>

definition stored_all :: "epoch list \<Rightarrow> epoch_manager \<Rightarrow> bool" where
  "stored_all older m \<longleftrightarrow>
     (let es = older @ kept_epochs m in
      map ep_number es = [0..<length es] \<and> em_max_history m = 10 \<and> length (em_history m) \<le> 10
      \<and> (older \<noteq> [] \<longrightarrow> length (em_history m) = 10)
      \<and> (\<exists>st. em_store m = Some st \<and> distinct (map fst st) \<and> set st = (\<lambda>e. (ep_number e, Some e)) ` set es))"

lemma numbers_nth: "map ep_number es = [0..<length es] \<Longrightarrow> i < length es \<Longrightarrow> ep_number (es ! i) = i"
  by (metis add_0 diff_zero length_upt nth_map nth_upt)

lemma persist_stored:
  assumes "em_store m = Some st" "get_epoch k m = Some e" "ep_number e = k" "k \<noteq> ep_number (em_current m)" "distinct (map fst st)"
    and "set st = (\<lambda>e. (ep_number e, Some e)) ` X" "Y = {x \<in> X. ep_number x \<noteq> k \<and> ep_number x \<noteq> ep_number (em_current m)}"
  shows "\<exists>st'. em_store (persist (\<lambda>_. True) k m) = Some st' \<and> distinct (map fst st')
    \<and> set st' = (\<lambda>e. (ep_number e, Some e)) ` (insert (em_current m) (insert e Y))"
  using assms by (auto simp: persist_def put_epoch_def Let_def set_al_put image_iff)

lemma push_history_split:
  assumes "em_max_history m = 10" "length (em_history m) \<le> 10" "older \<noteq> [] \<longrightarrow> length (em_history m) = 10"
  obtains older' ys where "push_history e m = ys @ [e]" "older' @ ys = older @ em_history m" "length ys \<le> 9"
    "older' \<noteq> [] \<longrightarrow> length ys = 9"
proof (cases "length (em_history m) = 10")
  case True
  then obtain h hs where "em_history m = h # hs" by (cases "em_history m") auto
  then show thesis using that [of hs "older @ [h]"] True assms by (simp add: push_history_def Let_def)
next
  case False
  then show thesis using that [of "em_history m" "[]"] assms by (simp add: push_history_def Let_def)
qed

lemma transition_stored:
  assumes "stored_all older m" "transition_epoch_timed pr now (\<lambda>_. True) height time_up m = (Inr (Some s), m')"
  shows "\<exists>older'. stored_all older' m'"
proof -
  let ?cur = "em_current m" and ?f = "\<lambda>e. (ep_number e, Some e)"
  obtain start applied where m': "m' = persist (\<lambda>_. True) (ep_number ?cur)
       (m\<lparr>em_history := push_history (?cur\<lparr>ep_end_height := start\<rparr>) m,
          em_pending := filter (\<lambda>v. vi_address v \<notin> set applied) (em_pending m),
          em_removals := filter (\<lambda>a. a \<notin> set (applied_drops m)) (em_removals m),
          em_current := \<lparr>ep_number = ep_number ?cur + 1, ep_start_height = start, ep_end_height = start + em_duration m,
            ep_validator_set = s, ep_start_time = now\<rparr>\<rparr>)" (is "_ = persist _ _ ?m1")
    by (rule transition_epoch_cases [OF assms(2)])
  define out where "out = ?cur\<lparr>ep_end_height := start\<rparr>"
  define init where "init = older @ em_history m"
  obtain st where inv: "map ep_number (init @ [?cur]) = [0..<Suc (length init)]" "em_max_history m = 10" "length (em_history m) \<le> 10"
      "older \<noteq> [] \<longrightarrow> length (em_history m) = 10"
    and st: "em_store m = Some st" "distinct (map fst st)" "set st = ?f ` set (init @ [?cur])"
    using assms(1) by (auto simp: stored_all_def Let_def init_def)
  have cur: "ep_number ?cur = length init" and nums: "map ep_number init = [0..<length init]" using inv(1) by simp_all
  have low: "\<forall>x \<in> set init. ep_number x < length init"
    using nums by (metis atLeastLessThan_iff image_eqI list.set_map set_upt)
  obtain older' ys where split: "push_history out m = ys @ [out]" "older' @ ys = init" "length ys \<le> 9" "older' \<noteq> [] \<longrightarrow> length ys = 9"
    using push_history_split [OF inv(2-4), of out] unfolding init_def by metis
  have "find (\<lambda>e. ep_number e = length init) (ys @ [out]) = Some out"
    using low split(2) cur by (induction ys arbitrary: older') (force simp: out_def)+
  then have get: "get_epoch (ep_number ?cur) ?m1 = Some out" using split(1) by (simp add: get_epoch_def cur out_def)
  have "set init = {x \<in> set (init @ [?cur]). ep_number x \<noteq> ep_number ?cur \<and> ep_number x \<noteq> ep_number (em_current ?m1)}"
    using low cur by fastforce
  note Y = this
  have "em_store ?m1 = Some st" "ep_number out = ep_number ?cur" "ep_number ?cur \<noteq> ep_number (em_current ?m1)"
    using st(1) by (simp_all add: out_def)
  then obtain st' where st': "em_store m' = Some st'" "distinct (map fst st')" "set st' = ?f ` insert (em_current ?m1) (insert out (set init))"
    using persist_stored [OF _ get _ _ st(2,3) Y] unfolding m' by blast
  have hist: "em_history m' = ys @ [out]" "em_current m' = em_current ?m1" "em_max_history m' = 10" using split(1) inv(2) by (simp_all add: m' out_def)
  have es: "older' @ kept_epochs m' = init @ [out, em_current ?m1]" using split(2) unfolding hist by (metis append.assoc append_Cons append_Nil)
  have "map ep_number (init @ [out, em_current ?m1]) = [0..<length (init @ [out, em_current ?m1])]"
    using inv(1) cur by (simp add: out_def)
  moreover have "set st' = ?f ` set (init @ [out, em_current ?m1])" unfolding st' by (intro arg_cong [of _ _ "\<lambda>X. ?f ` X"]) auto
  ultimately have "stored_all older' m'"
    unfolding stored_all_def Let_def es using st' hist split(3,4) by auto
  then show ?thesis by blast
qed

lemma durable_stored: "durable_run pr d m \<Longrightarrow> \<exists>older. stored_all older m"
proof (induction rule: durable_run.induct)
  case (bootstrap now vs m)
  then have "stored_all [] m"
    by (auto simp: with_store_def for_each_epoch_def Let_def fresh_manager_def genesis_epoch_def stored_all_def put_epoch_def al_put_def
        split: sum.splits)
  then show ?case by blast
next
  case (transition m now height time_up r m')
  then show ?case using transition_result [OF transition.hyps(2)] transition_stored by blast
qed (auto simp: stored_all_def add_pending_validator_def remove_pending_validator_def Let_def)

lemma stored_sorted:
  assumes "stored_all older m" "em_store m = Some st" "es = older @ kept_epochs m"
  shows "for_each_epoch st = map Some es"
proof -
  let ?f = "\<lambda>e. (ep_number e, Some e)"
  have inv: "map ep_number es = [0..<length es]" "distinct (map fst st)" "set st = set (map ?f es)"
    using assms(1,2) unfolding assms(3) by (auto simp: stored_all_def Let_def)
  have fst: "map fst (map ?f es) = map ep_number es" by simp
  have "sort_key fst st = map ?f es"
  proof (rule map_sorted_distinct_set_unique [of fst])
    show "inj_on fst (set (sort_key fst st) \<union> set (map ?f es))" using inv(2) unfolding inv(3) [symmetric] by (simp add: distinct_map)
    show "sorted (map fst (map ?f es))" "distinct (map fst (map ?f es))" unfolding fst inv(1) by simp_all
    show "distinct (map fst (sort_key fst st))" using inv(2) by (simp add: distinct_map)
  qed (use inv(3) in simp_all)
  then show ?thesis by (simp add: for_each_epoch_def)
qed

text \<open>
  Property C29. A restart restores the epochs. Whatever was queued and whichever transitions ran, as
  long as the store took the writes the manager read back from it has the same current epoch and the
  same history.
\<close>

theorem restart_restores:
  assumes "durable_run pr d m"
  shows "\<exists>st m'. em_store m = Some st \<and> with_store pr now ok vs d st = Inr m' \<and> em_current m' = em_current m \<and> em_history m' = em_history m"
proof -
  obtain older where inv: "stored_all older m" using durable_stored [OF assms] by blast
  then obtain st where st: "em_store m = Some st" by (auto simp: stored_all_def Let_def)
  define es where "es = older @ kept_epochs m"
  have len: "length (em_history m) \<le> 10" "older \<noteq> [] \<longrightarrow> length (em_history m) = 10" and nums: "map ep_number es = [0..<length es]"
    using inv unfolding es_def stored_all_def Let_def by blast+
  have "sorted_wrt (<) (map ep_number es)" unfolding nums by (rule sorted_wrt_upt)
  then have "foldl hydrate_step [] (for_each_epoch st) = drop (length es - 11) es"
    using hydrate_all [of es] unfolding stored_sorted [OF inv st es_def] HYDRATED_EPOCHS_def by blast
  moreover have "drop (length es - 11) es = kept_epochs m" using len by (cases "older = []") (simp_all add: es_def)
  ultimately have "foldl hydrate_step [] (for_each_epoch st) = kept_epochs m" by simp
  then show ?thesis using st len(1) by (simp add: with_store_def fresh_manager_def)
qed

section \<open>Examples\<close>


theorem restart_restores_witness:
  "\<exists>(m :: epoch_manager) st m'. em_current m = genesis_epoch 10 0 trio_set \<and> em_store m = Some st \<and> with_store key_pr 1 True [] 10 st = Inr m'
     \<and> em_current m' = em_current m \<and> em_history m' = em_history m"
proof -
  obtain m where m: "with_store key_pr 0 True trio 10 [] = Inr m" "em_current m = genesis_epoch 10 0 trio_set"
    by (simp add: with_store_def for_each_epoch_def trio_set_new fresh_manager_def Let_def)
  show ?thesis using restart_restores [OF durable_run.bootstrap [OF m(1)], of 1 True "[]"] m(2) by (intro exI [of _ m]) simp
qed

text \<open>The chain closed epoch 0 at height 4 and derived epoch 1; the recovery starts at height 6.\<close>

definition halted :: epoch_manager where
  "halted = (let e = (genesis_epoch 10 0 trio_set)\<lparr>ep_end_height := 4\<rparr>;
       c = \<lparr>ep_number = 1, ep_start_height = 4, ep_end_height = 14, ep_validator_set = trio_set, ep_start_time = 0\<rparr>
     in fresh_manager c 10 [e] (Some [(0, Some e), (1, Some c)]))"

theorem recovery_leaves_gap_witness:
  "\<exists>m'. install_recovery_epoch key_pr 0 (\<lambda>_. True) 0 6 trio halted = (Inr (), m') \<and> get_epoch_for_height 5 m' = None"
proof -
  have "validator_set_new key_pr (0 + 1) trio = Inr (trio_set\<lparr>vs_epoch := 1\<rparr>)"
    using trio_set_new by (auto simp: validator_set_new_iff trio_set_def)
  then show ?thesis
    by (rule recovery_leaves_gap [where hs = "[]" and e = "(genesis_epoch 10 0 trio_set)\<lparr>ep_end_height := 4\<rparr>", rotated 4])
      (auto simp: halted_def Let_def fresh_manager_def genesis_epoch_def tiled_def)
qed

end
