(* ===== verification/Spec2Isabelle.thy ===== *)
theory Spec2Isabelle
  imports Rbc_Network Handover_Chain Total_Order Recovery Advance Proposals Epoch_History
begin

text \<open>
  A verification development for the consensus and the finality layer of the Tenzro network node
  (\<^verbatim>\<open>src/crates\<close>).

  \<^bold>\<open>The program.\<close> Validators of one epoch form a committee whose seats are apportioned by stake. Every
  round each validator proposes a vertex that names vertices of the round before; the vertices are
  spread by a signature-free reliable broadcast and enter each validator's local DAG once their causal
  past is there. Leader slots, drawn by a credit-bounded schedule, are committed or skipped by a rule
  that only reads the DAG. A committed leader orders its causal history: the batches it makes
  available are released, cut into blocks, and every so often a checkpoint is decided, at which the
  schedule moves on and garbage is collected. Executed checkpoints are voted on with hardware-held
  keys; a quorum of votes is a certificate, and a chain of certificates that hand one committee over to
  the next lets a light client follow the chain from its genesis. At the end of an epoch the queued
  changes of the validator set are applied and the next committee is apportioned from it. An engine
  drives the handlers of a validator, persists what it must not contradict, and restarts from that.

  \<^bold>\<open>Theories.\<close> Source files are relative to \<^verbatim>\<open>src/crates\<close>; definitions keep the names of the source.

  \<^descr> \<open>Tz_Prelude\<close>: fixed-width arithmetic (checked, saturating, wrapping), bytes, results, list and
    division lemmas.
  \<^descr> \<open>Validator_Set\<close>, \<open>Epochs\<close>, \<open>Epoch_History\<close> (\<^verbatim>\<open>validator.rs\<close>, \<^verbatim>\<open>epoch_manager.rs\<close> of
    \<^verbatim>\<open>tenzro-consensus\<close>): 256-bit product and long division are the mathematical ones, and the
    water-filled weights never pass the cap; the transition from one validator set to the next keeps
    the churn within its budgets, epochs cover the heights without gap or overlap, and a restart reads
    them back. A lone validator cannot be replaced, and a recovery may leave a gap in the heights.
  \<^descr> \<open>Committee\<close> (\<^verbatim>\<open>tenzro-finality/src/committee.rs\<close>, \<^verbatim>\<open>tenzro-consensus/src/committee.rs\<close>):
    thresholds, apportionment, and the seat bit set as a refinement of a finite set. The locale
    \<open>quorum_system\<close> holds the intersection arguments, the locale \<open>seat_counter\<close> the interface of the
    bit set; both are interpreted on the code's definitions.
  \<^descr> \<open>Vertex\<close>, \<open>Dag\<close> (\<^verbatim>\<open>vertex.rs\<close>, \<^verbatim>\<open>dag.rs\<close> of \<^verbatim>\<open>tenzro-consensus\<close>): the structural check,
    and the DAG with every operation; causal closure over every run, paths and histories against
    reachability.
  \<^descr> \<open>Reliable_Broadcast\<close>, \<open>Rbc_Network\<close> (\<^verbatim>\<open>rbc.rs\<close>): the handlers of one validator, and a
    network of honest validators that run them beside members that send anything; agreement and
    integrity are invariants of the reachable states.
  \<^descr> \<open>Leader_Schedule\<close>, \<open>Schedule_Agreement\<close> (\<^verbatim>\<open>schedule.rs\<close>, \<^verbatim>\<open>ordering.rs\<close>): the lazily
    drawn, truncated and pruned schedule draws the leaders of a reference schedule, is fair within one
    round, and exports the same state at every validator.
  \<^descr> \<open>Commit_Rule\<close> (\<^verbatim>\<open>core.rs\<close>): direct and indirect decisions; two consistent views never
    decide a slot differently. The hypothesis that references name what they claim is needed: without
    it two views that pass every check of the code fork.
  \<^descr> \<open>Batches\<close>, \<open>Merkle\<close> (\<^verbatim>\<open>batch.rs\<close>, \<^verbatim>\<open>tenzro-types/src/merkle.rs\<close>): sealing and splitting, the
    availability frontier, and the binding of roots and paths.
  \<^descr> \<open>Composite_Keys\<close>, \<open>Finality\<close>, \<open>Handover_Chain\<close> (\<^verbatim>\<open>tenzro-finality/src\<close>): keys of two
    signature schemes, sessions, certificates, the light client's step and the chain of handovers.
  \<^descr> \<open>Checkpoint_Votes\<close>, \<open>Vote_Collector\<close> (\<^verbatim>\<open>checkpoint.rs\<close>): the high-water mark that keeps a
    validator from signing twice across failures and restarts, evidence against those who do, and the
    collector of votes.
  \<^descr> \<open>Block_Ordering\<close>, \<open>Ordering_Agreement\<close>, \<open>Lockstep\<close>, \<open>Total_Order\<close> (\<^verbatim>\<open>core.rs\<close>): the
    commit loop with blocks, checkpoints and garbage collection. \<open>Lockstep\<close> has two locales, one
    extending the other, for replicas that act on decisions in order; \<open>Total_Order\<close> interprets them on
    the commit loop, so the loop returns and two validators append prefixes of one order.
  \<^descr> \<open>Wire\<close> (\<^verbatim>\<open>wire.rs\<close>): the messages and the frames they travel in; frames stay within the bounds a
    receiver accepts and lose nothing but what fits no frame.
  \<^descr> \<open>Node_State\<close>, \<open>Certification\<close>, \<open>Intake\<close>, \<open>Rounds\<close>, \<open>Node\<close> (\<^verbatim>\<open>core.rs\<close>, \<^verbatim>\<open>nversion.rs\<close>): the state of a
    validator and every handler of \<^verbatim>\<open>Core\<close>: votes and certificates, proposals, signals and batches,
    leaving a round and proposing, fetches and repair, resuming from a checkpoint and recovery from the
    journal. Two validators never report different checkpoints certified for one index.
  \<^descr> \<open>Advance\<close>, \<open>Proposals\<close>: the loop that enters rounds ends, and what a core in order proposes passes
    the check its peers make.
  \<^descr> \<open>Conduct\<close>, \<open>Engine\<close> (\<^verbatim>\<open>tenzro-node/src/consensus_driver.rs\<close>): what of a validator's state decides
    what it says, the inputs the engine hands on, the journal it writes before it sends, restarts and
    jumps to a certified checkpoint. Over every run, crashes included, a validator proposes once in a
    round and, as long as it does not jump, sends one signal of a kind in an instance. A jump forgets
    the signals sent, and a second jump the round proposed in.
  \<^descr> \<open>Recovery\<close>: a core recovered from a journal with a jump proposes a vertex its peers refuse.
  \<^descr> This theory composes the broadcast of \<open>Rbc_Network\<close> and the commit loop of \<open>Total_Order\<close>.

  \<^bold>\<open>Bounds.\<close> A handled signal loops back at most four calls deep (\<open>on_signal_total\<close>); the commit loop
  runs on fuel one more than the number of open slots, and \<open>try_commit_returns\<close> shows that this is
  enough; the loop over rounds runs on fuel up to the highest round the node knows of or may leave
  uncommitted, and \<open>try_advance_returns\<close> shows the same; the walks over the DAG recurse on rounds or on the vertices not yet seen. Machine integers
  are natural numbers with their width written out where the source checks or saturates.

  \<^bold>\<open>Parameters.\<close> Hash functions, signature schemes, byte encodings of the serialisation library, the
  receipt verifier of the zkVM, the storage that may fail, and the order hash maps are walked in are
  arguments of the definitions. What is used of a hash is that the values in play do not collide.

  \<^bold>\<open>Not modelled.\<close> Statistics and timings of \<^verbatim>\<open>core.rs\<close>; the driver's queues to peers, its cutting of
  batches and its metrics; authenticated channels, compact certificates, mempool and admission; and
  everything outside consensus and finality: the node's servers and event loop, execution, storage,
  bridges, payments, token economics, identity and model services, which are glue around external
  libraries or do not take part in agreement.
\<close>

section \<open>From the broadcast to the order\<close>

text \<open>
  A core fed by the broadcast: every vertex of its DAG has the digest an honest validator delivered for
  that round and author (the core's own, or another whose vertices vouched for it), and the first
  proposal it keeps of an honest author is the one that author made. The vertices in play are those of
  \<open>U\<close>.
\<close>

definition fed_by :: "(vertex \<Rightarrow> digest) \<Rightarrow> vertex set \<Rightarrow> net \<Rightarrow> validator_index set \<Rightarrow> core \<Rightarrow> bool" where
  "fed_by vdigest U s H c \<longleftrightarrow>
     (\<forall>r a d v. dag_at (w_dag c) r a = Some (d, v) \<longrightarrow> (\<exists>p. (p, r, a, d) \<in> dels s) \<and> v \<in> U)
     \<and> (\<forall>r a refs. a \<in> H \<longrightarrow> (a, refs) \<in> set (first_refs c r) \<longrightarrow>
          (\<exists>v \<in> U. props s a r = Some (vdigest v) \<and> v_strong v = refs))"

lemma fed_byD:
  assumes "fed_by vdigest U s H c"
  shows "dag_at (w_dag c) r a = Some (d, v) \<Longrightarrow> \<exists>p. (p, r, a, d) \<in> dels s" "dag_at (w_dag c) r a = Some (d, v) \<Longrightarrow> v \<in> U"
    "a \<in> H \<Longrightarrow> (a, refs) \<in> set (first_refs c r) \<Longrightarrow> \<exists>v \<in> U. props s a r = Some (vdigest v) \<and> v_strong v = refs"
  using assms unfolding fed_by_def by blast+

lemma broadcast_delivers_alike:
  assumes net: "net_reachable com H s" "fault_bound com H" and inj: "inj_on vdigest U"
    and fed: "fed_by vdigest U s H c" "fed_by vdigest U s H c'"
    and ok: "view_ok vdigest c" "view_ok vdigest c'"
  shows "delivers_alike (member_set com - H) c c'"
proof -
  have digest: "vdigest v = d" if "view_ok vdigest k" "dag_at (w_dag k) r a = Some (d, v)" for k :: core and r a d v
    using dag_wfD(4) [OF view_okD(2) [OF that(1)]] that(2) unfolding dag_at_def by blast
  note inv = reachable_inv [OF net]
  have at: "x = y" if x: "dag_at (w_dag c) r a = Some x" and y: "dag_at (w_dag c') r a = Some y" for r a x y
  proof -
    obtain d v e w where xy: "x = (d, v)" "y = (e, w)" by fastforce
    obtain p q where "(p, r, a, d) \<in> dels s" "(q, r, a, e) \<in> dels s"
      using fed_byD(1) [OF fed(1)] fed_byD(1) [OF fed(2)] x y unfolding xy by blast
    then have "d = e" using deliveries_agree [OF inv net(2), of p "(r, a)" d q e] by simp
    moreover have "vdigest v = d" "vdigest w = e" using digest [OF ok(1)] digest [OF ok(2)] x y by (simp_all add: xy)
    moreover have "v \<in> U" "w \<in> U" using fed_byD(2) [OF fed(1)] fed_byD(2) [OF fed(2)] x y by (auto simp: xy)
    ultimately show ?thesis using inj by (auto simp: xy inj_on_def)
  qed
  have "dags_agree (w_dag c) (w_dag c')"
    unfolding dags_agree_def
  proof (intro allI impI)
    fix d v w assume "dag_get (w_dag c) d = Some v" "dag_get (w_dag c') d = Some w"
    then have vw: "dag_at (w_dag c) (v_round v) (v_source v) = Some (d, v)" "dag_at (w_dag c') (v_round w) (v_source w) = Some (d, w)"
      using get_at [OF ok(1)] get_at [OF ok(2)] by blast+
    then have "vdigest v = vdigest w" "v \<in> U" "w \<in> U"
      using digest [OF ok(1)] digest [OF ok(2)] fed_byD(2) [OF fed(1)] fed_byD(2) [OF fed(2)] by metis+
    then show "v = w" using inj by (simp add: inj_on_def)
  qed
  moreover have "v_strong v = refs"
    if a: "a \<notin> member_set com - H" and first: "(a, refs) \<in> set (first_refs c r)" and v: "dag_at (w_dag c') r a = Some (d, v)" for r a refs d v
  proof -
    obtain q where "(q, r, a, d) \<in> dels s" using fed_byD(1) [OF fed(2) v] by blast
    note i = delivery_integrity [OF net this]
    then have H: "a \<in> H" using a by blast
    obtain w where w: "w \<in> U" "props s a r = Some (vdigest w)" "v_strong w = refs" using fed_byD(3) [OF fed(1) H first] by blast
    then have "vdigest w = vdigest v" using i H digest [OF ok(2) v] by simp
    then show ?thesis using inj w(1,3) fed_byD(2) [OF fed(2) v] by (auto simp: inj_on_def)
  qed
  ultimately show ?thesis using at unfolding delivers_alike_def by blast
qed


text \<open>The run of the broadcast in which validators 0 and 1 deliver a vertex; validator 1 has not inserted it yet.\<close>

definition run_core :: "vertex list \<Rightarrow> core" where
  "run_core vs = (demo_core [])\<lparr>w_dag := dag_of (\<lambda>_. [7]) vs\<rparr>"

lemma run_core_ok:
  assumes "vs = [] \<or> vs = [small_vertex 0 0 []]"
  shows "core_ok (\<lambda>_. [7]) demo_params (run_core vs)"
    "(\<And>v. v \<in> set vs \<Longrightarrow> (p, 0, 0, [7]) \<in> dels demo_run) \<Longrightarrow>
      fed_by (\<lambda>_. [7]) {small_vertex 0 0 []} demo_run demo_honest (run_core vs)"
proof -
  have d: "distinct (map (\<lambda>v. (v_round v, v_source v)) vs)" "distinct (map (\<lambda>_. [7]) vs)" using assms by auto
  note get = dag_of_get [OF d]
  have wf: "dag_wf (\<lambda>_. [7]) (dag_of (\<lambda>_. [7]) vs)" using dag_of_wf [OF d] .
  have vs: "v = small_vertex 0 0 []" if "v \<in> set vs" for v using assms that by auto
  have no_refs: "v_strong v = []" "v_weak v = []" if "v \<in> set vs" for v using vs [OF that] by (simp_all add: small_vertex_def)
  have "dag_closed (dag_of (\<lambda>_. [7]) vs)" unfolding closed_get [OF wf] get(1) using no_refs by auto
  moreover have "dag_genuine (dag_of (\<lambda>_. [7]) vs)" unfolding dag_genuine_def get(1) using no_refs by auto
  moreover have "check_structure v demo_committee = Inr ()" if "v \<in> set vs" for v
    using vs [OF that] demo_check [of v] by (simp add: small_vertex_def)
  moreover have first: "first_refs (run_core vs) r = []" for r by (simp add: run_core_def demo_core_def core_new_def first_refs_def)
  moreover have fields: "w_committee (run_core vs) = demo_committee" "w_dag (run_core vs) = dag_of (\<lambda>_. [7]) vs"
    "w_next_slot (run_core vs) = (0, 0)" "sealed (run_core vs)"
    by (simp_all add: run_core_def demo_core_def core_new_def sealed_def)
  ultimately have "view_ok (\<lambda>_. [7]) (run_core vs)"
    using wf wf_demo_committee get(1) by (auto simp: view_ok_def view_checked_def dag_of_fields)
  moreover have "schedule_full h (c_size demo_committee) (w_schedule (run_core vs))" for h
    using schedule_new_full [OF wf_demo_committee] by (simp add: run_core_def demo_core_def core_new_def)
  ultimately show "core_ok (\<lambda>_. [7]) demo_params (run_core vs)" using fields by (simp add: core_ok_def)
  show "fed_by (\<lambda>_. [7]) {small_vertex 0 0 []} demo_run demo_honest (run_core vs)"
    if del: "\<And>v. v \<in> set vs \<Longrightarrow> (p, 0, 0, [7]) \<in> dels demo_run"
  proof -
    have "(\<exists>p. (p, r, a, e) \<in> dels demo_run) \<and> v \<in> {small_vertex 0 0 []}" if "dag_at (w_dag (run_core vs)) r a = Some (e, v)" for r a e v
      using that del [of v] vs [of v] unfolding fields get(3) by (auto simp: small_vertex_def)
    then show ?thesis by (simp add: fed_by_def first)
  qed
qed


end
